(* ===== verification/Prelude.thy ===== *)
theory Prelude
  imports Main "HOL-Library.Word"
begin

text \<open>
  Shared vocabulary of the development.

  \<^item> Types: Go's \<open>byte\<close>, \<open>uint16\<close>, \<open>uint32\<close> and \<open>uint64\<close> are words of their width, so that
    \<open>+\<close>, \<open>-\<close> and \<open>*\<close> wrap around exactly as in Go; \<open>int\<close> lengths are \<^typ>\<open>nat\<close> or
    \<^typ>\<open>int\<close>.
  \<^item> Errors: \<open>goerror\<close> collects the sentinel errors that the code compares against
    (\<open>io.EOF\<close> and its kin) and messages; a run-time panic is the value \<open>Panic\<close>. A fallible
    operation returns \<open>goerror + 'a\<close>.
  \<^item> Input: an \<open>io.Reader\<close> over a connection is a \<open>stream\<close>, the bytes it will still deliver
    and the error it delivers after them. \<open>read_full\<close> is \<open>io.ReadFull\<close> and \<open>peek\<close> is
    \<open>bufio.Reader.Peek\<close> for a request that fits in the reader's buffer.
  \<^item> Encoding: \<open>be_bytes\<close> and \<open>be_val\<close> are \<open>binary.BigEndian.PutUintN\<close> and
    \<open>binary.BigEndian.UintN\<close>; they are inverse to each other in both directions.

  The collection \<open>wire_simps\<close> holds the rewrite rules that compute with encoded fields; the
  component theories extend it.
\<close>

unbundle bit_operations_syntax

named_theorems wire_simps

section \<open>Types\<close>

type_synonym byte = "8 word"
type_synonym bytes = "byte list"
type_synonym uint16 = "16 word"
type_synonym uint32 = "32 word"
type_synonym uint64 = "64 word"

datatype goerror =
    EOF | ErrUnexpectedEOF | ErrClosedPipe | ErrBufferFull | ErrIOTimeout | ErrClosedConnection
  | ErrMsg string | ErrIO nat | Panic string

type_synonym 'a result = "goerror + 'a"

abbreviation Err :: "goerror \<Rightarrow> 'a result" where "Err \<equiv> Inl"
abbreviation Ok :: "'a \<Rightarrow> 'a result" where "Ok \<equiv> Inr"

text \<open>The bytes of an ASCII string literal, Go's \<open>[]byte(s)\<close>, and back.\<close>

definition str_bytes :: "string \<Rightarrow> bytes" where
  "str_bytes s = map (\<lambda>c. word_of_nat (of_char c)) s"

definition bytes_str :: "bytes \<Rightarrow> string" where
  "bytes_str bs = map (\<lambda>b. char_of (unat b)) bs"

section \<open>Big-endian integers\<close>

definition be_val :: "bytes \<Rightarrow> 'a::len word" where
  "be_val bs = foldl (\<lambda>acc b. push_bit 8 acc OR ucast b) 0 bs"

primrec be_bytes :: "nat \<Rightarrow> 'a::len word \<Rightarrow> bytes" where
  "be_bytes 0 w = []"
| "be_bytes (Suc n) w = ucast (drop_bit (8 * n) w) # be_bytes n w"

section \<open>Input streams\<close>

record stream =
  avail :: bytes
  ending :: goerror

text \<open>
  \<open>io.ReadFull\<close>: all of the requested bytes, or the reader's error. A reader that ends after
  some but not all of the bytes yields \<open>io.ErrUnexpectedEOF\<close>; the bytes read so far are gone.
\<close>

definition read_full :: "nat \<Rightarrow> stream \<Rightarrow> bytes result \<times> stream" where
  "read_full n s =
     (if n \<le> length (avail s) then (Ok (take n (avail s)), s\<lparr>avail := drop n (avail s)\<rparr>)
      else (Err (if avail s \<noteq> [] \<and> ending s = EOF then ErrUnexpectedEOF else ending s),
            s\<lparr>avail := []\<rparr>))"

text \<open>\<open>bufio.Reader.Peek\<close>: looks at the next bytes and consumes nothing.\<close>

definition peek :: "nat \<Rightarrow> stream \<Rightarrow> bytes result" where
  "peek n s = (if n \<le> length (avail s) then Ok (take n (avail s)) else Err (ending s))"

section \<open>Lemmas on the encoding\<close>

lemma length_be_bytes [simp]: "length (be_bytes n w) = n"
  by (induction n) auto

lemma foldl_be_bytes:
  "foldl (\<lambda>acc b. push_bit 8 acc OR ucast b) acc (be_bytes n w)
     = push_bit (8 * n) acc OR take_bit (8 * n) (w :: 'a::len word)"
proof (induction n arbitrary: acc)
  case 0
  then show ?case by simp
next
  case (Suc n)
  show ?case
    by (simp add: Suc.IH) (rule bit_word_eqI, auto simp: bit_simps algebra_simps)
qed

lemma be_val_be_bytes: "be_val (be_bytes n w) = take_bit (8 * n) (w :: 'a::len word)"
  by (simp add: be_val_def foldl_be_bytes)

lemma be_val_be_bytes_full [simp, wire_simps]:
  "LENGTH('a::len) \<le> 8 * n \<Longrightarrow> be_val (be_bytes n w) = (w :: 'a word)"
  by (simp add: be_val_be_bytes take_bit_word_eq_self)

lemma be_bytes_snoc: "be_bytes (Suc n) w = be_bytes n (drop_bit 8 w) @ [ucast w]"
  by (induction n) (simp_all add: algebra_simps)

lemma be_val_snoc: "be_val (bs @ [b]) = push_bit 8 (be_val bs) OR ucast b"
  by (simp add: be_val_def)

lemma be_bytes_cong:
  assumes "take_bit (8 * n) v = take_bit (8 * n) (w :: 'a::len word)"
  shows "be_bytes n v = be_bytes n w"
  using assms
proof (induction n)
  case 0
  then show ?case by simp
next
  case (Suc n)
  have "ucast (drop_bit (8 * n) v) = (ucast (drop_bit (8 * n) w) :: byte)"
  proof (rule bit_word_eqI)
    fix i assume "i < LENGTH(8)"
    moreover have "bit (take_bit (8 * Suc n) v) (8 * n + i) = bit (take_bit (8 * Suc n) w) (8 * n + i)"
      by (simp only: Suc.prems)
    ultimately show "bit (ucast (drop_bit (8 * n) v) :: byte) i
        = bit (ucast (drop_bit (8 * n) w) :: byte) i"
      by (auto simp: bit_simps)
  qed
  moreover have "take_bit (8 * n) v = take_bit (8 * n) w"
    by (metis Suc.prems le_add2 mult_Suc_right take_bit_take_bit min.absorb1)
  ultimately show ?case using Suc.IH by simp
qed

lemma bit_byte_high [simp]: "8 \<le> i \<Longrightarrow> \<not> bit (b :: byte) i"
  using bit_imp_le_length [of b i] by auto

lemma be_bytes_be_val:
  "8 * length bs \<le> LENGTH('a::len) \<Longrightarrow> be_bytes (length bs) (be_val bs :: 'a word) = bs"
proof (induction bs rule: rev_induct)
  case Nil
  then show ?case by simp
next
  case (snoc b bs)
  let ?v = "be_val bs :: 'a word"
  have "be_bytes (length bs) (drop_bit 8 (push_bit 8 ?v OR ucast b)) = be_bytes (length bs) ?v"
    by (rule be_bytes_cong, rule bit_word_eqI) (use snoc.prems in \<open>auto simp: bit_simps\<close>)
  moreover have "ucast (push_bit 8 ?v OR ucast b) = b"
    by (rule bit_word_eqI) (use snoc.prems in \<open>auto simp: bit_simps\<close>)
  ultimately show ?case
    using snoc by (simp add: be_val_snoc be_bytes_snoc del: be_bytes.simps)
qed

lemma be_bytes_inj:
  assumes "LENGTH('a::len) \<le> 8 * n" and "be_bytes n v = be_bytes n (w :: 'a word)"
  shows "v = w"
  using assms be_val_be_bytes_full [of n v] be_val_be_bytes_full [of n w] by metis

section \<open>Lemmas on streams\<close>

lemma read_full_Ok_iff:
  "fst (read_full n s) = Ok bs \<longleftrightarrow> n \<le> length (avail s) \<and> bs = take n (avail s)"
  by (auto simp: read_full_def)

lemma read_full_append [wire_simps]:
  "n = length bs \<Longrightarrow> read_full n \<lparr>avail = bs @ rest, ending = e\<rparr>
     = (Ok bs, \<lparr>avail = rest, ending = e\<rparr>)"
  by (simp add: read_full_def)

lemma read_full_le:
  "length (avail (snd (read_full n s))) \<le> length (avail s)"
  by (simp add: read_full_def)

lemma read_full_OkD:
  assumes "read_full n s = (Ok bs, s')"
  shows "avail s = bs @ avail s'" and "length bs = n" and "ending s' = ending s"
  using assms by (auto simp: read_full_def split: if_splits)

lemma ucast_ucast_byte [simp]: "(ucast (ucast (b :: byte) :: uint16) :: byte) = b"
  by (rule bit_word_eqI) (auto simp: bit_simps)

lemma unat_bound: "unat (w :: 'a::len word) < 2 ^ LENGTH('a)"
  by (rule unsigned_less)

lemma length_filter_less_iff: "length (filter P xs) < length xs \<longleftrightarrow> (\<exists>x\<in>set xs. \<not> P x)"
  by (induction xs) (auto simp: less_Suc_eq_le)

lemma nat_int_minus [simp]: "nat (int a - int b) = a - b"
  by linarith

lemma take_append_eq [simp]: "n = length xs \<Longrightarrow> take n (xs @ ys) = xs"
  by simp

lemma drop_append_eq [simp]: "n = length xs \<Longrightarrow> drop n (xs @ ys) = ys"
  by simp

lemma bytes_str_str_bytes [simp]: "bytes_str (str_bytes s) = s"
  by (induction s) (simp_all add: bytes_str_def str_bytes_def unat_of_nat)

lemma length_str_bytes [simp]: "length (str_bytes s) = length s"
  by (simp add: str_bytes_def)

end
