(* ===== verification/Net_Address.thy ===== *)
theory Net_Address
  imports Prelude
begin

text \<open>
  Network addresses, ports and destinations: \<open>common/net/address.go\<close>, \<open>common/net/port.go\<close> and
  \<open>common/net/destination.go\<close>.

  The interface \<open>Address\<close> has three implementations (\<open>ipv4Address\<close>, \<open>ipv6Address\<close>,
  \<open>domainAddress\<close>), here the constructors of a datatype; a nil \<open>Address\<close> is \<^const>\<open>None\<close>. Go
  strings are byte strings, so \<^typ>\<open>string\<close> stands for them directly. \<open>net.ParseIP\<close> and
  \<open>strings.TrimSpace\<close> belong to Go's standard library and are written out as far as the code
  depends on them (\<open>ParseIP\<close>, \<open>TrimSpace\<close>).
\<close>

section \<open>Addresses\<close>

datatype AddressFamily = AddressFamilyIPv4 | AddressFamilyIPv6 | AddressFamilyDomain

fun IsIP :: "AddressFamily \<Rightarrow> bool" where
  "IsIP AddressFamilyIPv4 = True"
| "IsIP AddressFamilyIPv6 = True"
| "IsIP AddressFamilyDomain = False"

datatype Address = ipv4Address bytes | ipv6Address bytes | domainAddress string

fun Family :: "Address \<Rightarrow> AddressFamily" where
  "Family (ipv4Address a) = AddressFamilyIPv4"
| "Family (ipv6Address a) = AddressFamilyIPv6"
| "Family (domainAddress d) = AddressFamilyDomain"

fun IP :: "Address \<Rightarrow> bytes result" where
  "IP (ipv4Address a) = Ok a"
| "IP (ipv6Address a) = Ok a"
| "IP (domainAddress d) = Err (Panic ''Calling IP() on a DomainAddress.'')"

fun Domain_of :: "Address \<Rightarrow> string result" where
  "Domain_of (ipv4Address a) = Err (Panic ''Calling Domain() on an IPv4Address.'')"
| "Domain_of (ipv6Address a) = Err (Panic ''Calling Domain() on an IPv6Address.'')"
| "Domain_of (domainAddress d) = Ok d"

text \<open>The array lengths of the Go types, and no IPv4-mapped value in the IPv6 case.\<close>

definition v4_mapped :: "bytes \<Rightarrow> bool" where
  "v4_mapped ip \<longleftrightarrow> take 10 ip = replicate 10 0 \<and> ip ! 10 = 0xff \<and> ip ! 11 = 0xff"

fun wf_Address :: "Address \<Rightarrow> bool" where
  "wf_Address (ipv4Address a) \<longleftrightarrow> length a = 4"
| "wf_Address (ipv6Address a) \<longleftrightarrow> length a = 16 \<and> \<not> v4_mapped a"
| "wf_Address (domainAddress d) \<longleftrightarrow> True"

definition IPAddress :: "bytes \<Rightarrow> Address option" where
  "IPAddress ip =
     (if length ip = 4 then Some (ipv4Address ip)
      else if length ip = 16 then
        if v4_mapped ip then Some (ipv4Address (take 4 (drop 12 ip)))
        else Some (ipv6Address ip)
      else None)"

text \<open>\<open>net.IP.To4\<close> and \<open>net.IP.To16\<close>.\<close>

definition To4 :: "bytes \<Rightarrow> bytes option" where
  "To4 ip = (if length ip = 4 then Some ip
     else if length ip = 16 \<and> v4_mapped ip then Some (drop 12 ip) else None)"

definition To16 :: "bytes \<Rightarrow> bytes option" where
  "To16 ip = (if length ip = 4 then Some (replicate 10 0 @ [0xff, 0xff] @ ip)
     else if length ip = 16 then Some ip else None)"

definition isAlphaNum :: "char \<Rightarrow> bool" where
  "isAlphaNum c \<longleftrightarrow>
     (let n = of_char c :: nat in (48 \<le> n \<and> n \<le> 57) \<or> (97 \<le> n \<and> n \<le> 122) \<or> (65 \<le> n \<and> n \<le> 90))"

section \<open>Standard library: TrimSpace and ParseIP\<close>

text \<open>The UTF-8 encodings of Go's white space (\<open>unicode.IsSpace\<close>).\<close>

definition space_encodings :: "nat list list" where
  "space_encodings =
     [[9], [10], [11], [12], [13], [32], [0xC2, 0x85], [0xC2, 0xA0], [0xE1, 0x9A, 0x80],
      [0xE2, 0x80, 0x80], [0xE2, 0x80, 0x81], [0xE2, 0x80, 0x82], [0xE2, 0x80, 0x83],
      [0xE2, 0x80, 0x84], [0xE2, 0x80, 0x85], [0xE2, 0x80, 0x86], [0xE2, 0x80, 0x87],
      [0xE2, 0x80, 0x88], [0xE2, 0x80, 0x89], [0xE2, 0x80, 0x8A], [0xE2, 0x80, 0xA8],
      [0xE2, 0x80, 0xA9], [0xE2, 0x80, 0xAF], [0xE2, 0x81, 0x9F], [0xE3, 0x80, 0x80]]"

definition space_prefix :: "nat list list \<Rightarrow> string \<Rightarrow> nat" where
  "space_prefix encs s =
     (case filter (\<lambda>e. take (length e) (map of_char s) = e) encs of [] \<Rightarrow> 0 | e # _ \<Rightarrow> length e)"

function trim_left :: "nat list list \<Rightarrow> string \<Rightarrow> string" where
  "trim_left encs s =
     (let k = space_prefix encs s in if k = 0 \<or> s = [] then s else trim_left encs (drop k s))"
  by pat_completeness auto
termination
  by (relation "measure (\<lambda>(encs, s). length s)") auto

declare trim_left.simps [simp del]

definition TrimSpace :: "string \<Rightarrow> string" where
  "TrimSpace s = rev (trim_left (map rev space_encodings) (rev (trim_left space_encodings s)))"

definition digit_val :: "char \<Rightarrow> nat option" where
  "digit_val c = (let n = of_char c in if 48 \<le> n \<and> n \<le> 57 then Some (n - 48) else None)"

definition hex_val :: "char \<Rightarrow> nat option" where
  "hex_val c =
     (let n = of_char c in
      if 48 \<le> n \<and> n \<le> 57 then Some (n - 48)
      else if 97 \<le> n \<and> n \<le> 102 then Some (n - 87)
      else if 65 \<le> n \<and> n \<le> 70 then Some (n - 55) else None)"

text \<open>
  The dotted-quad scanner of \<open>netip\<close>: the value and the number of digits of the current octet,
  the octets completed so far, and whether the previous character was a dot (or the start).
\<close>

fun parseIPv4Fields :: "nat \<Rightarrow> nat \<Rightarrow> bytes \<Rightarrow> string \<Rightarrow> bytes option" where
  "parseIPv4Fields val digLen octets [] =
     (if length octets < 3 then None else Some (octets @ [word_of_nat val]))"
| "parseIPv4Fields val digLen octets (c # s) =
     (case digit_val c of
        Some d \<Rightarrow>
          if digLen = 1 \<and> val = 0 then None
          else if 255 < val * 10 + d then None
          else parseIPv4Fields (val * 10 + d) (Suc digLen) octets s
      | None \<Rightarrow>
          if c \<noteq> CHR ''.'' then None
          else if digLen = 0 \<or> s = [] then None
          else if length octets = 3 then None
          else parseIPv4Fields 0 0 (octets @ [word_of_nat val]) s)"

fun scan_hex :: "nat \<Rightarrow> nat \<Rightarrow> string \<Rightarrow> (nat \<times> nat \<times> string) option" where
  "scan_hex off acc [] = Some (off, acc, [])"
| "scan_hex off acc (c # s) =
     (case hex_val c of
        None \<Rightarrow> Some (off, acc, c # s)
      | Some d \<Rightarrow> if 3 < off then None else scan_hex (Suc off) (acc * 16 + d) s)"

text \<open>
  The group loop of \<open>netip.parseIPv6\<close>; its fuel is the number of 16-bit groups that still fit.
  The result is the bytes parsed and the position of the ellipsis.
\<close>

fun parseIPv6Groups :: "nat \<Rightarrow> bytes \<Rightarrow> nat option \<Rightarrow> string \<Rightarrow> (bytes \<times> nat option) option" where
  "parseIPv6Groups 0 ip ell s = (if s = [] then Some (ip, ell) else None)"
| "parseIPv6Groups (Suc k) ip ell s =
     (case scan_hex 0 0 s of
        None \<Rightarrow> None
      | Some (off, acc, s') \<Rightarrow>
          if off = 0 then None
          else if s' \<noteq> [] \<and> hd s' = CHR ''.'' then
            if ell = None \<and> length ip \<noteq> 12 then None
            else if 16 < length ip + 4 then None
            else (case parseIPv4Fields 0 0 [] s of
                    None \<Rightarrow> None
                  | Some q \<Rightarrow> Some (ip @ q, ell))
          else
            (let ip' = ip @ [word_of_nat (acc div 256), word_of_nat (acc mod 256)] in
             case s' of
               [] \<Rightarrow> Some (ip', ell)
             | c # t \<Rightarrow>
                 if c \<noteq> CHR '':'' \<or> t = [] then None
                 else if hd t = CHR '':'' then
                   if ell \<noteq> None then None
                   else if tl t = [] then Some (ip', Some (length ip'))
                   else parseIPv6Groups k ip' (Some (length ip')) (tl t)
                 else parseIPv6Groups k ip' ell t))"

definition parseIPv6 :: "string \<Rightarrow> bytes option" where
  "parseIPv6 s =
     (let lead = (take 2 s = [CHR '':'', CHR '':'']);
          ell = (if lead then Some 0 else None);
          s' = (if lead then drop 2 s else s) in
      if lead \<and> s' = [] then Some (replicate 16 0)
      else case parseIPv6Groups 8 [] ell s' of
             None \<Rightarrow> None
           | Some (ip, ell') \<Rightarrow>
               (case ell' of
                  None \<Rightarrow> if length ip < 16 then None else Some ip
                | Some e \<Rightarrow>
                    if length ip < 16 then Some (take e ip @ replicate (16 - length ip) 0 @ drop e ip)
                    else None))"

text \<open>\<open>net.ParseIP\<close>: the 16-byte form, or \<^const>\<open>None\<close>; a zone is not accepted.\<close>

definition ParseIP :: "string \<Rightarrow> bytes option" where
  "ParseIP s =
     (case filter (\<lambda>c. c = CHR ''.'' \<or> c = CHR '':'' \<or> c = CHR ''%'') s of
        [] \<Rightarrow> None
      | c # _ \<Rightarrow>
          if c = CHR ''.'' then
            map_option (\<lambda>q. replicate 10 0 @ [0xff, 0xff] @ q) (parseIPv4Fields 0 0 [] s)
          else if c = CHR '':'' then
            (if CHR ''%'' \<in> set s then None else parseIPv6 s)
          else None)"

section \<open>ParseAddress\<close>

definition strip_brackets :: "string \<Rightarrow> string" where
  "strip_brackets addr =
     (if addr \<noteq> [] \<and> hd addr = CHR ''['' \<and> last addr = CHR '']'' then butlast (tl addr) else addr)"

definition ParseAddress :: "string \<Rightarrow> Address" where
  "ParseAddress addr0 =
     (let addr1 = strip_brackets addr0;
          addr = (if addr1 \<noteq> [] \<and> (\<not> isAlphaNum (hd addr1) \<or> \<not> isAlphaNum (last addr1))
                  then TrimSpace addr1 else addr1) in
      case ParseIP addr of
        Some ip \<Rightarrow> (case IPAddress ip of Some a \<Rightarrow> a | None \<Rightarrow> domainAddress addr)
      | None \<Rightarrow> domainAddress addr)"

section \<open>IPOrDomain\<close>

datatype IPOrDomain = IPOrDomain_Ip bytes | IPOrDomain_Domain string

fun AsAddress :: "IPOrDomain \<Rightarrow> Address option" where
  "AsAddress (IPOrDomain_Ip ip) = IPAddress ip"
| "AsAddress (IPOrDomain_Domain d) = Some (domainAddress d)"

fun NewIPOrDomain :: "Address \<Rightarrow> IPOrDomain" where
  "NewIPOrDomain (domainAddress d) = IPOrDomain_Domain d"
| "NewIPOrDomain (ipv4Address a) = IPOrDomain_Ip a"
| "NewIPOrDomain (ipv6Address a) = IPOrDomain_Ip a"

section \<open>Ports and destinations\<close>

type_synonym Port = uint16

definition PortFromBytes :: "bytes \<Rightarrow> Port result" where
  "PortFromBytes bs = (if length bs < 2 then Err (Panic ''index out of range'') else Ok (be_val (take 2 bs)))"

definition PortFromInt :: "uint32 \<Rightarrow> Port result" where
  "PortFromInt val = (if val > 65535 then Err (ErrMsg ''invalid port range: '') else Ok (ucast val))"

record MemoryPortRange =
  From :: Port
  To :: Port

definition Contains :: "MemoryPortRange \<Rightarrow> Port \<Rightarrow> bool" where
  "Contains r port \<longleftrightarrow> From r \<le> port \<and> port \<le> To r"

definition PortListFromProto :: "(uint32 \<times> uint32) list \<Rightarrow> MemoryPortRange list" where
  "PortListFromProto l = map (\<lambda>(f, t). \<lparr>From = ucast f, To = ucast t\<rparr>) l"

fun PortList_Contains :: "MemoryPortRange list \<Rightarrow> Port \<Rightarrow> bool" where
  "PortList_Contains [] port = False"
| "PortList_Contains (pr # mpl) port = (if Contains pr port then True else PortList_Contains mpl port)"

datatype Network = Network_Unknown | Network_TCP | Network_UDP | Network_UNIX

record Destination =
  dest_Address :: Address
  dest_Port :: Port
  dest_Network :: Network

definition TCPDestination :: "Address \<Rightarrow> Port \<Rightarrow> Destination" where
  "TCPDestination address port =
     \<lparr>dest_Address = address, dest_Port = port, dest_Network = Network_TCP\<rparr>"

definition UDPDestination :: "Address \<Rightarrow> Port \<Rightarrow> Destination" where
  "UDPDestination address port =
     \<lparr>dest_Address = address, dest_Port = port, dest_Network = Network_UDP\<rparr>"

definition IsValid :: "Destination \<Rightarrow> bool" where
  "IsValid d \<longleftrightarrow> dest_Network d \<noteq> Network_Unknown"

section \<open>Lemmas\<close>

lemma IPAddress_wf: "IPAddress ip = Some a \<Longrightarrow> wf_Address a"
  by (auto simp: IPAddress_def split: if_splits)

lemma IPAddress_IP [simp]: "wf_Address a \<Longrightarrow> IP a = Ok ip \<Longrightarrow> IPAddress ip = Some a"
  by (cases a) (auto simp: IPAddress_def)

lemma AsAddress_NewIPOrDomain: "wf_Address a \<Longrightarrow> AsAddress (NewIPOrDomain a) = Some a"
  by (cases a) (auto simp: IPAddress_def)

lemma PortList_Contains_iff: "PortList_Contains mpl port \<longleftrightarrow> (\<exists>r\<in>set mpl. From r \<le> port \<and> port \<le> To r)"
  by (induction mpl) (auto simp: Contains_def)

lemma parseIPv4Fields_length:
  "parseIPv4Fields val digLen octets s = Some q \<Longrightarrow> length octets \<le> 3 \<Longrightarrow> length q = 4"
  by (induction val digLen octets s rule: parseIPv4Fields.induct)
    (auto split: if_splits option.splits)

lemma parseIPv4_length: "parseIPv4Fields 0 0 [] s = Some q \<Longrightarrow> length q = 4"
  by (rule parseIPv4Fields_length) auto

lemma parseIPv6Groups_length:
  "parseIPv6Groups k ip ell s = Some (q, e) \<Longrightarrow> length ip + 2 * k = 16 \<Longrightarrow>
     length q \<le> 16 \<and> (\<forall>n. e = Some n \<longrightarrow> ell = None \<or> ell = Some n)"
proof (induction k ip ell s rule: parseIPv6Groups.induct)
  case (1 ip ell s)
  then show ?case by (auto split: if_splits)
next
  case (2 k ip ell s)
  from "2.prems" obtain off acc s' where scan: "scan_hex 0 0 s = Some (off, acc, s')" "off \<noteq> 0"
    by (auto split: option.splits if_splits)
  show ?case
  proof (cases "s' \<noteq> [] \<and> hd s' = CHR ''.''")
    case True
    with "2.prems" scan show ?thesis
      by (auto dest: parseIPv4_length split: option.splits if_splits)
  next
    case False
    note IH = "2.IH" [OF scan(1) refl refl scan(2) False refl]
    show ?thesis
      using "2.prems" scan False IH
      by (simp add: Let_def split: list.splits if_splits) auto
  qed
qed

lemma parseIPv6_length: "parseIPv6 s = Some ip \<Longrightarrow> length ip = 16"
  by (auto simp: parseIPv6_def Let_def dest: parseIPv6Groups_length
      split: if_splits option.splits prod.splits)

lemma ParseIP_length: "ParseIP s = Some ip \<Longrightarrow> length ip = 16"
  by (auto simp: ParseIP_def dest: parseIPv4_length parseIPv6_length
      split: list.splits if_splits)

section \<open>Properties\<close>

text \<open>
  Every text that \<open>ParseIP\<close> accepts, dotted decimal or any of the compressed IPv6 forms, gives
  exactly 16 bytes, so the address built from it is well-formed and never nil.
\<close>

theorem ParseIP_sixteen_bytes:
  assumes "ParseIP s = Some ip"
  shows "length ip = 16 \<and> (\<exists>a. IPAddress ip = Some a \<and> wf_Address a)"
proof -
  have l: "length ip = 16"
    by (rule ParseIP_length [OF assms])
  then obtain a where "IPAddress ip = Some a"
    by (cases "v4_mapped ip") (auto simp: IPAddress_def)
  with l show ?thesis
    using IPAddress_wf by blast
qed

theorem ParseIP_sixteen_bytes_witness:
  "\<exists>ip. ParseIP ''2001:db8::1'' = Some ip \<and> length ip = 16"
proof -
  have "\<exists>ip. ParseIP ''2001:db8::1'' = Some ip"
    by (simp add: ParseIP_def parseIPv6_def hex_val_def parseIPv6Groups.simps(2) [of 7, simplified]
        parseIPv6Groups.simps(2) [of 6, simplified] parseIPv6Groups.simps(2) [of 5, simplified])
  then show ?thesis using ParseIP_sixteen_bytes by blast
qed

text \<open>
  Addresses survive their protobuf form: converting a well-formed address to \<open>IPOrDomain\<close> and
  back yields the same address, for domains and both IP families.
\<close>

theorem IPOrDomain_roundtrip:
  assumes "wf_Address a"
  shows "AsAddress (NewIPOrDomain a) = Some a"
  by (rule AsAddress_NewIPOrDomain [OF assms])

theorem IPOrDomain_roundtrip_witness:
  "AsAddress (NewIPOrDomain (domainAddress ''example.com'')) = Some (domainAddress ''example.com'')"
  by (rule IPOrDomain_roundtrip) simp

end
