(* ===== verification/Buf.thy ===== *)
theory Buf
  imports Net_Address
begin

text \<open>
  Byte buffers: \<open>common/buf/buffer.go\<close> and \<open>common/buf/multi_buffer.go\<close>.

  A \<open>Buffer\<close> is a byte array with a window \<open>[start, end)\<close>; a \<open>MultiBuffer\<close> is a list of
  buffers. The \<open>int32\<close> positions are integers, with the wrap-around of a sum that a caller can
  make overflow written out (\<open>i32\<close>). A nil array is the empty list. A slice expression that is
  out of range is the value \<open>Panic\<close>; the capacity of an array is its length. The buffer pool
  only recycles arrays: what it hands to \<open>New\<close> is the argument \<open>p\<close>, whose bytes are arbitrary.

  \<open>content\<close> is the abstraction: the bytes a reader of the buffer sees. Every operation is
  characterised by its effect on \<open>content\<close> under the invariant \<open>wf_Buffer\<close>.
  The locale \<open>byte_writer\<close> is the contract of an \<open>io.Writer\<close> that accepts every write;
  \<open>MultiBufferContainer\<close> is interpreted as one.
\<close>

section \<open>Buffer\<close>

definition Size :: nat where "Size = 8192"

datatype ownership = managed | unmanaged | bytespools

record Buffer =
  buf_v :: bytes
  buf_start :: int
  buf_end :: int
  buf_ownership :: ownership
  buf_UDP :: "Destination option"

definition i32 :: "int \<Rightarrow> int" where
  "i32 x = signed_take_bit 31 x"

definition slice :: "bytes \<Rightarrow> int \<Rightarrow> int \<Rightarrow> bytes result" where
  "slice v a c =
     (if 0 \<le> a \<and> a \<le> c \<and> c \<le> int (length v) then Ok (take (nat (c - a)) (drop (nat a) v))
      else Err (Panic ''slice bounds out of range''))"

text \<open>\<open>copy(v[i:], d)\<close> for a \<open>d\<close> that fits.\<close>

definition overwrite :: "bytes \<Rightarrow> nat \<Rightarrow> bytes \<Rightarrow> bytes" where
  "overwrite v i d = take i v @ d @ drop (i + length d) v"

definition New :: "bytes \<Rightarrow> Buffer" where
  "New p =
     \<lparr>buf_v = (if Size \<le> length p then take Size p else replicate Size 0),
      buf_start = 0, buf_end = 0, buf_ownership = managed, buf_UDP = None\<rparr>"

definition FromBytes :: "bytes \<Rightarrow> Buffer" where
  "FromBytes b =
     \<lparr>buf_v = b, buf_start = 0, buf_end = int (length b), buf_ownership = unmanaged, buf_UDP = None\<rparr>"

definition Clear :: "Buffer \<Rightarrow> Buffer" where
  "Clear b = b\<lparr>buf_start := 0, buf_end := 0\<rparr>"

definition Release :: "Buffer \<Rightarrow> Buffer" where
  "Release b =
     (if buf_v b = [] \<or> buf_ownership b = unmanaged then b
      else (Clear (b\<lparr>buf_v := []\<rparr>))\<lparr>buf_UDP := None\<rparr>)"

definition Len :: "Buffer \<Rightarrow> int" where
  "Len b = buf_end b - buf_start b"

definition Available :: "Buffer \<Rightarrow> int" where
  "Available b = int (length (buf_v b)) - buf_end b"

definition IsEmpty :: "Buffer \<Rightarrow> bool" where
  "IsEmpty b \<longleftrightarrow> Len b = 0"

definition IsFull :: "Buffer \<Rightarrow> bool" where
  "IsFull b \<longleftrightarrow> buf_end b = int (length (buf_v b))"

definition Byte_at :: "int \<Rightarrow> Buffer \<Rightarrow> byte result" where
  "Byte_at index b =
     (let i = i32 (buf_start b + index) in
      if 0 \<le> i \<and> i < int (length (buf_v b)) then Ok (buf_v b ! nat i)
      else Err (Panic ''index out of range''))"

definition SetByte :: "int \<Rightarrow> byte \<Rightarrow> Buffer \<Rightarrow> Buffer result" where
  "SetByte index x b =
     (let i = i32 (buf_start b + index) in
      if 0 \<le> i \<and> i < int (length (buf_v b)) then Ok (b\<lparr>buf_v := (buf_v b)[nat i := x]\<rparr>)
      else Err (Panic ''index out of range''))"

definition Bytes :: "Buffer \<Rightarrow> bytes result" where
  "Bytes b = slice (buf_v b) (buf_start b) (buf_end b)"

definition Extend :: "int \<Rightarrow> Buffer \<Rightarrow> Buffer result" where
  "Extend n b =
     (let e = i32 (buf_end b + n) in
      if e > int (length (buf_v b)) then Err (Panic ''extending out of bound'')
      else if e < buf_end b \<or> buf_end b < 0 then Err (Panic ''slice bounds out of range'')
      else Ok (b\<lparr>buf_v := overwrite (buf_v b) (nat (buf_end b)) (replicate (nat (e - buf_end b)) 0),
                 buf_end := e\<rparr>))"

definition BytesRange :: "int \<Rightarrow> int \<Rightarrow> Buffer \<Rightarrow> bytes result" where
  "BytesRange from to b =
     (let from' = (if from < 0 then from + Len b else from);
          to' = (if to < 0 then to + Len b else to) in
      slice (buf_v b) (i32 (buf_start b + from')) (i32 (buf_start b + to')))"

definition BytesFrom :: "int \<Rightarrow> Buffer \<Rightarrow> bytes result" where
  "BytesFrom from b =
     (let from' = (if from < 0 then from + Len b else from) in
      slice (buf_v b) (i32 (buf_start b + from')) (buf_end b))"

definition BytesTo :: "int \<Rightarrow> Buffer \<Rightarrow> bytes result" where
  "BytesTo to b =
     (let to' = (if to < 0 then to + Len b else to);
          to'' = (if to' < 0 then 0 else to') in
      slice (buf_v b) (buf_start b) (i32 (buf_start b + to'')))"

definition Check :: "Buffer \<Rightarrow> Buffer" where
  "Check b =
     (let s = (if buf_start b < 0 then 0 else buf_start b);
          e = (if buf_end b < 0 then 0 else buf_end b) in
      b\<lparr>buf_start := (if s > e then e else s), buf_end := e\<rparr>)"

definition Resize :: "int \<Rightarrow> int \<Rightarrow> Buffer \<Rightarrow> Buffer result" where
  "Resize from to b =
     (let oldEnd = buf_end b;
          from' = (if from < 0 then from + Len b else from);
          to' = (if to < 0 then to + Len b else to) in
      if to' < from' then Err (Panic ''Invalid slice'')
      else
        (let b' = Check (b\<lparr>buf_end := i32 (buf_start b + to'), buf_start := i32 (buf_start b + from')\<rparr>) in
         if buf_end b' > oldEnd then
           if int (length (buf_v b)) < buf_end b' then Err (Panic ''slice bounds out of range'')
           else Ok (b'\<lparr>buf_v := overwrite (buf_v b) (nat oldEnd)
                                 (replicate (nat (buf_end b' - oldEnd)) 0)\<rparr>)
         else Ok b'))"

definition Advance :: "int \<Rightarrow> Buffer \<Rightarrow> Buffer" where
  "Advance from b =
     (let from' = (if from < 0 then from + Len b else from) in
      Check (b\<lparr>buf_start := i32 (buf_start b + from')\<rparr>))"

definition Write :: "bytes \<Rightarrow> Buffer \<Rightarrow> (nat \<times> goerror option) \<times> Buffer" where
  "Write data b =
     (let n = min (length (buf_v b) - nat (buf_end b)) (length data);
          b' = b\<lparr>buf_v := overwrite (buf_v b) (nat (buf_end b)) (take n data),
                 buf_end := buf_end b + int n\<rparr> in
      ((n, if n < length data then Some ErrBufferFull else None), b'))"

definition WriteByte :: "byte \<Rightarrow> Buffer \<Rightarrow> goerror option \<times> Buffer" where
  "WriteByte x b =
     (if IsFull b then (Some ErrBufferFull, b)
      else (None, b\<lparr>buf_v := (buf_v b)[nat (buf_end b) := x], buf_end := buf_end b + 1\<rparr>))"

definition ReadByte :: "Buffer \<Rightarrow> byte result \<times> Buffer" where
  "ReadByte b =
     (if buf_start b = buf_end b then (Err EOF, b)
      else (Ok (buf_v b ! nat (buf_start b)), b\<lparr>buf_start := buf_start b + 1\<rparr>))"

definition ReadBytes :: "int \<Rightarrow> Buffer \<Rightarrow> bytes result \<times> Buffer" where
  "ReadBytes len b =
     (if buf_end b - buf_start b < len then (Err EOF, b)
      else (slice (buf_v b) (buf_start b) (buf_start b + len), b\<lparr>buf_start := buf_start b + len\<rparr>))"

text \<open>\<open>Read\<close> into a slice of \<open>k\<close> bytes: the bytes copied and the error.\<close>

definition Read :: "nat \<Rightarrow> Buffer \<Rightarrow> (bytes \<times> goerror option) \<times> Buffer" where
  "Read k b =
     (if Len b = 0 then (([], Some EOF), b)
      else
        (let d = take k (take (nat (Len b)) (drop (nat (buf_start b)) (buf_v b))) in
         ((d, None),
          if int (length d) = Len b then Clear b else b\<lparr>buf_start := buf_start b + int (length d)\<rparr>)))"

text \<open>\<open>ReadFrom\<close> one \<open>Read\<close> of any reader \<open>rd\<close> into the free part of the buffer.\<close>

definition ReadFrom :: "(nat \<Rightarrow> 'r \<Rightarrow> (bytes \<times> goerror option) \<times> 'r) \<Rightarrow> 'r \<Rightarrow> Buffer
    \<Rightarrow> (nat \<times> goerror option) \<times> 'r \<times> Buffer" where
  "ReadFrom rd r b =
     (let ((d, err), r') = rd (length (buf_v b) - nat (buf_end b)) r in
      ((length d, err), r',
       b\<lparr>buf_v := overwrite (buf_v b) (nat (buf_end b)) d, buf_end := buf_end b + int (length d)\<rparr>))"

definition ReadFullFrom :: "stream \<Rightarrow> int \<Rightarrow> Buffer \<Rightarrow> (nat \<times> goerror option) \<times> stream \<times> Buffer" where
  "ReadFullFrom s sz b =
     (let e = i32 (buf_end b + sz) in
      if e > int (length (buf_v b)) then ((0, Some (ErrMsg ''out of bound: '')), s, b)
      else if e < buf_end b then ((0, Some (Panic ''slice bounds out of range'')), s, b)
      else
        (let k = nat (e - buf_end b); d = take k (avail s);
             b' = b\<lparr>buf_v := overwrite (buf_v b) (nat (buf_end b)) d,
                    buf_end := buf_end b + int (length d)\<rparr> in
         case read_full k s of
           (Inr bs, s') \<Rightarrow> ((length d, None), s', b')
         | (Inl err, s') \<Rightarrow> ((length d, Some err), s', b')))"

section \<open>MultiBuffer\<close>

type_synonym MultiBuffer = "Buffer list"

definition MergeMulti :: "MultiBuffer \<Rightarrow> MultiBuffer \<Rightarrow> MultiBuffer \<times> MultiBuffer" where
  "MergeMulti dest src = (dest @ src, [])"

function mergeFresh :: "bytes \<Rightarrow> bytes \<Rightarrow> MultiBuffer" where
  "mergeFresh p src =
     (if src = [] then []
      else let ((n, err), b) = Write src (New p) in b # mergeFresh p (drop n src))"
  by pat_completeness auto
termination
  by (relation "measure (\<lambda>(p, src). length src)") (auto simp: Write_def New_def Size_def Let_def)

declare mergeFresh.simps [simp del]

definition MergeBytes :: "bytes \<Rightarrow> MultiBuffer \<Rightarrow> bytes \<Rightarrow> MultiBuffer" where
  "MergeBytes p dest src =
     (if dest \<noteq> [] \<and> \<not> IsFull (last dest) then
        let ((n, err), b) = Write src (last dest) in butlast dest @ [b] @ mergeFresh p (drop n src)
      else dest @ mergeFresh p src)"

definition ReleaseMulti :: "MultiBuffer \<Rightarrow> MultiBuffer" where
  "ReleaseMulti mb = []"

definition MB_Len :: "MultiBuffer \<Rightarrow> int" where
  "MB_Len mb = foldl (\<lambda>sz b. i32 (sz + Len b)) 0 mb"

definition MB_IsEmpty :: "MultiBuffer \<Rightarrow> bool" where
  "MB_IsEmpty mb \<longleftrightarrow> list_all IsEmpty mb"

fun MB_Copy :: "MultiBuffer \<Rightarrow> nat \<Rightarrow> bytes result" where
  "MB_Copy [] k = Ok []"
| "MB_Copy (bb # mb) k =
     (case Bytes bb of
        Inl e \<Rightarrow> Err e
      | Inr d \<Rightarrow>
          (let n = min k (length d) in
           if int n < Len bb then Ok (take n d)
           else case MB_Copy mb (k - n) of Inl e \<Rightarrow> Err e | Inr d' \<Rightarrow> Ok (take n d @ d')))"

fun SplitBytes :: "MultiBuffer \<Rightarrow> nat \<Rightarrow> MultiBuffer \<times> bytes" where
  "SplitBytes [] k = ([], [])"
| "SplitBytes (b # mb) k =
     (let ((d, err), b') = Read k b in
      if \<not> IsEmpty b' then (b' # mb, d)
      else let (mb', d') = SplitBytes mb (k - length d) in (mb', d @ d'))"

fun SplitFirst :: "MultiBuffer \<Rightarrow> MultiBuffer \<times> Buffer option" where
  "SplitFirst [] = ([], None)"
| "SplitFirst (b # mb) = (mb, Some b)"

definition SplitFirstBytes :: "MultiBuffer \<Rightarrow> nat \<Rightarrow> (MultiBuffer \<times> bytes) result" where
  "SplitFirstBytes mb k =
     (case SplitFirst mb of
        (mb', None) \<Rightarrow> Ok (mb', [])
      | (mb', Some b) \<Rightarrow> (case Bytes b of Inl e \<Rightarrow> Err e | Inr d \<Rightarrow> Ok (mb', take k d)))"

text \<open>
  \<open>Compact\<close>: \<open>last.ReadFrom(cur)\<close> goes through \<open>cur.Read\<close>, and \<open>common.Must2\<close> panics on the
  error it may return.
\<close>

fun compactLoop :: "Buffer \<Rightarrow> MultiBuffer \<Rightarrow> MultiBuffer result" where
  "compactLoop lst [] = Ok [lst]"
| "compactLoop lst (cur # mb) =
     (if Len cur > Available lst then
        (case compactLoop cur mb of Inl e \<Rightarrow> Err e | Inr mb2 \<Rightarrow> Ok (lst # mb2))
      else
        (case ReadFrom Read cur lst of
           ((n, Some e), r) \<Rightarrow> Err (Panic ''Must'')
         | ((n, None), cur', lst') \<Rightarrow> compactLoop lst' mb))"

definition Compact :: "MultiBuffer \<Rightarrow> MultiBuffer result" where
  "Compact mb = (case mb of [] \<Rightarrow> Ok [] | b # bs \<Rightarrow> compactLoop b bs)"

fun splitSizeLoop :: "int \<Rightarrow> int \<Rightarrow> MultiBuffer \<Rightarrow> MultiBuffer \<times> MultiBuffer" where
  "splitSizeLoop sz tot [] = ([], [])"
| "splitSizeLoop sz tot (b # mb) =
     (if i32 (tot + Len b) > sz then (b # mb, [])
      else let (mb', r) = splitSizeLoop sz (i32 (tot + Len b)) mb in (mb', b # r))"

definition SplitSize :: "bytes \<Rightarrow> MultiBuffer \<Rightarrow> int \<Rightarrow> (MultiBuffer \<times> MultiBuffer) result" where
  "SplitSize p mb sz =
     (case mb of
        [] \<Rightarrow> Ok ([], [])
      | b0 # bs \<Rightarrow>
          if Len b0 > sz then
            (case Extend sz (New p) of
               Inl e \<Rightarrow> Err e
             | Inr b \<Rightarrow>
                 (case BytesTo sz b0 of
                    Inl e \<Rightarrow> Err e
                  | Inr d \<Rightarrow> Ok (Advance sz b0 # bs, [b\<lparr>buf_v := overwrite (buf_v b) 0 d\<rparr>])))
          else Ok (splitSizeLoop sz 0 mb))"

definition SplitMulti :: "MultiBuffer \<Rightarrow> int \<Rightarrow> MultiBuffer \<times> MultiBuffer" where
  "SplitMulti mb i =
     (if i < int (length mb) \<and> 0 \<le> i then (take (nat i) mb, drop (nat i) mb) else (mb, []))"

text \<open>\<open>WriteMultiBuffer\<close> to any writer \<open>wr\<close>: stops at the first error, with what is left.\<close>

fun WriteMultiBuffer :: "('w \<Rightarrow> bytes \<Rightarrow> goerror option \<times> 'w) \<Rightarrow> 'w \<Rightarrow> MultiBuffer
    \<Rightarrow> (MultiBuffer \<times> goerror option) \<times> 'w" where
  "WriteMultiBuffer wr w [] = (([], None), w)"
| "WriteMultiBuffer wr w (b # mb) =
     (case Bytes b of
        Inl e \<Rightarrow> ((mb, Some e), w)
      | Inr d \<Rightarrow>
          (case wr w d of
             (None, w') \<Rightarrow> WriteMultiBuffer wr w' mb
           | (Some e, w') \<Rightarrow> ((mb, Some e), w')))"

text \<open>\<open>MultiBufferContainer\<close>, an \<open>io.Reader\<close> and \<open>io.Writer\<close> over a \<open>MultiBuffer\<close>.\<close>

definition MBC_Read :: "nat \<Rightarrow> MultiBuffer \<Rightarrow> (bytes \<times> goerror option) \<times> MultiBuffer" where
  "MBC_Read k c =
     (if MB_IsEmpty c then (([], Some EOF), c)
      else let (mb, d) = SplitBytes c k in ((d, None), mb))"

definition MBC_ReadMultiBuffer :: "MultiBuffer \<Rightarrow> MultiBuffer \<times> MultiBuffer" where
  "MBC_ReadMultiBuffer c = (c, [])"

definition MBC_Write :: "bytes \<Rightarrow> MultiBuffer \<Rightarrow> bytes \<Rightarrow> goerror option \<times> MultiBuffer" where
  "MBC_Write p c b = (None, MergeBytes p c b)"

definition MBC_WriteMultiBuffer :: "MultiBuffer \<Rightarrow> MultiBuffer \<Rightarrow> goerror option \<times> MultiBuffer" where
  "MBC_WriteMultiBuffer c b = (None, fst (MergeMulti c b))"

definition MBC_Close :: "MultiBuffer \<Rightarrow> MultiBuffer" where
  "MBC_Close c = ReleaseMulti c"

section \<open>Abstraction and invariant\<close>

definition content :: "Buffer \<Rightarrow> bytes" where
  "content b = take (nat (Len b)) (drop (nat (buf_start b)) (buf_v b))"

definition wf_Buffer :: "Buffer \<Rightarrow> bool" where
  "wf_Buffer b \<longleftrightarrow> 0 \<le> buf_start b \<and> buf_start b \<le> buf_end b \<and> buf_end b \<le> int (length (buf_v b))
     \<and> length (buf_v b) < 2 ^ 31"

definition mcontent :: "MultiBuffer \<Rightarrow> bytes" where
  "mcontent mb = concat (map content mb)"

abbreviation wf_MB :: "MultiBuffer \<Rightarrow> bool" where
  "wf_MB mb \<equiv> list_all wf_Buffer mb"

section \<open>Single buffers\<close>

named_theorems buf_defs

lemmas buf_arith [buf_defs] = wf_Buffer_def content_def Len_def Available_def IsEmpty_def IsFull_def

lemma i32_id [simp]: "- (2 ^ 31) \<le> x \<Longrightarrow> x < 2 ^ 31 \<Longrightarrow> i32 x = x"
  by (simp add: i32_def signed_take_bit_int_eq_self)

lemma length_content: "wf_Buffer b \<Longrightarrow> int (length (content b)) = Len b"
  by (auto simp: buf_defs)

lemma Bytes_content: "wf_Buffer b \<Longrightarrow> Bytes b = Ok (content b)"
  by (simp add: Bytes_def slice_def buf_defs)

lemma IsEmpty_content: "wf_Buffer b \<Longrightarrow> IsEmpty b \<longleftrightarrow> content b = []"
  by (auto simp: buf_defs)

lemma wf_New [simp]: "wf_Buffer (New p)"
  by (simp add: New_def wf_Buffer_def Size_def)

lemma content_New [simp]: "content (New p) = []"
  by (simp add: New_def content_def Len_def)

lemma Available_New [simp]: "Available (New p) = 8192"
  by (simp add: New_def Available_def Size_def)

lemma wf_FromBytes [simp]: "length d < 2 ^ 31 \<Longrightarrow> wf_Buffer (FromBytes d)"
  by (simp add: FromBytes_def wf_Buffer_def)

lemma content_FromBytes [simp]: "content (FromBytes d) = d"
  by (simp add: FromBytes_def content_def Len_def)

lemma wf_Clear: "wf_Buffer b \<Longrightarrow> wf_Buffer (Clear b)"
  by (simp add: Clear_def wf_Buffer_def)

lemma content_Clear [simp]: "content (Clear b) = []"
  by (simp add: Clear_def content_def Len_def)

lemma length_overwrite: "i + length d \<le> length v \<Longrightarrow> length (overwrite v i d) = length v"
  by (simp add: overwrite_def)

text \<open>Appending \<open>d\<close> at the end of the window: the shape of every writing operation.\<close>

lemma append_window:
  assumes "wf_Buffer b" and "int (length d) \<le> Available b"
    and "b' = b\<lparr>buf_v := overwrite (buf_v b) (nat (buf_end b)) d, buf_end := buf_end b + int (length d)\<rparr>"
  shows "wf_Buffer b'" and "content b' = content b @ d"
proof -
  have room: "nat (buf_end b) + length d \<le> length (buf_v b)"
    using assms(1,2) by (auto simp: buf_defs)
  then show "wf_Buffer b'"
    using assms by (simp add: buf_defs length_overwrite)
  obtain s l where sl: "buf_start b = int s" "buf_end b = int (s + l)"
    using assms(1) by (metis wf_Buffer_def nonneg_int_cases zle_iff_zadd of_nat_add)
  have "s + l \<le> length (buf_v b)"
    using room sl by simp
  then show "content b' = content b @ d"
    using sl assms(3) by (simp add: content_def Len_def overwrite_def nat_add_distrib drop_take)
qed

lemma Write_effect:
  assumes "wf_Buffer b" and "Write data b = ((n, err), b')"
  shows "wf_Buffer b'" and "content b' = content b @ take n data"
    and "n = min (nat (Available b)) (length data)"
    and "err = (if n < length data then Some ErrBufferFull else None)"
proof -
  have n: "n = min (length (buf_v b) - nat (buf_end b)) (length data)"
    and b': "b' = b\<lparr>buf_v := overwrite (buf_v b) (nat (buf_end b)) (take n data),
                    buf_end := buf_end b + int (length (take n data))\<rparr>"
    using assms(2) by (auto simp: Write_def Let_def)
  have "int (length (take n data)) \<le> Available b"
    using assms(1) n by (auto simp: buf_defs)
  from append_window [OF assms(1) this b']
  show "wf_Buffer b'" and "content b' = content b @ take n data" by auto
  show "n = min (nat (Available b)) (length data)"
    using n assms(1) by (simp add: buf_defs nat_diff_distrib)
  show "err = (if n < length data then Some ErrBufferFull else None)"
    using assms(2) by (auto simp: Write_def Let_def)
qed

lemma Read_effect:
  assumes "wf_Buffer b" and "Read k b = ((d, err), b')"
  shows "wf_Buffer b'" and "d = take k (content b)" and "content b' = drop k (content b)"
    and "err = (if content b = [] then Some EOF else None)"
proof -
  obtain s l where sl: "buf_start b = int s" "buf_end b = int (s + l)"
    using assms(1) by (metis wf_Buffer_def nonneg_int_cases zle_iff_zadd of_nat_add)
  then have len: "s + l \<le> length (buf_v b)"
    using assms(1) by (simp add: wf_Buffer_def)
  show "wf_Buffer b'" "d = take k (content b)" "content b' = drop k (content b)"
    "err = (if content b = [] then Some EOF else None)"
    using assms sl len
    by (auto simp: Read_def Let_def content_def Len_def wf_Buffer_def Clear_def min_def
        nat_add_distrib drop_take add.commute split: if_splits)
qed

lemma Extend_effect:
  assumes "wf_Buffer b" and "0 \<le> n" and "n \<le> Available b"
  shows "\<exists>b'. Extend n b = Ok b' \<and> wf_Buffer b' \<and> content b' = content b @ replicate (nat n) 0"
proof -
  let ?b = "b\<lparr>buf_v := overwrite (buf_v b) (nat (buf_end b)) (replicate (nat n) 0),
              buf_end := buf_end b + int (length (replicate (nat n) (0 :: byte)))\<rparr>"
  have "i32 (buf_end b + n) = buf_end b + n"
    using assms by (simp add: buf_defs)
  then have "Extend n b = Ok ?b"
    using assms by (simp add: Extend_def Let_def buf_defs)
  moreover have "int (length (replicate (nat n) (0 :: byte))) \<le> Available b"
    using assms by simp
  ultimately show ?thesis
    using append_window [OF assms(1), of "replicate (nat n) 0" ?b] by auto
qed

lemma Extend_panics:
  assumes "wf_Buffer b" and "Available b < n" and "n < 2 ^ 30" and "length (buf_v b) < 2 ^ 30"
  shows "Extend n b = Err (Panic ''extending out of bound'')"
  using assms by (simp add: Extend_def Let_def buf_defs)

lemma Advance_effect:
  assumes "wf_Buffer b" and "0 \<le> n" and "n \<le> Len b"
  shows "wf_Buffer (Advance n b)" and "content (Advance n b) = drop (nat n) (content b)"
proof -
  obtain s l m where sl: "buf_start b = int s" "buf_end b = int (s + l)" "n = int m"
    using assms(1,2) by (metis wf_Buffer_def nonneg_int_cases zle_iff_zadd of_nat_add)
  then have le: "s + l \<le> length (buf_v b)" "m \<le> l" "length (buf_v b) < 2 ^ 31"
    using assms(1,3) by (auto simp: wf_Buffer_def Len_def)
  then have "i32 (int s + int m) = int s + int m" by simp
  with sl le show "wf_Buffer (Advance n b)" and "content (Advance n b) = drop (nat n) (content b)"
    by (auto simp: Advance_def Let_def Check_def wf_Buffer_def content_def Len_def
        nat_add_distrib drop_take add.commute)
qed

lemma BytesTo_effect:
  assumes "wf_Buffer b" and "0 \<le> n" and "n \<le> Len b"
  shows "BytesTo n b = Ok (take (nat n) (content b))"
proof -
  have "i32 (buf_start b + n) = buf_start b + n"
    using assms by (simp add: buf_defs)
  then show ?thesis
    using assms by (simp add: BytesTo_def Let_def slice_def buf_defs min_def nat_le_iff)
qed

lemma BytesFrom_neg_effect:
  assumes "wf_Buffer b" and "0 < n" and "n \<le> Len b"
  shows "BytesFrom (- n) b = Ok (drop (nat (Len b - n)) (content b))"
proof -
  obtain s l m where sl: "buf_start b = int s" "buf_end b = int (s + l)" "n = int m"
    using assms(1,2) by (metis wf_Buffer_def nonneg_int_cases zle_iff_zadd of_nat_add less_imp_le)
  then have le: "s + l \<le> length (buf_v b)" "m \<le> l" "0 < m" "length (buf_v b) < 2 ^ 31"
    using assms by (auto simp: wf_Buffer_def Len_def)
  then have "i32 (int s + (int l - int m)) = int s + (int l - int m)" by simp
  with sl le show ?thesis
    by (auto simp: BytesFrom_def Let_def slice_def content_def Len_def drop_take nat_diff_distrib
        nat_add_distrib of_nat_diff algebra_simps)
qed

section \<open>Lists of buffers\<close>

lemma mcontent_simps [simp]:
  "mcontent [] = []" "mcontent (b # mb) = content b @ mcontent mb"
  "mcontent (mb @ mb') = mcontent mb @ mcontent mb'"
  by (simp_all add: mcontent_def)

lemma MB_IsEmpty_mcontent: "wf_MB mb \<Longrightarrow> MB_IsEmpty mb \<longleftrightarrow> mcontent mb = []"
  by (induction mb) (auto simp: MB_IsEmpty_def IsEmpty_content)

lemma mergeFresh_effect: "mcontent (mergeFresh p src) = src \<and> wf_MB (mergeFresh p src)"
proof (induction p src rule: mergeFresh.induct)
  case (1 p src)
  obtain n err b where w: "Write src (New p) = ((n, err), b)"
    by (metis prod.exhaust)
  note eff = Write_effect [OF wf_New w]
  show ?case
  proof (cases "src = []")
    case True
    then show ?thesis by (simp add: mergeFresh.simps)
  next
    case False
    then have "mcontent (mergeFresh p (drop n src)) = drop n src \<and> wf_MB (mergeFresh p (drop n src))"
      using "1.IH" w by simp
    then show ?thesis
      using False w eff(1,2) by (simp add: mergeFresh.simps [of p src])
  qed
qed

lemma MergeBytes_effect:
  assumes "wf_MB dest"
  shows "mcontent (MergeBytes p dest src) = mcontent dest @ src" and "wf_MB (MergeBytes p dest src)"
proof -
  have "mcontent (MergeBytes p dest src) = mcontent dest @ src \<and> wf_MB (MergeBytes p dest src)"
  proof (cases "dest \<noteq> [] \<and> \<not> IsFull (last dest)")
    case True
    then obtain bs b where dest: "dest = bs @ [b]"
      by (metis append_butlast_last_id)
    obtain n err b' where w: "Write src b = ((n, err), b')"
      by (metis prod.exhaust)
    have "wf_Buffer b" using assms dest by simp
    note eff = Write_effect [OF this w]
    show ?thesis
      using True assms dest w eff(1,2) mergeFresh_effect by (simp add: MergeBytes_def)
  next
    case False
    then show ?thesis using assms mergeFresh_effect by (auto simp: MergeBytes_def)
  qed
  then show "mcontent (MergeBytes p dest src) = mcontent dest @ src" and "wf_MB (MergeBytes p dest src)"
    by auto
qed

lemma SplitBytes_effect:
  "wf_MB mb \<Longrightarrow> SplitBytes mb k = (mb', d) \<Longrightarrow>
     wf_MB mb' \<and> d = take k (mcontent mb) \<and> mcontent mb' = drop k (mcontent mb)"
proof (induction mb arbitrary: k mb' d)
  case Nil
  then show ?case by simp
next
  case (Cons b mb)
  obtain d1 err b' where r: "Read k b = ((d1, err), b')"
    by (metis prod.exhaust)
  have "wf_Buffer b" using Cons.prems by simp
  note eff = Read_effect [OF this r]
  obtain mb2 d2 where s: "SplitBytes mb (k - length d1) = (mb2, d2)"
    by (metis prod.exhaust)
  note IH = Cons.IH [OF _ s]
  have e: "IsEmpty b' \<longleftrightarrow> content b' = []"
    using eff(1) by (rule IsEmpty_content)
  show ?case
  proof (cases "content b' = []")
    case True
    then have "length (content b) \<le> k" using eff(3) by simp
    then show ?thesis using True Cons.prems r s e eff IH by auto
  next
    case False
    then have "k < length (content b)" using eff(3) by simp
    then show ?thesis using False Cons.prems r e eff by auto
  qed
qed

lemma MB_Copy_effect: "wf_MB mb \<Longrightarrow> MB_Copy mb k = Ok (take k (mcontent mb))"
proof (induction mb arbitrary: k)
  case Nil
  then show ?case by simp
next
  case (Cons b mb)
  then show ?case
    using length_content [of b] by (auto simp: Bytes_content min_def)
qed

text \<open>\<open>Compact\<close> keeps the bytes when no buffer after the first is empty.\<close>

lemma compactLoop_effect:
  "wf_Buffer lst \<Longrightarrow> wf_MB mb \<Longrightarrow> list_all (\<lambda>b. content b \<noteq> []) mb \<Longrightarrow>
     \<exists>mb2. compactLoop lst mb = Ok mb2 \<and> wf_MB mb2 \<and> mcontent mb2 = content lst @ mcontent mb
       \<and> length mb2 \<le> Suc (length mb)"
proof (induction lst mb rule: compactLoop.induct)
  case (1 lst)
  then show ?case by simp
next
  case (2 lst cur mb)
  show ?case
  proof (cases "Len cur > Available lst")
    case True
    then show ?thesis using "2.IH"(1) "2.prems" by fastforce
  next
    case False
    obtain d err cur' where r: "Read (length (buf_v lst) - nat (buf_end lst)) cur = ((d, err), cur')"
      by (metis prod.exhaust)
    have wfc: "wf_Buffer cur" using "2.prems" by simp
    note eff = Read_effect [OF wfc r]
    let ?lst = "lst\<lparr>buf_v := overwrite (buf_v lst) (nat (buf_end lst)) d,
                    buf_end := buf_end lst + int (length d)\<rparr>"
    have "int (length (content cur)) \<le> Available lst"
      using False length_content [OF wfc] by simp
    then have d: "d = content cur"
      using eff(2) "2.prems"(1) by (auto simp: Available_def wf_Buffer_def)
    have rf: "ReadFrom Read cur lst = ((length d, None), cur', ?lst)"
      using r eff(4) "2.prems" by (simp add: ReadFrom_def)
    have "wf_Buffer ?lst" and "content ?lst = content lst @ d"
      using append_window [OF "2.prems"(1), of d ?lst] d \<open>int (length (content cur)) \<le> Available lst\<close>
      by auto
    then show ?thesis
      using "2.IH"(2) [of "(length d, None)" "(cur', ?lst)" "length d" None cur' ?lst]
        "2.prems" False rf d by auto
  qed
qed

lemma Compact_effect:
  assumes "wf_MB mb" and "list_all (\<lambda>b. content b \<noteq> []) (tl mb)"
  shows "\<exists>mb2. Compact mb = Ok mb2 \<and> wf_MB mb2 \<and> mcontent mb2 = mcontent mb \<and> length mb2 \<le> length mb"
  using assms compactLoop_effect [of "hd mb" "tl mb"] by (cases mb) (auto simp: Compact_def)

lemma splitSizeLoop_effect:
  "wf_MB mb \<Longrightarrow> 0 \<le> tot \<Longrightarrow> tot \<le> sz \<Longrightarrow> sz < 2 ^ 31 \<Longrightarrow> tot + int (length (mcontent mb)) < 2 ^ 31 \<Longrightarrow>
     splitSizeLoop sz tot mb = (rest, r) \<Longrightarrow>
     wf_MB rest \<and> wf_MB r \<and> r @ rest = mb \<and> tot + int (length (mcontent r)) \<le> sz"
proof (induction mb arbitrary: tot rest r)
  case Nil
  then show ?case by simp
next
  case (Cons b mb)
  have len: "Len b = int (length (content b))"
    using Cons.prems length_content [of b] by simp
  then have i: "i32 (tot + Len b) = tot + Len b"
    using Cons.prems by simp
  obtain rest' r' where s: "splitSizeLoop sz (tot + Len b) mb = (rest', r')"
    by (metis prod.exhaust)
  show ?case
    using Cons.prems i s len Cons.IH [of "tot + Len b" rest' r'] by (auto split: if_splits)
qed

lemma SplitSize_effect:
  assumes "wf_MB mb" and "0 \<le> sz" and "sz \<le> 8192" and "length (mcontent mb) < 2 ^ 31"
  shows "\<exists>rest r. SplitSize p mb sz = Ok (rest, r) \<and> wf_MB rest \<and> wf_MB r
    \<and> mcontent r @ mcontent rest = mcontent mb \<and> int (length (mcontent r)) \<le> sz"
proof (cases mb)
  case Nil
  then show ?thesis using assms by (simp add: SplitSize_def)
next
  case (Cons b0 bs)
  have wf0: "wf_Buffer b0" using assms Cons by simp
  show ?thesis
  proof (cases "Len b0 > sz")
    case False
    obtain rest r where s: "splitSizeLoop sz 0 mb = (rest, r)"
      by (metis prod.exhaust)
    have "r @ rest = mb \<and> wf_MB rest \<and> wf_MB r \<and> int (length (mcontent r)) \<le> sz"
      using splitSizeLoop_effect [OF assms(1) _ assms(2) _ _ s] assms by simp
    then show ?thesis
      using s False Cons by (auto simp: SplitSize_def simp flip: mcontent_simps(3))
  next
    case True
    from Extend_effect [OF wf_New, of sz p] assms(2,3)
    obtain b where b: "Extend sz (New p) = Ok b" "wf_Buffer b" "content b = replicate (nat sz) 0"
      by auto
    let ?d = "take (nat sz) (content b0)"
    have d: "BytesTo sz b0 = Ok ?d" "length ?d = nat sz"
      using BytesTo_effect [OF wf0 assms(2)] True length_content [OF wf0] by auto
    have b': "buf_start b = 0" "buf_end b = sz" "nat sz \<le> length (buf_v b)" "length (buf_v b) < 2 ^ 31"
      using b(1,2) assms(2,3)
      by (auto simp: Extend_def New_def Let_def wf_Buffer_def Size_def split: if_splits)
    let ?b = "b\<lparr>buf_v := overwrite (buf_v b) 0 ?d\<rparr>"
    have "wf_Buffer ?b" "content ?b = ?d"
      using b' d(2) assms(2) by (auto simp: wf_Buffer_def content_def Len_def overwrite_def)
    moreover have "wf_Buffer (Advance sz b0)" "content (Advance sz b0) = drop (nat sz) (content b0)"
      using Advance_effect [OF wf0 assms(2)] True by auto
    ultimately show ?thesis
      using True b(1) d assms Cons by (auto simp: SplitSize_def)
  qed
qed

section \<open>Writers\<close>

text \<open>
  The contract of an \<open>io.Writer\<close> that never fails: a write appends its argument to what the
  writer has accepted.
\<close>

locale byte_writer =
  fixes wr :: "'w \<Rightarrow> bytes \<Rightarrow> goerror option \<times> 'w"
    and accepted :: "'w \<Rightarrow> bytes"
    and good :: "'w \<Rightarrow> bool"
  assumes wr_accepts: "good w \<Longrightarrow> \<exists>w'. wr w d = (None, w') \<and> good w' \<and> accepted w' = accepted w @ d"
begin

lemma wr_obtain:
  assumes "good w"
  obtains w' where "wr w d = (None, w')" and "good w'" and "accepted w' = accepted w @ d"
  using wr_accepts [OF assms, of d] by blast

lemma WriteMultiBuffer_accepts:
  "good w \<Longrightarrow> wf_MB mb \<Longrightarrow> \<exists>w'. WriteMultiBuffer wr w mb = (([], None), w') \<and> good w'
     \<and> accepted w' = accepted w @ mcontent mb"
proof (induction mb arbitrary: w)
  case Nil
  then show ?case by simp
next
  case (Cons b mb)
  obtain w1 where w1: "wr w (content b) = (None, w1)" "good w1"
      "accepted w1 = accepted w @ content b"
    using Cons.prems by (blast elim: wr_obtain)
  obtain w2 where "WriteMultiBuffer wr w1 mb = (([], None), w2)" "good w2"
      "accepted w2 = accepted w1 @ mcontent mb"
    using Cons.IH [OF w1(2)] Cons.prems by auto
  with w1 Cons.prems show ?case by (simp add: Bytes_content)
qed

end

interpretation mbc: byte_writer "MBC_Write p" mcontent "list_all wf_Buffer"
  by unfold_locales (auto simp: MBC_Write_def MergeBytes_effect)

section \<open>Properties\<close>

text \<open>
  C29. A buffer is a bounded queue of bytes: \<open>Write\<close> appends as much as there is room for and
  reports \<open>ErrBufferFull\<close> exactly when it had to cut, \<open>Read\<close> takes from the front and reports
  \<open>EOF\<close> exactly on an empty buffer, and both keep the buffer well-formed.
\<close>

theorem buffer_is_queue:
  assumes "wf_Buffer b" and "Write data b = ((n, werr), b1)" and "Read k b1 = ((d, rerr), b2)"
  shows "n = min (nat (Available b)) (length data)
    \<and> werr = (if n < length data then Some ErrBufferFull else None)
    \<and> d @ content b2 = content b @ take n data \<and> length d = min k (length (content b) + n)
    \<and> (rerr = Some EOF \<longleftrightarrow> content b = [] \<and> n = 0) \<and> wf_Buffer b1 \<and> wf_Buffer b2"
proof -
  note w = Write_effect [OF assms(1,2)]
  note r = Read_effect [OF w(1) assms(3)]
  have n: "n \<le> length data"
    using w(3) by simp
  have "rerr = Some EOF \<longleftrightarrow> content b1 = []"
    using r(4) by simp
  moreover have "d @ content b2 = content b @ take n data" and "length d = min k (length (content b) + n)"
    using n by (simp_all only: r(2,3) w(2) append_take_drop_id length_take length_append min.commute min_absorb1)
  moreover have "content b1 = [] \<longleftrightarrow> content b = [] \<and> n = 0"
    using w(2) n by auto
  ultimately show ?thesis
    using w(1,3,4) r(1) by simp
qed

theorem buffer_is_queue_witness:
  "\<exists>n we b1 d re b2. Write [1, 2, 3] (New []) = ((n, we), b1) \<and> Read 2 b1 = ((d, re), b2) \<and> n = 3
     \<and> d @ content b2 = [1, 2, 3] \<and> length d = 2"
proof -
  obtain n we b1 where w: "Write [1, 2, 3] (New []) = ((n, we), b1)"
    by (metis prod.exhaust)
  obtain d re b2 where r: "Read 2 b1 = ((d, re), b2)"
    by (metis prod.exhaust)
  note q = buffer_is_queue [OF wf_New w r]
  then have n: "n = 3"
    by simp
  from q have "d @ content b2 = [1, 2, 3]" and "length d = 2"
    unfolding n by simp_all
  with w r n show ?thesis
    by (intro exI conjI) assumption+
qed

text \<open>
  C30. Splitting bytes off a multi-buffer undoes merging bytes into it: after \<open>MergeBytes\<close>, a
  \<open>SplitBytes\<close> into a slice of any length yields the oldest bytes and leaves the rest, in order,
  wherever the boundaries between the buffers lie.
\<close>

theorem merge_split_roundtrip:
  assumes "wf_MB mb" and "SplitBytes (MergeBytes p mb src) k = (mb', d)"
  shows "d @ mcontent mb' = mcontent mb @ src \<and> length d = min k (length (mcontent mb @ src)) \<and> wf_MB mb'"
proof -
  note s = SplitBytes_effect [OF MergeBytes_effect(2) [OF assms(1)] assms(2), unfolded MergeBytes_effect(1) [OF assms(1)]]
  then have "d = take k (mcontent mb @ src)" and "mcontent mb' = drop k (mcontent mb @ src)" and "wf_MB mb'"
    by blast+
  then show ?thesis
    by (simp only: append_take_drop_id length_take min.commute)
qed

theorem merge_split_roundtrip_witness:
  "\<exists>mb' d. SplitBytes (MergeBytes [] [FromBytes [1, 2]] [3, 4, 5]) 3 = (mb', d) \<and> d = [1, 2, 3] \<and> mcontent mb' = [4, 5]"
proof -
  obtain mb' d where s: "SplitBytes (MergeBytes [] [FromBytes [1, 2]] [3, 4, 5]) 3 = (mb', d)"
    by (rule prod.exhaust)
  have "wf_MB [FromBytes [1, 2]]"
    by simp
  from merge_split_roundtrip [OF this s] have *: "d @ mcontent mb' = [1, 2, 3] @ [4, 5]" "length d = length [1, 2, 3 :: byte]"
    by simp_all
  from append_eq_append_conv [THEN iffD1, OF _ *(1)] *(2) have "d = [1, 2, 3] \<and> mcontent mb' = [4, 5]"
    by blast
  with s show ?thesis by blast
qed

text \<open>
  Splitting by size into chunks of at most one buffer never panics, loses and reorders nothing,
  and the chunk is at most as long as asked for.
\<close>

theorem split_size_partitions:
  assumes "wf_MB mb" and "0 \<le> sz" and "sz \<le> 8192" and "length (mcontent mb) < 2 ^ 31"
  shows "\<exists>rest r. SplitSize p mb sz = Ok (rest, r) \<and> mcontent r @ mcontent rest = mcontent mb
    \<and> int (length (mcontent r)) \<le> sz \<and> wf_MB rest \<and> wf_MB r"
  using SplitSize_effect [OF assms] by blast

theorem split_size_partitions_witness:
  "\<exists>rest r. SplitSize [] [FromBytes [1, 2], FromBytes [3]] 2 = Ok (rest, r) \<and> mcontent r @ mcontent rest = [1, 2, 3]"
  using split_size_partitions [of "[FromBytes [1, 2], FromBytes [3]]" 2 "[]"] by simp blast

text \<open>
  Compacting a multi-buffer keeps its bytes and never makes it longer; it succeeds whenever no
  buffer after the first is empty.
\<close>

theorem compact_keeps_bytes:
  assumes "wf_MB mb" and "list_all (\<lambda>b. content b \<noteq> []) (tl mb)"
  shows "\<exists>mb2. Compact mb = Ok mb2 \<and> mcontent mb2 = mcontent mb \<and> length mb2 \<le> length mb \<and> wf_MB mb2"
  using Compact_effect [OF assms] by blast

theorem compact_keeps_bytes_witness:
  "\<exists>mb2. Compact [FromBytes [1, 2], FromBytes [3]] = Ok mb2 \<and> mcontent mb2 = [1, 2, 3]"
  using compact_keeps_bytes [of "[FromBytes [1, 2], FromBytes [3]]"] by simp blast

text \<open>
  Writing a multi-buffer buffer by buffer into a \<open>MultiBufferContainer\<close> leaves nothing over and
  appends exactly its bytes: the container refines a byte stream.
\<close>

theorem write_multi_buffer_container:
  assumes "wf_MB c" and "wf_MB mb"
  shows "\<exists>c'. WriteMultiBuffer (MBC_Write p) c mb = (([], None), c') \<and> wf_MB c' \<and> mcontent c' = mcontent c @ mcontent mb"
  using mbc.WriteMultiBuffer_accepts [OF assms] by blast

theorem write_multi_buffer_container_witness:
  "\<exists>c'. WriteMultiBuffer (MBC_Write []) [FromBytes [1]] [FromBytes [2], FromBytes [3]] = (([], None), c')
     \<and> mcontent c' = [1, 2, 3]"
  using write_multi_buffer_container [of "[FromBytes [1]]" "[FromBytes [2], FromBytes [3]]" "[]"] by simp blast

end
