(* ===== verification/Aead.thy ===== *)
theory Aead
  imports Prelude
begin

text \<open>
  The AEAD interface (\<open>cipherAEAD\<close> of \<open>proxy/reflex/inbound/session.go\<close>, Go's \<open>cipher.AEAD\<close>) as
  a record of its methods, called with an empty destination, and the contract its users rely on
  as the locale \<open>aead\<close>: opening what was sealed under the same nonce and additional data gives
  the plaintext back, and a sealed message is longer by \<open>Overhead\<close>. \<open>limit\<close> bounds the
  plaintexts for which the contract is promised.
\<close>

record cipherAEAD =
  NonceSize :: nat
  Overhead :: nat
  Seal :: "bytes \<Rightarrow> bytes \<Rightarrow> bytes \<Rightarrow> bytes"
  Open :: "bytes \<Rightarrow> bytes \<Rightarrow> bytes \<Rightarrow> bytes result"

locale aead =
  fixes A :: cipherAEAD and limit :: nat
  assumes open_seal: "length n = NonceSize A \<Longrightarrow> length p \<le> limit \<Longrightarrow> Open A n (Seal A n p ad) ad = Ok p"
    and length_seal: "length p \<le> limit \<Longrightarrow> length (Seal A n p ad) = length p + Overhead A"
begin

lemma seal_inj:
  assumes "length n = NonceSize A" and "length p \<le> limit" and "length q \<le> limit"
    and "Seal A n p ad = Seal A n q ad"
  shows "p = q"
  using open_seal [OF assms(1,2)] open_seal [OF assms(1,3)] assms(4) by (metis sum.inject(2))

end

end
