(* ===== verification/Kcp_Segment.thy ===== *)
theory Kcp_Segment
  imports Buf Aead "HOL-Library.Monad_Syntax"
begin

text \<open>
  The wire format of the KCP transport: \<open>transport/internet/kcp/segment.go\<close> and the packet reader
  and writer of \<open>io.go\<close>.

  A parser runs in the option monad, where \<^const>\<open>None\<close> is a run-time panic (an index or slice out
  of range); its value is \<^const>\<open>None\<close> again for an invalid segment and \<open>Some (segment, rest)\<close>
  otherwise. \<open>payload\<close> is the content of the segment's buffer: the buffer that \<open>parse\<close> fills has
  \<^const>\<open>Size\<close> bytes of room, and \<open>Buffer.Write\<close> drops what does not fit.
\<close>

section \<open>Segments\<close>

type_synonym Command = byte
type_synonym SegmentOption = byte

definition CommandACK :: Command where "CommandACK = 0"
definition CommandData :: Command where "CommandData = 1"
definition CommandTerminate :: Command where "CommandTerminate = 2"
definition CommandPing :: Command where "CommandPing = 3"
definition SegmentOptionClose :: SegmentOption where "SegmentOptionClose = 1"
definition DataSegmentOverhead :: nat where "DataSegmentOverhead = 18"
definition ackNumberLimit :: nat where "ackNumberLimit = 128"

record DataSegment =
  DS_Conv :: uint16
  DS_Option :: SegmentOption
  DS_Timestamp :: uint32
  DS_Number :: uint32
  DS_SendingNext :: uint32
  DS_payload :: bytes
  DS_timeout :: uint32
  DS_transmit :: uint32

record AckSegment =
  AS_Conv :: uint16
  AS_Option :: SegmentOption
  AS_ReceivingWindow :: uint32
  AS_ReceivingNext :: uint32
  AS_Timestamp :: uint32
  AS_NumberList :: "uint32 list"

record CmdOnlySegment =
  CS_Conv :: uint16
  CS_Cmd :: Command
  CS_Option :: SegmentOption
  CS_SendingNext :: uint32
  CS_ReceivingNext :: uint32
  CS_PeerRTO :: uint32

datatype Segment = Data DataSegment | Ack AckSegment | CmdOnly CmdOnlySegment

fun Conversation :: "Segment \<Rightarrow> uint16" where
  "Conversation (Data s) = DS_Conv s"
| "Conversation (Ack s) = AS_Conv s"
| "Conversation (CmdOnly s) = CS_Conv s"

fun Command_of :: "Segment \<Rightarrow> Command" where
  "Command_of (Data s) = CommandData"
| "Command_of (Ack s) = CommandACK"
| "Command_of (CmdOnly s) = CS_Cmd s"

definition NewDataSegment :: DataSegment where
  "NewDataSegment = \<lparr>DS_Conv = 0, DS_Option = 0, DS_Timestamp = 0, DS_Number = 0,
     DS_SendingNext = 0, DS_payload = [], DS_timeout = 0, DS_transmit = 0\<rparr>"

definition NewAckSegment :: AckSegment where
  "NewAckSegment = \<lparr>AS_Conv = 0, AS_Option = 0, AS_ReceivingWindow = 0, AS_ReceivingNext = 0,
     AS_Timestamp = 0, AS_NumberList = []\<rparr>"

definition NewCmdOnlySegment :: CmdOnlySegment where
  "NewCmdOnlySegment = \<lparr>CS_Conv = 0, CS_Cmd = 0, CS_Option = 0, CS_SendingNext = 0,
     CS_ReceivingNext = 0, CS_PeerRTO = 0\<rparr>"

section \<open>Parsing\<close>

definition get_u8 :: "bytes \<Rightarrow> (byte \<times> bytes) option" where
  "get_u8 b = (case b of [] \<Rightarrow> None | x # r \<Rightarrow> Some (x, r))"

definition get_u16 :: "bytes \<Rightarrow> (uint16 \<times> bytes) option" where
  "get_u16 b = (if length b < 2 then None else Some (be_val (take 2 b), drop 2 b))"

definition get_u32 :: "bytes \<Rightarrow> (uint32 \<times> bytes) option" where
  "get_u32 b = (if length b < 4 then None else Some (be_val (take 4 b), drop 4 b))"

definition DataSegment_parse ::
    "uint16 \<Rightarrow> Command \<Rightarrow> SegmentOption \<Rightarrow> bytes \<Rightarrow> (DataSegment \<times> bytes) option option" where
  "DataSegment_parse conv cmd opt b =
     (if length b < 15 then Some None
      else do {
        (timestamp, b) \<leftarrow> get_u32 b;
        (number, b) \<leftarrow> get_u32 b;
        (sendingNext, b) \<leftarrow> get_u32 b;
        (dataLen, b) \<leftarrow> get_u16 b;
        if length b < unat dataLen then Some None
        else Some (Some (NewDataSegment\<lparr>DS_Conv := conv, DS_Option := opt, DS_Timestamp := timestamp,
               DS_Number := number, DS_SendingNext := sendingNext,
               DS_payload := take Size (take (unat dataLen) b)\<rparr>, drop (unat dataLen) b))
      })"

fun get_numbers :: "nat \<Rightarrow> bytes \<Rightarrow> (uint32 list \<times> bytes) option" where
  "get_numbers 0 b = Some ([], b)"
| "get_numbers (Suc k) b = do {
     (n, b) \<leftarrow> get_u32 b;
     (ns, b) \<leftarrow> get_numbers k b;
     Some (n # ns, b)
   }"

definition AckSegment_parse ::
    "uint16 \<Rightarrow> Command \<Rightarrow> SegmentOption \<Rightarrow> bytes \<Rightarrow> (AckSegment \<times> bytes) option option" where
  "AckSegment_parse conv cmd opt b =
     (if length b < 13 then Some None
      else do {
        (receivingWindow, b) \<leftarrow> get_u32 b;
        (receivingNext, b) \<leftarrow> get_u32 b;
        (timestamp, b) \<leftarrow> get_u32 b;
        (count, b) \<leftarrow> get_u8 b;
        if length b < unat count * 4 then Some None
        else do {
          (numbers, b) \<leftarrow> get_numbers (unat count) b;
          Some (Some (\<lparr>AS_Conv = conv, AS_Option = opt, AS_ReceivingWindow = receivingWindow,
                 AS_ReceivingNext = receivingNext, AS_Timestamp = timestamp,
                 AS_NumberList = numbers\<rparr>, b))
        }
      })"

definition CmdOnlySegment_parse ::
    "uint16 \<Rightarrow> Command \<Rightarrow> SegmentOption \<Rightarrow> bytes \<Rightarrow> (CmdOnlySegment \<times> bytes) option option" where
  "CmdOnlySegment_parse conv cmd opt b =
     (if length b < 12 then Some None
      else do {
        (sendingNext, b) \<leftarrow> get_u32 b;
        (receivingNext, b) \<leftarrow> get_u32 b;
        (peerRTO, b) \<leftarrow> get_u32 b;
        Some (Some (\<lparr>CS_Conv = conv, CS_Cmd = cmd, CS_Option = opt, CS_SendingNext = sendingNext,
               CS_ReceivingNext = receivingNext, CS_PeerRTO = peerRTO\<rparr>, b))
      })"

definition ReadSegment :: "bytes \<Rightarrow> (Segment \<times> bytes) option option" where
  "ReadSegment b =
     (if length b < 4 then Some None
      else do {
        (conv, b) \<leftarrow> get_u16 b;
        (cmd, b) \<leftarrow> get_u8 b;
        (opt, b) \<leftarrow> get_u8 b;
        if cmd = CommandData then
          map_option (map_option (map_prod Data id)) (DataSegment_parse conv cmd opt b)
        else if cmd = CommandACK then
          map_option (map_option (map_prod Ack id)) (AckSegment_parse conv cmd opt b)
        else
          map_option (map_option (map_prod CmdOnly id)) (CmdOnlySegment_parse conv cmd opt b)
      })"

section \<open>Serialising\<close>

definition DataSegment_Serialize :: "DataSegment \<Rightarrow> bytes" where
  "DataSegment_Serialize s =
     be_bytes 2 (DS_Conv s) @ [CommandData, DS_Option s] @ be_bytes 4 (DS_Timestamp s)
     @ be_bytes 4 (DS_Number s) @ be_bytes 4 (DS_SendingNext s)
     @ be_bytes 2 (word_of_nat (length (DS_payload s)) :: uint16) @ DS_payload s"

definition AckSegment_Serialize :: "AckSegment \<Rightarrow> bytes" where
  "AckSegment_Serialize s =
     be_bytes 2 (AS_Conv s) @ [CommandACK, AS_Option s] @ be_bytes 4 (AS_ReceivingWindow s)
     @ be_bytes 4 (AS_ReceivingNext s) @ be_bytes 4 (AS_Timestamp s)
     @ [word_of_nat (length (AS_NumberList s))] @ concat (map (be_bytes 4) (AS_NumberList s))"

definition CmdOnlySegment_Serialize :: "CmdOnlySegment \<Rightarrow> bytes" where
  "CmdOnlySegment_Serialize s =
     be_bytes 2 (CS_Conv s) @ [CS_Cmd s, CS_Option s] @ be_bytes 4 (CS_SendingNext s)
     @ be_bytes 4 (CS_ReceivingNext s) @ be_bytes 4 (CS_PeerRTO s)"

fun Serialize :: "Segment \<Rightarrow> bytes" where
  "Serialize (Data s) = DataSegment_Serialize s"
| "Serialize (Ack s) = AckSegment_Serialize s"
| "Serialize (CmdOnly s) = CmdOnlySegment_Serialize s"

fun ByteSize :: "Segment \<Rightarrow> nat" where
  "ByteSize (Data s) = 2 + 1 + 1 + 4 + 4 + 4 + 2 + length (DS_payload s)"
| "ByteSize (Ack s) = 2 + 1 + 1 + 4 + 4 + 4 + 1 + length (AS_NumberList s) * 4"
| "ByteSize (CmdOnly s) = 2 + 1 + 1 + 4 + 4 + 4"

section \<open>Acknowledgement segments\<close>

definition PutTimestamp :: "uint32 \<Rightarrow> AckSegment \<Rightarrow> AckSegment" where
  "PutTimestamp timestamp s =
     (if timestamp - AS_Timestamp s < 0x7FFFFFFF then s\<lparr>AS_Timestamp := timestamp\<rparr> else s)"

definition PutNumber :: "uint32 \<Rightarrow> AckSegment \<Rightarrow> AckSegment" where
  "PutNumber number s = s\<lparr>AS_NumberList := AS_NumberList s @ [number]\<rparr>"

definition Ack_IsFull :: "AckSegment \<Rightarrow> bool" where
  "Ack_IsFull s \<longleftrightarrow> length (AS_NumberList s) = ackNumberLimit"

definition Ack_IsEmpty :: "AckSegment \<Rightarrow> bool" where
  "Ack_IsEmpty s \<longleftrightarrow> length (AS_NumberList s) = 0"

section \<open>Lemmas on parsing\<close>

lemma get_u8_Cons [wire_simps]: "get_u8 (x # r) = Some (x, r)"
  by (simp add: get_u8_def)

lemma get_u16_append [wire_simps]: "get_u16 (be_bytes 2 w @ r) = Some (w, r)"
  by (simp add: get_u16_def)

lemma get_u32_append [wire_simps]: "get_u32 (be_bytes 4 w @ r) = Some (w, r)"
  by (simp add: get_u32_def)

lemma get_numbers_append [wire_simps]:
  "get_numbers (length ns) (concat (map (be_bytes 4) ns) @ r) = Some (ns, r)"
  by (induction ns) (simp_all add: wire_simps)

lemma length_concat_be4 [simp]: "length (concat (map (be_bytes 4) ns)) = 4 * length ns"
  by (induction ns) auto

lemma get_u8_Some: "i < length b \<Longrightarrow> \<exists>x. get_u8 (drop i b) = Some (x, drop (Suc i) b)"
  by (auto simp: get_u8_def Cons_nth_drop_Suc [symmetric])

lemma get_u16_Some: "i + 2 \<le> length b \<Longrightarrow> \<exists>x. get_u16 (drop i b) = Some (x, drop (i + 2) b)"
  by (auto simp: get_u16_def add.commute)

lemma get_u32_Some: "i + 4 \<le> length b \<Longrightarrow> \<exists>x. get_u32 (drop i b) = Some (x, drop (i + 4) b)"
  by (auto simp: get_u32_def add.commute)

lemma get_numbers_Some: "4 * k \<le> length b \<Longrightarrow> \<exists>ns. get_numbers k b = Some (ns, drop (4 * k) b)"
proof (induction k arbitrary: b)
  case 0
  then show ?case by simp
next
  case (Suc k)
  then obtain x where "get_u32 b = Some (x, drop 4 b)"
    using get_u32_Some [of 0 b] by auto
  moreover have "4 * k \<le> length (drop 4 b)"
    using Suc.prems by simp
  from Suc.IH [OF this]
  obtain ns where "get_numbers k (drop 4 b) = Some (ns, drop (4 * k) (drop 4 b))" ..
  ultimately show ?case by (simp add: add.commute)
qed

text \<open>A valid parse consumes at least its fixed part, and no parser panics.\<close>

lemma DataSegment_parse_cases:
  "DataSegment_parse conv cmd opt b = Some None \<or>
   (\<exists>s r. DataSegment_parse conv cmd opt b = Some (Some (s, r)) \<and> length r < length b
      \<and> DS_Conv s = conv \<and> length (DS_payload s) \<le> Size)"
proof (cases "length b < 15")
  case True
  then show ?thesis by (simp add: DataSegment_parse_def)
next
  case False
  then obtain t n sn dl where
      g: "get_u32 b = Some (t, drop 4 b)" "get_u32 (drop 4 b) = Some (n, drop 8 b)"
        "get_u32 (drop 8 b) = Some (sn, drop 12 b)" "get_u16 (drop 12 b) = Some (dl, drop 14 b)"
    using get_u32_Some [of 0 b] get_u32_Some [of 4 b] get_u32_Some [of 8 b] get_u16_Some [of 12 b]
    by (simp add: not_less) blast
  show ?thesis
    using False g by (auto simp: DataSegment_parse_def NewDataSegment_def)
qed

lemma AckSegment_parse_cases:
  "AckSegment_parse conv cmd opt b = Some None \<or>
   (\<exists>s r. AckSegment_parse conv cmd opt b = Some (Some (s, r)) \<and> length r < length b
      \<and> AS_Conv s = conv)"
proof (cases "length b < 13")
  case True
  then show ?thesis by (simp add: AckSegment_parse_def)
next
  case False
  then obtain w n t c where
      g: "get_u32 b = Some (w, drop 4 b)" "get_u32 (drop 4 b) = Some (n, drop 8 b)"
        "get_u32 (drop 8 b) = Some (t, drop 12 b)" "get_u8 (drop 12 b) = Some (c, drop 13 b)"
    using get_u32_Some [of 0 b] get_u32_Some [of 4 b] get_u32_Some [of 8 b] get_u8_Some [of 12 b]
    by (simp add: not_less) blast
  show ?thesis
  proof (cases "length (drop 13 b) < unat c * 4")
    case True
    then show ?thesis using False g by (simp add: AckSegment_parse_def)
  next
    case inner: False
    then obtain ns where "get_numbers (unat c) (drop 13 b) = Some (ns, drop (4 * unat c) (drop 13 b))"
      using get_numbers_Some [of "unat c" "drop 13 b"] by auto
    then show ?thesis
      using False inner g by (simp add: AckSegment_parse_def)
  qed
qed

lemma CmdOnlySegment_parse_cases:
  "CmdOnlySegment_parse conv cmd opt b = Some None \<or>
   (\<exists>s r. CmdOnlySegment_parse conv cmd opt b = Some (Some (s, r)) \<and> length r < length b
      \<and> CS_Conv s = conv)"
proof (cases "length b < 12")
  case True
  then show ?thesis by (simp add: CmdOnlySegment_parse_def)
next
  case False
  then obtain n m r where
      g: "get_u32 b = Some (n, drop 4 b)" "get_u32 (drop 4 b) = Some (m, drop 8 b)"
        "get_u32 (drop 8 b) = Some (r, drop 12 b)"
    using get_u32_Some [of 0 b] get_u32_Some [of 4 b] get_u32_Some [of 8 b]
    by (simp add: not_less) blast
  show ?thesis
    using False g by (auto simp: CmdOnlySegment_parse_def)
qed

lemma ReadSegment_cases:
  "ReadSegment b = Some None \<or>
   (\<exists>s r. ReadSegment b = Some (Some (s, r)) \<and> length r < length b)"
proof (cases "length b < 4")
  case True
  then show ?thesis by (simp add: ReadSegment_def)
next
  case False
  then obtain conv cmd opt where
      g: "get_u16 b = Some (conv, drop 2 b)" "get_u8 (drop 2 b) = Some (cmd, drop 3 b)"
        "get_u8 (drop 3 b) = Some (opt, drop 4 b)"
    using get_u16_Some [of 0 b] get_u8_Some [of 2 b] get_u8_Some [of 3 b]
    by (simp add: not_less eval_nat_numeral) blast
  show ?thesis
    using False g DataSegment_parse_cases [of conv cmd opt "drop 4 b"]
      AckSegment_parse_cases [of conv cmd opt "drop 4 b"]
      CmdOnlySegment_parse_cases [of conv cmd opt "drop 4 b"]
    by (auto simp: ReadSegment_def)
qed

section \<open>Packets\<close>

text \<open>The loop of \<open>KCPPacketReader.Read\<close>: it stops at the first segment that does not parse.\<close>

function readSegments :: "bytes \<Rightarrow> Segment list option" where
  "readSegments b =
     (if b = [] then Some []
      else case ReadSegment b of
             None \<Rightarrow> None
           | Some None \<Rightarrow> Some []
           | Some (Some (seg, x)) \<Rightarrow> map_option ((#) seg) (readSegments x))"
  by pat_completeness auto
termination
proof (relation "measure length")
  fix b x2 x2a x y
  assume "ReadSegment b = Some x2" and "x2 = Some x2a" and "(x, y) = x2a"
  then show "(y, b) \<in> measure length"
    using ReadSegment_cases [of b] by auto
qed simp

declare readSegments.simps [simp del]

text \<open>
  The packet header is external (\<open>internet.PacketHeader\<close>); the reader uses its size, the writer
  its bytes. The writer assembles the packet in one buffer of \<^const>\<open>Size\<close> bytes; \<open>nonce\<close> is
  what the random source delivers.
\<close>

definition openSegments :: "cipherAEAD option \<Rightarrow> bytes \<Rightarrow> Segment list option" where
  "openSegments security b =
     (case security of
        None \<Rightarrow> readSegments b
      | Some A \<Rightarrow>
          if length b \<le> NonceSize A + Overhead A then Some []
          else case Open A (take (NonceSize A) b) (drop (NonceSize A) b) [] of
                 Inl e \<Rightarrow> Some []
               | Inr out \<Rightarrow> readSegments out)"

definition KCPPacketReader_Read :: "nat option \<Rightarrow> cipherAEAD option \<Rightarrow> bytes \<Rightarrow> Segment list option" where
  "KCPPacketReader_Read header security b =
     (case header of
        Some h \<Rightarrow> if length b \<le> h then Some [] else openSegments security (drop h b)
      | None \<Rightarrow> openSegments security b)"

text \<open>
  \<open>Write\<close> discards the slice that \<open>Seal\<close> returns and sends what \<open>Seal\<close> has left in the array behind
  \<open>encrypted[:0]\<close>. With each AEAD comes therefore what that array holds after a call, for the
  capacity that the slice has.
\<close>

type_synonym sealInto = "nat \<Rightarrow> bytes \<Rightarrow> bytes \<Rightarrow> bytes \<Rightarrow> bytes"

definition KCPPacketWriter_Overhead :: "bytes option \<Rightarrow> cipherAEAD option \<Rightarrow> nat" where
  "KCPPacketWriter_Overhead header security =
     (case header of Some h \<Rightarrow> length h | None \<Rightarrow> 0)
     + (case security of Some A \<Rightarrow> Overhead A | None \<Rightarrow> 0)"

definition KCPPacketWriter_Write ::
    "bytes option \<Rightarrow> (cipherAEAD \<times> sealInto) option \<Rightarrow> bytes \<Rightarrow> bytes \<Rightarrow> bytes result" where
  "KCPPacketWriter_Write header security nonce b =
     (let h = (case header of Some h \<Rightarrow> h | None \<Rightarrow> []) in
      if Size < length h then Err (Panic ''extending out of bound'')
      else case security of
             None \<Rightarrow> Ok (h @ take (Size - length h) b)
           | Some (A, seal) \<Rightarrow>
               if Size < length h + NonceSize A then Err (Panic ''out of bound: '')
               else if Size < length h + NonceSize A + (Overhead A + length b)
                 then Err (Panic ''extending out of bound'')
               else Ok (h @ nonce @ seal (Size - (length h + NonceSize A)) nonce b []))"

section \<open>Round trips\<close>

text \<open>
  The segments whose wire form determines them: a data segment with a payload that is not empty
  and fits in a buffer (its retransmission state is not on the wire), an acknowledgement whose
  count fits in a byte, a command that is neither data nor acknowledgement.
\<close>

fun wire_Segment :: "Segment \<Rightarrow> bool" where
  "wire_Segment (Data s) \<longleftrightarrow> DS_payload s \<noteq> [] \<and> length (DS_payload s) \<le> Size
     \<and> DS_timeout s = 0 \<and> DS_transmit s = 0"
| "wire_Segment (Ack s) \<longleftrightarrow> length (AS_NumberList s) \<le> 255"
| "wire_Segment (CmdOnly s) \<longleftrightarrow> CS_Cmd s \<noteq> CommandData \<and> CS_Cmd s \<noteq> CommandACK"

lemma length_Serialize: "length (Serialize s) = ByteSize s"
  by (cases s) (auto simp: DataSegment_Serialize_def AckSegment_Serialize_def CmdOnlySegment_Serialize_def)

lemma ReadSegment_Serialize_Data:
  assumes "wire_Segment (Data s)"
  shows "ReadSegment (DataSegment_Serialize s @ r) = Some (Some (Data s, r))"
proof -
  have "unat (word_of_nat (length (DS_payload s)) :: uint16) = length (DS_payload s)"
    using assms by (simp add: unat_of_nat take_bit_nat_eq_self Size_def)
  moreover have "1 \<le> length (DS_payload s)"
    using assms by (cases "DS_payload s") auto
  ultimately show ?thesis
    using assms
    by (simp add: ReadSegment_def DataSegment_Serialize_def DataSegment_parse_def NewDataSegment_def
        wire_simps CommandData_def)
qed

lemma ReadSegment_Serialize_Ack:
  assumes "wire_Segment (Ack s)"
  shows "ReadSegment (AckSegment_Serialize s @ r) = Some (Some (Ack s, r))"
proof -
  have "unat (word_of_nat (length (AS_NumberList s)) :: byte) = length (AS_NumberList s)"
    using assms by (simp add: unat_of_nat take_bit_nat_eq_self)
  then show ?thesis
    by (simp add: ReadSegment_def AckSegment_Serialize_def AckSegment_parse_def wire_simps
        CommandData_def CommandACK_def)
qed

lemma ReadSegment_Serialize_CmdOnly:
  assumes "wire_Segment (CmdOnly s)"
  shows "ReadSegment (CmdOnlySegment_Serialize s @ r) = Some (Some (CmdOnly s, r))"
  using assms by (simp add: ReadSegment_def CmdOnlySegment_Serialize_def CmdOnlySegment_parse_def wire_simps)

lemma ReadSegment_Serialize_append:
  "wire_Segment s \<Longrightarrow> ReadSegment (Serialize s @ r) = Some (Some (s, r))"
  by (cases s) (simp_all add: ReadSegment_Serialize_Data ReadSegment_Serialize_Ack
      ReadSegment_Serialize_CmdOnly del: wire_Segment.simps)

lemma readSegments_total: "\<exists>segs. readSegments b = Some segs"
proof (induction b rule: readSegments.induct)
  case (1 b)
  show ?case
    using ReadSegment_cases [of b] "1.IH" by (auto simp: readSegments.simps [of b])
qed

lemma Serialize_not_Nil: "Serialize s \<noteq> []"
  using length_Serialize [of s] by (cases s) auto

lemma readSegments_Serialize:
  "list_all wire_Segment segs \<Longrightarrow> readSegments (concat (map Serialize segs)) = Some segs"
  by (induction segs)
    (simp_all add: readSegments.simps [of "[]"] readSegments.simps [of "Serialize _ @ _"]
      ReadSegment_Serialize_append Serialize_not_Nil)

text \<open>Packets through any AEAD that keeps its contract.\<close>

context aead
begin

lemma packet_roundtrip:
  assumes "list_all wire_Segment segs" and "segs \<noteq> []"
    and "length (concat (map Serialize segs)) \<le> limit"
    and "length h + NonceSize A + (Overhead A + length (concat (map Serialize segs))) \<le> Size"
    and "length nonce = NonceSize A"
    and "seal (Size - (length h + NonceSize A)) nonce (concat (map Serialize segs)) [] = Seal A nonce (concat (map Serialize segs)) []"
  shows "\<exists>p. KCPPacketWriter_Write (Some h) (Some (A, seal)) nonce (concat (map Serialize segs)) = Ok p
    \<and> KCPPacketReader_Read (Some (length h)) (Some A) p = Some segs"
proof -
  let ?b = "concat (map Serialize segs)"
  have "0 < length ?b"
    using assms(2) Serialize_not_Nil by (cases segs) auto
  then show ?thesis
    using assms open_seal [OF assms(5,3)] length_seal [OF assms(3)]
    by (auto simp: KCPPacketWriter_Write_def KCPPacketReader_Read_def openSegments_def
        readSegments_Serialize)
qed

end

section \<open>Properties\<close>

text \<open>
  C25. Parsing a datagram from the network is safe: no input makes \<open>ReadSegment\<close> index out of range,
  a parsed segment consumes at least one byte, and therefore the reader's loop always ends.
\<close>

theorem ReadSegment_safe:
  "(ReadSegment b = Some None \<or> (\<exists>s r. ReadSegment b = Some (Some (s, r)) \<and> length r < length b))
   \<and> (\<exists>segs. readSegments b = Some segs)"
  using ReadSegment_cases readSegments_total by blast

text \<open>
  C26. What is serialised is what is parsed: a packet made of any sequence of well-formed segments
  is read back as exactly that sequence, and each segment takes \<open>ByteSize\<close> bytes.
\<close>

theorem segments_roundtrip:
  assumes "list_all wire_Segment segs"
  shows "readSegments (concat (map Serialize segs)) = Some segs
    \<and> length (concat (map Serialize segs)) = sum_list (map ByteSize segs)"
  using readSegments_Serialize [OF assms] by (simp add: length_concat comp_def length_Serialize)

theorem segments_roundtrip_witness:
  "readSegments (concat (map Serialize
     [Data (NewDataSegment\<lparr>DS_Number := 5, DS_payload := [1, 2]\<rparr>), Ack (NewAckSegment\<lparr>AS_NumberList := [7, 9]\<rparr>)]))
   = Some [Data (NewDataSegment\<lparr>DS_Number := 5, DS_payload := [1, 2]\<rparr>), Ack (NewAckSegment\<lparr>AS_NumberList := [7, 9]\<rparr>)]"
  using segments_roundtrip [of "[Data (NewDataSegment\<lparr>DS_Number := 5, DS_payload := [1, 2]\<rparr>),
      Ack (NewAckSegment\<lparr>AS_NumberList := [7, 9]\<rparr>)]"]
  by (simp add: NewDataSegment_def NewAckSegment_def Size_def ackNumberLimit_def)

end
