(* ===== verification/Kcp_RoundTrip.thy ===== *)
theory Kcp_RoundTrip
  imports Prelude
begin

text \<open>
  KCP configuration values (\<open>transport/internet/kcp/config.go\<close>) and the round-trip estimator
  (\<open>RoundTripInfo\<close> of \<open>connection.go\<close>), in 32-bit arithmetic. A nil sub-message of the
  configuration is \<^const>\<open>None\<close>; an integer division by zero is a panic.
\<close>

section \<open>Configuration\<close>

record Config =
  Mtu :: "uint32 option"
  Tti :: "uint32 option"
  UplinkCapacity :: "uint32 option"
  DownlinkCapacity :: "uint32 option"
  Congestion :: bool
  WriteBuffer :: "uint32 option"
  ReadBuffer :: "uint32 option"

definition value_or :: "uint32 \<Rightarrow> uint32 option \<Rightarrow> uint32" where
  "value_or d x = (case x of None \<Rightarrow> d | Some v \<Rightarrow> v)"

definition GetMTUValue :: "Config \<Rightarrow> uint32" where "GetMTUValue c = value_or 1350 (Mtu c)"
definition GetTTIValue :: "Config \<Rightarrow> uint32" where "GetTTIValue c = value_or 50 (Tti c)"
definition GetUplinkCapacityValue :: "Config \<Rightarrow> uint32" where
  "GetUplinkCapacityValue c = value_or 5 (UplinkCapacity c)"
definition GetDownlinkCapacityValue :: "Config \<Rightarrow> uint32" where
  "GetDownlinkCapacityValue c = value_or 20 (DownlinkCapacity c)"
definition GetWriteBufferSize :: "Config \<Rightarrow> uint32" where
  "GetWriteBufferSize c = value_or (2 * 1024 * 1024) (WriteBuffer c)"
definition GetReadBufferSize :: "Config \<Rightarrow> uint32" where
  "GetReadBufferSize c = value_or (2 * 1024 * 1024) (ReadBuffer c)"

definition go_div :: "uint32 \<Rightarrow> uint32 \<Rightarrow> uint32 result" where
  "go_div a b = (if b = 0 then Err (Panic ''integer divide by zero'') else Ok (a div b))"

definition inFlightSize :: "uint32 \<Rightarrow> Config \<Rightarrow> uint32 result" where
  "inFlightSize capacity c =
     (case go_div (capacity * 1024 * 1024) (GetMTUValue c) of
        Inl e \<Rightarrow> Err e
      | Inr q \<Rightarrow>
          (case go_div 1000 (GetTTIValue c) of
             Inl e \<Rightarrow> Err e
           | Inr d \<Rightarrow>
               (case go_div q d of Inl e \<Rightarrow> Err e | Inr sz \<Rightarrow> Ok (if sz < 8 then 8 else sz))))"

definition GetSendingInFlightSize :: "Config \<Rightarrow> uint32 result" where
  "GetSendingInFlightSize c = inFlightSize (GetUplinkCapacityValue c) c"

definition GetSendingBufferSize :: "Config \<Rightarrow> uint32 result" where
  "GetSendingBufferSize c = go_div (GetWriteBufferSize c) (GetMTUValue c)"

definition GetReceivingInFlightSize :: "Config \<Rightarrow> uint32 result" where
  "GetReceivingInFlightSize c = inFlightSize (GetDownlinkCapacityValue c) c"

definition GetReceivingBufferSize :: "Config \<Rightarrow> uint32 result" where
  "GetReceivingBufferSize c = go_div (GetReadBufferSize c) (GetMTUValue c)"

section \<open>RoundTripInfo\<close>

record RoundTripInfo =
  rt_variation :: uint32
  rt_srtt :: uint32
  rt_rto :: uint32
  rt_minRtt :: uint32
  rt_updatedTimestamp :: uint32

definition UpdatePeerRTO :: "uint32 \<Rightarrow> uint32 \<Rightarrow> RoundTripInfo \<Rightarrow> RoundTripInfo" where
  "UpdatePeerRTO rto current info =
     (if current - rt_updatedTimestamp info < 3000 then info
      else info\<lparr>rt_updatedTimestamp := current, rt_rto := rto\<rparr>)"

definition Update :: "uint32 \<Rightarrow> uint32 \<Rightarrow> RoundTripInfo \<Rightarrow> RoundTripInfo" where
  "Update rtt current info =
     (if rtt > 0x7FFFFFFF then info
      else
        let srtt0 = rt_srtt info;
            delta = (if srtt0 > rtt then srtt0 - rtt else rtt - srtt0);
            variation = (if srtt0 = 0 then rtt div 2 else (3 * rt_variation info + delta) div 4);
            smoothed = (7 * srtt0 + rtt) div 8;
            srtt = (if srtt0 = 0 then rtt
                    else if smoothed < rt_minRtt info then rt_minRtt info else smoothed);
            rto = (if rt_minRtt info < 4 * variation then srtt + 4 * variation else srtt + variation);
            rto' = (if rto > 10000 then 10000 else rto) in
        info\<lparr>rt_srtt := srtt, rt_variation := variation, rt_rto := rto' * 5 div 4,
             rt_updatedTimestamp := current\<rparr>)"

definition Timeout :: "RoundTripInfo \<Rightarrow> uint32" where "Timeout info = rt_rto info"

definition SmoothedTime :: "RoundTripInfo \<Rightarrow> uint32" where "SmoothedTime info = rt_srtt info"

section \<open>Lemmas\<close>

lemma inFlightSize_ge: "inFlightSize cap c = Ok sz \<Longrightarrow> 8 \<le> sz"
  by (auto simp: inFlightSize_def split: sum.splits if_splits)

lemma inFlightSize_Ok:
  assumes "GetMTUValue c \<noteq> 0" and "GetTTIValue c \<noteq> 0" and "GetTTIValue c \<le> 1000"
  shows "\<exists>sz. inFlightSize cap c = Ok sz"
proof -
  have t: "0 < unat (GetTTIValue c)" "unat (GetTTIValue c) \<le> 1000"
    using assms(2,3) by (auto simp: unat_gt_0 word_le_nat_alt)
  have "1000 div GetTTIValue c \<noteq> 0"
  proof
    assume "1000 div GetTTIValue c = 0"
    then have "unat (1000 div GetTTIValue c) = 0" by simp
    then have "1000 div unat (GetTTIValue c) = 0" by (simp add: unat_div_distrib)
    with t show False by (simp add: div_eq_0_iff)
  qed
  then show ?thesis
    using assms by (simp add: inFlightSize_def go_div_def)
qed

lemma unat_rto: "r \<le> 10000 \<Longrightarrow> unat ((r :: uint32) * 5 div 4) \<le> 12500"
proof -
  assume "r \<le> 10000"
  then have "unat r \<le> 10000" by (simp add: word_le_nat_alt)
  moreover from this have "unat (r * 5) = unat r * 5"
    by (simp add: unat_word_ariths)
  ultimately show ?thesis by (simp add: unat_div_distrib)
qed

lemma Update_rto_bound:
  assumes "rtt \<le> 0x7FFFFFFF"
  shows "unat (rt_rto (Update rtt current info)) \<le> 12500"
  using assms unat_rto by (auto simp: Update_def Let_def not_less not_le)

text \<open>The estimates stay below ten seconds, so none of the sums of \<open>Update\<close> wraps around.\<close>

definition rtt_inv :: "RoundTripInfo \<Rightarrow> bool" where
  "rtt_inv info \<longleftrightarrow> unat (rt_srtt info) \<le> 10000 \<and> unat (rt_variation info) \<le> 10000
     \<and> unat (rt_minRtt info) \<le> 10000"

lemma Update_rtt_inv:
  assumes "rtt_inv info" and "unat rtt < 10000"
  shows "rtt_inv (Update rtt current info)"
    and "rt_srtt info \<noteq> 0 \<Longrightarrow>
      unat (rt_srtt (Update rtt current info))
        = max (unat (rt_minRtt info)) ((7 * unat (rt_srtt info) + unat rtt) div 8)"
proof -
  note b = assms [unfolded rtt_inv_def]
  have sm: "unat (7 * rt_srtt info + rtt) = 7 * unat (rt_srtt info) + unat rtt"
    using b by (simp add: unat_word_ariths)
  have va: "unat (3 * rt_variation info + d) = 3 * unat (rt_variation info) + unat d"
    if "unat d \<le> 10000" for d
    using b that by (simp add: unat_word_ariths)
  have d1: "unat (rt_srtt info - rtt) \<le> 10000" if "rtt < rt_srtt info"
    using b that unat_sub [OF less_imp_le [OF that]] by auto
  have d2: "unat (rtt - rt_srtt info) \<le> 10000" if "\<not> rtt < rt_srtt info"
    using b assms(2) that unat_sub [of "rt_srtt info" rtt] by (auto simp: not_less)
  have r: "\<not> rtt > 0x7FFFFFFF"
    using assms(2) by (simp add: word_less_nat_alt)
  show "rtt_inv (Update rtt current info)"
    using b r sm va d1 d2
    by (auto simp: Update_def Let_def rtt_inv_def unat_div_distrib)
  show "unat (rt_srtt (Update rtt current info))
      = max (unat (rt_minRtt info)) ((7 * unat (rt_srtt info) + unat rtt) div 8)"
    if "rt_srtt info \<noteq> 0"
    using that r sm by (auto simp: Update_def Let_def unat_div_distrib word_less_nat_alt)
qed

section \<open>Properties\<close>

text \<open>What happens to the estimate: a measurement with \<open>Update\<close>, a timeout sent by the peer with \<open>UpdatePeerRTO\<close>.\<close>

datatype rtt_event = Measured uint32 uint32 | PeerTimeout uint32 uint32

fun rtt_step :: "rtt_event \<Rightarrow> RoundTripInfo \<Rightarrow> RoundTripInfo" where
  "rtt_step (Measured rtt current) info = Update rtt current info"
| "rtt_step (PeerTimeout rto current) info = UpdatePeerRTO rto current info"

lemma rtt_run:
  assumes "rtt_inv info" and "\<forall>rtt current. Measured rtt current \<in> set evs \<longrightarrow> unat rtt < 10000"
    and "12500 \<le> bound" and "unat (rt_rto info) \<le> bound" and "\<forall>rto current. PeerTimeout rto current \<in> set evs \<longrightarrow> unat rto \<le> bound"
  shows "rtt_inv (fold rtt_step evs info) \<and> unat (rt_rto (fold rtt_step evs info)) \<le> bound"
  using assms
proof (induction evs arbitrary: info)
  case (Cons ev evs)
  show ?case
  proof (cases ev)
    case (Measured rtt current)
    then have "unat rtt < 10000"
      using Cons.prems(2) by simp
    moreover from this have "rtt \<le> 0x7FFFFFFF"
      by (simp add: word_le_nat_alt)
    ultimately have "rtt_inv (Update rtt current info)" "unat (rt_rto (Update rtt current info)) \<le> bound"
      using Update_rtt_inv(1) [OF Cons.prems(1)] Update_rto_bound [of rtt current info] Cons.prems(3) by simp_all
    then have "rtt_inv (fold rtt_step evs (Update rtt current info)) \<and> unat (rt_rto (fold rtt_step evs (Update rtt current info))) \<le> bound"
      by (intro Cons.IH) (use Cons.prems(2,3,5) in auto)
    then show ?thesis
      using Measured by simp
  next
    case (PeerTimeout rto current)
    then have "rtt_inv (UpdatePeerRTO rto current info)" "unat (rt_rto (UpdatePeerRTO rto current info)) \<le> bound"
      using Cons.prems by (simp_all add: UpdatePeerRTO_def rtt_inv_def)
    then have "rtt_inv (fold rtt_step evs (UpdatePeerRTO rto current info))
        \<and> unat (rt_rto (fold rtt_step evs (UpdatePeerRTO rto current info))) \<le> bound"
      by (intro Cons.IH) (use Cons.prems(2,3,5) in auto)
    then show ?thesis
      using PeerTimeout by simp
  qed
qed simp

text \<open>
  C27. Bounds of the round-trip estimate. After any sequence of measurements below ten seconds and of
  timeouts sent by the peer, the retransmission timeout is at most 12.5 seconds, or what it was at
  the start, or the largest timeout the peer has sent, which the code takes over unchecked. A further
  measurement below ten seconds brings it to at most 12.5 seconds, and the smoothed time is then the exact
  weighted mean, at least the configured minimum: no 32-bit operation wraps around.
\<close>

theorem rto_bounded:
  assumes "rtt_inv info" and "\<forall>rtt current. Measured rtt current \<in> set evs \<longrightarrow> unat rtt < 10000"
    and "12500 \<le> bound" and "unat (rt_rto info) \<le> bound" and "\<forall>rto current. PeerTimeout rto current \<in> set evs \<longrightarrow> unat rto \<le> bound"
    and "info' = fold rtt_step evs info" and "unat rtt < 10000"
  shows "unat (rt_rto info') \<le> bound \<and> unat (rt_rto (Update rtt current info')) \<le> 12500 \<and> rtt_inv (Update rtt current info')
    \<and> (rt_srtt info' \<noteq> 0 \<longrightarrow> unat (rt_srtt (Update rtt current info'))
         = max (unat (rt_minRtt info')) ((7 * unat (rt_srtt info') + unat rtt) div 8))"
proof -
  have run: "rtt_inv info'" "unat (rt_rto info') \<le> bound"
    using rtt_run [OF assms(1-5)] assms(6) by simp_all
  have "rtt \<le> 0x7FFFFFFF"
    using assms(7) by (simp add: word_le_nat_alt)
  then show ?thesis
    using run(2) Update_rto_bound Update_rtt_inv [OF run(1) assms(7)] by blast
qed

theorem rto_bounded_witness:
  "let info = \<lparr>rt_variation = 10, rt_srtt = 100, rt_rto = 100, rt_minRtt = 50, rt_updatedTimestamp = 0\<rparr>;
       info' = fold rtt_step [PeerTimeout 60000 5000] info in
   rt_rto info' = 60000 \<and> unat (rt_rto (Update 180 7 info')) \<le> 12500 \<and> unat (rt_srtt (Update 180 7 info')) = 110"
proof -
  let ?info = "\<lparr>rt_variation = 10, rt_srtt = 100, rt_rto = 100, rt_minRtt = 50, rt_updatedTimestamp = 0\<rparr>"
  have "rtt_inv ?info"
    by (simp add: rtt_inv_def)
  from rto_bounded [OF this, of "[PeerTimeout 60000 5000]" 60000 _ 180 7, OF _ _ _ _ refl] show ?thesis
    by (simp add: Let_def UpdatePeerRTO_def)
qed

end
