(* ===== verification/Kcp_Sending.thy ===== *)
theory Kcp_Sending
  imports Kcp_Segment Kcp_RoundTrip
begin

text \<open>
  The sending side of a KCP connection: \<open>transport/internet/kcp/sending.go\<close>.

  The window's linked list is a list of segments, front first. \<open>Visit\<close> with a visitor that
  changes segments and may stop early is a recursion over the list. What the connection's fields
  contribute (conversation, configuration, state, round-trip estimator) is passed as an argument;
  \<open>Flush\<close> returns the segments it hands to the writer.

  The lemmas show that the window stays an increasing sequence of numbers below \<open>nextNumber\<close>
  within its bound, that an acknowledgement removes exactly what it acknowledges, and that the
  congestion window stays between its limits.
\<close>

section \<open>SendingWindow\<close>

record SendingWindow =
  sw_cache :: "DataSegment list"
  sw_totalInFlightSize :: uint32

definition NewSendingWindow :: SendingWindow where
  "NewSendingWindow = \<lparr>sw_cache = [], sw_totalInFlightSize = 0\<rparr>"

definition SW_Release :: "SendingWindow \<Rightarrow> SendingWindow" where
  "SW_Release sw = sw\<lparr>sw_cache := []\<rparr>"

definition SW_Len :: "SendingWindow \<Rightarrow> uint32" where
  "SW_Len sw = word_of_nat (length (sw_cache sw))"

definition SW_IsEmpty :: "SendingWindow \<Rightarrow> bool" where
  "SW_IsEmpty sw \<longleftrightarrow> sw_cache sw = []"

definition SW_Push :: "uint32 \<Rightarrow> bytes \<Rightarrow> SendingWindow \<Rightarrow> SendingWindow" where
  "SW_Push number b sw =
     sw\<lparr>sw_cache := sw_cache sw @ [NewDataSegment\<lparr>DS_Number := number, DS_payload := b\<rparr>]\<rparr>"

definition SW_Clear :: "uint32 \<Rightarrow> SendingWindow \<Rightarrow> SendingWindow" where
  "SW_Clear una sw = sw\<lparr>sw_cache := dropWhile (\<lambda>seg. \<not> DS_Number seg \<ge> una) (sw_cache sw)\<rparr>"

fun fastAckVisit :: "uint32 \<Rightarrow> uint32 \<Rightarrow> DataSegment list \<Rightarrow> DataSegment list" where
  "fastAckVisit number rto [] = []"
| "fastAckVisit number rto (seg # segs) =
     (if number = DS_Number seg \<or> number - DS_Number seg > 0x7FFFFFFF then seg # segs
      else
        (if DS_transmit seg > 0 \<and> DS_timeout seg > rto div 3
         then seg\<lparr>DS_timeout := DS_timeout seg - rto div 3\<rparr> else seg)
        # fastAckVisit number rto segs)"

definition HandleFastAck :: "uint32 \<Rightarrow> uint32 \<Rightarrow> SendingWindow \<Rightarrow> SendingWindow" where
  "HandleFastAck number rto sw =
     (if SW_IsEmpty sw then sw else sw\<lparr>sw_cache := fastAckVisit number rto (sw_cache sw)\<rparr>)"

text \<open>
  The visitor of \<open>Flush\<close>. \<open>wr\<close> is what the worker's \<open>Write\<close> does to the segment before it goes
  out. The accumulators are the number of retransmissions, the number of segments sent and the
  window's \<open>totalInFlightSize\<close>; the results are the new list, the accumulators and the segments
  sent.
\<close>

fun flushVisit :: "(DataSegment \<Rightarrow> DataSegment) \<Rightarrow> uint32 \<Rightarrow> uint32 \<Rightarrow> uint32 \<Rightarrow> DataSegment list
    \<Rightarrow> uint32 \<Rightarrow> uint32 \<Rightarrow> uint32
    \<Rightarrow> DataSegment list \<times> uint32 \<times> uint32 \<times> uint32 \<times> DataSegment list" where
  "flushVisit wr current rto maxInFlightSize [] lost inFlight tot = ([], lost, inFlight, tot, [])"
| "flushVisit wr current rto maxInFlightSize (seg # segs) lost inFlight tot =
     (if current - DS_timeout seg \<ge> 0x7FFFFFFF then
        let (segs', r) = flushVisit wr current rto maxInFlightSize segs lost inFlight tot in
        (seg # segs', r)
      else
        let tot' = (if DS_transmit seg = 0 then tot + 1 else tot);
            lost' = (if DS_transmit seg = 0 then lost else lost + 1);
            seg' = wr (seg\<lparr>DS_timeout := current + rto, DS_Timestamp := current,
                           DS_transmit := DS_transmit seg + 1\<rparr>);
            inFlight' = inFlight + 1 in
        if inFlight' < maxInFlightSize then
          let (segs', l, i, t, out) = flushVisit wr current rto maxInFlightSize segs lost' inFlight' tot' in
          (seg' # segs', l, i, t, seg' # out)
        else (seg' # segs, lost', inFlight', tot', [seg']))"

definition SW_Flush :: "(DataSegment \<Rightarrow> DataSegment) \<Rightarrow> uint32 \<Rightarrow> uint32 \<Rightarrow> uint32 \<Rightarrow> SendingWindow
    \<Rightarrow> SendingWindow \<times> uint32 option \<times> DataSegment list" where
  "SW_Flush wr current rto maxInFlightSize sw =
     (if SW_IsEmpty sw then (sw, None, [])
      else
        let (segs, lost, inFlight, tot, out) =
              flushVisit wr current rto maxInFlightSize (sw_cache sw) 0 0 (sw_totalInFlightSize sw) in
        (sw\<lparr>sw_cache := segs, sw_totalInFlightSize := tot\<rparr>,
         (if inFlight > 0 \<and> tot \<noteq> 0 then Some (lost * 100 div tot) else None), out))"

fun removeLoop :: "uint32 \<Rightarrow> DataSegment list \<Rightarrow> bool \<times> DataSegment list" where
  "removeLoop number [] = (False, [])"
| "removeLoop number (seg # segs) =
     (if DS_Number seg > number then (False, seg # segs)
      else if DS_Number seg = number then (True, segs)
      else let (r, segs') = removeLoop number segs in (r, seg # segs'))"

definition SW_Remove :: "uint32 \<Rightarrow> SendingWindow \<Rightarrow> bool \<times> SendingWindow" where
  "SW_Remove number sw =
     (let (r, segs) = removeLoop number (sw_cache sw) in
      (r, if r then sw\<lparr>sw_cache := segs,
                       sw_totalInFlightSize := (if sw_totalInFlightSize sw > 0
                         then sw_totalInFlightSize sw - 1 else sw_totalInFlightSize sw)\<rparr>
          else sw))"

section \<open>SendingWorker\<close>

record SendingWorker =
  sn_window :: SendingWindow
  sn_firstUnacknowledged :: uint32
  sn_nextNumber :: uint32
  sn_remoteNextNumber :: uint32
  sn_controlWindow :: uint32
  sn_fastResend :: uint32
  sn_windowSize :: uint32
  sn_firstUnacknowledgedUpdated :: bool
  sn_closed :: bool

definition NewSendingWorker :: "uint32 \<Rightarrow> uint32 \<Rightarrow> SendingWorker" where
  "NewSendingWorker sendingInFlightSize sendingBufferSize =
     \<lparr>sn_window = NewSendingWindow, sn_firstUnacknowledged = 0, sn_nextNumber = 0,
      sn_remoteNextNumber = 32, sn_controlWindow = sendingInFlightSize, sn_fastResend = 2,
      sn_windowSize = sendingBufferSize, sn_firstUnacknowledgedUpdated = False, sn_closed = False\<rparr>"

definition SendWorker_Release :: "SendingWorker \<Rightarrow> SendingWorker" where
  "SendWorker_Release w = w\<lparr>sn_window := SW_Release (sn_window w), sn_closed := True\<rparr>"

definition FindFirstUnacknowledged :: "SendingWorker \<Rightarrow> SendingWorker" where
  "FindFirstUnacknowledged w =
     (let first = (case sw_cache (sn_window w) of [] \<Rightarrow> sn_nextNumber w | seg # _ \<Rightarrow> DS_Number seg) in
      w\<lparr>sn_firstUnacknowledged := first,
        sn_firstUnacknowledgedUpdated :=
          (sn_firstUnacknowledged w \<noteq> first \<or> sn_firstUnacknowledgedUpdated w)\<rparr>)"

definition ProcessReceivingNext :: "uint32 \<Rightarrow> SendingWorker \<Rightarrow> SendingWorker" where
  "ProcessReceivingNext nextNumber w =
     FindFirstUnacknowledged (w\<lparr>sn_window := SW_Clear nextNumber (sn_window w)\<rparr>)"

definition processAck :: "uint32 \<Rightarrow> SendingWorker \<Rightarrow> bool \<times> SendingWorker" where
  "processAck number w =
     (if number - sn_firstUnacknowledged w > 0x7FFFFFFF \<or> number - sn_nextNumber w < 0x7FFFFFFF
      then (False, w)
      else
        let (removed, sw) = SW_Remove number (sn_window w);
            w' = w\<lparr>sn_window := sw\<rparr> in
        (removed, if removed then FindFirstUnacknowledged w' else w'))"

fun ackLoop :: "uint32 list \<Rightarrow> uint32 \<Rightarrow> bool \<Rightarrow> SendingWorker \<Rightarrow> uint32 \<times> bool \<times> SendingWorker" where
  "ackLoop [] maxack maxackRemoved w = (maxack, maxackRemoved, w)"
| "ackLoop (number # ns) maxack maxackRemoved w =
     (let (removed, w') = processAck number w in
      if maxack < number then ackLoop ns number removed w' else ackLoop ns maxack maxackRemoved w')"

definition SendWorker_ProcessSegment :: "uint32 \<Rightarrow> AckSegment \<Rightarrow> uint32 \<Rightarrow> SendingWorker \<Rightarrow> RoundTripInfo
    \<Rightarrow> SendingWorker \<times> RoundTripInfo" where
  "SendWorker_ProcessSegment current seg rto w rt =
     (if sn_closed w then (w, rt)
      else
        let w1 = (if sn_remoteNextNumber w < AS_ReceivingWindow seg
                  then w\<lparr>sn_remoteNextNumber := AS_ReceivingWindow seg\<rparr> else w);
            w2 = ProcessReceivingNext (AS_ReceivingNext seg) w1 in
        if Ack_IsEmpty seg then (w2, rt)
        else
          let (maxack, maxackRemoved, w3) = ackLoop (AS_NumberList seg) 0 False w2 in
          if maxackRemoved then
            (w3\<lparr>sn_window := HandleFastAck maxack rto (sn_window w3)\<rparr>,
             if current - AS_Timestamp seg < 10000
             then Update (current - AS_Timestamp seg) current rt else rt)
          else (w3, rt))"

definition SendWorker_Push :: "bytes \<Rightarrow> SendingWorker \<Rightarrow> bool \<times> SendingWorker" where
  "SendWorker_Push b w =
     (if sn_closed w then (False, w)
      else if SW_Len (sn_window w) > sn_windowSize w then (False, w)
      else (True, w\<lparr>sn_window := SW_Push (sn_nextNumber w) b (sn_window w),
                    sn_nextNumber := sn_nextNumber w + 1\<rparr>))"

definition SendWorker_Write :: "uint16 \<Rightarrow> bool \<Rightarrow> SendingWorker \<Rightarrow> DataSegment \<Rightarrow> DataSegment" where
  "SendWorker_Write conv readyToClose w dataSeg =
     dataSeg\<lparr>DS_Conv := conv, DS_SendingNext := sn_firstUnacknowledged w,
             DS_Option := (if readyToClose then SegmentOptionClose else 0)\<rparr>"

definition OnPacketLoss :: "bool \<Rightarrow> uint32 \<Rightarrow> uint32 \<Rightarrow> uint32 \<Rightarrow> SendingWorker \<Rightarrow> SendingWorker" where
  "OnPacketLoss congestion inflight rto lossRate w =
     (if \<not> congestion \<or> rto = 0 then w
      else
        let cw1 = (if lossRate \<ge> 15 then 3 * sn_controlWindow w div 4
                   else if lossRate \<le> 5 then sn_controlWindow w + sn_controlWindow w div 4
                   else sn_controlWindow w);
            cw2 = (if cw1 < 16 then 16 else cw1);
            cw3 = (if cw2 > 2 * inflight then 2 * inflight else cw2) in
        w\<lparr>sn_controlWindow := cw3\<rparr>)"

text \<open>The third result says whether the connection must send a ping afterwards.\<close>

definition SendWorker_Flush :: "uint16 \<Rightarrow> bool \<Rightarrow> bool \<Rightarrow> uint32 \<Rightarrow> uint32 \<Rightarrow> uint32 \<Rightarrow> SendingWorker
    \<Rightarrow> SendingWorker \<times> DataSegment list \<times> bool" where
  "SendWorker_Flush conv readyToClose congestion inflight rto current w =
     (if sn_closed w then (w, [], False)
      else
        let ahead = sn_remoteNextNumber w - sn_firstUnacknowledged w;
            cwnd1 = (if inflight > ahead then ahead else inflight);
            cwnd2 = (if congestion \<and> cwnd1 > sn_controlWindow w then sn_controlWindow w else cwnd1);
            cwnd = cwnd2 * 20;
            (w1, out) =
              (if \<not> SW_IsEmpty (sn_window w) then
                 let (sw, loss, out) = SW_Flush (SendWorker_Write conv readyToClose w) current rto cwnd (sn_window w);
                     w' = w\<lparr>sn_window := sw\<rparr>;
                     w'' = (case loss of None \<Rightarrow> w' | Some rate \<Rightarrow> OnPacketLoss congestion inflight rto rate w') in
                 (w''\<lparr>sn_firstUnacknowledgedUpdated := False\<rparr>, out)
               else (w, [])) in
        (w1\<lparr>sn_firstUnacknowledgedUpdated := False\<rparr>, out, sn_firstUnacknowledgedUpdated w1))"

definition CloseWrite :: "SendingWorker \<Rightarrow> SendingWorker" where
  "CloseWrite w = w\<lparr>sn_window := SW_Clear 0xFFFFFFFF (sn_window w)\<rparr>"

definition SendWorker_IsEmpty :: "SendingWorker \<Rightarrow> bool" where
  "SendWorker_IsEmpty w \<longleftrightarrow> SW_IsEmpty (sn_window w)"

definition SendWorker_UpdateNecessary :: "SendingWorker \<Rightarrow> bool" where
  "SendWorker_UpdateNecessary w \<longleftrightarrow> \<not> SendWorker_IsEmpty w"

definition FirstUnacknowledged :: "SendingWorker \<Rightarrow> uint32" where
  "FirstUnacknowledged w = sn_firstUnacknowledged w"

section \<open>What the window holds\<close>

text \<open>
  A segment's identity is its number and its payload; the other fields change on every
  transmission.
\<close>

definition seg_key :: "DataSegment \<Rightarrow> uint32 \<times> bytes" where
  "seg_key seg = (DS_Number seg, DS_payload seg)"

definition sending_keys :: "SendingWorker \<Rightarrow> (uint32 \<times> bytes) list" where
  "sending_keys w = map seg_key (sw_cache (sn_window w))"

text \<open>
  The invariant: the numbers increase strictly, lie between the first unacknowledged number and the
  next number, and there are at most one more of them than \<open>windowSize\<close> (the test of \<open>Push\<close> is
  \<open>Len() > windowSize\<close>).
\<close>

definition send_inv :: "SendingWorker \<Rightarrow> bool" where
  "send_inv w \<longleftrightarrow> sorted_wrt (<) (map fst (sending_keys w))
     \<and> (\<forall>k\<in>set (sending_keys w). sn_firstUnacknowledged w \<le> fst k \<and> fst k < sn_nextNumber w)
     \<and> sn_firstUnacknowledged w \<le> sn_nextNumber w
     \<and> length (sending_keys w) \<le> unat (sn_windowSize w) + 1 \<and> unat (sn_windowSize w) < 2 ^ 32 - 1"

lemma seg_key_update [simp]:
  "seg_key (s\<lparr>DS_timeout := t\<rparr>) = seg_key s" "seg_key (s\<lparr>DS_transmit := x\<rparr>) = seg_key s"
  "seg_key (s\<lparr>DS_Timestamp := t\<rparr>) = seg_key s" "seg_key (s\<lparr>DS_Conv := c\<rparr>) = seg_key s"
  "seg_key (s\<lparr>DS_SendingNext := n\<rparr>) = seg_key s" "seg_key (s\<lparr>DS_Option := opt\<rparr>) = seg_key s"
  by (simp_all add: seg_key_def)

lemma fst_seg_key [simp]: "fst (seg_key s) = DS_Number s"
  by (simp add: seg_key_def)

lemma seg_key_Write [simp]: "seg_key (SendWorker_Write conv rtc w s) = seg_key s"
  by (simp add: SendWorker_Write_def)

lemma fastAckVisit_keys: "map seg_key (fastAckVisit number rto segs) = map seg_key segs"
  by (induction number rto segs rule: fastAckVisit.induct) auto

lemma HandleFastAck_keys: "map seg_key (sw_cache (HandleFastAck number rto sw)) = map seg_key (sw_cache sw)"
  by (simp add: HandleFastAck_def fastAckVisit_keys)

subsection \<open>Transmission\<close>

definition seg_due :: "uint32 \<Rightarrow> DataSegment \<Rightarrow> bool" where
  "seg_due current seg \<longleftrightarrow> \<not> current - DS_timeout seg \<ge> 0x7FFFFFFF"

definition transmitted :: "(DataSegment \<Rightarrow> DataSegment) \<Rightarrow> uint32 \<Rightarrow> uint32 \<Rightarrow> DataSegment \<Rightarrow> DataSegment" where
  "transmitted wr current rto seg = wr (seg\<lparr>DS_timeout := current + rto, DS_Timestamp := current,
     DS_transmit := DS_transmit seg + 1\<rparr>)"

lemma flushVisit_keys:
  assumes "\<And>s. seg_key (wr s) = seg_key s"
  shows "flushVisit wr current rto m segs lost i tot = (segs', lost', i', tot', out) \<Longrightarrow>
     map seg_key segs' = map seg_key segs"
  using assms
  by (induction wr current rto m segs lost i tot arbitrary: segs' lost' i' tot' out rule: flushVisit.induct)
    (auto simp: Let_def split: if_splits prod.splits)

lemma flushVisit_out:
  "flushVisit wr current rto m segs lost i tot = (segs', lost', i', tot', out) \<Longrightarrow> unat i < 2 ^ 32 - 1 \<Longrightarrow>
     out = map (transmitted wr current rto) (take (max 1 (unat m - unat i)) (filter (seg_due current) segs))"
proof (induction wr current rto m segs lost i tot arbitrary: segs' lost' i' tot' out rule: flushVisit.induct)
  case (1 wr current rto m lost i tot)
  then show ?case by simp
next
  case (2 wr current rto m seg segs lost i tot)
  have i1: "unat (i + 1) = unat i + 1"
    using "2.prems"(2) by (simp add: unat_word_ariths)
  show ?case
  proof (cases "seg_due current seg")
    case False
    then show ?thesis
      using "2.prems" "2.IH"(1) by (auto simp: seg_due_def Let_def split: prod.splits)
  next
    case True
    show ?thesis
    proof (cases "i + 1 < m")
      case False
      then have "max 1 (unat m - unat i) = 1"
        using i1 by (simp add: word_less_nat_alt)
      then show ?thesis
        using True False "2.prems"(1) by (auto simp: seg_due_def transmitted_def Let_def)
    next
      case less: True
      let ?lost = "if DS_transmit seg = 0 then lost else lost + 1"
      let ?tot = "if DS_transmit seg = 0 then tot + 1 else tot"
      obtain segs'' l ii t out' where r: "flushVisit wr current rto m segs ?lost (i + 1) ?tot = (segs'', l, ii, t, out')"
        by (metis prod.exhaust)
      have "unat (i + 1) < 2 ^ 32 - 1"
        using less unat_bound [of m] by (simp add: word_less_nat_alt)
      then have "out' = map (transmitted wr current rto) (take (max 1 (unat m - unat (i + 1))) (filter (seg_due current) segs))"
        using "2.IH"(2) [OF _ refl refl refl refl less r] True [unfolded seg_due_def] by blast
      moreover have "max 1 (unat m - unat i) = Suc (max 1 (unat m - unat (i + 1)))"
        using less i1 by (simp add: word_less_nat_alt)
      moreover have "out = transmitted wr current rto seg # out'"
        using "2.prems"(1) True less r by (auto simp: seg_due_def transmitted_def Let_def)
      ultimately show ?thesis using True by simp
    qed
  qed
qed

lemma SW_Flush_effect:
  assumes "SW_Flush wr current rto m sw = (sw', loss, out)" and "\<And>s. seg_key (wr s) = seg_key s"
  shows "map seg_key (sw_cache sw') = map seg_key (sw_cache sw)"
    and "out = map (transmitted wr current rto) (take (max 1 (unat m)) (filter (seg_due current) (sw_cache sw)))"
proof -
  obtain segs l i t o' where f: "flushVisit wr current rto m (sw_cache sw) 0 0 (sw_totalInFlightSize sw) = (segs, l, i, t, o')"
    by (metis prod.exhaust)
  show "map seg_key (sw_cache sw') = map seg_key (sw_cache sw)"
    using assms(1) f flushVisit_keys [OF assms(2) f] by (auto simp: SW_Flush_def split: if_splits)
  show "out = map (transmitted wr current rto) (take (max 1 (unat m)) (filter (seg_due current) (sw_cache sw)))"
    using assms(1) f flushVisit_out [OF f] by (auto simp: SW_Flush_def SW_IsEmpty_def split: if_splits)
qed

text \<open>The window that \<open>Flush\<close> computes from the peer's window, the configuration and congestion control.\<close>

definition flush_cwnd :: "bool \<Rightarrow> uint32 \<Rightarrow> SendingWorker \<Rightarrow> uint32" where
  "flush_cwnd congestion inflight w =
     (let ahead = sn_remoteNextNumber w - sn_firstUnacknowledged w;
          cwnd = min inflight ahead in
      (if congestion then min cwnd (sn_controlWindow w) else cwnd) * 20)"

lemma OnPacketLoss_window [simp]:
  "sn_window (OnPacketLoss c i rto r w) = sn_window w"
  "sn_firstUnacknowledged (OnPacketLoss c i rto r w) = sn_firstUnacknowledged w"
  "sn_nextNumber (OnPacketLoss c i rto r w) = sn_nextNumber w"
  "sn_windowSize (OnPacketLoss c i rto r w) = sn_windowSize w"
  by (simp_all add: OnPacketLoss_def Let_def)

lemma SendWorker_Flush_effect:
  assumes "SendWorker_Flush conv rtc congestion inflight rto current w = (w', out, ping)"
  shows "sending_keys w' = sending_keys w"
    and "sn_firstUnacknowledged w' = sn_firstUnacknowledged w" "sn_nextNumber w' = sn_nextNumber w"
    and "sn_windowSize w' = sn_windowSize w"
    and "out = (if sn_closed w then [] else
           map (transmitted (SendWorker_Write conv rtc w) current rto)
             (take (max 1 (unat (flush_cwnd congestion inflight w))) (filter (seg_due current) (sw_cache (sn_window w)))))"
proof -
  let ?c = "flush_cwnd congestion inflight w"
  obtain sw loss o' where f: "SW_Flush (SendWorker_Write conv rtc w) current rto ?c (sn_window w) = (sw, loss, o')"
    by (metis prod.exhaust)
  note e = SW_Flush_effect [OF f seg_key_Write]
  have c: "(if congestion \<and> (if inflight > sn_remoteNextNumber w - sn_firstUnacknowledged w
        then sn_remoteNextNumber w - sn_firstUnacknowledged w else inflight) > sn_controlWindow w
      then sn_controlWindow w else (if inflight > sn_remoteNextNumber w - sn_firstUnacknowledged w
        then sn_remoteNextNumber w - sn_firstUnacknowledged w else inflight)) * 20 = ?c"
    by (auto simp: flush_cwnd_def Let_def min_def not_le)
  show "sending_keys w' = sending_keys w"
    using assms f e(1) unfolding SendWorker_Flush_def Let_def c
    by (auto simp: sending_keys_def split: if_splits option.splits)
  show "sn_firstUnacknowledged w' = sn_firstUnacknowledged w" "sn_nextNumber w' = sn_nextNumber w"
      "sn_windowSize w' = sn_windowSize w"
    using assms f unfolding SendWorker_Flush_def Let_def c by (auto split: if_splits option.splits)
  show "out = (if sn_closed w then [] else
           map (transmitted (SendWorker_Write conv rtc w) current rto)
             (take (max 1 (unat ?c)) (filter (seg_due current) (sw_cache (sn_window w)))))"
    using assms f e(2) unfolding SendWorker_Flush_def Let_def c
    by (auto simp: SW_IsEmpty_def split: if_splits option.splits)
qed

lemma transmitted_key: "(\<And>s. seg_key (wr s) = seg_key s) \<Longrightarrow> seg_key (transmitted wr current rto s) = seg_key s"
  by (simp add: transmitted_def)

lemma send_inv_cong:
  assumes "send_inv w" and "sending_keys w' = sending_keys w"
    and "sn_firstUnacknowledged w' = sn_firstUnacknowledged w" and "sn_nextNumber w' = sn_nextNumber w"
    and "sn_windowSize w' = sn_windowSize w"
  shows "send_inv w'"
  using assms by (simp add: send_inv_def)

lemma send_inv_Flush:
  assumes "send_inv w" and "SendWorker_Flush conv rtc congestion inflight rto current w = (w', out, ping)"
  shows "send_inv w'"
  using send_inv_cong [OF assms(1)] SendWorker_Flush_effect [OF assms(2)] by blast

subsection \<open>Pushing and acknowledging\<close>

lemma send_inv_new: "unat bufsize < 2 ^ 32 - 1 \<Longrightarrow> send_inv (NewSendingWorker inflight bufsize)"
  by (simp add: send_inv_def sending_keys_def NewSendingWorker_def NewSendingWindow_def)

lemma SendWorker_Push_effect:
  assumes "SendWorker_Push b w = (ok, w')"
  shows "sending_keys w' = sending_keys w @ (if ok then [(sn_nextNumber w, b)] else [])"
    and "sn_nextNumber w' = (if ok then sn_nextNumber w + 1 else sn_nextNumber w)"
    and "ok \<longleftrightarrow> \<not> sn_closed w \<and> SW_Len (sn_window w) \<le> sn_windowSize w"
    and "sn_firstUnacknowledged w' = sn_firstUnacknowledged w" "sn_windowSize w' = sn_windowSize w"
  using assms by (auto simp: SendWorker_Push_def sending_keys_def SW_Push_def seg_key_def split: if_splits)

lemma send_inv_Push:
  assumes inv: "send_inv w" and p: "SendWorker_Push b w = (ok, w')" and room: "unat (sn_nextNumber w) < 2 ^ 32 - 1"
  shows "send_inv w'"
proof (cases ok)
  case False
  then show ?thesis using send_inv_cong [OF inv] SendWorker_Push_effect(1,2,4,5) [OF p] by simp
next
  case True
  have lt: "sn_nextNumber w < sn_nextNumber w + 1"
    using room by (simp add: word_less_nat_alt unat_word_ariths)
  have len: "length (sending_keys w) \<le> unat (sn_windowSize w)"
  proof -
    have "length (sending_keys w) < 2 ^ 32"
      using inv by (simp add: send_inv_def)
    moreover have "SW_Len (sn_window w) \<le> sn_windowSize w"
      using SendWorker_Push_effect(3) [OF p] True by simp
    ultimately show ?thesis
      by (simp add: SW_Len_def sending_keys_def word_le_nat_alt unat_of_nat take_bit_nat_eq_self)
  qed
  show ?thesis
    using inv SendWorker_Push_effect [OF p] True lt len
    by (auto simp: send_inv_def sorted_wrt_append)
qed

lemma dropWhile_below:
  "sorted_wrt (<) (map fst (map seg_key segs)) \<Longrightarrow>
     map seg_key (dropWhile (\<lambda>seg. \<not> DS_Number seg \<ge> una) segs) = filter (\<lambda>k. fst k \<ge> una) (map seg_key segs)"
proof (induction segs)
  case (Cons s segs)
  show ?case
  proof (cases "DS_Number s \<ge> una")
    case True
    then have "filter (\<lambda>k. fst k \<ge> una) (map seg_key segs) = map seg_key segs"
      using Cons.prems by (intro filter_True) (auto intro: order_trans)
    then show ?thesis using True by simp
  next
    case False
    then show ?thesis using Cons by simp
  qed
qed simp

lemma sorted_wrt_filter_keys:
  "sorted_wrt (<) (map fst ks) \<Longrightarrow> sorted_wrt (<) (map fst (filter P ks))"
  by (simp add: sorted_wrt_map sorted_wrt_filter)

lemma send_inv_filter:
  assumes inv: "send_inv w" and keys: "sending_keys w' = filter P (sending_keys w)"
    and same: "sn_nextNumber w' = sn_nextNumber w" "sn_windowSize w' = sn_windowSize w"
    and first: "sn_firstUnacknowledged w' = (case sending_keys w' of [] \<Rightarrow> sn_nextNumber w | k # _ \<Rightarrow> fst k)"
  shows "send_inv w'"
proof -
  let ?ks = "filter P (sending_keys w)"
  have sorted: "sorted_wrt (<) (map fst ?ks)"
    using inv by (simp add: send_inv_def sorted_wrt_filter_keys)
  have len: "length ?ks \<le> unat (sn_windowSize w) + 1"
    using inv le_trans [OF length_filter_le [of P "sending_keys w"]] by (auto simp: send_inv_def)
  have below: "\<forall>k\<in>set ?ks. fst k < sn_nextNumber w" "unat (sn_windowSize w) < 2 ^ 32 - 1"
    using inv by (simp_all add: send_inv_def)
  show ?thesis
  proof (cases ?ks)
    case Nil
    then show ?thesis using keys same first below(2) by (simp add: send_inv_def)
  next
    case (Cons k ks)
    then show ?thesis
      using keys same first sorted len below by (auto simp: send_inv_def)
  qed
qed

lemma FindFirst_effect:
  "sending_keys (FindFirstUnacknowledged w) = sending_keys w"
  "sn_nextNumber (FindFirstUnacknowledged w) = sn_nextNumber w"
  "sn_windowSize (FindFirstUnacknowledged w) = sn_windowSize w"
  "sn_firstUnacknowledged (FindFirstUnacknowledged w)
     = (case sending_keys w of [] \<Rightarrow> sn_nextNumber w | k # _ \<Rightarrow> fst k)"
  by (auto simp: FindFirstUnacknowledged_def sending_keys_def Let_def seg_key_def split: list.splits)

lemma ProcessReceivingNext_effect:
  assumes "send_inv w"
  shows "sending_keys (ProcessReceivingNext una w) = filter (\<lambda>k. fst k \<ge> una) (sending_keys w)"
    and "send_inv (ProcessReceivingNext una w)"
    and "sn_nextNumber (ProcessReceivingNext una w) = sn_nextNumber w"
proof -
  show keys: "sending_keys (ProcessReceivingNext una w) = filter (\<lambda>k. fst k \<ge> una) (sending_keys w)"
    using assms dropWhile_below [of "sw_cache (sn_window w)" una]
    by (simp add: ProcessReceivingNext_def FindFirst_effect send_inv_def)
       (simp add: sending_keys_def SW_Clear_def)
  show "send_inv (ProcessReceivingNext una w)"
    by (rule send_inv_filter [OF assms keys]) (simp_all add: ProcessReceivingNext_def FindFirst_effect split: list.split)
  show "sn_nextNumber (ProcessReceivingNext una w) = sn_nextNumber w"
    by (simp add: ProcessReceivingNext_def FindFirst_effect)
qed

lemma removeLoop_effect:
  "sorted_wrt (<) (map fst (map seg_key segs)) \<Longrightarrow> removeLoop number segs = (r, segs') \<Longrightarrow>
     map seg_key segs' = filter (\<lambda>k. fst k \<noteq> number) (map seg_key segs) \<and>
     (r \<longleftrightarrow> number \<in> fst ` set (map seg_key segs))"
proof (induction segs arbitrary: r segs')
  case (Cons s segs)
  have above: "\<forall>k\<in>set (map seg_key segs). DS_Number s < fst k"
    using Cons.prems(1) by auto
  then have keep: "filter (\<lambda>k. fst k \<noteq> number) (map seg_key segs) = map seg_key segs"
    if "number \<le> DS_Number s" using that by (intro filter_True) auto
  obtain r1 s1 where rl: "removeLoop number segs = (r1, s1)"
    by (metis prod.exhaust)
  have sorted: "sorted_wrt (<) (map fst (map seg_key segs))"
    using Cons.prems(1) by simp
  consider "DS_Number s > number" | "DS_Number s = number" | "DS_Number s < number" by (rule linorder_less_linear [THEN disjE]) auto
  then show ?case
  proof cases
    case 1
    then have "\<forall>k\<in>set (map seg_key segs). number < fst k"
      using above by (auto intro: order_less_trans)
    then show ?thesis using 1 Cons.prems(2) keep by (auto simp: less_imp_le)
  next
    case 2
    then show ?thesis using Cons.prems(2) keep above by auto
  next
    case 3
    then have "r = r1" and "segs' = s # s1"
      using Cons.prems(2) rl by (auto split: if_splits)
    then show ?thesis using 3 Cons.IH [OF sorted rl] by auto
  qed
qed simp

lemma unat_diff_window:
  fixes a b :: uint32
  assumes "a \<le> b" shows "unat (b - a) = unat b - unat a"
  using assms by (rule unat_sub)

text \<open>
  The window tests of \<open>processAck\<close>, which allow for wrap-around, let every number of the window
  through as long as the numbers stay below \<open>2 ^ 31\<close>.
\<close>

lemma processAck_tests:
  assumes "first \<le> number" and "number < next" and "unat next \<le> 2 ^ 31"
  shows "\<not> number - first > (0x7FFFFFFF :: uint32)" and "\<not> number - next < (0x7FFFFFFF :: uint32)"
proof -
  show "\<not> number - first > (0x7FFFFFFF :: uint32)"
    using assms unat_diff_window [OF assms(1)] by (simp add: word_less_nat_alt word_le_nat_alt)
  have "unat (number - next) = unat number + 2 ^ 32 - unat next"
    using assms(2) by (simp add: unat_sub_if_size word_size word_less_nat_alt)
  then show "\<not> number - next < (0x7FFFFFFF :: uint32)"
    using assms by (simp add: word_less_nat_alt word_le_nat_alt)
qed

lemma processAck_effect:
  assumes inv: "send_inv w" and small: "unat (sn_nextNumber w) \<le> 2 ^ 31"
    and p: "processAck number w = (r, w')"
  shows "sending_keys w' = filter (\<lambda>k. fst k \<noteq> number) (sending_keys w)"
    and "r \<longleftrightarrow> number \<in> fst ` set (sending_keys w)"
    and "send_inv w'" and "sn_nextNumber w' = sn_nextNumber w"
proof -
  let ?skip = "number - sn_firstUnacknowledged w > 0x7FFFFFFF \<or> number - sn_nextNumber w < 0x7FFFFFFF"
  obtain r1 segs where rl: "removeLoop number (sw_cache (sn_window w)) = (r1, segs)"
    by (metis prod.exhaust)
  have rem: "map seg_key segs = filter (\<lambda>k. fst k \<noteq> number) (sending_keys w)"
      "r1 \<longleftrightarrow> number \<in> fst ` set (sending_keys w)"
    using removeLoop_effect [OF _ rl] inv by (auto simp: send_inv_def sending_keys_def)
  have absent: "filter (\<lambda>k. fst k \<noteq> number) (sending_keys w) = sending_keys w"
    if "number \<notin> fst ` set (sending_keys w)"
    using that by (intro filter_True) force
  have skip: "number \<notin> fst ` set (sending_keys w)" if ?skip
    using that inv small processAck_tests [of "sn_firstUnacknowledged w" number "sn_nextNumber w"]
    by (auto simp: send_inv_def)
  have w': "w' = (if ?skip \<or> \<not> r1 then w else FindFirstUnacknowledged (w\<lparr>sn_window := snd (SW_Remove number (sn_window w))\<rparr>))"
      "r \<longleftrightarrow> \<not> ?skip \<and> r1"
    using p rl by (auto simp: processAck_def SW_Remove_def Let_def split: if_splits)
  show r: "r \<longleftrightarrow> number \<in> fst ` set (sending_keys w)"
    using w'(2) rem(2) skip by auto
  show keys: "sending_keys w' = filter (\<lambda>k. fst k \<noteq> number) (sending_keys w)"
  proof (cases r)
    case True
    then show ?thesis using w' rl rem(1) by (simp add: FindFirst_effect) (simp add: sending_keys_def SW_Remove_def)
  next
    case False
    then show ?thesis using w' r absent by auto
  qed
  show "sn_nextNumber w' = sn_nextNumber w"
    using w'(1) by (simp add: FindFirst_effect)
  show "send_inv w'"
  proof (cases r)
    case True
    then have "w' = FindFirstUnacknowledged (w\<lparr>sn_window := snd (SW_Remove number (sn_window w))\<rparr>)"
      using w' by simp
    then show ?thesis
      using send_inv_filter [OF inv keys] by (simp add: FindFirst_effect split: list.splits)
  next
    case False
    then show ?thesis using w' inv by simp
  qed
qed

lemma ackLoop_effect:
  assumes "send_inv w" and "unat (sn_nextNumber w) \<le> 2 ^ 31" and "ackLoop ns m mr w = (m', mr', w')"
  shows "sending_keys w' = filter (\<lambda>k. fst k \<notin> set ns) (sending_keys w) \<and> send_inv w'
     \<and> sn_nextNumber w' = sn_nextNumber w"
  using assms
proof (induction ns m mr w arbitrary: m' mr' w' rule: ackLoop.induct)
  case (2 number ns m mr w)
  obtain r w1 where p: "processAck number w = (r, w1)"
    by (metis prod.exhaust)
  note e = processAck_effect [OF "2.prems"(1,2) p]
  have "sending_keys w' = filter (\<lambda>k. fst k \<notin> set ns) (sending_keys w1) \<and> send_inv w'
     \<and> sn_nextNumber w' = sn_nextNumber w1"
  proof (cases "m < number")
    case True
    then show ?thesis
      using "2.prems"(2,3) e(3,4) p by (intro "2.IH"(1) [OF p [symmetric] refl]) auto
  next
    case False
    then show ?thesis
      using "2.prems"(2,3) e(3,4) p by (intro "2.IH"(2) [OF p [symmetric] refl]) auto
  qed
  then show ?case
    using e(1,4) by (simp add: conj_commute)
qed simp

text \<open>
  An acknowledgement removes from the window exactly the segments below \<open>ReceivingNext\<close> and the
  listed ones.
\<close>

lemma SendWorker_ProcessSegment_effect:
  assumes inv: "send_inv w" and small: "unat (sn_nextNumber w) \<le> 2 ^ 31"
    and p: "SendWorker_ProcessSegment current seg rto w rt = (w', rt')"
  shows "sending_keys w' = (if sn_closed w then sending_keys w else
      filter (\<lambda>k. fst k \<ge> AS_ReceivingNext seg \<and> fst k \<notin> set (AS_NumberList seg)) (sending_keys w))"
    and "send_inv w'" and "sn_nextNumber w' = sn_nextNumber w"
proof -
  let ?w1 = "if sn_remoteNextNumber w < AS_ReceivingWindow seg
             then w\<lparr>sn_remoteNextNumber := AS_ReceivingWindow seg\<rparr> else w"
  let ?w2 = "ProcessReceivingNext (AS_ReceivingNext seg) ?w1"
  obtain m mr w3 where a: "ackLoop (AS_NumberList seg) 0 False ?w2 = (m, mr, w3)"
    by (metis prod.exhaust)
  have w1: "sending_keys ?w1 = sending_keys w" "send_inv ?w1" "sn_nextNumber ?w1 = sn_nextNumber w"
    using inv by (auto simp: send_inv_def sending_keys_def)
  note e2 = ProcessReceivingNext_effect [OF w1(2), of "AS_ReceivingNext seg"]
  have e3: "sending_keys w3 = filter (\<lambda>k. fst k \<notin> set (AS_NumberList seg)) (sending_keys ?w2)"
      "send_inv w3" "sn_nextNumber w3 = sn_nextNumber w"
    using ackLoop_effect [OF e2(2) _ a] e2(3) w1(3) small by auto
  have fa: "sending_keys (w3\<lparr>sn_window := HandleFastAck m rto (sn_window w3)\<rparr>) = sending_keys w3"
    by (simp add: sending_keys_def HandleFastAck_keys)
  have w': "w' = (if sn_closed w then w else if Ack_IsEmpty seg then ?w2 else if mr
      then w3\<lparr>sn_window := HandleFastAck m rto (sn_window w3)\<rparr> else w3)"
    using p a by (auto simp: SendWorker_ProcessSegment_def Let_def split: if_splits)
  have empty: "Ack_IsEmpty seg \<Longrightarrow> AS_NumberList seg = []"
    by (simp add: Ack_IsEmpty_def)
  show "sending_keys w' = (if sn_closed w then sending_keys w else
      filter (\<lambda>k. fst k \<ge> AS_ReceivingNext seg \<and> fst k \<notin> set (AS_NumberList seg)) (sending_keys w))"
    using w' e2(1) e3(1) fa empty w1(1) by (auto simp: conj_commute)
  show "send_inv w'"
    using w' inv e2(2) e3(2) send_inv_cong [OF e3(2) fa] by simp
  show "sn_nextNumber w' = sn_nextNumber w"
    using w' e2(3) e3(3) w1(3) by simp
qed

lemma CloseWrite_effect:
  assumes "send_inv w"
  shows "send_inv (CloseWrite w)" and "sending_keys (CloseWrite w) = filter (\<lambda>k. fst k \<ge> 0xFFFFFFFF) (sending_keys w)"
proof -
  show keys: "sending_keys (CloseWrite w) = filter (\<lambda>k. fst k \<ge> 0xFFFFFFFF) (sending_keys w)"
    using assms dropWhile_below [of "sw_cache (sn_window w)" "0xFFFFFFFF"]
    by (simp add: CloseWrite_def send_inv_def) (simp add: sending_keys_def SW_Clear_def)
  have "length (sending_keys (CloseWrite w)) \<le> unat (sn_windowSize w) + 1"
    using assms le_trans [OF length_filter_le] by (auto simp: keys send_inv_def)
  moreover have "sn_windowSize (CloseWrite w) = sn_windowSize w" "sn_nextNumber (CloseWrite w) = sn_nextNumber w"
      "sn_firstUnacknowledged (CloseWrite w) = sn_firstUnacknowledged w"
    by (simp_all add: CloseWrite_def)
  ultimately show "send_inv (CloseWrite w)"
    using assms by (simp add: send_inv_def sorted_wrt_filter_keys keys)
qed

subsection \<open>The congestion window\<close>

lemma OnPacketLoss_bounds:
  assumes "8 \<le> unat inflight" and "unat inflight < 2 ^ 31"
    and "16 \<le> unat (sn_controlWindow w)" and "unat (sn_controlWindow w) \<le> 2 * unat inflight"
  shows "16 \<le> unat (sn_controlWindow (OnPacketLoss congestion inflight rto lossRate w))"
    and "unat (sn_controlWindow (OnPacketLoss congestion inflight rto lossRate w)) \<le> 2 * unat inflight"
proof -
  have two: "unat (2 * inflight) = 2 * unat inflight"
    using assms(2) by (simp add: unat_word_ariths)
  show "16 \<le> unat (sn_controlWindow (OnPacketLoss congestion inflight rto lossRate w))"
    and "unat (sn_controlWindow (OnPacketLoss congestion inflight rto lossRate w)) \<le> 2 * unat inflight"
    using assms two by (auto simp: OnPacketLoss_def Let_def word_less_nat_alt)
qed

text \<open>
  \<open>Clear\<close> and \<open>Remove\<close> compare numbers as plain integers. Once the numbers wrap around, a window
  that still holds the last number before the wrap is not cleared by an acknowledgement that
  covers all of it.
\<close>

lemma SW_Clear_at_wrap:
  "SW_Clear 2 (SW_Push 1 [] (SW_Push 0 [] (SW_Push 0xFFFFFFFF [] NewSendingWindow)))
     = SW_Push 1 [] (SW_Push 0 [] (SW_Push 0xFFFFFFFF [] NewSendingWindow))"
  by (simp add: SW_Clear_def SW_Push_def NewSendingWindow_def)

section \<open>Properties\<close>

text \<open>
  C14. As long as at most \<open>2 ^ 31\<close> segments have been numbered and the worker is not closed, an
  acknowledgement removes from the sending window exactly what it acknowledges: the segments
  below \<open>ReceivingNext\<close> and the listed ones. Every other segment stays, in order and with its
  payload, and the window keeps its invariant. Once the numbers wrap around the code compares them without
  regard to that, and \<open>SW_Clear_at_wrap\<close> shows acknowledged segments that stay.
\<close>

theorem ack_removes_exactly:
  assumes "send_inv w" and "unat (sn_nextNumber w) \<le> 2 ^ 31" and "\<not> sn_closed w"
    and "SendWorker_ProcessSegment current seg rto w rt = (w', rt')"
  shows "sending_keys w' =
      filter (\<lambda>k. fst k \<ge> AS_ReceivingNext seg \<and> fst k \<notin> set (AS_NumberList seg)) (sending_keys w)
    \<and> send_inv w' \<and> sn_nextNumber w' = sn_nextNumber w"
  using SendWorker_ProcessSegment_effect [OF assms(1,2,4)] assms(3) by simp

theorem ack_removes_exactly_witness:
  "\<exists>w w' rt'. sending_keys w = [(0, [1]), (1, [2]), (2, [3])]
     \<and> SendWorker_ProcessSegment 5 (NewAckSegment\<lparr>AS_ReceivingNext := 1, AS_NumberList := [2]\<rparr>) 100 w
         \<lparr>rt_variation = 0, rt_srtt = 0, rt_rto = 100, rt_minRtt = 50, rt_updatedTimestamp = 0\<rparr> = (w', rt')
     \<and> sending_keys w' = [(1, [2])]"
proof -
  let ?p = "\<lambda>b w. snd (SendWorker_Push b w)"
  let ?w = "?p [3] (?p [2] (?p [1] (NewSendingWorker 8 8)))"
  let ?rt = "\<lparr>rt_variation = 0, rt_srtt = 0, rt_rto = 100, rt_minRtt = 50, rt_updatedTimestamp = 0\<rparr>"
  let ?a = "NewAckSegment\<lparr>AS_ReceivingNext := 1, AS_NumberList := [2]\<rparr>"
  have keys: "sending_keys ?w = [(0, [1]), (1, [2]), (2, [3])]" and next': "sn_nextNumber ?w = 3" and open': "\<not> sn_closed ?w"
      and rest: "sn_firstUnacknowledged ?w = 0" "sn_windowSize ?w = 8"
    by (simp_all add: SendWorker_Push_def NewSendingWorker_def NewSendingWindow_def SW_Push_def SW_Len_def
        sending_keys_def seg_key_def)
  have inv: "send_inv ?w"
    unfolding send_inv_def keys next' rest by simp
  obtain w' rt' where p: "SendWorker_ProcessSegment 5 ?a 100 ?w ?rt = (w', rt')"
    by (rule prod.exhaust)
  have "sending_keys w' = [(1, [2])]"
    using ack_removes_exactly [OF inv _ open' p] by (simp add: keys next' NewAckSegment_def)
  with keys p show ?thesis by blast
qed

text \<open>
  C24. A flush of the sending window transmits exactly the due segments, from the front, up to the
  window that the peer, the configuration and congestion control allow, and at least one if any is
  due. The window still holds every segment afterwards.
\<close>

theorem flush_transmits_due:
  assumes "SendWorker_Flush conv rtc congestion inflight rto current w = (w', out, ping)" and "\<not> sn_closed w"
  shows "map seg_key out = map seg_key
      (take (max 1 (unat (flush_cwnd congestion inflight w))) (filter (seg_due current) (sw_cache (sn_window w))))
    \<and> sending_keys w' = sending_keys w"
  using SendWorker_Flush_effect(1,5) [OF assms(1)] assms(2) by (simp add: comp_def transmitted_key)

theorem flush_transmits_due_witness:
  "\<exists>w' out ping. SendWorker_Flush 0 False False 8 100 0
       (snd (SendWorker_Push [2] (snd (SendWorker_Push [1] (NewSendingWorker 8 8))))) = (w', out, ping)
     \<and> map seg_key out = [(0, [1]), (1, [2])]"
proof -
  let ?w = "snd (SendWorker_Push [2] (snd (SendWorker_Push [1] (NewSendingWorker 8 8))))"
  obtain w' out ping where f: "SendWorker_Flush 0 False False 8 100 0 ?w = (w', out, ping)"
    by (metis prod.exhaust)
  have cache: "sw_cache (sn_window ?w) = [NewDataSegment\<lparr>DS_Number := 0, DS_payload := [1]\<rparr>,
        NewDataSegment\<lparr>DS_Number := 1, DS_payload := [2]\<rparr>]" and open': "\<not> sn_closed ?w"
      and cw: "flush_cwnd False 8 ?w = 160"
    by (simp_all add: SendWorker_Push_def NewSendingWorker_def NewSendingWindow_def SW_Push_def SW_Len_def
        flush_cwnd_def Let_def)
  have "map seg_key out = [(0, [1]), (1, [2])]"
    using flush_transmits_due [OF f open'] unfolding cache cw
    by (simp add: seg_due_def NewDataSegment_def) (simp add: seg_key_def)
  with f show ?thesis by (intro exI conjI)
qed

text \<open>
  Congestion control keeps its window between 16 segments and twice the configured in-flight
  size, whatever loss rate is reported; no 32-bit operation on the way makes it leave these bounds.
\<close>

theorem congestion_window_bounded:
  assumes "8 \<le> unat inflight" and "unat inflight < 2 ^ 31"
    and "16 \<le> unat (sn_controlWindow w)" and "unat (sn_controlWindow w) \<le> 2 * unat inflight"
  shows "16 \<le> unat (sn_controlWindow (OnPacketLoss congestion inflight rto lossRate w))
    \<and> unat (sn_controlWindow (OnPacketLoss congestion inflight rto lossRate w)) \<le> 2 * unat inflight"
  using OnPacketLoss_bounds [OF assms] by blast

theorem congestion_window_bounded_witness:
  "16 \<le> unat (sn_controlWindow (OnPacketLoss True 100 50 0 ((NewSendingWorker 100 8)\<lparr>sn_controlWindow := 200\<rparr>)))
    \<and> unat (sn_controlWindow (OnPacketLoss True 100 50 0 ((NewSendingWorker 100 8)\<lparr>sn_controlWindow := 200\<rparr>))) \<le> 200"
  using congestion_window_bounded [of 100 "(NewSendingWorker 100 8)\<lparr>sn_controlWindow := 200\<rparr>" True 50 0] by simp

end
