(* ===== verification/Kcp_Receiving.thy ===== *)
theory Kcp_Receiving
  imports Kcp_Segment "HOL-Library.AList"
begin

text \<open>
  The receiving side of a KCP connection: \<open>transport/internet/kcp/receiving.go\<close>.

  The window's Go map is an association list (\<^const>\<open>map_of\<close> looks a key up, a key occurs once).
  Sequence numbers are 32-bit words, so the window test \<open>number - nextNumber < windowSize\<close> wraps
  around as in Go. \<open>Flush\<close> returns the segments it hands to the writer, in order. The locks make
  every operation atomic; an interleaving of the connection's goroutines is a sequence of
  operations.

  The main results: \<open>AckList.Clear\<close>, an in-place compaction of three arrays, equals a filter;
  every acknowledgement written fits the wire format and every due number is acknowledged; and
  the worker delivers the sender's stream in order, each segment exactly once, across
  wrap-around of the sequence numbers.
\<close>

section \<open>ReceivingWindow\<close>

type_synonym ReceivingWindow = "(uint32 \<times> DataSegment) list"

definition RW_Set :: "uint32 \<Rightarrow> DataSegment \<Rightarrow> ReceivingWindow \<Rightarrow> bool \<times> ReceivingWindow" where
  "RW_Set id0 x w = (case map_of w id0 of Some _ \<Rightarrow> (False, w) | None \<Rightarrow> (True, (id0, x) # w))"

definition RW_Has :: "uint32 \<Rightarrow> ReceivingWindow \<Rightarrow> bool" where
  "RW_Has id0 w \<longleftrightarrow> map_of w id0 \<noteq> None"

definition RW_Remove :: "uint32 \<Rightarrow> ReceivingWindow \<Rightarrow> DataSegment option \<times> ReceivingWindow" where
  "RW_Remove id0 w =
     (case map_of w id0 of None \<Rightarrow> (None, w) | Some v \<Rightarrow> (Some v, AList.delete id0 w))"

section \<open>AckList\<close>

record AckList =
  al_timestamps :: "uint32 list"
  al_numbers :: "uint32 list"
  al_nextFlush :: "uint32 list"
  al_flushCandidates :: "uint32 list"
  al_dirty :: bool

definition NewAckList :: AckList where
  "NewAckList = \<lparr>al_timestamps = [], al_numbers = [], al_nextFlush = [], al_flushCandidates = [],
     al_dirty = False\<rparr>"

definition AckList_Add :: "uint32 \<Rightarrow> uint32 \<Rightarrow> AckList \<Rightarrow> AckList" where
  "AckList_Add number timestamp l =
     l\<lparr>al_timestamps := al_timestamps l @ [timestamp], al_numbers := al_numbers l @ [number],
       al_nextFlush := al_nextFlush l @ [0], al_dirty := True\<rparr>"

text \<open>The compaction loop: \<open>k\<close> iterations are left, from index \<open>i\<close>.\<close>

fun clearLoop :: "uint32 \<Rightarrow> nat \<Rightarrow> nat \<Rightarrow> nat \<Rightarrow> AckList \<Rightarrow> nat \<times> AckList" where
  "clearLoop una 0 i count l = (count, l)"
| "clearLoop una (Suc k) i count l =
     (if al_numbers l ! i < una then clearLoop una k (Suc i) count l
      else clearLoop una k (Suc i) (Suc count)
        (if i \<noteq> count then
           l\<lparr>al_numbers := (al_numbers l)[count := al_numbers l ! i],
             al_timestamps := (al_timestamps l)[count := al_timestamps l ! i],
             al_nextFlush := (al_nextFlush l)[count := al_nextFlush l ! i]\<rparr>
         else l))"

definition AckList_Clear :: "uint32 \<Rightarrow> AckList \<Rightarrow> AckList" where
  "AckList_Clear una l =
     (let (count, l') = clearLoop una (length (al_numbers l)) 0 0 l in
      if count < length (al_numbers l') then
        l'\<lparr>al_numbers := take count (al_numbers l'), al_timestamps := take count (al_timestamps l'),
           al_nextFlush := take count (al_nextFlush l'), al_dirty := True\<rparr>
      else l')"

definition flush_timeout :: "uint32 \<Rightarrow> uint32" where
  "flush_timeout rto = (if rto div 2 < 20 then 20 else rto div 2)"

text \<open>
  The loop of \<open>Flush\<close> over the entries \<open>(number, timestamp, nextFlush)\<close>: the new \<open>nextFlush\<close>
  values, the candidates (at most 128, the capacity of their array), the segment under
  construction, the dirty flag and the segments written.
\<close>

fun flushLoop :: "uint32 \<Rightarrow> uint32 \<Rightarrow> (uint32 \<times> uint32 \<times> uint32) list \<Rightarrow> uint32 list \<Rightarrow> AckSegment \<Rightarrow> bool
    \<Rightarrow> uint32 list \<times> uint32 list \<times> AckSegment \<times> bool \<times> AckSegment list" where
  "flushLoop current rto [] cands seg dirty = ([], cands, seg, dirty, [])"
| "flushLoop current rto ((number, timestamp, nf) # es) cands seg dirty =
     (if nf > current then
        let cands' = (if length cands < 128 then cands @ [number] else cands);
            (nfs, r) = flushLoop current rto es cands' seg dirty in (nf # nfs, r)
      else
        let seg' = PutTimestamp timestamp (PutNumber number seg);
            nf' = current + flush_timeout rto in
        if Ack_IsFull seg' then
          let (nfs, cs, sg, dt, out) = flushLoop current rto es cands NewAckSegment False in
          (nf' # nfs, cs, sg, dt, seg' # out)
        else
          let (nfs, r) = flushLoop current rto es cands seg' dirty in (nf' # nfs, r))"

fun putCandidates :: "uint32 list \<Rightarrow> AckSegment \<Rightarrow> AckSegment" where
  "putCandidates [] seg = seg"
| "putCandidates (n # ns) seg = (if Ack_IsFull seg then seg else putCandidates ns (PutNumber n seg))"

definition AckList_Flush :: "uint32 \<Rightarrow> uint32 \<Rightarrow> AckList \<Rightarrow> AckList \<times> AckSegment list" where
  "AckList_Flush current rto l =
     (let (nfs, cands, seg, dirty, out) =
            flushLoop current rto (zip (al_numbers l) (zip (al_timestamps l) (al_nextFlush l))) []
              NewAckSegment (al_dirty l);
          l' = l\<lparr>al_nextFlush := nfs, al_flushCandidates := cands, al_dirty := dirty\<rparr> in
      if dirty \<or> \<not> Ack_IsEmpty seg then
        (l'\<lparr>al_dirty := False\<rparr>, out @ [putCandidates cands seg])
      else (l', out))"

section \<open>ReceivingWorker\<close>

record ReceivingWorker =
  rw_leftOver :: "MultiBuffer option"
  rw_window :: ReceivingWindow
  rw_acklist :: AckList
  rw_nextNumber :: uint32
  rw_windowSize :: uint32

definition NewReceivingWorker :: "uint32 \<Rightarrow> ReceivingWorker" where
  "NewReceivingWorker receivingInFlightSize =
     \<lparr>rw_leftOver = None, rw_window = [], rw_acklist = NewAckList, rw_nextNumber = 0,
      rw_windowSize = receivingInFlightSize\<rparr>"

definition RecvWorker_Release :: "ReceivingWorker \<Rightarrow> ReceivingWorker" where
  "RecvWorker_Release w = w\<lparr>rw_leftOver := None\<rparr>"

definition ProcessSendingNext :: "uint32 \<Rightarrow> ReceivingWorker \<Rightarrow> ReceivingWorker" where
  "ProcessSendingNext number w = w\<lparr>rw_acklist := AckList_Clear number (rw_acklist w)\<rparr>"

definition RecvWorker_ProcessSegment :: "DataSegment \<Rightarrow> ReceivingWorker \<Rightarrow> ReceivingWorker" where
  "RecvWorker_ProcessSegment seg w =
     (let number = DS_Number seg; idx = number - rw_nextNumber w in
      if idx \<ge> rw_windowSize w then w
      else w\<lparr>rw_acklist := AckList_Add number (DS_Timestamp seg)
                            (AckList_Clear (DS_SendingNext seg) (rw_acklist w)),
             rw_window := snd (RW_Set number seg (rw_window w))\<rparr>)"

text \<open>The segment's buffer: a fresh one, into which its payload was written.\<close>

definition Detach :: "DataSegment \<Rightarrow> Buffer" where
  "Detach seg = snd (Write (DS_payload seg) (New []))"

lemma delete_shorter: "map_of w k = Some v \<Longrightarrow> length (AList.delete k w) < length w"
  by (force simp: AList.delete_eq length_filter_less_iff dest: map_of_SomeD)

function drain :: "uint32 \<Rightarrow> ReceivingWindow \<Rightarrow> DataSegment list \<times> uint32 \<times> ReceivingWindow" where
  "drain next w =
     (case RW_Remove next w of
        (None, _) \<Rightarrow> ([], next, w)
      | (Some seg, w') \<Rightarrow> (let (segs, n, w'') = drain (next + 1) w' in (seg # segs, n, w'')))"
  by pat_completeness auto
termination
proof (relation "measure (\<lambda>(next, w). length w)")
  fix "next" :: uint32 and w x y seg
  assume "(x, y) = RW_Remove next w" and "x = Some seg"
  then have "map_of w next = Some seg" and "y = AList.delete next w"
    by (auto simp: RW_Remove_def split: option.splits)
  then show "((next + 1, y), next, w) \<in> measure (\<lambda>(next, w). length w)"
    by (simp add: delete_shorter)
qed simp

declare drain.simps [simp del]

definition RecvWorker_ReadMultiBuffer :: "ReceivingWorker \<Rightarrow> MultiBuffer \<times> ReceivingWorker" where
  "RecvWorker_ReadMultiBuffer w =
     (case rw_leftOver w of
        Some mb \<Rightarrow> (mb, w\<lparr>rw_leftOver := None\<rparr>)
      | None \<Rightarrow>
          (let (segs, n, win) = drain (rw_nextNumber w) (rw_window w) in
           (map Detach segs, w\<lparr>rw_nextNumber := n, rw_window := win\<rparr>)))"

definition RecvWorker_Read :: "nat \<Rightarrow> ReceivingWorker \<Rightarrow> bytes \<times> ReceivingWorker" where
  "RecvWorker_Read k w =
     (let (mb, w') = RecvWorker_ReadMultiBuffer w in
      if MB_IsEmpty mb then ([], w')
      else let (mb', d) = SplitBytes mb k in
           (d, if \<not> MB_IsEmpty mb' then w'\<lparr>rw_leftOver := Some mb'\<rparr> else w'))"

definition IsDataAvailable :: "ReceivingWorker \<Rightarrow> bool" where
  "IsDataAvailable w \<longleftrightarrow> RW_Has (rw_nextNumber w) (rw_window w)"

text \<open>
  \<open>Write\<close> completes an acknowledgement with the connection's data before the output writer;
  \<open>Flush\<close> therefore yields completed segments.
\<close>

definition RecvWorker_Write :: "uint16 \<Rightarrow> bool \<Rightarrow> ReceivingWorker \<Rightarrow> AckSegment \<Rightarrow> AckSegment" where
  "RecvWorker_Write conv readyToClose w ackSeg =
     ackSeg\<lparr>AS_Conv := conv, AS_ReceivingNext := rw_nextNumber w,
            AS_ReceivingWindow := rw_nextNumber w + rw_windowSize w,
            AS_Option := (if readyToClose then SegmentOptionClose else 0)\<rparr>"

definition RecvWorker_Flush :: "uint16 \<Rightarrow> bool \<Rightarrow> uint32 \<Rightarrow> uint32 \<Rightarrow> ReceivingWorker
    \<Rightarrow> ReceivingWorker \<times> AckSegment list" where
  "RecvWorker_Flush conv readyToClose rto current w =
     (let (l, out) = AckList_Flush current rto (rw_acklist w) in
      (w\<lparr>rw_acklist := l\<rparr>, map (RecvWorker_Write conv readyToClose w) out))"

definition RecvWorker_UpdateNecessary :: "ReceivingWorker \<Rightarrow> bool" where
  "RecvWorker_UpdateNecessary w \<longleftrightarrow> length (al_numbers (rw_acklist w)) > 0"

section \<open>AckList: the compaction is a filter\<close>

definition wf_AckList :: "AckList \<Rightarrow> bool" where
  "wf_AckList l \<longleftrightarrow> length (al_timestamps l) = length (al_numbers l)
     \<and> length (al_nextFlush l) = length (al_numbers l)"

definition entries :: "AckList \<Rightarrow> (uint32 \<times> uint32 \<times> uint32) list" where
  "entries l = zip (al_numbers l) (zip (al_timestamps l) (al_nextFlush l))"

lemma length_entries [simp]: "wf_AckList l \<Longrightarrow> length (entries l) = length (al_numbers l)"
  by (simp add: wf_AckList_def entries_def)

lemma map_fst_entries: "wf_AckList l \<Longrightarrow> map fst (entries l) = al_numbers l"
  by (simp add: wf_AckList_def entries_def)

lemma entries_move:
  assumes "wf_AckList l" and "i < length (al_numbers l)"
  shows "entries (l\<lparr>al_numbers := (al_numbers l)[c := al_numbers l ! i],
             al_timestamps := (al_timestamps l)[c := al_timestamps l ! i],
             al_nextFlush := (al_nextFlush l)[c := al_nextFlush l ! i]\<rparr>)
    = (entries l)[c := entries l ! i]"
  using assms by (simp add: entries_def wf_AckList_def update_zip)

abbreviation kept :: "uint32 \<Rightarrow> uint32 \<times> uint32 \<times> uint32 \<Rightarrow> bool" where
  "kept una \<equiv> \<lambda>(n, _). \<not> n < una"

lemma clearLoop_spec:
  "clearLoop una k i count l = (c, l') \<Longrightarrow> wf_AckList l \<Longrightarrow> i + k = length (al_numbers l) \<Longrightarrow> count \<le> i \<Longrightarrow>
     wf_AckList l' \<and> length (al_numbers l') = length (al_numbers l)
     \<and> c = count + length (filter (kept una) (drop i (entries l)))
     \<and> take c (entries l') = take count (entries l) @ filter (kept una) (drop i (entries l))
     \<and> al_dirty l' = al_dirty l \<and> al_flushCandidates l' = al_flushCandidates l"
proof (induction una k i count l arbitrary: c l' rule: clearLoop.induct)
  case (1 una i count l)
  then show ?case by auto
next
  case (2 una k i count l)
  have i: "i < length (entries l)" using "2.prems" by simp
  then have ith: "entries l ! i = (al_numbers l ! i, al_timestamps l ! i, al_nextFlush l ! i)"
    using "2.prems" by (simp add: entries_def wf_AckList_def)
  have dr: "drop i (entries l) = entries l ! i # drop (Suc i) (entries l)"
    using i by (simp add: Cons_nth_drop_Suc)
  show ?case
  proof (cases "al_numbers l ! i < una")
    case True
    then have "clearLoop una k (Suc i) count l = (c, l')"
      using "2.prems"(1) by simp
    from "2.IH"(1) [OF True this "2.prems"(2)] show ?thesis
      using "2.prems" True ith by (auto simp: dr)
  next
    case False
    let ?l = "if i \<noteq> count then
           l\<lparr>al_numbers := (al_numbers l)[count := al_numbers l ! i],
             al_timestamps := (al_timestamps l)[count := al_timestamps l ! i],
             al_nextFlush := (al_nextFlush l)[count := al_nextFlush l ! i]\<rparr>
         else l"
    have e: "entries ?l = (entries l)[count := entries l ! i]"
      using entries_move [OF "2.prems"(2), of i count] i "2.prems"(2) by (auto simp: list_update_same_conv)
    have wf: "wf_AckList ?l" "length (al_numbers ?l) = length (al_numbers l)"
        "al_dirty ?l = al_dirty l" "al_flushCandidates ?l = al_flushCandidates l"
      using "2.prems"(2) by (auto simp: wf_AckList_def)
    have "clearLoop una k (Suc i) (Suc count) ?l = (c, l')"
      using "2.prems"(1) False by simp
    note IH = "2.IH"(2) [OF False this wf(1)]
    have "take (Suc count) (entries ?l) = take count (entries l) @ [entries l ! i]"
      using i "2.prems"(4) by (simp add: e take_Suc_conv_app_nth)
    moreover have "drop (Suc i) (entries ?l) = drop (Suc i) (entries l)"
      using "2.prems"(4) by (simp add: e)
    ultimately show ?thesis
      using IH wf "2.prems" False ith by (auto simp: dr)
  qed
qed

lemma AckList_Clear_filter:
  assumes "wf_AckList l"
  shows "wf_AckList (AckList_Clear una l)"
    and "entries (AckList_Clear una l) = filter (kept una) (entries l)"
    and "al_dirty (AckList_Clear una l) \<longleftrightarrow> al_dirty l \<or> (\<exists>n\<in>set (al_numbers l). n < una)"
proof -
  obtain c l' where loop: "clearLoop una (length (al_numbers l)) 0 0 l = (c, l')"
    by (metis prod.exhaust)
  note sp = clearLoop_spec [OF loop assms]
  have c: "c = length (filter (kept una) (entries l))"
    and t: "take c (entries l') = filter (kept una) (entries l)"
    and wf: "wf_AckList l'" "length (al_numbers l') = length (al_numbers l)" "al_dirty l' = al_dirty l"
    using sp by auto
  have "c < length (entries l) \<longleftrightarrow> (\<exists>e\<in>set (entries l). \<not> kept una e)"
    unfolding c by (rule length_filter_less_iff)
  also have "\<dots> \<longleftrightarrow> (\<exists>n\<in>fst ` set (entries l). n < una)"
    by force
  also have "fst ` set (entries l) = set (al_numbers l)"
    by (simp add: map_fst_entries [OF assms, symmetric])
  finally have lt: "c < length (al_numbers l) \<longleftrightarrow> (\<exists>n\<in>set (al_numbers l). n < una)"
    using assms by simp
  have le: "c \<le> length (al_numbers l')"
    using c assms wf by (metis length_entries length_filter_le)
  let ?t = "l'\<lparr>al_numbers := take c (al_numbers l'), al_timestamps := take c (al_timestamps l'),
           al_nextFlush := take c (al_nextFlush l'), al_dirty := True\<rparr>"
  have et: "entries ?t = take c (entries l')" "wf_AckList ?t"
    using wf by (auto simp: entries_def wf_AckList_def take_zip)
  show "wf_AckList (AckList_Clear una l)"
    using loop wf et by (auto simp: AckList_Clear_def)
  show "entries (AckList_Clear una l) = filter (kept una) (entries l)"
    using loop wf et t le by (auto simp: AckList_Clear_def)
  show "al_dirty (AckList_Clear una l) \<longleftrightarrow> al_dirty l \<or> (\<exists>n\<in>set (al_numbers l). n < una)"
    using loop wf lt by (auto simp: AckList_Clear_def)
qed

lemma AckList_Add_entries:
  assumes "wf_AckList l"
  shows "wf_AckList (AckList_Add n t l)" and "entries (AckList_Add n t l) = entries l @ [(n, t, 0)]"
  using assms by (auto simp: AckList_Add_def wf_AckList_def entries_def)

section \<open>AckList: what a flush acknowledges\<close>

abbreviation due :: "uint32 \<Rightarrow> uint32 \<times> uint32 \<times> uint32 \<Rightarrow> bool" where
  "due current \<equiv> \<lambda>(_, _, nf). \<not> nf > current"

lemma AS_NumberList_Put [simp]:
  "AS_NumberList (PutNumber n s) = AS_NumberList s @ [n]"
  "AS_NumberList (PutTimestamp t s) = AS_NumberList s"
  "AS_NumberList NewAckSegment = []"
  by (simp_all add: PutNumber_def PutTimestamp_def NewAckSegment_def)

lemma flushLoop_numbers:
  "flushLoop current rto es cands seg dirty = (nfs, cs, sg, dt, out) \<Longrightarrow>
   length (AS_NumberList seg) < ackNumberLimit \<Longrightarrow>
     concat (map AS_NumberList out) @ AS_NumberList sg
       = AS_NumberList seg @ map fst (filter (due current) es)
     \<and> list_all (\<lambda>s. length (AS_NumberList s) = ackNumberLimit) out
     \<and> length (AS_NumberList sg) < ackNumberLimit \<and> length nfs = length es"
proof (induction current rto es cands seg dirty arbitrary: nfs cs sg dt out rule: flushLoop.induct)
  case (1 current rto cands seg dirty)
  then show ?case by auto
next
  case (2 current rto number timestamp nf es cands seg dirty)
  let ?seg = "PutTimestamp timestamp (PutNumber number seg)"
  consider (later) "nf > current" | (full) "\<not> nf > current" "Ack_IsFull ?seg"
    | (room) "\<not> nf > current" "\<not> Ack_IsFull ?seg"
    by blast
  then show ?case
  proof cases
    case later
    let ?cands = "if length cands < 128 then cands @ [number] else cands"
    obtain nfs' where r: "flushLoop current rto es ?cands seg dirty = (nfs', cs, sg, dt, out)"
        and o: "nfs = nf # nfs'"
      using "2.prems"(1) later by (auto simp: Let_def split: prod.splits)
    show ?thesis
      using "2.IH"(1) [OF later refl r "2.prems"(2)] later o by simp
  next
    case full
    obtain nfs' out' where r: "flushLoop current rto es cands NewAckSegment False = (nfs', cs, sg, dt, out')"
        and o: "out = ?seg # out'" "nfs = (current + flush_timeout rto) # nfs'"
      using "2.prems"(1) full by (auto simp: Let_def split: prod.splits)
    show ?thesis
      using "2.IH"(2) [OF full(1) refl refl full(2) r] full o
      by (simp add: Ack_IsFull_def ackNumberLimit_def)
  next
    case room
    obtain nfs' where r: "flushLoop current rto es cands ?seg dirty = (nfs', cs, sg, dt, out)"
        and o: "nfs = (current + flush_timeout rto) # nfs'"
      using "2.prems"(1) room by (auto simp: Let_def split: prod.splits)
    have "length (AS_NumberList ?seg) < ackNumberLimit"
      using room(2) "2.prems"(2) by (simp add: Ack_IsFull_def)
    then show ?thesis
      using "2.IH"(3) [OF room(1) refl refl room(2) r] room(1) o by simp
  qed
qed

lemma putCandidates_numbers:
  "length (AS_NumberList seg) \<le> ackNumberLimit \<Longrightarrow>
     (\<exists>ns. AS_NumberList (putCandidates cs seg) = AS_NumberList seg @ ns \<and> set ns \<subseteq> set cs)
     \<and> length (AS_NumberList (putCandidates cs seg)) \<le> ackNumberLimit"
proof (induction cs arbitrary: seg)
  case Nil
  then show ?case by simp
next
  case (Cons c cs)
  show ?case
  proof (cases "Ack_IsFull seg")
    case True
    then show ?thesis using Cons.prems by simp
  next
    case False
    then have "length (AS_NumberList (PutNumber c seg)) \<le> ackNumberLimit"
      using Cons.prems by (simp add: Ack_IsFull_def)
    from Cons.IH [OF this] False show ?thesis by fastforce
  qed
qed

lemma AckList_Flush_numbers:
  assumes "wf_AckList l" and "AckList_Flush current rto l = (l', out)"
  shows "wf_AckList l'" and "al_numbers l' = al_numbers l"
    and "\<forall>s\<in>set out. length (AS_NumberList s) \<le> ackNumberLimit"
    and "fst ` set (filter (due current) (entries l)) \<subseteq> (\<Union>s\<in>set out. set (AS_NumberList s))"
proof -
  obtain nfs cs sg dt out0 where
    r: "flushLoop current rto (entries l) [] NewAckSegment (al_dirty l) = (nfs, cs, sg, dt, out0)"
    by (metis prod.exhaust)
  have lim: "length (AS_NumberList NewAckSegment) < ackNumberLimit"
    by (simp add: ackNumberLimit_def)
  note n = flushLoop_numbers [OF r lim]
  have o: "out = (if dt \<or> \<not> Ack_IsEmpty sg then out0 @ [putCandidates cs sg] else out0)"
    and l': "al_numbers l' = al_numbers l" "al_timestamps l' = al_timestamps l" "al_nextFlush l' = nfs"
    using assms(2) r by (auto simp: AckList_Flush_def entries_def Let_def split: if_splits)
  show "wf_AckList l'" and "al_numbers l' = al_numbers l"
    using l' n assms(1) by (auto simp: wf_AckList_def entries_def)
  note p = putCandidates_numbers [of sg cs]
  show "\<forall>s\<in>set out. length (AS_NumberList s) \<le> ackNumberLimit"
    using n p o by (auto simp: list_all_iff)
  have due: "fst ` set (filter (due current) (entries l))
      = (\<Union>s\<in>set out0. set (AS_NumberList s)) \<union> set (AS_NumberList sg)"
    using arg_cong [OF conjunct1 [OF n], of set] by simp
  then show "fst ` set (filter (due current) (entries l)) \<subseteq> (\<Union>s\<in>set out. set (AS_NumberList s))"
    using n p o by (auto simp: Ack_IsEmpty_def)
qed

section \<open>In-order, exactly-once delivery\<close>

text \<open>
  The sender numbers its segments \<open>0, 1, 2, \<dots>\<close> and segment \<open>m\<close> carries \<open>f m\<close>; on the wire its
  number is \<open>m\<close> modulo \<open>2 ^ 32\<close>. A segment may arrive late, twice, out of order or never. The
  only assumption on the network is that an arriving segment is not older than a whole cycle of
  the sequence numbers (less one window) and not more than a cycle ahead. \<open>a\<close> counts the segments
  the worker has taken out of its window.
\<close>

definition drained :: "ReceivingWorker \<Rightarrow> nat" where
  "drained w = (if rw_leftOver w = None then length (fst (drain (rw_nextNumber w) (rw_window w))) else 0)"

inductive recv_run :: "(nat \<Rightarrow> bytes) \<Rightarrow> uint32 \<Rightarrow> nat \<Rightarrow> ReceivingWorker \<Rightarrow> bytes \<Rightarrow> bool"
  for f :: "nat \<Rightarrow> bytes" and W :: uint32 where
  recv_start: "recv_run f W 0 (NewReceivingWorker W) []"
| recv_arrive: "recv_run f W a w out \<Longrightarrow> DS_Number seg = word_of_nat m \<Longrightarrow> DS_payload seg = f m \<Longrightarrow>
     m < a + 2 ^ 32 \<Longrightarrow> a + unat W \<le> m + 2 ^ 32 \<Longrightarrow>
     recv_run f W a (RecvWorker_ProcessSegment seg w) out"
| recv_sending_next: "recv_run f W a w out \<Longrightarrow> recv_run f W a (ProcessSendingNext n w) out"
| recv_flush: "recv_run f W a w out \<Longrightarrow>
     recv_run f W a (fst (RecvWorker_Flush conv rtc rto current w)) out"
| recv_read_multi: "recv_run f W a w out \<Longrightarrow> RecvWorker_ReadMultiBuffer w = (mb, w') \<Longrightarrow>
     recv_run f W (a + drained w) w' (out @ mcontent mb)"
| recv_read: "recv_run f W a w out \<Longrightarrow> RecvWorker_Read k w = (d, w') \<Longrightarrow>
     recv_run f W (a + drained w) w' (out @ d)"

definition window_ok :: "(nat \<Rightarrow> bytes) \<Rightarrow> nat \<Rightarrow> nat \<Rightarrow> ReceivingWindow \<Rightarrow> bool" where
  "window_ok f W a win \<longleftrightarrow> distinct (map fst win)
     \<and> (\<forall>(k, seg)\<in>set win. \<exists>m. a \<le> m \<and> m < a + W \<and> k = word_of_nat m \<and> DS_payload seg = f m)"

definition recv_inv :: "(nat \<Rightarrow> bytes) \<Rightarrow> uint32 \<Rightarrow> nat \<Rightarrow> ReceivingWorker \<Rightarrow> bytes \<Rightarrow> bool" where
  "recv_inv f W a w out \<longleftrightarrow> rw_nextNumber w = word_of_nat a \<and> rw_windowSize w = W
     \<and> window_ok f (unat W) a (rw_window w)
     \<and> wf_MB (case rw_leftOver w of None \<Rightarrow> [] | Some mb \<Rightarrow> mb)
     \<and> out @ mcontent (case rw_leftOver w of None \<Rightarrow> [] | Some mb \<Rightarrow> mb) = concat (map f [0..<a])"

lemma word32_of_nat_eq_near:
  assumes "(word_of_nat m :: uint32) = word_of_nat n" and "m < n + 2 ^ 32" and "n \<le> m"
  shows "m = n"
proof -
  obtain d where d: "m = n + d" "d < 2 ^ 32"
    using assms(2,3) by (metis le_Suc_ex nat_add_left_cancel_less)
  then have "(word_of_nat d :: uint32) = 0"
    using assms(1) by simp
  then have "2 ^ 32 dvd d"
    by (simp add: word_of_nat_eq_0_iff)
  then show ?thesis
    using d by (auto dest: dvd_imp_le)
qed

text \<open>The wrapped window test accepts exactly the segments of the window.\<close>

lemma window_test:
  assumes "m < a + 2 ^ 32" and "a + W \<le> m + 2 ^ 32" and "W < 2 ^ 32"
  shows "unat (word_of_nat m - word_of_nat a :: uint32) < W \<longleftrightarrow> a \<le> m \<and> m < a + W"
proof (cases "a \<le> m")
  case True
  then have "(word_of_nat m - word_of_nat a :: uint32) = word_of_nat (m - a)"
    by (simp add: of_nat_diff)
  moreover have "unat (word_of_nat (m - a) :: uint32) = m - a"
    using assms(1) True by (simp add: unat_of_nat take_bit_nat_eq_self del: of_nat_diff)
  ultimately show ?thesis using True by auto
next
  case False
  then have "(word_of_nat m - word_of_nat a :: uint32) = - word_of_nat (a - m)"
    by (simp add: of_nat_diff)
  also have "\<dots> = word_of_nat (2 ^ 32 - (a - m))"
    using False assms by (simp add: of_nat_diff)
  finally have "unat (word_of_nat m - word_of_nat a :: uint32) = 2 ^ 32 - (a - m)"
    using False assms by (simp add: unat_of_nat take_bit_nat_eq_self del: of_nat_diff)
  then show ?thesis using False assms by auto
qed

lemma window_ok_empty: "window_ok f W a []"
  by (simp add: window_ok_def)

lemma window_ok_Set:
  assumes "window_ok f W a win" and "a \<le> m" and "m < a + W"
    and "DS_payload seg = f m"
  shows "window_ok f W a (snd (RW_Set (word_of_nat m) seg win))"
  using assms by (auto simp: window_ok_def RW_Set_def map_of_eq_None_iff split: option.splits)

lemma window_ok_delete:
  assumes "window_ok f W a win" and "W \<le> 2 ^ 32"
  shows "window_ok f W (Suc a) (AList.delete (word_of_nat a) win)"
proof -
  have "\<exists>m. Suc a \<le> m \<and> m < Suc a + W \<and> k = word_of_nat m \<and> DS_payload seg = f m"
    if "(k, seg) \<in> set win" and "k \<noteq> word_of_nat a" for k seg
  proof -
    from that assms(1) obtain m where m: "a \<le> m" "m < a + W" "k = word_of_nat m" "DS_payload seg = f m"
      by (auto simp: window_ok_def)
    with that(2) have "m \<noteq> a" by auto
    with m show ?thesis by (intro exI [of _ m]) auto
  qed
  then show ?thesis
    using assms(1) by (auto simp: window_ok_def AList.delete_eq distinct_map_filter)
qed

lemma drain_spec:
  "window_ok f W a win \<Longrightarrow> W \<le> 2 ^ 32 \<Longrightarrow> drain (word_of_nat a) win = (segs, n, win') \<Longrightarrow>
     map DS_payload segs = map f [a..<a + length segs] \<and> n = word_of_nat (a + length segs)
     \<and> window_ok f W (a + length segs) win' \<and> map_of win' n = None"
proof (induction win arbitrary: a segs n win' rule: length_induct)
  case (1 win)
  show ?case
  proof (cases "map_of win (word_of_nat a)")
    case None
    then show ?thesis
      using "1.prems" by (auto simp: drain.simps [of "word_of_nat a" win] RW_Remove_def)
  next
    case (Some seg)
    obtain m where m: "a \<le> m" "m < a + W" "(word_of_nat a :: uint32) = word_of_nat m" "DS_payload seg = f m"
      using "1.prems"(1) map_of_SomeD [OF Some] by (fastforce simp: window_ok_def)
    then have "m = a"
      using word32_of_nat_eq_near [of m a] "1.prems"(2) by simp
    let ?win = "AList.delete (word_of_nat a) win"
    have less: "length ?win < length win"
      using Some by (rule delete_shorter)
    obtain segs' where d: "drain (word_of_nat (Suc a)) ?win = (segs', n, win')" and segs: "segs = seg # segs'"
      using "1.prems"(3) Some
      by (auto simp: drain.simps [of "word_of_nat a" win] RW_Remove_def add.commute split: prod.splits)
    have "map DS_payload segs' = map f [Suc a..<Suc a + length segs'] \<and> n = word_of_nat (Suc a + length segs')
        \<and> window_ok f W (Suc a + length segs') win' \<and> map_of win' n = None"
      using "1.IH" [rule_format, OF less window_ok_delete [OF "1.prems"(1,2)] "1.prems"(2) d] .
    then show ?thesis
      using segs m(4) \<open>m = a\<close> by (auto simp: upt_conv_Cons simp del: upt_Suc)
  qed
qed

lemma mcontent_Detach:
  "(\<forall>s\<in>set segs. length (DS_payload s) \<le> Size) \<Longrightarrow>
     mcontent (map Detach segs) = concat (map DS_payload segs) \<and> wf_MB (map Detach segs)"
proof (induction segs)
  case Nil
  then show ?case by simp
next
  case (Cons s segs)
  obtain n err b where w: "Write (DS_payload s) (New []) = ((n, err), b)"
    by (metis prod.exhaust)
  note e = Write_effect [OF wf_New w]
  have "n = length (DS_payload s)"
    using e(3) Cons.prems by (simp add: Size_def)
  with e w Cons show ?case by (simp add: Detach_def)
qed

lemma concat_map_upt_split: "a \<le> b \<Longrightarrow> concat (map f [0..<a]) @ concat (map f [a..<b]) = concat (map f [0..<b])"
  by (metis concat_append map_append upt_add_eq_append le_add_diff_inverse zero_le)

lemma recv_inv_ReadMultiBuffer:
  assumes inv: "recv_inv f W a w out" and small: "\<And>m. length (f m) \<le> Size"
    and rd: "RecvWorker_ReadMultiBuffer w = (mb, w')"
  shows "recv_inv f W (a + drained w) w' (out @ mcontent mb)" and "wf_MB mb" and "rw_leftOver w' = None"
proof -
  have "recv_inv f W (a + drained w) w' (out @ mcontent mb) \<and> wf_MB mb \<and> rw_leftOver w' = None"
  proof (cases "rw_leftOver w")
    case (Some lo)
    then show ?thesis
      using inv rd by (auto simp: recv_inv_def RecvWorker_ReadMultiBuffer_def drained_def)
  next
    case None
    obtain segs n win where d: "drain (rw_nextNumber w) (rw_window w) = (segs, n, win)"
      by (metis prod.exhaust)
    then have res: "mb = map Detach segs" "w' = w\<lparr>rw_nextNumber := n, rw_window := win\<rparr>"
      using rd None by (auto simp: RecvWorker_ReadMultiBuffer_def)
    have W: "unat W \<le> 2 ^ 32"
      using unat_bound [of W] by simp
    have sp: "map DS_payload segs = map f [a..<a + length segs]" "n = word_of_nat (a + length segs)"
        "window_ok f (unat W) (a + length segs) win"
      using drain_spec [of f "unat W" a "rw_window w" segs n win] inv d W by (auto simp: recv_inv_def)
    have "length (DS_payload s) \<le> Size" if "s \<in> set segs" for s
    proof -
      have "DS_payload s \<in> set (map f [a..<a + length segs])"
        using that by (simp flip: sp(1))
      then show ?thesis using small by auto
    qed
    then have "mcontent mb = concat (map f [a..<a + length segs])" "wf_MB mb"
      using mcontent_Detach [of segs] res(1) sp(1) by auto
    then show ?thesis
      using inv None res sp d concat_map_upt_split [of a "a + length segs" f]
      by (auto simp: recv_inv_def drained_def)
  qed
  then show "recv_inv f W (a + drained w) w' (out @ mcontent mb)" and "wf_MB mb" and "rw_leftOver w' = None"
    by auto
qed

lemma recv_inv_Read:
  assumes inv: "recv_inv f W a w out" and small: "\<And>m. length (f m) \<le> Size"
    and rd: "RecvWorker_Read k w = (d, w')"
  shows "recv_inv f W (a + drained w) w' (out @ d)"
proof -
  obtain mb w1 where r: "RecvWorker_ReadMultiBuffer w = (mb, w1)"
    by (metis prod.exhaust)
  note i = recv_inv_ReadMultiBuffer [OF inv small r]
  obtain mb' d' where s: "SplitBytes mb k = (mb', d')"
    by (metis prod.exhaust)
  note sp = SplitBytes_effect [OF i(2) s]
  show ?thesis
    using rd r i s sp by (auto simp: RecvWorker_Read_def recv_inv_def MB_IsEmpty_mcontent split: if_splits)
qed

lemma recv_inv_ProcessSegment:
  assumes inv: "recv_inv f W a w out" and "DS_Number seg = word_of_nat m" and "DS_payload seg = f m"
    and "m < a + 2 ^ 32" and "a + unat W \<le> m + 2 ^ 32"
  shows "recv_inv f W a (RecvWorker_ProcessSegment seg w) out"
proof -
  have "unat W < 2 ^ 32"
    using unat_bound [of W] by simp
  from window_test [OF assms(4,5) this]
  have "\<not> DS_Number seg - rw_nextNumber w \<ge> W \<longleftrightarrow> a \<le> m \<and> m < a + unat W"
    using inv assms(2) by (simp add: recv_inv_def word_le_nat_alt not_le)
  then show ?thesis
    using inv assms(2,3) window_ok_Set [of f "unat W" a "rw_window w" m seg]
    by (auto simp: RecvWorker_ProcessSegment_def recv_inv_def Let_def)
qed

lemma recv_run_inv:
  assumes "recv_run f W a w out" and "\<And>m. length (f m) \<le> Size"
  shows "recv_inv f W a w out"
  using assms(1)
proof (induction rule: recv_run.induct)
  case recv_start
  then show ?case by (simp add: recv_inv_def NewReceivingWorker_def window_ok_empty)
next
  case (recv_arrive a w out seg m)
  then show ?case by (intro recv_inv_ProcessSegment)
next
  case (recv_sending_next a w out n)
  then show ?case by (simp add: recv_inv_def ProcessSendingNext_def)
next
  case (recv_flush a w out conv rtc rto current)
  then show ?case by (simp add: recv_inv_def RecvWorker_Flush_def split: prod.splits)
next
  case (recv_read_multi a w out mb w')
  then show ?case using recv_inv_ReadMultiBuffer(1) assms(2) by blast
next
  case (recv_read a w out k d w')
  then show ?case using recv_inv_Read assms(2) by blast
qed

section \<open>Properties\<close>

text \<open>
  C13. In-order, exactly-once delivery across the wrap-around of the segment numbers: after any
  sequence of arrivals, reads and flushes, the bytes handed to the application followed by the
  bytes left over are the payloads of the first \<open>a\<close> segments, where \<open>a\<close> counts the segments
  drained so far. Arriving segments may be anywhere within \<open>2 ^ 32\<close> of the window.
\<close>

theorem recv_in_order:
  assumes "recv_run f W a w out" and "\<And>m. length (f m) \<le> Size"
  shows "out @ mcontent (case rw_leftOver w of None \<Rightarrow> [] | Some mb \<Rightarrow> mb) = concat (map f [0..<a])
    \<and> rw_nextNumber w = word_of_nat a"
  using recv_run_inv [OF assms] by (simp add: recv_inv_def)

theorem recv_in_order_witness:
  "\<exists>w out. recv_run (\<lambda>_. [7]) 8 0 w [] \<and> RW_Has 0 (rw_window w)
     \<and> [] @ mcontent (case rw_leftOver w of None \<Rightarrow> [] | Some mb \<Rightarrow> mb) = concat (map (\<lambda>_. [7]) [0..<0])
     \<and> rw_nextNumber w = word_of_nat 0"
proof -
  let ?seg = "NewDataSegment\<lparr>DS_payload := [7]\<rparr>"
  let ?w = "RecvWorker_ProcessSegment ?seg (NewReceivingWorker 8)"
  have run: "recv_run (\<lambda>_. [7]) 8 0 ?w []"
    by (rule recv_arrive [OF recv_start, where m = 0]) (simp_all add: NewDataSegment_def)
  have "RW_Has 0 (rw_window ?w)"
    by (simp add: RecvWorker_ProcessSegment_def NewReceivingWorker_def NewDataSegment_def RW_Has_def RW_Set_def Let_def)
  then show ?thesis
    using recv_in_order [OF run] run by (auto simp: Size_def)
qed

text \<open>
  The in-place compaction of the list of acknowledgements computes a filter: \<open>Clear\<close> keeps
  exactly the entries whose number is not below \<open>una\<close>, in order and with their times, and marks
  the list as changed when it dropped one.
\<close>

theorem AckList_Clear_is_filter:
  assumes "wf_AckList l"
  shows "entries (AckList_Clear una l) = filter (kept una) (entries l) \<and> wf_AckList (AckList_Clear una l)
    \<and> (al_dirty (AckList_Clear una l) \<longleftrightarrow> al_dirty l \<or> (\<exists>n\<in>set (al_numbers l). n < una))"
  using AckList_Clear_filter [OF assms] by blast

theorem AckList_Clear_is_filter_witness:
  "entries (AckList_Clear 2 (AckList_Add 5 50 (AckList_Add 1 10 (AckList_Add 3 30 NewAckList)))) = [(3, 30, 0), (5, 50, 0)]"
proof -
  let ?l = "AckList_Add 5 50 (AckList_Add 1 10 (AckList_Add 3 30 NewAckList))"
  have "wf_AckList ?l"
    by (simp add: wf_AckList_def AckList_Add_def NewAckList_def)
  from AckList_Clear_is_filter [OF this, of 2] show ?thesis
    by (simp add: entries_def AckList_Add_def NewAckList_def)
qed

text \<open>
  A flush of the acknowledgements announces every number that is due, in segments of at most
  128 numbers, and forgets none of them: they leave the list only through \<open>Clear\<close>.
\<close>

theorem AckList_Flush_acks_due:
  assumes "wf_AckList l" and "AckList_Flush current rto l = (l', out)"
  shows "fst ` set (filter (due current) (entries l)) \<subseteq> (\<Union>s\<in>set out. set (AS_NumberList s))
    \<and> list_all (\<lambda>s. length (AS_NumberList s) \<le> ackNumberLimit) out
    \<and> al_numbers l' = al_numbers l \<and> wf_AckList l'"
  using AckList_Flush_numbers [OF assms] by (simp add: list_all_iff)

theorem AckList_Flush_acks_due_witness:
  "\<exists>l' out. AckList_Flush 100 40 (AckList_Add 3 30 NewAckList) = (l', out) \<and> 3 \<in> (\<Union>s\<in>set out. set (AS_NumberList s))"
proof -
  let ?l = "AckList_Add 3 30 NewAckList"
  have wf: "wf_AckList ?l"
    by (simp add: wf_AckList_def AckList_Add_def NewAckList_def)
  obtain l' out where f: "AckList_Flush 100 40 ?l = (l', out)"
    by (rule prod.exhaust)
  have "3 \<in> fst ` set (filter (due 100) (entries ?l))"
    by (simp add: entries_def AckList_Add_def NewAckList_def)
  then have "3 \<in> (\<Union>s\<in>set out. set (AS_NumberList s))"
    using AckList_Flush_acks_due [OF wf f] by (meson subsetD)
  with f show ?thesis by blast
qed

end
