(* ===== verification/Kcp_Transfer.thy ===== *)
theory Kcp_Transfer
  imports Kcp_Sending Kcp_Receiving
begin

text \<open>
  One direction of a KCP connection as a whole: the sending worker of one end, the receiving worker
  of the other end, and a network between them that loses, repeats and reorders segments.

  The network remembers every segment ever sent, and any remembered segment may arrive at any time;
  a lost segment is one that never arrives. The steps are the workers' own operations. \<open>f\<close> is the
  sequence of buffers that the application writes.
\<close>

section \<open>Acknowledgements tell the truth\<close>

lemma set_putCandidates: "set (AS_NumberList (putCandidates ns seg)) \<subseteq> set ns \<union> set (AS_NumberList seg)"
  by (induction ns seg rule: putCandidates.induct) auto

lemma flushLoop_sound:
  "flushLoop current rto es cands seg dirty = (nfs, cs, sg, dt, out) \<Longrightarrow>
     set cs \<subseteq> set cands \<union> fst ` set es
     \<and> set (AS_NumberList sg) \<subseteq> set (AS_NumberList seg) \<union> fst ` set es
     \<and> (\<forall>s\<in>set out. set (AS_NumberList s) \<subseteq> set (AS_NumberList seg) \<union> fst ` set es)"
proof (induction current rto es cands seg dirty arbitrary: nfs cs sg dt out rule: flushLoop.induct)
  case (1 current rto cands seg dirty)
  then show ?case by simp
next
  case (2 current rto number timestamp nf es cands seg dirty)
  let ?seg = "PutTimestamp timestamp (PutNumber number seg)"
  have new: "set (AS_NumberList NewAckSegment) = {}"
    by (simp add: NewAckSegment_def)
  consider "nf > current" | "\<not> nf > current" "Ack_IsFull ?seg" | "\<not> nf > current" "\<not> Ack_IsFull ?seg"
    by blast
  then show ?case
  proof cases
    case 1
    obtain nfs' where r: "flushLoop current rto es (if length cands < 128 then cands @ [number] else cands) seg dirty
        = (nfs', cs, sg, dt, out)"
      using "2.prems" 1 by (auto simp: Let_def split: prod.splits)
    have "set cs \<subseteq> set (if length cands < 128 then cands @ [number] else cands) \<union> fst ` set es"
      and rest: "set (AS_NumberList sg) \<subseteq> set (AS_NumberList seg) \<union> fst ` set es"
        "\<forall>s\<in>set out. set (AS_NumberList s) \<subseteq> set (AS_NumberList seg) \<union> fst ` set es"
      using "2.IH"(1) [OF 1 refl r] by simp_all
    then have "set cs \<subseteq> set cands \<union> fst ` set ((number, timestamp, nf) # es)"
      by (auto split: if_splits)
    then show ?thesis using rest by auto
  next
    case 2
    obtain nfs' out' where r: "flushLoop current rto es cands NewAckSegment False = (nfs', cs, sg, dt, out')"
        and out: "out = ?seg # out'"
      using "2.prems" 2 by (auto simp: Let_def split: prod.splits)
    show ?thesis
      using "2.IH"(2) [OF 2(1) refl refl 2(2) r] out new by auto
  next
    case 3
    obtain nfs' where r: "flushLoop current rto es cands ?seg dirty = (nfs', cs, sg, dt, out)"
      using "2.prems" 3 by (auto simp: Let_def split: prod.splits)
    show ?thesis
      using "2.IH"(3) [OF 3(1) refl refl 3(2) r] by auto
  qed
qed

lemma AckList_Flush_sound:
  assumes "AckList_Flush current rto l = (l', out)" and "s \<in> set out"
  shows "set (AS_NumberList s) \<subseteq> set (al_numbers l)"
proof -
  let ?es = "zip (al_numbers l) (zip (al_timestamps l) (al_nextFlush l))"
  obtain nfs cs sg dt o' where f: "flushLoop current rto ?es [] NewAckSegment (al_dirty l) = (nfs, cs, sg, dt, o')"
    by (metis prod.exhaust)
  have es: "fst ` set ?es \<subseteq> set (al_numbers l)"
    by (auto dest: set_zip_leftD)
  have new: "set (AS_NumberList NewAckSegment) = {}"
    by (simp add: NewAckSegment_def)
  note snd = flushLoop_sound [OF f, unfolded new]
  have "s \<in> set o' \<or> s = putCandidates cs sg"
    using assms f by (auto simp: AckList_Flush_def Let_def split: if_splits)
  then show ?thesis
  proof
    assume "s \<in> set o'"
    then show ?thesis using snd es by blast
  next
    assume "s = putCandidates cs sg"
    then have "set (AS_NumberList s) \<subseteq> set cs \<union> set (AS_NumberList sg)"
      using set_putCandidates [of cs sg] by simp
    also have "\<dots> \<subseteq> fst ` set ?es"
      using snd by simp
    finally show ?thesis using es by (rule subset_trans)
  qed
qed

section \<open>The system\<close>

record Transfer =
  tr_sender :: SendingWorker
  tr_receiver :: ReceivingWorker
  tr_data :: "DataSegment set"
  tr_acks :: "AckSegment set"
  tr_pings :: "uint32 set"
  tr_written :: nat
  tr_read :: nat
  tr_delivered :: bytes

definition transfer_start :: "uint32 \<Rightarrow> uint32 \<Rightarrow> uint32 \<Rightarrow> Transfer" where
  "transfer_start inflight bufsize W =
     \<lparr>tr_sender = NewSendingWorker inflight bufsize, tr_receiver = NewReceivingWorker W,
      tr_data = {}, tr_acks = {}, tr_pings = {}, tr_written = 0, tr_read = 0, tr_delivered = []\<rparr>"

text \<open>
  The steps: the application writes the next buffer (fewer than \<open>2 ^ 31\<close> of them, so that the
  numbers of the sending window do not wrap); the sender flushes; a data segment arrives; the
  application reads, in buffers or in bytes; the receiver flushes its acknowledgements; an
  acknowledgement arrives; the receiver sends its next number in a ping, and a ping arrives at the
  sender; a ping of the sender arrives at the receiver, where it only shortens the list of
  acknowledgements.
\<close>

inductive transfer_step :: "(nat \<Rightarrow> bytes) \<Rightarrow> Transfer \<Rightarrow> Transfer \<Rightarrow> bool" for f :: "nat \<Rightarrow> bytes" where
  tr_write: "tr_written t < 2 ^ 31 \<Longrightarrow> SendWorker_Push (f (tr_written t)) (tr_sender t) = (ok, s) \<Longrightarrow>
     transfer_step f t (t\<lparr>tr_sender := s, tr_written := (if ok then tr_written t + 1 else tr_written t)\<rparr>)"
| tr_send: "SendWorker_Flush conv rtc congestion inflight rto current (tr_sender t) = (s, out, ping) \<Longrightarrow>
     transfer_step f t (t\<lparr>tr_sender := s, tr_data := tr_data t \<union> set out\<rparr>)"
| tr_arrive: "seg \<in> tr_data t \<Longrightarrow>
     transfer_step f t (t\<lparr>tr_receiver := RecvWorker_ProcessSegment seg (tr_receiver t)\<rparr>)"
| tr_read_multi: "RecvWorker_ReadMultiBuffer (tr_receiver t) = (mb, r) \<Longrightarrow>
     transfer_step f t (t\<lparr>tr_receiver := r, tr_read := tr_read t + drained (tr_receiver t),
       tr_delivered := tr_delivered t @ mcontent mb\<rparr>)"
| tr_read_bytes: "RecvWorker_Read k (tr_receiver t) = (d, r) \<Longrightarrow>
     transfer_step f t (t\<lparr>tr_receiver := r, tr_read := tr_read t + drained (tr_receiver t),
       tr_delivered := tr_delivered t @ d\<rparr>)"
| tr_acknowledge: "RecvWorker_Flush conv rtc rto current (tr_receiver t) = (r, acks) \<Longrightarrow>
     transfer_step f t (t\<lparr>tr_receiver := r, tr_acks := tr_acks t \<union> set acks\<rparr>)"
| tr_ack_arrive: "ack \<in> tr_acks t \<Longrightarrow> SendWorker_ProcessSegment current ack rto (tr_sender t) rt = (s, rt') \<Longrightarrow>
     transfer_step f t (t\<lparr>tr_sender := s\<rparr>)"
| tr_ping: "transfer_step f t (t\<lparr>tr_pings := insert (rw_nextNumber (tr_receiver t)) (tr_pings t)\<rparr>)"
| tr_ping_arrive: "n \<in> tr_pings t \<Longrightarrow>
     transfer_step f t (t\<lparr>tr_sender := ProcessReceivingNext n (tr_sender t)\<rparr>)"
| tr_sending_next: "transfer_step f t (t\<lparr>tr_receiver := ProcessSendingNext n (tr_receiver t)\<rparr>)"

inductive_cases transfer_stepE: "transfer_step f t t'"

inductive transfer_run :: "(nat \<Rightarrow> bytes) \<Rightarrow> uint32 \<Rightarrow> uint32 \<Rightarrow> uint32 \<Rightarrow> Transfer \<Rightarrow> bool"
  for f :: "nat \<Rightarrow> bytes" and inflight bufsize W :: uint32 where
  transfer_init: "transfer_run f inflight bufsize W (transfer_start inflight bufsize W)"
| transfer_next: "transfer_run f inflight bufsize W t \<Longrightarrow> transfer_step f t t' \<Longrightarrow>
     transfer_run f inflight bufsize W t'"

section \<open>The invariant\<close>

text \<open>The receiver has segment \<open>i\<close>: the application has read it, or it waits in the window.\<close>

definition has_segment :: "Transfer \<Rightarrow> nat \<Rightarrow> bool" where
  "has_segment t i \<longleftrightarrow> i < tr_read t \<or> RW_Has (word_of_nat i) (rw_window (tr_receiver t))"

definition genuine :: "(nat \<Rightarrow> bytes) \<Rightarrow> nat \<Rightarrow> (uint32 \<times> bytes) \<Rightarrow> bool" where
  "genuine f n k \<longleftrightarrow> unat (fst k) < n \<and> snd k = f (unat (fst k))"

definition sender_ok :: "(nat \<Rightarrow> bytes) \<Rightarrow> Transfer \<Rightarrow> bool" where
  "sender_ok f t \<longleftrightarrow> tr_written t \<le> 2 ^ 31 \<and> send_inv (tr_sender t)
     \<and> sn_nextNumber (tr_sender t) = word_of_nat (tr_written t)
     \<and> (\<forall>k\<in>set (sending_keys (tr_sender t)). genuine f (tr_written t) k)
     \<and> (\<forall>s\<in>tr_data t. genuine f (tr_written t) (seg_key s))"

definition receiver_ok :: "(nat \<Rightarrow> bytes) \<Rightarrow> uint32 \<Rightarrow> Transfer \<Rightarrow> bool" where
  "receiver_ok f W t \<longleftrightarrow> recv_inv f W (tr_read t) (tr_receiver t) (tr_delivered t)
     \<and> tr_read t \<le> tr_written t \<and> wf_AckList (rw_acklist (tr_receiver t))
     \<and> (\<forall>n\<in>fst ` set (rw_window (tr_receiver t)). unat n < tr_written t)"

definition acks_ok :: "Transfer \<Rightarrow> bool" where
  "acks_ok t \<longleftrightarrow> (\<forall>n\<in>set (al_numbers (rw_acklist (tr_receiver t))). has_segment t (unat n))
     \<and> (\<forall>a\<in>tr_acks t. unat (AS_ReceivingNext a) \<le> tr_read t
          \<and> (\<forall>n\<in>set (AS_NumberList a). has_segment t (unat n)))
     \<and> (\<forall>n\<in>tr_pings t. unat n \<le> tr_read t)"

definition nothing_lost :: "Transfer \<Rightarrow> bool" where
  "nothing_lost t \<longleftrightarrow> (\<forall>i<tr_written t. has_segment t i \<or> word_of_nat i \<in> fst ` set (sending_keys (tr_sender t)))"

definition transfer_inv :: "(nat \<Rightarrow> bytes) \<Rightarrow> uint32 \<Rightarrow> Transfer \<Rightarrow> bool" where
  "transfer_inv f W t \<longleftrightarrow> sender_ok f t \<and> receiver_ok f W t \<and> acks_ok t \<and> nothing_lost t"

text \<open>Small numbers are their own 32-bit representation.\<close>

lemma unat_small [simp]: "i < 2 ^ 32 \<Longrightarrow> unat (word_of_nat i :: uint32) = i"
  by (simp add: unat_of_nat take_bit_nat_eq_self)

lemma RW_Has_keys: "RW_Has k win \<longleftrightarrow> k \<in> fst ` set win"
  by (simp add: RW_Has_def map_of_eq_None_iff)

lemma genuine_mono: "genuine f n k \<Longrightarrow> n \<le> m \<Longrightarrow> genuine f m k"
  by (auto simp: genuine_def)

text \<open>What a step does to the receiver's stock only adds to it.\<close>

definition stock_grows :: "Transfer \<Rightarrow> Transfer \<Rightarrow> bool" where
  "stock_grows t t' \<longleftrightarrow> tr_read t \<le> tr_read t' \<and> (\<forall>i<2 ^ 32. has_segment t i \<longrightarrow> has_segment t' i)"

lemma has_segment_grows: "stock_grows t t' \<Longrightarrow> has_segment t (unat (n :: uint32)) \<Longrightarrow> has_segment t' (unat n)"
  using unat_bound [of n] by (simp add: stock_grows_def)

lemma has_segment_cong:
  "rw_window (tr_receiver t') = rw_window (tr_receiver t) \<Longrightarrow> tr_read t' = tr_read t \<Longrightarrow> has_segment t' i = has_segment t i"
  by (simp add: has_segment_def)

lemma stock_same:
  "rw_window (tr_receiver t') = rw_window (tr_receiver t) \<Longrightarrow> tr_read t' = tr_read t \<Longrightarrow> stock_grows t t'"
  by (simp add: stock_grows_def has_segment_def)

lemma acks_ok_grows:
  assumes "acks_ok t" and "stock_grows t t'"
    and "\<forall>n\<in>set (al_numbers (rw_acklist (tr_receiver t'))).
           n \<in> set (al_numbers (rw_acklist (tr_receiver t))) \<or> has_segment t' (unat n)"
    and "\<forall>a\<in>tr_acks t'. a \<in> tr_acks t \<or> unat (AS_ReceivingNext a) \<le> tr_read t'
           \<and> (\<forall>n\<in>set (AS_NumberList a). has_segment t' (unat n))"
    and "\<forall>n\<in>tr_pings t'. n \<in> tr_pings t \<or> unat n \<le> tr_read t'"
  shows "acks_ok t'"
proof -
  have "tr_read t \<le> tr_read t'"
    using assms(2) by (simp add: stock_grows_def)
  then have "unat n \<le> tr_read t'" if "unat (n :: uint32) \<le> tr_read t" for n
    using that by simp
  then show ?thesis
    using assms(1,3-5) has_segment_grows [OF assms(2)] unfolding acks_ok_def by blast
qed

lemma acks_ok_same:
  "acks_ok t \<Longrightarrow> tr_receiver t' = tr_receiver t \<Longrightarrow> tr_read t' = tr_read t \<Longrightarrow> tr_acks t' = tr_acks t \<Longrightarrow>
     tr_pings t' = tr_pings t \<Longrightarrow> acks_ok t'"
  by (simp add: acks_ok_def has_segment_def)

lemma receiver_ok_same:
  "receiver_ok f W t \<Longrightarrow> tr_receiver t' = tr_receiver t \<Longrightarrow> tr_read t' = tr_read t \<Longrightarrow>
     tr_delivered t' = tr_delivered t \<Longrightarrow> tr_written t \<le> tr_written t' \<Longrightarrow> receiver_ok f W t'"
  by (auto simp: receiver_ok_def)

lemma transfer_invD:
  assumes "transfer_inv f W t"
  shows "sender_ok f t" "receiver_ok f W t" "acks_ok t" "nothing_lost t" "tr_written t \<le> 2 ^ 31"
  using assms by (simp_all add: transfer_inv_def sender_ok_def)

lemma nothing_lost_grows:
  assumes "nothing_lost t" and "stock_grows t t'" and "tr_written t' = tr_written t" and "tr_written t \<le> 2 ^ 31"
    and "\<forall>k\<in>set (sending_keys (tr_sender t)).
           k \<in> set (sending_keys (tr_sender t')) \<or> has_segment t' (unat (fst k))"
  shows "nothing_lost t'"
  unfolding nothing_lost_def
proof (intro allI impI)
  fix i assume "i < tr_written t'"
  then have i: "i < tr_written t" "i < 2 ^ 32"
    using assms(3,4) by simp_all
  then consider "has_segment t i" | k where "k \<in> set (sending_keys (tr_sender t))" "fst k = word_of_nat i"
    using assms(1) by (auto simp: nothing_lost_def)
  then show "has_segment t' i \<or> word_of_nat i \<in> fst ` set (sending_keys (tr_sender t'))"
  proof cases
    case 1
    then show ?thesis using assms(2) i(2) by (simp add: stock_grows_def)
  next
    case 2
    then have "unat (fst k) = i" using i(2) by simp
    then show ?thesis using 2 assms(5) by (metis imageI)
  qed
qed

subsection \<open>The sender's steps\<close>

lemma transfer_inv_write:
  assumes inv: "transfer_inv f W t" and n: "tr_written t < 2 ^ 31"
    and p: "SendWorker_Push (f (tr_written t)) (tr_sender t) = (ok, s)"
  shows "transfer_inv f W (t\<lparr>tr_sender := s, tr_written := (if ok then tr_written t + 1 else tr_written t)\<rparr>)"
    (is "transfer_inv f W ?t")
proof -
  note e = SendWorker_Push_effect [OF p]
  have num: "sn_nextNumber (tr_sender t) = word_of_nat (tr_written t)" and si: "send_inv (tr_sender t)"
    using inv by (simp_all add: transfer_inv_def sender_ok_def)
  have "send_inv s"
    using n by (intro send_inv_Push [OF si p]) (simp add: num)
  moreover have "sn_nextNumber s = word_of_nat (tr_written ?t)"
    using e(2) num by (simp add: add.commute)
  moreover have "\<forall>k\<in>set (sending_keys s). genuine f (tr_written ?t) k"
    using inv e(1) num n genuine_mono [of f "tr_written t" _ "Suc (tr_written t)"]
    by (auto simp: transfer_inv_def sender_ok_def genuine_def)
  moreover have "\<forall>s\<in>tr_data t. genuine f (tr_written ?t) (seg_key s)"
    using inv genuine_mono [of f "tr_written t" _ "Suc (tr_written t)"]
    by (auto simp: transfer_inv_def sender_ok_def)
  ultimately have "sender_ok f ?t"
    using n by (simp add: sender_ok_def)
  moreover have "receiver_ok f W ?t"
    by (rule receiver_ok_same [OF transfer_invD(2) [OF inv]]) simp_all
  moreover have "acks_ok ?t"
    by (rule acks_ok_same [OF transfer_invD(3) [OF inv]]) simp_all
  moreover have "nothing_lost ?t"
    unfolding nothing_lost_def
  proof (intro allI impI)
    fix i assume i: "i < tr_written ?t"
    have stock: "has_segment ?t i = has_segment t i"
      by (rule has_segment_cong) simp_all
    show "has_segment ?t i \<or> word_of_nat i \<in> fst ` set (sending_keys (tr_sender ?t))"
    proof (cases "i < tr_written t")
      case True
      then have "has_segment t i \<or> word_of_nat i \<in> fst ` set (sending_keys (tr_sender t))"
        using transfer_invD(4) [OF inv] by (simp add: nothing_lost_def)
      then show ?thesis using stock e(1) by auto
    next
      case False
      then have "ok" and "i = tr_written t" using i by (auto split: if_splits)
      then show ?thesis using e(1) num by simp
    qed
  qed
  ultimately show ?thesis by (simp add: transfer_inv_def)
qed

lemma transfer_inv_send:
  assumes inv: "transfer_inv f W t"
    and fl: "SendWorker_Flush conv rtc congestion inflight rto current (tr_sender t) = (s, out, ping)"
  shows "transfer_inv f W (t\<lparr>tr_sender := s, tr_data := tr_data t \<union> set out\<rparr>)" (is "transfer_inv f W ?t")
proof -
  note e = SendWorker_Flush_effect [OF fl]
  have "seg_key x \<in> set (sending_keys (tr_sender t))" if "x \<in> set out" for x
    using that by (auto simp: e(5) sending_keys_def transmitted_key split: if_splits dest: in_set_takeD)
  then have "sender_ok f ?t"
    using inv e(1,3) send_inv_Flush [OF _ fl] by (auto simp: transfer_inv_def sender_ok_def)
  moreover have "receiver_ok f W ?t"
    by (rule receiver_ok_same [OF transfer_invD(2) [OF inv]]) simp_all
  moreover have "acks_ok ?t"
    by (rule acks_ok_same [OF transfer_invD(3) [OF inv]]) simp_all
  moreover have "nothing_lost ?t"
    by (rule nothing_lost_grows [OF transfer_invD(4) [OF inv] stock_same _ transfer_invD(5) [OF inv]]) (simp_all add: e(1))
  ultimately show ?thesis by (simp add: transfer_inv_def)
qed

text \<open>Removing acknowledged segments from the window keeps the invariant.\<close>

lemma transfer_inv_shrink:
  assumes inv: "transfer_inv f W t" and si: "send_inv s" and nx: "sn_nextNumber s = sn_nextNumber (tr_sender t)"
    and sub: "set (sending_keys s) \<subseteq> set (sending_keys (tr_sender t))"
    and gone: "\<forall>k\<in>set (sending_keys (tr_sender t)). k \<in> set (sending_keys s) \<or> has_segment t (unat (fst k))"
  shows "transfer_inv f W (t\<lparr>tr_sender := s\<rparr>)" (is "transfer_inv f W ?t")
proof -
  have "sender_ok f ?t"
    using inv si nx sub by (auto simp: transfer_inv_def sender_ok_def)
  moreover have "receiver_ok f W ?t"
    by (rule receiver_ok_same [OF transfer_invD(2) [OF inv]]) simp_all
  moreover have "acks_ok ?t"
    by (rule acks_ok_same [OF transfer_invD(3) [OF inv]]) simp_all
  moreover have "nothing_lost ?t"
    by (rule nothing_lost_grows [OF transfer_invD(4) [OF inv] stock_same _ transfer_invD(5) [OF inv]])
      (use gone has_segment_cong [of ?t t] in simp_all)
  ultimately show ?thesis by (simp add: transfer_inv_def)
qed

lemma transfer_inv_ack_arrive:
  assumes inv: "transfer_inv f W t" and a: "ack \<in> tr_acks t"
    and p: "SendWorker_ProcessSegment current ack rto (tr_sender t) rt = (s, rt')"
  shows "transfer_inv f W (t\<lparr>tr_sender := s\<rparr>)"
proof -
  have si: "send_inv (tr_sender t)" and small: "unat (sn_nextNumber (tr_sender t)) \<le> 2 ^ 31"
    using inv by (auto simp: transfer_inv_def sender_ok_def)
  note e = SendWorker_ProcessSegment_effect [OF si small p]
  have acks: "unat (AS_ReceivingNext ack) \<le> tr_read t" "\<forall>n\<in>set (AS_NumberList ack). has_segment t (unat n)"
    using inv a by (auto simp: transfer_inv_def acks_ok_def)
  have below: "has_segment t (unat n)" if "\<not> AS_ReceivingNext ack \<le> n" for n
    using that acks(1) by (simp add: has_segment_def word_le_nat_alt)
  show ?thesis
    by (rule transfer_inv_shrink [OF inv e(2,3)]) (use acks(2) below in \<open>auto simp: e(1)\<close>)
qed

lemma transfer_inv_ping_arrive:
  assumes inv: "transfer_inv f W t" and n: "n \<in> tr_pings t"
  shows "transfer_inv f W (t\<lparr>tr_sender := ProcessReceivingNext n (tr_sender t)\<rparr>)"
proof -
  have si: "send_inv (tr_sender t)"
    using inv by (auto simp: transfer_inv_def sender_ok_def)
  note e = ProcessReceivingNext_effect [OF si, of n]
  have le: "unat n \<le> tr_read t"
    using inv n by (auto simp: transfer_inv_def acks_ok_def)
  have below: "has_segment t (unat m)" if "\<not> n \<le> m" for m
    using that le by (simp add: has_segment_def word_le_nat_alt)
  show ?thesis
    by (rule transfer_inv_shrink [OF inv e(2,3)]) (use below in \<open>auto simp: e(1)\<close>)
qed

subsection \<open>The receiver's steps\<close>

lemma transfer_inv_receiver:
  assumes inv: "transfer_inv f W t" and rcv: "receiver_ok f W t'" and acks: "acks_ok t'" and grow: "stock_grows t t'"
    and same: "tr_sender t' = tr_sender t" "tr_data t' = tr_data t" "tr_written t' = tr_written t"
  shows "transfer_inv f W t'"
proof -
  have "sender_ok f t'"
    using transfer_invD(1) [OF inv] same by (simp add: sender_ok_def)
  moreover have "nothing_lost t'"
    by (rule nothing_lost_grows [OF transfer_invD(4) [OF inv] grow same(3) transfer_invD(5) [OF inv]])
      (simp add: same)
  ultimately show ?thesis
    using rcv acks by (simp add: transfer_inv_def)
qed

lemma Clear_numbers: "wf_AckList l \<Longrightarrow> set (al_numbers (AckList_Clear una l)) \<subseteq> set (al_numbers l)"
  using AckList_Clear_filter(1,2) [of l una] by (auto simp flip: map_fst_entries)

lemma Add_numbers: "al_numbers (AckList_Add n ts l) = al_numbers l @ [n]"
  by (simp add: AckList_Add_def)

lemma transfer_inv_arrive:
  assumes inv: "transfer_inv f W t" and seg: "seg \<in> tr_data t" and W: "unat W \<le> 2 ^ 31"
  shows "transfer_inv f W (t\<lparr>tr_receiver := RecvWorker_ProcessSegment seg (tr_receiver t)\<rparr>)"
    (is "transfer_inv f W ?t")
proof (cases "DS_Number seg - rw_nextNumber (tr_receiver t) \<ge> rw_windowSize (tr_receiver t)")
  case True
  then have "?t = t" by (simp add: RecvWorker_ProcessSegment_def)
  then show ?thesis using inv by simp
next
  case False
  let ?r = "tr_receiver t" and ?m = "unat (DS_Number seg)"
  let ?l = "AckList_Clear (DS_SendingNext seg) (rw_acklist ?r)"
  have r': "tr_receiver ?t = ?r\<lparr>rw_acklist := AckList_Add (DS_Number seg) (DS_Timestamp seg) ?l,
      rw_window := snd (RW_Set (DS_Number seg) seg (rw_window ?r))\<rparr>"
    using False by (simp add: RecvWorker_ProcessSegment_def Let_def)
  have win: "fst ` set (rw_window (tr_receiver ?t)) = insert (DS_Number seg) (fst ` set (rw_window ?r))"
    unfolding r' by (auto simp: RW_Set_def split: option.splits dest!: map_of_SomeD intro: rev_image_eqI)
  have gen: "?m < tr_written t" "DS_payload seg = f ?m"
    using transfer_invD(1) [OF inv] seg by (auto simp: sender_ok_def genuine_def seg_key_def)
  note rcv = transfer_invD(2) [OF inv, unfolded receiver_ok_def]
  have wf: "wf_AckList (rw_acklist ?r)" and rd: "tr_read t \<le> tr_written t"
    using rcv by auto
  have "recv_inv f W (tr_read t) (tr_receiver ?t) (tr_delivered t)"
    using recv_inv_ProcessSegment [of f W "tr_read t" ?r "tr_delivered t" seg ?m] rcv gen W rd
      transfer_invD(5) [OF inv] by simp
  moreover have "wf_AckList (rw_acklist (tr_receiver ?t))"
    unfolding r' using AckList_Add_entries(1) [OF AckList_Clear_filter(1) [OF wf]] by simp
  ultimately have "receiver_ok f W ?t"
    using rcv win gen(1) by (simp add: receiver_ok_def)
  moreover have grow: "stock_grows t ?t"
    using win by (auto simp: stock_grows_def has_segment_def RW_Has_keys)
  moreover have "acks_ok ?t"
  proof (rule acks_ok_grows [OF transfer_invD(3) [OF inv] grow])
    have "has_segment ?t ?m"
      using win by (simp add: has_segment_def RW_Has_keys)
    then show "\<forall>n\<in>set (al_numbers (rw_acklist (tr_receiver ?t))).
        n \<in> set (al_numbers (rw_acklist ?r)) \<or> has_segment ?t (unat n)"
      unfolding r' using Clear_numbers [OF wf, of "DS_SendingNext seg"] by (auto simp: Add_numbers)
  qed simp_all
  ultimately show ?thesis
    by (intro transfer_inv_receiver [OF inv]) simp_all
qed

lemma drain_stock:
  "drain (word_of_nat a) win = (segs, n, win') \<Longrightarrow> \<forall>k\<in>fst ` set win. unat k < N \<Longrightarrow> a \<le> N \<Longrightarrow> N \<le> 2 ^ 31 \<Longrightarrow>
     a + length segs \<le> N \<and> fst ` set win' \<subseteq> fst ` set win
     \<and> (\<forall>k\<in>fst ` set win. k \<in> fst ` set win' \<or> unat k < a + length segs)"
proof (induction win arbitrary: a segs n win' rule: length_induct)
  case (1 win)
  show ?case
  proof (cases "map_of win (word_of_nat a)")
    case None
    then show ?thesis
      using "1.prems" by (auto simp: drain.simps [of "word_of_nat a" win] RW_Remove_def)
  next
    case (Some seg)
    let ?win = "AList.delete (word_of_nat a) win"
    have key: "word_of_nat a \<in> fst ` set win"
      using Some by (force dest: map_of_SomeD)
    then have "unat (word_of_nat a :: uint32) < N"
      using "1.prems"(2) by blast
    then have a: "a < N" "unat (word_of_nat a :: uint32) = a"
      using "1.prems"(3,4) by simp_all
    obtain segs' where d: "drain (word_of_nat (Suc a)) ?win = (segs', n, win')" and segs: "segs = seg # segs'"
      using "1.prems"(1) Some
      by (auto simp: drain.simps [of "word_of_nat a" win] RW_Remove_def add.commute split: prod.splits)
    have keys: "fst ` set ?win = fst ` set win - {word_of_nat a}"
      by (auto simp: AList.delete_eq image_iff)
    have "Suc a + length segs' \<le> N \<and> fst ` set win' \<subseteq> fst ` set ?win
        \<and> (\<forall>k\<in>fst ` set ?win. k \<in> fst ` set win' \<or> unat k < Suc a + length segs')"
      by (rule "1.IH" [rule_format, OF delete_shorter [OF Some] d])
        (use a "1.prems"(2,4) keys in auto)
    then show ?thesis
      using segs keys a(2) by auto
  qed
qed

text \<open>Reading moves segments from the window to the application.\<close>

lemma transfer_inv_drained:
  assumes inv: "transfer_inv f W t" and small: "\<And>m. length (f m) \<le> Size"
    and rd: "RecvWorker_ReadMultiBuffer (tr_receiver t) = (mb, r)"
    and r': "rw_window r' = rw_window r" "rw_acklist r' = rw_acklist r"
    and ri: "recv_inv f W (tr_read t + drained (tr_receiver t)) r' out"
  shows "transfer_inv f W (t\<lparr>tr_receiver := r', tr_read := tr_read t + drained (tr_receiver t), tr_delivered := out\<rparr>)"
    (is "transfer_inv f W ?t")
proof -
  let ?a = "tr_read t" and ?w = "tr_receiver t"
  note rcv = transfer_invD(2) [OF inv, unfolded receiver_ok_def]
  have al: "rw_acklist r = rw_acklist ?w"
    using rd by (auto simp: RecvWorker_ReadMultiBuffer_def split: option.splits prod.splits)
  have win: "?a + drained ?w \<le> tr_written t \<and> fst ` set (rw_window r) \<subseteq> fst ` set (rw_window ?w)
     \<and> (\<forall>k\<in>fst ` set (rw_window ?w). k \<in> fst ` set (rw_window r) \<or> unat k < ?a + drained ?w)"
  proof (cases "rw_leftOver ?w")
    case None
    obtain segs n win where d: "drain (rw_nextNumber ?w) (rw_window ?w) = (segs, n, win)"
      by (metis prod.exhaust)
    have r: "rw_window r = win" "drained ?w = length segs"
      using rd None d by (auto simp: RecvWorker_ReadMultiBuffer_def drained_def)
    have "rw_nextNumber ?w = word_of_nat ?a"
      using rcv by (simp add: recv_inv_def)
    then show ?thesis
      using drain_stock [of ?a "rw_window ?w" segs n win "tr_written t"] d rcv transfer_invD(5) [OF inv] r by simp
  next
    case (Some mb')
    then show ?thesis
      using rd rcv by (auto simp: RecvWorker_ReadMultiBuffer_def drained_def)
  qed
  have "has_segment ?t i" if "i < 2 ^ 32" and "has_segment t i" for i
  proof (cases "i < ?a")
    case False
    then have "word_of_nat i \<in> fst ` set (rw_window ?w)"
      using that(2) by (simp add: has_segment_def RW_Has_keys)
    then have "word_of_nat i \<in> fst ` set (rw_window r) \<or> unat (word_of_nat i :: uint32) < ?a + drained ?w"
      using win by blast
    then show ?thesis using that(1) r' by (simp add: has_segment_def RW_Has_keys disj_commute)
  qed (simp add: has_segment_def)
  then have grow: "stock_grows t ?t"
    by (simp add: stock_grows_def)
  have "\<forall>n\<in>fst ` set (rw_window r). unat n < tr_written t"
    using rcv win by blast
  then have "receiver_ok f W ?t"
    using rcv win ri r' al by (simp add: receiver_ok_def)
  moreover have "acks_ok ?t"
    by (rule acks_ok_grows [OF transfer_invD(3) [OF inv] grow]) (simp_all add: r' al)
  ultimately show ?thesis
    using grow by (intro transfer_inv_receiver [OF inv]) simp_all
qed

lemma transfer_inv_read_multi:
  assumes inv: "transfer_inv f W t" and small: "\<And>m. length (f m) \<le> Size"
    and rd: "RecvWorker_ReadMultiBuffer (tr_receiver t) = (mb, r)"
  shows "transfer_inv f W (t\<lparr>tr_receiver := r, tr_read := tr_read t + drained (tr_receiver t),
     tr_delivered := tr_delivered t @ mcontent mb\<rparr>)"
proof (rule transfer_inv_drained [OF inv small rd refl refl])
  show "recv_inv f W (tr_read t + drained (tr_receiver t)) r (tr_delivered t @ mcontent mb)"
    using transfer_invD(2) [OF inv] by (intro recv_inv_ReadMultiBuffer(1) [OF _ small rd]) (simp add: receiver_ok_def)
qed

lemma transfer_inv_read_bytes:
  assumes inv: "transfer_inv f W t" and small: "\<And>m. length (f m) \<le> Size"
    and rd: "RecvWorker_Read k (tr_receiver t) = (d, r')"
  shows "transfer_inv f W (t\<lparr>tr_receiver := r', tr_read := tr_read t + drained (tr_receiver t),
     tr_delivered := tr_delivered t @ d\<rparr>)"
proof -
  obtain mb r where m: "RecvWorker_ReadMultiBuffer (tr_receiver t) = (mb, r)"
    by (metis prod.exhaust)
  have r': "rw_window r' = rw_window r" "rw_acklist r' = rw_acklist r"
    using rd m by (auto simp: RecvWorker_Read_def split: prod.splits if_splits)
  show ?thesis
  proof (rule transfer_inv_drained [OF inv small m r'])
    show "recv_inv f W (tr_read t + drained (tr_receiver t)) r' (tr_delivered t @ d)"
      using transfer_invD(2) [OF inv] by (intro recv_inv_Read [OF _ small rd]) (simp add: receiver_ok_def)
  qed
qed

lemma transfer_inv_acknowledge:
  assumes inv: "transfer_inv f W t" and fl: "RecvWorker_Flush conv rtc rto current (tr_receiver t) = (r, acks)"
  shows "transfer_inv f W (t\<lparr>tr_receiver := r, tr_acks := tr_acks t \<union> set acks\<rparr>)" (is "transfer_inv f W ?t")
proof -
  let ?w = "tr_receiver t"
  obtain l out where f: "AckList_Flush current rto (rw_acklist ?w) = (l, out)"
    by (metis prod.exhaust)
  have r: "r = ?w\<lparr>rw_acklist := l\<rparr>" and acks: "acks = map (RecvWorker_Write conv rtc ?w) out"
    using fl f by (auto simp: RecvWorker_Flush_def)
  note rcv = transfer_invD(2) [OF inv, unfolded receiver_ok_def]
  have wf: "wf_AckList (rw_acklist ?w)"
    using rcv by simp
  note e = AckList_Flush_numbers [OF wf f]
  have grow: "stock_grows t ?t"
    by (rule stock_same) (simp_all add: r)
  have "receiver_ok f W ?t"
    using rcv e(1) by (simp add: receiver_ok_def r recv_inv_def)
  moreover have "acks_ok ?t"
  proof (rule acks_ok_grows [OF transfer_invD(3) [OF inv] grow])
    have "unat (rw_nextNumber ?w) = tr_read t"
      using rcv transfer_invD(5) [OF inv] by (simp add: recv_inv_def)
    moreover have "has_segment ?t (unat n)" if "s \<in> set out" "n \<in> set (AS_NumberList s)" for s n
    proof -
      have "has_segment t (unat n)"
        using AckList_Flush_sound [OF f that(1)] that(2) transfer_invD(3) [OF inv] by (auto simp: acks_ok_def)
      then show ?thesis by (rule has_segment_grows [OF grow])
    qed
    ultimately show "\<forall>a\<in>tr_acks ?t. a \<in> tr_acks t \<or> unat (AS_ReceivingNext a) \<le> tr_read ?t
        \<and> (\<forall>n\<in>set (AS_NumberList a). has_segment ?t (unat n))"
      by (auto simp: acks RecvWorker_Write_def)
  qed (simp_all add: r e(2))
  ultimately show ?thesis
    using grow by (intro transfer_inv_receiver [OF inv]) simp_all
qed

lemma transfer_inv_ping:
  assumes inv: "transfer_inv f W t"
  shows "transfer_inv f W (t\<lparr>tr_pings := insert (rw_nextNumber (tr_receiver t)) (tr_pings t)\<rparr>)" (is "transfer_inv f W ?t")
proof -
  have grow: "stock_grows t ?t"
    by (rule stock_same) simp_all
  have "unat (rw_nextNumber (tr_receiver t)) = tr_read t"
    using transfer_invD(2,5) [OF inv] by (simp add: receiver_ok_def recv_inv_def)
  then have "acks_ok ?t"
    by (intro acks_ok_grows [OF transfer_invD(3) [OF inv] grow]) simp_all
  moreover have "receiver_ok f W ?t"
    by (rule receiver_ok_same [OF transfer_invD(2) [OF inv]]) simp_all
  ultimately show ?thesis
    using grow by (intro transfer_inv_receiver [OF inv]) simp_all
qed

lemma transfer_inv_sending_next:
  assumes inv: "transfer_inv f W t"
  shows "transfer_inv f W (t\<lparr>tr_receiver := ProcessSendingNext n (tr_receiver t)\<rparr>)" (is "transfer_inv f W ?t")
proof -
  note rcv = transfer_invD(2) [OF inv, unfolded receiver_ok_def]
  have wf: "wf_AckList (rw_acklist (tr_receiver t))"
    using rcv by simp
  have grow: "stock_grows t ?t"
    by (rule stock_same) (simp_all add: ProcessSendingNext_def)
  have "receiver_ok f W ?t"
    using rcv AckList_Clear_filter(1) [OF wf] by (simp add: receiver_ok_def ProcessSendingNext_def recv_inv_def)
  moreover have "acks_ok ?t"
    using Clear_numbers [OF wf, of n]
    by (intro acks_ok_grows [OF transfer_invD(3) [OF inv] grow]) (auto simp: ProcessSendingNext_def)
  ultimately show ?thesis
    using grow by (intro transfer_inv_receiver [OF inv]) simp_all
qed

lemma transfer_inv_start:
  assumes "unat bufsize < 2 ^ 32 - 1"
  shows "transfer_inv f W (transfer_start inflight bufsize W)"
  using send_inv_new [OF assms, of inflight]
  by (simp add: transfer_inv_def transfer_start_def sender_ok_def receiver_ok_def acks_ok_def nothing_lost_def
      recv_inv_def NewReceivingWorker_def window_ok_empty wf_AckList_def NewAckList_def)
    (simp add: sending_keys_def NewSendingWorker_def NewSendingWindow_def)

lemma transfer_step_inv:
  assumes "transfer_step f t t'" and "transfer_inv f W t" and "\<And>m. length (f m) \<le> Size" and "unat W \<le> 2 ^ 31"
  shows "transfer_inv f W t'"
  using assms(1)
proof (cases rule: transfer_step.cases)
  case (tr_write ok s)
  then show ?thesis using transfer_inv_write [OF assms(2)] by blast
qed (use assms(2-) in \<open>auto intro: transfer_inv_send transfer_inv_arrive transfer_inv_read_multi
      transfer_inv_read_bytes transfer_inv_acknowledge transfer_inv_ack_arrive transfer_inv_ping
      transfer_inv_ping_arrive transfer_inv_sending_next\<close>)

lemma transfer_run_inv:
  assumes "transfer_run f inflight bufsize W t" and "\<And>m. length (f m) \<le> Size"
    and "unat bufsize < 2 ^ 32 - 1" and "unat W \<le> 2 ^ 31"
  shows "transfer_inv f W t"
  using assms(1) by induction (use assms(2-) transfer_inv_start transfer_step_inv in blast)+

section \<open>Reliable transfer\<close>

lemma transfer_kept:
  assumes inv: "transfer_inv f W t" and i: "i < tr_written t"
  shows "has_segment t i \<or> (word_of_nat i, f i) \<in> set (sending_keys (tr_sender t))"
proof -
  have small: "i < 2 ^ 32"
    using transfer_invD(5) [OF inv] i by simp
  have "has_segment t i \<or> word_of_nat i \<in> fst ` set (sending_keys (tr_sender t))"
    using transfer_invD(4) [OF inv] i by (simp add: nothing_lost_def)
  moreover have "k = (word_of_nat i, f i)"
    if "k \<in> set (sending_keys (tr_sender t))" and "fst k = word_of_nat i" for k
  proof (rule prod_eqI)
    have "genuine f (tr_written t) k"
      using that(1) transfer_invD(1) [OF inv] by (simp add: sender_ok_def)
    then show "snd k = snd (word_of_nat i, f i)"
      using that(2) small by (simp add: genuine_def)
  qed (simp add: that(2))
  ultimately show ?thesis by auto
qed

text \<open>
  C1. Over a network that loses, repeats and reorders segments, what the application reads is
  exactly a prefix of what was written, in order and without repetition: the bytes delivered and
  the bytes left over are the first \<open>tr_read\<close> buffers. Nothing written is lost: each buffer has
  reached the receiver or is still in the sending window with its own bytes.
\<close>

theorem transfer_reliable:
  assumes "transfer_run f inflight bufsize W t" and "\<And>m. length (f m) \<le> Size"
    and "unat bufsize < 2 ^ 32 - 1" and "unat W \<le> 2 ^ 31"
  shows "tr_delivered t @ mcontent (case rw_leftOver (tr_receiver t) of None \<Rightarrow> [] | Some mb \<Rightarrow> mb)
      = concat (map f [0..<tr_read t])
    \<and> tr_read t \<le> tr_written t
    \<and> (\<forall>i<tr_written t. has_segment t i \<or> (word_of_nat i, f i) \<in> set (sending_keys (tr_sender t)))"
  using transfer_run_inv [OF assms] transfer_kept [OF transfer_run_inv [OF assms]]
  by (simp add: transfer_inv_def receiver_ok_def recv_inv_def)

lemma push_fresh:
  assumes "SendWorker_Push d (NewSendingWorker i 8) = (ok, s)"
  shows "ok" and "sw_cache (sn_window s) = [NewDataSegment\<lparr>DS_Number := 0, DS_payload := d\<rparr>]" and "\<not> sn_closed s"
  using assms
  by (auto simp: SendWorker_Push_def NewSendingWorker_def NewSendingWindow_def SW_Len_def SW_Push_def)

lemma flush_fresh:
  assumes fl: "SendWorker_Flush 0 False False 8 100 0 s = (s2, out, ping)" and "\<not> sn_closed s"
    and "sw_cache (sn_window s) = [NewDataSegment\<lparr>DS_Number := 0, DS_payload := d\<rparr>]"
  obtains seg where "out = [seg]" and "DS_Number seg = 0" and "DS_payload seg = d"
proof -
  have "\<exists>seg. out = [seg] \<and> seg_key seg = (0, d)"
    unfolding SendWorker_Flush_effect(5) [OF fl] using assms(2,3)
    by (simp add: seg_due_def NewDataSegment_def transmitted_key) (simp add: seg_key_def)
  then show thesis using that by (auto simp: seg_key_def)
qed

lemma one_buffer_run:
  "\<exists>t. transfer_run (\<lambda>_. [7]) 8 8 8 t \<and> tr_written t = 1 \<and> tr_delivered t = [7]"
proof -
  let ?f = "\<lambda>_ :: nat. [7 :: byte]" and ?t0 = "transfer_start 8 8 8"
  obtain ok s where push: "SendWorker_Push (?f (tr_written ?t0)) (tr_sender ?t0) = (ok, s)"
    by (rule prod.exhaust)
  note p = push_fresh [OF push [unfolded transfer_start_def, simplified]]
  let ?t1 = "?t0\<lparr>tr_sender := s, tr_written := (if ok then tr_written ?t0 + 1 else tr_written ?t0)\<rparr>"
  have 1: "transfer_run ?f 8 8 8 ?t1"
    by (rule transfer_next [OF transfer_init tr_write [OF _ push]]) (simp add: transfer_start_def)
  obtain s2 out ping where fl: "SendWorker_Flush 0 False False 8 100 0 s = (s2, out, ping)"
    by (metis prod.exhaust)
  let ?t2 = "?t1\<lparr>tr_sender := s2, tr_data := tr_data ?t1 \<union> set out\<rparr>"
  have "transfer_step ?f ?t1 ?t2"
    by (rule tr_send) (use fl in simp)
  then have 2: "transfer_run ?f 8 8 8 ?t2"
    by (rule transfer_next [OF 1])
  obtain seg where seg: "out = [seg]" "DS_Number seg = 0" "DS_payload seg = [7]"
    using flush_fresh [OF fl p(3,2)] by blast
  let ?t3 = "?t2\<lparr>tr_receiver := RecvWorker_ProcessSegment seg (tr_receiver ?t2)\<rparr>"
  have 3: "transfer_run ?f 8 8 8 ?t3"
    by (rule transfer_next [OF 2 tr_arrive]) (simp add: seg)
  have rcv: "rw_window (tr_receiver ?t3) = [(0, seg)]" "rw_leftOver (tr_receiver ?t3) = None"
      "rw_nextNumber (tr_receiver ?t3) = 0"
    by (simp_all add: transfer_start_def NewReceivingWorker_def RecvWorker_ProcessSegment_def Let_def RW_Set_def seg)
  have dr: "drain 0 [(0, seg)] = ([seg], 1, [])"
    by (simp add: drain.simps [of 0 "[(0, seg)]"] drain.simps [of 1 "[]"] RW_Remove_def AList.delete_eq)
  obtain mb r where rd: "RecvWorker_ReadMultiBuffer (tr_receiver ?t3) = (mb, r)"
    by (rule prod.exhaust)
  have "mb = map Detach [seg]"
    using rd rcv dr by (auto simp: RecvWorker_ReadMultiBuffer_def)
  then have content: "mcontent mb = [7]"
    using mcontent_Detach [of "[seg]"] seg by (simp add: Size_def)
  let ?t4 = "?t3\<lparr>tr_receiver := r, tr_read := tr_read ?t3 + drained (tr_receiver ?t3),
       tr_delivered := tr_delivered ?t3 @ mcontent mb\<rparr>"
  have "transfer_run ?f 8 8 8 ?t4"
    by (rule transfer_next [OF 3 tr_read_multi [OF rd]])
  moreover have "tr_written ?t4 = 1 \<and> tr_delivered ?t4 = [7]"
    using content p(1) by (simp add: transfer_start_def)
  ultimately show ?thesis by blast
qed

theorem transfer_reliable_witness:
  "\<exists>t. transfer_run (\<lambda>_. [7]) 8 8 8 t \<and> tr_written t = 1 \<and> tr_delivered t = [7]
     \<and> tr_delivered t @ mcontent (case rw_leftOver (tr_receiver t) of None \<Rightarrow> [] | Some mb \<Rightarrow> mb)
         = concat (map (\<lambda>_. [7]) [0..<tr_read t])"
proof -
  obtain t where t: "transfer_run (\<lambda>_. [7]) 8 8 8 t" "tr_written t = 1" "tr_delivered t = [7]"
    using one_buffer_run by blast
  have "tr_delivered t @ mcontent (case rw_leftOver (tr_receiver t) of None \<Rightarrow> [] | Some mb \<Rightarrow> mb)
      = concat (map (\<lambda>_. [7]) [0..<tr_read t])"
    using transfer_reliable [OF t(1)] by (simp add: Size_def)
  with t show ?thesis by blast
qed

end
