(* ===== verification/Kcp_Connection.thy ===== *)
theory Kcp_Connection
  imports Kcp_Sending Kcp_Receiving
begin

text \<open>
  The KCP connection: \<open>transport/internet/kcp/connection.go\<close>.

  A connection is a record, each method a function on it. Methods that send return the segments
  they hand to the output writer, in order. The clock is an argument: \<open>current\<close> is the value of
  \<open>Elapsed()\<close> a method reads on entry, \<open>now\<close> the value that \<open>SetState\<close> reads itself, which may be
  later. A notifier is the flag of its one-element channel. A goroutine started by a method is a
  flag until it runs: \<open>u_running\<close> for an updater, \<open>c_terminate\<close> for \<open>go c.Terminate()\<close>. An
  updater's \<open>shouldTerminate\<close> implies the negation of its \<open>shouldContinue\<close>, so one tick tests only
  the latter. A blocking wait ends the modelled step; the loop goes on with the next one.
\<close>

section \<open>Data\<close>

datatype State = StateActive | StateReadyToClose | StatePeerClosed | StateTerminating
  | StatePeerTerminating | StateTerminated

record Updater =
  u_interval :: int
  u_running :: bool

definition Millisecond :: int where "Millisecond = 1000000"
definition Second :: int where "Second = 1000 * Millisecond"

definition NewUpdater :: "uint32 \<Rightarrow> Updater" where
  "NewUpdater interval = \<lparr>u_interval = uint interval * Millisecond, u_running = False\<rparr>"

definition WakeUp :: "Updater \<Rightarrow> Updater" where
  "WakeUp u = u\<lparr>u_running := True\<rparr>"

definition SetInterval :: "int \<Rightarrow> Updater \<Rightarrow> Updater" where
  "SetInterval d u = u\<lparr>u_interval := d\<rparr>"

record Connection =
  c_Conversation :: uint16
  c_rd :: "int option"
  c_wd :: "int option"
  c_dataInput :: bool
  c_dataOutput :: bool
  c_Config :: Config
  c_state :: State
  c_stateBeginTime :: uint32
  c_lastIncomingTime :: uint32
  c_lastPingTime :: uint32
  c_mss :: uint32
  c_roundTrip :: RoundTripInfo
  c_receivingWorker :: ReceivingWorker
  c_sendingWorker :: SendingWorker
  c_dataUpdater :: Updater
  c_pingUpdater :: Updater
  c_terminate :: bool
  c_closed :: bool

section \<open>Construction\<close>

definition NewConnection :: "uint16 \<Rightarrow> nat \<Rightarrow> Config \<Rightarrow> Connection result" where
  "NewConnection conv writerOverhead config =
     (case GetReceivingInFlightSize config of
        Inl e \<Rightarrow> Err e
      | Inr recvSize \<Rightarrow>
          (case GetSendingInFlightSize config of
             Inl e \<Rightarrow> Err e
           | Inr sendSize \<Rightarrow>
               (case GetSendingBufferSize config of
                  Inl e \<Rightarrow> Err e
                | Inr bufSize \<Rightarrow>
                    Ok \<lparr>c_Conversation = conv, c_rd = None, c_wd = None, c_dataInput = False, c_dataOutput = False,
                       c_Config = config, c_state = StateActive, c_stateBeginTime = 0, c_lastIncomingTime = 0,
                       c_lastPingTime = 0,
                       c_mss = GetMTUValue config - word_of_nat writerOverhead - word_of_nat DataSegmentOverhead,
                       c_roundTrip = \<lparr>rt_variation = 0, rt_srtt = 0, rt_rto = 100,
                                      rt_minRtt = GetTTIValue config, rt_updatedTimestamp = 0\<rparr>,
                       c_receivingWorker = NewReceivingWorker recvSize,
                       c_sendingWorker = NewSendingWorker sendSize bufSize,
                       c_dataUpdater = NewUpdater (GetTTIValue config),
                       c_pingUpdater = WakeUp (NewUpdater 5000), c_terminate = False, c_closed = False\<rparr>)))"

text \<open>The configuration of a connection does not change, and \<open>NewConnection\<close> has computed its value.\<close>

definition sendingInFlight :: "Connection \<Rightarrow> uint32" where
  "sendingInFlight c = (case GetSendingInFlightSize (c_Config c) of Inl _ \<Rightarrow> 0 | Inr n \<Rightarrow> n)"

section \<open>State changes\<close>

definition closeWrite :: "Connection \<Rightarrow> Connection" where
  "closeWrite c = c\<lparr>c_sendingWorker := CloseWrite (c_sendingWorker c)\<rparr>"

definition SetState :: "uint32 \<Rightarrow> State \<Rightarrow> Connection \<Rightarrow> Connection" where
  "SetState now st c0 =
     (let c = c0\<lparr>c_state := st, c_stateBeginTime := now\<rparr> in
      case st of
        StateActive \<Rightarrow> c
      | StateReadyToClose \<Rightarrow> c
      | StatePeerClosed \<Rightarrow> closeWrite c
      | StateTerminating \<Rightarrow> (closeWrite c)\<lparr>c_pingUpdater := SetInterval Second (c_pingUpdater c)\<rparr>
      | StatePeerTerminating \<Rightarrow> (closeWrite c)\<lparr>c_pingUpdater := SetInterval Second (c_pingUpdater c)\<rparr>
      | StateTerminated \<Rightarrow>
          (closeWrite c)\<lparr>c_pingUpdater := WakeUp (SetInterval Second (c_pingUpdater c)),
             c_dataUpdater := WakeUp (c_dataUpdater c), c_terminate := True\<rparr>)"

definition Close :: "uint32 \<Rightarrow> Connection \<Rightarrow> goerror option \<times> Connection" where
  "Close now c0 =
     (let c = c0\<lparr>c_dataInput := True, c_dataOutput := True\<rparr> in
      case c_state c of
        StateReadyToClose \<Rightarrow> (Some ErrClosedConnection, c)
      | StateTerminating \<Rightarrow> (Some ErrClosedConnection, c)
      | StateTerminated \<Rightarrow> (Some ErrClosedConnection, c)
      | StateActive \<Rightarrow> (None, SetState now StateReadyToClose c)
      | StatePeerClosed \<Rightarrow> (None, SetState now StateTerminating c)
      | StatePeerTerminating \<Rightarrow> (None, SetState now StateTerminated c))"

definition SetReadDeadline :: "int option \<Rightarrow> Connection \<Rightarrow> goerror option \<times> Connection" where
  "SetReadDeadline t c =
     (if c_state c \<noteq> StateActive then (Some ErrClosedConnection, c) else (None, c\<lparr>c_rd := t\<rparr>))"

definition SetWriteDeadline :: "int option \<Rightarrow> Connection \<Rightarrow> goerror option \<times> Connection" where
  "SetWriteDeadline t c =
     (if c_state c \<noteq> StateActive then (Some ErrClosedConnection, c) else (None, c\<lparr>c_wd := t\<rparr>))"

definition SetDeadline :: "int option \<Rightarrow> Connection \<Rightarrow> goerror option \<times> Connection" where
  "SetDeadline t c =
     (case SetReadDeadline t c of
        (Some e, c') \<Rightarrow> (Some e, c')
      | (None, c') \<Rightarrow> SetWriteDeadline t c')"

text \<open>The body of the goroutine that \<open>SetState\<close> starts in the last state.\<close>

definition Terminate :: "Connection \<Rightarrow> Connection" where
  "Terminate c =
     c\<lparr>c_dataInput := True, c_dataOutput := True, c_closed := True,
       c_sendingWorker := SendWorker_Release (c_sendingWorker c),
       c_receivingWorker := RecvWorker_Release (c_receivingWorker c), c_terminate := False\<rparr>"

definition OnPeerClosed :: "uint32 \<Rightarrow> Connection \<Rightarrow> Connection" where
  "OnPeerClosed now c =
     (case c_state c of
        StateReadyToClose \<Rightarrow> SetState now StateTerminating c
      | StateActive \<Rightarrow> SetState now StatePeerClosed c
      | _ \<Rightarrow> c)"

definition HandleOption :: "uint32 \<Rightarrow> SegmentOption \<Rightarrow> Connection \<Rightarrow> Connection" where
  "HandleOption now opt c =
     (if opt AND SegmentOptionClose = SegmentOptionClose then OnPeerClosed now c else c)"

section \<open>Input\<close>

definition inputData :: "uint32 \<Rightarrow> DataSegment \<Rightarrow> Connection \<Rightarrow> Connection" where
  "inputData now seg c0 =
     (let c1 = HandleOption now (DS_Option seg) c0;
          c2 = c1\<lparr>c_receivingWorker := RecvWorker_ProcessSegment seg (c_receivingWorker c1)\<rparr>;
          c3 = (if IsDataAvailable (c_receivingWorker c2) then c2\<lparr>c_dataInput := True\<rparr> else c2) in
      c3\<lparr>c_dataUpdater := WakeUp (c_dataUpdater c3)\<rparr>)"

definition inputAck :: "uint32 \<Rightarrow> uint32 \<Rightarrow> AckSegment \<Rightarrow> Connection \<Rightarrow> Connection" where
  "inputAck current now seg c0 =
     (let c1 = HandleOption now (AS_Option seg) c0;
          (w, rt) = SendWorker_ProcessSegment current seg (Timeout (c_roundTrip c1)) (c_sendingWorker c1) (c_roundTrip c1) in
      c1\<lparr>c_sendingWorker := w, c_roundTrip := rt, c_dataOutput := True,
         c_dataUpdater := WakeUp (c_dataUpdater c1)\<rparr>)"

definition onTerminateCommand :: "uint32 \<Rightarrow> Connection \<Rightarrow> Connection" where
  "onTerminateCommand now c =
     (case c_state c of
        StateActive \<Rightarrow> SetState now StatePeerTerminating c
      | StatePeerClosed \<Rightarrow> SetState now StatePeerTerminating c
      | StateReadyToClose \<Rightarrow> SetState now StateTerminating c
      | StateTerminating \<Rightarrow> SetState now StateTerminated c
      | _ \<Rightarrow> c)"

definition inputCmd :: "uint32 \<Rightarrow> uint32 \<Rightarrow> CmdOnlySegment \<Rightarrow> Connection \<Rightarrow> Connection" where
  "inputCmd current now seg c0 =
     (let c1 = HandleOption now (CS_Option seg) c0;
          c2 = (if CS_Cmd seg = CommandTerminate then onTerminateCommand now c1 else c1);
          c3 = (if CS_Option seg = SegmentOptionClose \<or> CS_Cmd seg = CommandTerminate
                then c2\<lparr>c_dataInput := True, c_dataOutput := True\<rparr> else c2) in
      c3\<lparr>c_sendingWorker := ProcessReceivingNext (CS_ReceivingNext seg) (c_sendingWorker c3),
         c_receivingWorker := ProcessSendingNext (CS_SendingNext seg) (c_receivingWorker c3),
         c_roundTrip := UpdatePeerRTO (CS_PeerRTO seg) current (c_roundTrip c3)\<rparr>)"

fun inputLoop :: "uint32 \<Rightarrow> uint32 \<Rightarrow> Segment list \<Rightarrow> Connection \<Rightarrow> Connection" where
  "inputLoop current now [] c = c"
| "inputLoop current now (seg # segs) c =
     (if Conversation seg \<noteq> c_Conversation c then c
      else inputLoop current now segs
        (case seg of
           Data s \<Rightarrow> inputData now s c
         | Ack s \<Rightarrow> inputAck current now s c
         | CmdOnly s \<Rightarrow> inputCmd current now s c))"

definition Input :: "uint32 \<Rightarrow> uint32 \<Rightarrow> Segment list \<Rightarrow> Connection \<Rightarrow> Connection" where
  "Input current now segments c = inputLoop current now segments (c\<lparr>c_lastIncomingTime := current\<rparr>)"

section \<open>Output\<close>

definition Ping :: "uint32 \<Rightarrow> Command \<Rightarrow> Connection \<Rightarrow> Connection \<times> Segment list" where
  "Ping current cmd c =
     (c\<lparr>c_lastPingTime := current\<rparr>,
      [CmdOnly (NewCmdOnlySegment\<lparr>CS_Conv := c_Conversation c, CS_Cmd := cmd,
         CS_ReceivingNext := rw_nextNumber (c_receivingWorker c),
         CS_SendingNext := FirstUnacknowledged (c_sendingWorker c),
         CS_PeerRTO := Timeout (c_roundTrip c),
         CS_Option := (if c_state c = StateReadyToClose then SegmentOptionClose else 0)\<rparr>)])"

text \<open>The second half of \<open>flush\<close>: acknowledgements, data and the periodic ping.\<close>

definition flushWorkers :: "uint32 \<Rightarrow> Connection \<Rightarrow> Connection \<times> Segment list" where
  "flushWorkers current c =
     (let readyToClose = (c_state c = StateReadyToClose);
          rto = Timeout (c_roundTrip c);
          (r, acks) = RecvWorker_Flush (c_Conversation c) readyToClose rto current (c_receivingWorker c);
          c1 = c\<lparr>c_receivingWorker := r\<rparr>;
          (s, datas, updated) = SendWorker_Flush (c_Conversation c1) readyToClose (Congestion (c_Config c1))
                                  (sendingInFlight c1) rto current (c_sendingWorker c1);
          c2 = c1\<lparr>c_sendingWorker := s\<rparr>;
          (c3, ping1) = (if updated then Ping current CommandPing c2 else (c2, []));
          (c4, ping2) = (if current - c_lastPingTime c3 \<ge> 3000 then Ping current CommandPing c3 else (c3, [])) in
      (c4, map Ack acks @ map Data datas @ ping1 @ ping2))"

definition flush :: "uint32 \<Rightarrow> uint32 \<Rightarrow> Connection \<Rightarrow> Connection \<times> Segment list" where
  "flush current now c =
     (if c_state c = StateTerminated then (c, [])
      else
        let c1 = (if c_state c = StateActive \<and> current - c_lastIncomingTime c \<ge> 30000
                  then snd (Close now c) else c);
            c2 = (if c_state c1 = StateReadyToClose \<and> SendWorker_IsEmpty (c_sendingWorker c1)
                  then SetState now StateTerminating c1 else c1) in
        if c_state c2 = StateTerminating then
          let (c3, out) = Ping current CommandTerminate c2 in
          (if current - c_stateBeginTime c3 > 8000 then SetState now StateTerminated c3 else c3, out)
        else
          let c3 = (if c_state c2 = StatePeerTerminating \<and> current - c_stateBeginTime c2 > 4000
                    then SetState now StateTerminating c2 else c2);
              c4 = (if c_state c3 = StateReadyToClose \<and> current - c_stateBeginTime c3 > 15000
                    then SetState now StateTerminating c3 else c3) in
          flushWorkers current c4)"

text \<open>One round of an updater's loop.\<close>

definition dataUpdater_tick :: "uint32 \<Rightarrow> uint32 \<Rightarrow> Connection \<Rightarrow> Connection \<times> Segment list" where
  "dataUpdater_tick current now c =
     (if c_state c \<notin> {StateTerminating, StateTerminated}
         \<and> (SendWorker_UpdateNecessary (c_sendingWorker c) \<or> RecvWorker_UpdateNecessary (c_receivingWorker c))
      then flush current now c
      else (c\<lparr>c_dataUpdater := (c_dataUpdater c)\<lparr>u_running := False\<rparr>\<rparr>, []))"

definition pingUpdater_tick :: "uint32 \<Rightarrow> uint32 \<Rightarrow> Connection \<Rightarrow> Connection \<times> Segment list" where
  "pingUpdater_tick current now c =
     (if c_state c \<noteq> StateTerminated then flush current now c
      else (c\<lparr>c_pingUpdater := (c_pingUpdater c)\<lparr>u_running := False\<rparr>\<rparr>, []))"

section \<open>Reading and writing\<close>

text \<open>
  One pass of the read loops. \<^const>\<open>None\<close> means that the loop goes on to wait for input.
\<close>

definition conn_ReadMultiBuffer :: "Connection \<Rightarrow> MultiBuffer result option \<times> Connection" where
  "conn_ReadMultiBuffer c =
     (if c_state c \<in> {StateReadyToClose, StateTerminating, StateTerminated} then (Some (Err EOF), c)
      else
        let (mb, w) = RecvWorker_ReadMultiBuffer (c_receivingWorker c);
            c1 = c\<lparr>c_receivingWorker := w\<rparr> in
        if \<not> MB_IsEmpty mb then (Some (Ok mb), c1\<lparr>c_dataUpdater := WakeUp (c_dataUpdater c1)\<rparr>)
        else if c_state c1 = StatePeerTerminating then (Some (Err EOF), c1)
        else (None, c1))"

definition conn_Read :: "nat \<Rightarrow> Connection \<Rightarrow> bytes result option \<times> Connection" where
  "conn_Read k c =
     (if c_state c \<in> {StateReadyToClose, StateTerminating, StateTerminated} then (Some (Err EOF), c)
      else
        let (d, w) = RecvWorker_Read k (c_receivingWorker c);
            c1 = c\<lparr>c_receivingWorker := w\<rparr> in
        if d \<noteq> [] then (Some (Ok d), c1\<lparr>c_dataUpdater := WakeUp (c_dataUpdater c1)\<rparr>)
        else (None, c1))"

text \<open>
  A wait: \<open>t0\<close> is the clock when it starts, \<open>t1\<close> when its timer fires, and \<open>arrives\<close> says that a
  signal comes before the timer. The result is the error with which the wait ends, if any.
\<close>

definition waitOutcome :: "int option \<Rightarrow> int \<Rightarrow> int \<Rightarrow> bool \<Rightarrow> bool \<Rightarrow> goerror option" where
  "waitOutcome deadline t0 t1 signalled arrives =
     (if signalled then None
      else if (case deadline of None \<Rightarrow> False | Some d \<Rightarrow> d - t0 < 0) then Some ErrIOTimeout
      else if arrives then None
      else if (case deadline of None \<Rightarrow> False | Some d \<Rightarrow> d < t1) then Some ErrIOTimeout
      else None)"

definition waitForDataInput :: "int \<Rightarrow> int \<Rightarrow> bool \<Rightarrow> Connection \<Rightarrow> goerror option \<times> Connection" where
  "waitForDataInput t0 t1 arrives c =
     (waitOutcome (c_rd c) t0 t1 (c_dataInput c) arrives, c\<lparr>c_dataInput := False\<rparr>)"

definition waitForDataOutput :: "int \<Rightarrow> int \<Rightarrow> bool \<Rightarrow> Connection \<Rightarrow> goerror option \<times> Connection" where
  "waitForDataOutput t0 t1 arrives c =
     (waitOutcome (c_wd c) t0 t1 (c_dataOutput c) arrives, c\<lparr>c_dataOutput := False\<rparr>)"

text \<open>
  The inner loop of \<open>writeMultiBufferInternal\<close> on the bytes that the reader still holds and the
  buffer that is not pushed yet. It returns, or has to wait for room in the sending window.
\<close>

datatype WriteOutcome = Returned "goerror option" | Waiting bytes bytes

function writeLoop :: "bytes \<Rightarrow> bytes option \<Rightarrow> bool \<Rightarrow> Connection \<Rightarrow> WriteOutcome \<times> bool \<times> Connection" where
  "writeLoop rest b updatePending c =
     (if c_state c \<noteq> StateActive then (Returned (Some ErrClosedPipe), updatePending, c)
      else
        let k = min (unat (c_mss c)) Size;
            (b', rest') = (case b of Some x \<Rightarrow> (x, rest) | None \<Rightarrow> (take k rest, drop k rest)) in
        if b = None \<and> b' = [] then (Returned None, updatePending, c)
        else
          let (ok, w) = SendWorker_Push b' (c_sendingWorker c) in
          if \<not> ok then (Waiting b' rest', updatePending, c\<lparr>c_sendingWorker := w\<rparr>)
          else writeLoop rest' None True (c\<lparr>c_sendingWorker := w\<rparr>))"
  by pat_completeness auto
termination
  by (relation "measure (\<lambda>(rest, b, p, c). length rest + (if b = None then 0 else 1))")
    (auto split: option.splits)

declare writeLoop.simps [simp del]

definition writeMultiBufferInternal :: "bytes \<Rightarrow> bytes option \<Rightarrow> Connection \<Rightarrow> WriteOutcome \<times> Connection" where
  "writeMultiBufferInternal rest b c =
     (let (outcome, updatePending, c1) = writeLoop rest b False c in
      (outcome, if updatePending then c1\<lparr>c_dataUpdater := WakeUp (c_dataUpdater c1)\<rparr> else c1))"

section \<open>The state machine\<close>

inductive edge :: "State \<Rightarrow> State \<Rightarrow> bool" where
  "edge StateActive StateReadyToClose"
| "edge StateActive StatePeerClosed"
| "edge StateActive StatePeerTerminating"
| "edge StateReadyToClose StateTerminating"
| "edge StatePeerClosed StateTerminating"
| "edge StatePeerClosed StatePeerTerminating"
| "edge StatePeerTerminating StateTerminating"
| "edge StatePeerTerminating StateTerminated"
| "edge StateTerminating StateTerminated"

inductive_simps edge_simps: "edge s s'"

abbreviation edges :: "State \<Rightarrow> State \<Rightarrow> bool" where
  "edges \<equiv> edge\<^sup>*\<^sup>*"

fun state_rank :: "State \<Rightarrow> nat" where
  "state_rank StateActive = 0"
| "state_rank StateReadyToClose = 1"
| "state_rank StatePeerClosed = 1"
| "state_rank StatePeerTerminating = 2"
| "state_rank StateTerminating = 3"
| "state_rank StateTerminated = 4"

text \<open>Every event of a connection, with the segments it sends.\<close>

inductive conn_step :: "Connection \<Rightarrow> Segment list \<Rightarrow> Connection \<Rightarrow> bool" where
  conn_close: "Close now c = (e, c') \<Longrightarrow> conn_step c [] c'"
| conn_input: "conn_step c [] (Input current now segs c)"
| conn_data_tick: "dataUpdater_tick current now c = (c', out) \<Longrightarrow> conn_step c out c'"
| conn_ping_tick: "pingUpdater_tick current now c = (c', out) \<Longrightarrow> conn_step c out c'"
| conn_terminate: "c_terminate c \<Longrightarrow> conn_step c [] (Terminate c)"
| conn_read_multi: "conn_ReadMultiBuffer c = (r, c') \<Longrightarrow> conn_step c [] c'"
| conn_read: "conn_Read k c = (r', c') \<Longrightarrow> conn_step c [] c'"
| conn_wait_input: "waitForDataInput t0 t1 a c = (e, c') \<Longrightarrow> conn_step c [] c'"
| conn_wait_output: "waitForDataOutput t0 t1 a c = (e, c') \<Longrightarrow> conn_step c [] c'"
| conn_write: "writeMultiBufferInternal rest b c = (o', c') \<Longrightarrow> conn_step c [] c'"
| conn_deadline: "SetDeadline t c = (e, c') \<Longrightarrow> conn_step c [] c'"

subsection \<open>Every event follows the edges\<close>

lemma edge_rank: "edge s s' \<Longrightarrow> state_rank s < state_rank s'"
  by (induction rule: edge.induct) simp_all

lemma edges_rank: "edges s s' \<Longrightarrow> state_rank s \<le> state_rank s' \<and> (s = s' \<or> state_rank s < state_rank s')"
  by (induction rule: rtranclp_induct) (auto dest: edge_rank)

lemma edges_Terminated: "edges StateTerminated s \<longleftrightarrow> s = StateTerminated"
  using edges_rank [of StateTerminated s] by (cases s) auto

lemma SetState_state [simp]:
  "c_state (SetState now st c) = st" "c_stateBeginTime (SetState now st c) = now"
  "c_Conversation (SetState now st c) = c_Conversation c"
  by (auto simp: SetState_def closeWrite_def Let_def split: State.splits)

lemma Close_edges: "edges (c_state c) (c_state (snd (Close now c)))"
  by (auto simp: Close_def Let_def intro: r_into_rtranclp edge.intros split: State.splits)

lemma HandleOption_edges: "edges (c_state c) (c_state (HandleOption now opt c))"
  by (auto simp: HandleOption_def OnPeerClosed_def intro: r_into_rtranclp edge.intros split: State.splits)

lemma onTerminateCommand_edges: "edges (c_state c) (c_state (onTerminateCommand now c))"
  by (auto simp: onTerminateCommand_def intro: r_into_rtranclp edge.intros split: State.splits)

lemma HandleOption_conv [simp]: "c_Conversation (HandleOption now opt c) = c_Conversation c"
  by (auto simp: HandleOption_def OnPeerClosed_def split: State.splits)

lemma onTerminateCommand_conv [simp]: "c_Conversation (onTerminateCommand now c) = c_Conversation c"
  by (auto simp: onTerminateCommand_def split: State.splits)

lemma inputData_edges: "edges (c_state c) (c_state (inputData now seg c))"
  using HandleOption_edges [of c now "DS_Option seg"] by (simp add: inputData_def Let_def)

lemma inputAck_edges: "edges (c_state c) (c_state (inputAck current now seg c))"
  using HandleOption_edges [of c now "AS_Option seg"] by (simp add: inputAck_def Let_def split: prod.splits)

lemma inputCmd_edges: "edges (c_state c) (c_state (inputCmd current now seg c))"
  using HandleOption_edges [of c now "CS_Option seg"]
    rtranclp_trans [OF HandleOption_edges [of c now "CS_Option seg"] onTerminateCommand_edges [of _ now]]
  by (auto simp: inputCmd_def Let_def)

lemma inputLoop_edges: "edges (c_state c) (c_state (inputLoop current now segs c))"
proof (induction current now segs c rule: inputLoop.induct)
  case (2 current now seg segs c)
  let ?c = "case seg of Data s \<Rightarrow> inputData now s c | Ack s \<Rightarrow> inputAck current now s c
                      | CmdOnly s \<Rightarrow> inputCmd current now s c"
  have "edges (c_state c) (c_state ?c)"
    by (auto simp: inputData_edges inputAck_edges inputCmd_edges split: Segment.splits)
  then show ?case
    using 2 by (auto intro: rtranclp_trans)
qed simp

lemma flushWorkers_state: "c_state (fst (flushWorkers current c)) = c_state c"
  by (auto simp: flushWorkers_def Ping_def Let_def split: prod.splits)

lemma flush_edges: "edges (c_state c) (c_state (fst (flush current now c)))"
proof (cases "c_state c = StateTerminated")
  case True
  then show ?thesis by (simp add: flush_def)
next
  case False
  define c1 where "c1 = (if c_state c = StateActive \<and> current - c_lastIncomingTime c \<ge> 30000
                  then snd (Close now c) else c)"
  define c2 where "c2 = (if c_state c1 = StateReadyToClose \<and> SendWorker_IsEmpty (c_sendingWorker c1)
                  then SetState now StateTerminating c1 else c1)"
  have "edges (c_state c) (c_state c1)"
    using Close_edges [of c now] by (auto simp: c1_def)
  moreover have "edges (c_state c1) (c_state c2)"
    by (auto simp: c2_def intro: r_into_rtranclp edge.intros)
  ultimately have 2: "edges (c_state c) (c_state c2)"
    by (rule rtranclp_trans)
  have "edges (c_state c2) (c_state (fst (flush current now c)))"
  proof (cases "c_state c2 = StateTerminating")
    case True
    then show ?thesis
      using False unfolding flush_def Let_def c1_def [symmetric] c2_def [symmetric]
      by (auto simp: Ping_def intro: r_into_rtranclp edge.intros)
  next
    case no: False
    then show ?thesis
      using False unfolding flush_def Let_def c1_def [symmetric] c2_def [symmetric]
      by (auto simp: flushWorkers_state intro: r_into_rtranclp edge.intros)
  qed
  with 2 show ?thesis by (rule rtranclp_trans)
qed

lemma writeLoop_state: "writeLoop rest b p c = (r, p', c') \<Longrightarrow> c_state c' = c_state c"
proof (induction rest b p c arbitrary: r p' c' rule: writeLoop.induct)
  case (1 rest b p c)
  from "1.prems" show ?case
    using "1.IH" by (subst (asm) writeLoop.simps) (auto simp: Let_def split: if_splits prod.splits option.splits)
qed

lemma conn_step_edges: "conn_step c out c' \<Longrightarrow> edges (c_state c) (c_state c')"
proof (induction rule: conn_step.induct)
  case (conn_close now c e c')
  then show ?case using Close_edges [of c now] by simp
next
  case (conn_input c current now segs)
  then show ?case using inputLoop_edges [of "c\<lparr>c_lastIncomingTime := current\<rparr>"] by (simp add: Input_def)
next
  case (conn_data_tick current now c c' out)
  then show ?case using flush_edges [of c current now] by (auto simp: dataUpdater_tick_def split: if_splits)
next
  case (conn_ping_tick current now c c' out)
  then show ?case using flush_edges [of c current now] by (auto simp: pingUpdater_tick_def split: if_splits)
next
  case (conn_write rest b c o' c')
  then show ?case
    by (auto simp: writeMultiBufferInternal_def Let_def dest: writeLoop_state split: prod.splits if_splits)
qed (auto simp: Terminate_def conn_ReadMultiBuffer_def conn_Read_def waitForDataInput_def waitForDataOutput_def
    SetDeadline_def SetReadDeadline_def SetWriteDeadline_def Let_def split: if_splits prod.splits)

subsection \<open>An idle connection terminates\<close>

text \<open>
  Updater ticks at the given times (in milliseconds since the connection was made), with no input
  in between. \<open>paced g t\<close>: the ticks follow \<open>t\<close> with gaps of at most \<open>g\<close>.
\<close>

fun ticks :: "nat list \<Rightarrow> Connection \<Rightarrow> Connection" where
  "ticks [] c = c"
| "ticks (t # ts) c = ticks ts (fst (flush (word_of_nat t) (word_of_nat t) c))"

fun paced :: "nat \<Rightarrow> nat \<Rightarrow> nat list \<Rightarrow> bool" where
  "paced g t [] \<longleftrightarrow> True"
| "paced g t (u # us) \<longleftrightarrow> t \<le> u \<and> u \<le> t + g \<and> u < 2 ^ 32 \<and> paced g u us"

text \<open>
  Where an idle connection is at time \<open>t\<close>, when \<open>li\<close> is the time of the last input: still active,
  or closed in time, or terminating in time, or terminated.
\<close>

definition idle_inv :: "nat \<Rightarrow> nat \<Rightarrow> nat \<Rightarrow> Connection \<Rightarrow> bool" where
  "idle_inv g li t c \<longleftrightarrow> c_lastIncomingTime c = word_of_nat li \<and> li \<le> t \<and>
     (c_state c = StateTerminated
      \<or> c_state c = StateActive \<and> t < li + 30000
      \<or> (\<exists>b. c_stateBeginTime c = word_of_nat b \<and> b \<le> t \<and>
           (c_state c = StateReadyToClose \<and> b \<le> li + 30000 + g \<and> t \<le> b + 15000
            \<or> c_state c = StateTerminating \<and> b \<le> li + 45000 + 2 * g \<and> t \<le> b + 8000)))"

lemma word_diff_nat:
  assumes "b \<le> t" and "t < 2 ^ 32"
  shows "(word_of_nat t - word_of_nat b :: uint32) = word_of_nat (t - b)"
    and "unat (word_of_nat t - word_of_nat b :: uint32) = t - b"
proof -
  show *: "(word_of_nat t - word_of_nat b :: uint32) = word_of_nat (t - b)"
    using assms(1) by (simp add: of_nat_diff)
  show "unat (word_of_nat t - word_of_nat b :: uint32) = t - b"
    unfolding * using assms by (simp add: unat_of_nat take_bit_nat_eq_self del: of_nat_diff)
qed

lemma SetState_lastIncoming [simp]: "c_lastIncomingTime (SetState now st c) = c_lastIncomingTime c"
  by (auto simp: SetState_def closeWrite_def Let_def split: State.splits)

lemma flushWorkers_frame:
  "c_lastIncomingTime (fst (flushWorkers current c)) = c_lastIncomingTime c"
  "c_stateBeginTime (fst (flushWorkers current c)) = c_stateBeginTime c"
  by (auto simp: flushWorkers_def Ping_def Let_def split: prod.splits)

lemma Close_Active:
  "c_state c = StateActive \<Longrightarrow> c_state (snd (Close now c)) = StateReadyToClose
     \<and> c_stateBeginTime (snd (Close now c)) = now \<and> c_lastIncomingTime (snd (Close now c)) = c_lastIncomingTime c"
  by (simp add: Close_def Let_def)

text \<open>What a tick does in each state that an idle connection passes through.\<close>

lemma flush_Terminating:
  assumes "c_state c = StateTerminating"
  shows "c_state (fst (flush t now c)) = (if t - c_stateBeginTime c > 8000 then StateTerminated else StateTerminating)"
    and "c_lastIncomingTime (fst (flush t now c)) = c_lastIncomingTime c"
    and "\<not> t - c_stateBeginTime c > 8000 \<Longrightarrow> c_stateBeginTime (fst (flush t now c)) = c_stateBeginTime c"
  using assms by (simp_all add: flush_def Ping_def Let_def)

lemma flush_ReadyToClose:
  assumes "c_state c = StateReadyToClose"
  shows "c_lastIncomingTime (fst (flush t t c)) = c_lastIncomingTime c"
    and "c_state (fst (flush t t c)) = (if SendWorker_IsEmpty (c_sendingWorker c) \<or> t - c_stateBeginTime c > 15000
           then StateTerminating else StateReadyToClose)"
    and "c_stateBeginTime (fst (flush t t c)) = (if SendWorker_IsEmpty (c_sendingWorker c) \<or> t - c_stateBeginTime c > 15000
           then t else c_stateBeginTime c)"
  using assms by (auto simp: flush_def Ping_def Let_def flushWorkers_state flushWorkers_frame)

lemma flush_Active:
  assumes "c_state c = StateActive"
  shows "c_lastIncomingTime (fst (flush t t c)) = c_lastIncomingTime c"
    and "t - c_lastIncomingTime c \<ge> 30000 \<Longrightarrow> c_stateBeginTime (fst (flush t t c)) = t"
    and "t - c_lastIncomingTime c \<ge> 30000 \<Longrightarrow> c_state (fst (flush t t c)) \<in> {StateReadyToClose, StateTerminating}"
    and "\<not> t - c_lastIncomingTime c \<ge> 30000 \<Longrightarrow> c_state (fst (flush t t c)) = StateActive"
  using assms Close_Active [OF assms, of t]
  by (auto simp: flush_def Ping_def Let_def flushWorkers_state flushWorkers_frame)

lemma idle_inv_tick:
  assumes inv: "idle_inv g li t c" and u: "t \<le> u" "u \<le> t + g" "u < 2 ^ 32"
  shows "idle_inv g li u (fst (flush (word_of_nat u) (word_of_nat u) c))" (is "idle_inv g li u ?c")
proof -
  have li: "c_lastIncomingTime c = word_of_nat li" "li \<le> t"
    using inv by (auto simp: idle_inv_def)
  consider (terminated) "c_state c = StateTerminated" | (active) "c_state c = StateActive" "t < li + 30000"
    | (ready) b where "c_state c = StateReadyToClose" "c_stateBeginTime c = word_of_nat b" "b \<le> t"
        "b \<le> li + 30000 + g" "t \<le> b + 15000"
    | (terminating) b where "c_state c = StateTerminating" "c_stateBeginTime c = word_of_nat b" "b \<le> t"
        "b \<le> li + 45000 + 2 * g" "t \<le> b + 8000"
    using inv by (auto simp: idle_inv_def)
  then show ?thesis
  proof cases
    case terminated
    then show ?thesis using li u by (simp add: idle_inv_def flush_def)
  next
    case active
    have "(word_of_nat u - c_lastIncomingTime c \<ge> 30000) \<longleftrightarrow> li + 30000 \<le> u"
      using word_diff_nat(2) [of li u] li u by (auto simp: word_le_nat_alt)
    then show ?thesis
      using flush_Active [OF active(1), of "word_of_nat u"] active(2) li u
      by (cases "li + 30000 \<le> u") (auto simp: idle_inv_def intro!: exI [of _ u])
  next
    case (ready b)
    have late: "(word_of_nat u - c_stateBeginTime c > 15000) \<longleftrightarrow> b + 15000 < u"
      using word_diff_nat(2) [of b u] ready u by (auto simp: word_less_nat_alt)
    note fl = flush_ReadyToClose [OF ready(1), of "word_of_nat u", unfolded late]
    show ?thesis
    proof (cases "SendWorker_IsEmpty (c_sendingWorker c) \<or> b + 15000 < u")
      case True
      then show ?thesis
        using fl ready li u unfolding idle_inv_def by (auto intro!: exI [of _ u])
    next
      case False
      then show ?thesis
        using fl ready li u unfolding idle_inv_def by (auto intro!: exI [of _ b])
    qed
  next
    case (terminating b)
    have "(word_of_nat u - c_stateBeginTime c > 8000) \<longleftrightarrow> b + 8000 < u"
      using word_diff_nat(2) [of b u] terminating u by (auto simp: word_less_nat_alt)
    then show ?thesis
      using flush_Terminating [OF terminating(1), of "word_of_nat u" "word_of_nat u"] terminating li u
      by (cases "b + 8000 < u") (auto simp: idle_inv_def intro!: exI [of _ b])
  qed
qed

lemma idle_inv_ticks: "idle_inv g li t c \<Longrightarrow> paced g t ts \<Longrightarrow> idle_inv g li (last (t # ts)) (ticks ts c)"
proof (induction ts arbitrary: t c)
  case (Cons u us)
  then show ?case using idle_inv_tick [of g li t c u] by simp
qed simp

lemma idle_inv_late: "idle_inv g li t c \<Longrightarrow> li + 53000 + 2 * g < t \<Longrightarrow> c_state c = StateTerminated"
  by (auto simp: idle_inv_def)

section \<open>Writing\<close>

text \<open>
  What a writing pass does to the sending window: it pushes the buffer at hand and then chunks of
  the reader's bytes, in order, each at most \<open>mss\<close> bytes long.
\<close>

definition unsent :: "WriteOutcome \<Rightarrow> bytes" where
  "unsent r = (case r of Returned _ \<Rightarrow> [] | Waiting b rest \<Rightarrow> b @ rest)"

definition held :: "bytes option \<Rightarrow> bytes" where
  "held b = (case b of None \<Rightarrow> [] | Some x \<Rightarrow> x)"

lemma writeLoop_effect:
  assumes "writeLoop rest b p c = (r, p', c')" and "c_state c = StateActive" and "c_mss c > 0"
  shows "\<exists>chunks. map snd (sending_keys (c_sendingWorker c')) = map snd (sending_keys (c_sendingWorker c)) @ chunks
     \<and> held b @ rest = concat chunks @ unsent r \<and> (\<exists>x y. r \<in> {Returned None, Waiting x y})
     \<and> (\<forall>x\<in>set (if b = None then chunks else tl chunks). x \<noteq> [] \<and> length x \<le> min (unat (c_mss c)) Size)"
  using assms
proof (induction rest b p c arbitrary: r p' c' rule: writeLoop.induct)
  case (1 rest b p c)
  let ?k = "min (unat (c_mss c)) Size"
  let ?b = "case b of Some x \<Rightarrow> x | None \<Rightarrow> take ?k rest" and ?rest = "case b of Some x \<Rightarrow> rest | None \<Rightarrow> drop ?k rest"
  have k: "?k > 0"
    using "1.prems"(3) by (simp add: Size_def word_less_nat_alt)
  have split: "(case b of Some x \<Rightarrow> (x, rest) | None \<Rightarrow> (take ?k rest, drop ?k rest)) = (?b, ?rest)"
    by (cases b) auto
  have bytes: "held b @ rest = ?b @ ?rest"
    by (cases b) (simp_all add: held_def)
  show ?case
  proof (cases "b = None \<and> ?b = []")
    case True
    then have "rest = []"
      using k by auto
    then have "r = Returned None" and "c' = c"
      using True "1.prems"(1,2) by (simp_all add: writeLoop.simps [of "[]" None p c])
    then show ?thesis
      using True \<open>rest = []\<close> by (intro exI [of _ "[]"]) (simp add: held_def unsent_def)
  next
    case False
    obtain ok w where push: "SendWorker_Push ?b (c_sendingWorker c) = (ok, w)"
      by (metis prod.exhaust)
    note e = SendWorker_Push_effect(1) [OF push]
    show ?thesis
    proof (cases ok)
      case False
      then have "r = Waiting ?b ?rest" and "c' = c\<lparr>c_sendingWorker := w\<rparr>"
        using \<open>\<not> (b = None \<and> ?b = [])\<close> push "1.prems"(1,2)
        by (subst (asm) writeLoop.simps; simp only: Let_def split; simp split: if_splits)+
      then show ?thesis
        using e False bytes by (intro exI [of _ "[]"]) (simp add: unsent_def)
    next
      case True
      let ?c = "c\<lparr>c_sendingWorker := w\<rparr>"
      have rec: "writeLoop ?rest None True ?c = (r, p', c')"
        using \<open>\<not> (b = None \<and> ?b = [])\<close> True push "1.prems"(1,2)
        by (subst (asm) writeLoop.simps; simp only: Let_def split; simp split: if_splits)
      note ih = "1.IH" [OF _ refl refl split [symmetric] _ refl push [symmetric] _ rec]
      obtain chunks where ch: "map snd (sending_keys (c_sendingWorker c')) = map snd (sending_keys w) @ chunks"
          "?rest = concat chunks @ unsent r" "\<exists>x y. r \<in> {Returned None, Waiting x y}"
          "\<forall>x\<in>set chunks. x \<noteq> [] \<and> length x \<le> ?k"
        using ih \<open>\<not> (b = None \<and> ?b = [])\<close> True "1.prems"(2,3) by (auto simp: held_def)
      show ?thesis
        using ch e True bytes \<open>\<not> (b = None \<and> ?b = [])\<close>
        by (intro exI [of _ "?b # chunks"]) (auto split: option.splits)
    qed
  qed
qed

section \<open>Two clock readings\<close>

text \<open>
  \<open>flush\<close> compares the clock it read on entry with the clock that \<open>SetState\<close> read a moment later,
  in unsigned arithmetic. When the two differ, the difference wraps around and the connection skips
  the eight seconds it should spend terminating.
\<close>

lemma flush_clock_race:
  assumes "c_state c = StateReadyToClose" and "SendWorker_IsEmpty (c_sendingWorker c)"
  shows "c_state (fst (flush current (current + 1) c)) = StateTerminated"
    and "c_state (fst (flush current current c)) = StateTerminating"
  using assms by (simp_all add: flush_def Ping_def Let_def)

section \<open>Properties\<close>

text \<open>
  C12. Every event of a connection moves its state along the documented transitions only: from
  active over the closing states to terminated. No event returns to an earlier state, and a
  terminated connection stays terminated.
\<close>

theorem conn_state_machine:
  assumes "conn_step c out c'"
  shows "edges (c_state c) (c_state c') \<and> state_rank (c_state c) \<le> state_rank (c_state c')
    \<and> (c_state c = StateTerminated \<longrightarrow> c_state c' = StateTerminated)"
proof -
  note e = conn_step_edges [OF assms]
  show ?thesis
    using e edges_rank [OF e] edges_Terminated by metis
qed

definition example_config :: Config where
  "example_config = \<lparr>Mtu = None, Tti = None, UplinkCapacity = None, DownlinkCapacity = None, Congestion = False,
     WriteBuffer = None, ReadBuffer = None\<rparr>"

lemma example_connection: "\<exists>c. NewConnection 7 6 example_config = Ok c \<and> c_state c = StateActive \<and> c_lastIncomingTime c = 0"
  by (simp add: NewConnection_def example_config_def GetReceivingInFlightSize_def GetSendingInFlightSize_def
      GetSendingBufferSize_def inFlightSize_def go_div_def GetMTUValue_def GetTTIValue_def value_or_def
      GetUplinkCapacityValue_def GetDownlinkCapacityValue_def GetWriteBufferSize_def)

theorem conn_state_machine_witness:
  "\<exists>c c'. NewConnection 7 6 example_config = Ok c \<and> conn_step c [] c' \<and> c_state c' = StateReadyToClose
     \<and> state_rank (c_state c) \<le> state_rank (c_state c')"
proof -
  obtain c where c: "NewConnection 7 6 example_config = Ok c" "c_state c = StateActive"
    using example_connection by blast
  obtain e c' where cl: "Close 0 c = (e, c')"
    by (rule prod.exhaust)
  then have "c_state c' = StateReadyToClose"
    using Close_Active [OF c(2), of 0] by simp
  with c cl conn_state_machine [OF conn_close [OF cl]] show ?thesis
    using conn_close [OF cl] by blast
qed

text \<open>
  C11. An active connection whose peer falls silent terminates: when its updater ticks at least every \<open>g\<close>
  milliseconds, nothing arrives after \<open>li\<close> and nothing but these ticks happens, the connection is terminated by every tick later
  than \<open>li + 53000 + 2 g\<close>.
\<close>

theorem idle_connection_terminates:
  assumes "c_state c = StateActive" and "c_lastIncomingTime c = word_of_nat li"
    and "paced g li ts" and "ts \<noteq> []" and "li + 53000 + 2 * g < last ts"
  shows "c_state (ticks ts c) = StateTerminated"
proof -
  have "idle_inv g li li c"
    using assms(1,2) by (simp add: idle_inv_def)
  from idle_inv_ticks [OF this assms(3)] idle_inv_late assms(4,5) show ?thesis
    by simp
qed

theorem idle_connection_terminates_witness:
  "\<exists>c. NewConnection 7 6 example_config = Ok c
     \<and> c_state (ticks (map (\<lambda>k. 5000 * k) [1, 2, 3, 4, 5, 6, 7, 8, 9, 10, 11, 12, 13]) c) = StateTerminated"
proof -
  obtain c where c: "NewConnection 7 6 example_config = Ok c" "c_state c = StateActive" "c_lastIncomingTime c = 0"
    using example_connection by blast
  have "c_state (ticks (map (\<lambda>k. 5000 * k) [1, 2, 3, 4, 5, 6, 7, 8, 9, 10, 11, 12, 13]) c) = StateTerminated"
    by (rule idle_connection_terminates [where li = 0 and g = 5000]) (use c in simp_all)
  with c(1) show ?thesis by blast
qed

text \<open>
  A writing pass on an active connection cuts the bytes into non-empty chunks of at most \<open>mss\<close>
  bytes (and at most one buffer), appends them to the sending window in order, and returns
  successfully only when nothing is left; otherwise it holds exactly the bytes not yet pushed.
\<close>

theorem write_pushes_in_order:
  assumes "c_state c = StateActive" and "c_mss c > 0" and "writeLoop d None p c = (r, p', c')"
  shows "\<exists>chunks. map snd (sending_keys (c_sendingWorker c')) = map snd (sending_keys (c_sendingWorker c)) @ chunks
    \<and> d = concat chunks @ unsent r \<and> (\<forall>x\<in>set chunks. x \<noteq> [] \<and> length x \<le> min (unat (c_mss c)) Size)
    \<and> (r = Returned None \<or> (\<exists>x y. r = Waiting x y))"
  using writeLoop_effect [OF assms(3,1,2)] by (auto simp: held_def)

theorem write_pushes_in_order_witness:
  "\<exists>c r p' c' chunks. NewConnection 7 6 example_config = Ok c \<and> writeLoop [1, 2, 3] None False c = (r, p', c')
     \<and> [1, 2, 3] = concat chunks @ unsent r"
proof -
  obtain c where c: "NewConnection 7 6 example_config = Ok c" "c_state c = StateActive"
    using example_connection by blast
  have mss: "c_mss c > 0"
    using c(1) by (auto simp: NewConnection_def example_config_def DataSegmentOverhead_def GetMTUValue_def
        value_or_def split: sum.splits)
  obtain r p' c' where w: "writeLoop [1, 2, 3] None False c = (r, p', c')"
    by (metis prod.exhaust)
  from write_pushes_in_order [OF c(2) mss w] c(1) w show ?thesis by blast
qed

end
