(* ===== verification/Kcp_Crypt.thy ===== *)
theory Kcp_Crypt
  imports Aead
begin

text \<open>
  \<open>SimpleAuthenticator\<close>, the legacy AEAD of the KCP transport: \<open>transport/internet/kcp/crypt.go\<close>
  with the portable \<open>xorfwd\<close> and \<open>xorbkd\<close> of \<open>xor.go\<close>. The hash is FNV-1a with 32 bits
  (Go's \<open>hash/fnv\<close>). It is interpreted as an instance of the contract \<open>aead\<close> for plaintexts of
  at most 65535 bytes, the range of its 16-bit length field.
\<close>

section \<open>Definitions\<close>

definition fnv32a :: "bytes \<Rightarrow> uint32" where
  "fnv32a bs = foldl (\<lambda>h b. (h XOR ucast b) * 16777619) 2166136261 bs"

fun xorfwd_loop :: "nat \<Rightarrow> nat \<Rightarrow> bytes \<Rightarrow> bytes" where
  "xorfwd_loop i 0 x = x"
| "xorfwd_loop i (Suc k) x = xorfwd_loop (Suc i) k (x[i := (x ! i) XOR (x ! (i - 4))])"

definition xorfwd :: "bytes \<Rightarrow> bytes" where
  "xorfwd x = xorfwd_loop 4 (length x - 4) x"

fun xorbkd_loop :: "nat \<Rightarrow> bytes \<Rightarrow> bytes" where
  "xorbkd_loop 0 x = x"
| "xorbkd_loop (Suc k) x = xorbkd_loop k (x[k + 4 := (x ! (k + 4)) XOR (x ! k)])"

definition xorbkd :: "bytes \<Rightarrow> bytes" where
  "xorbkd x = xorbkd_loop (length x - 4) x"

text \<open>The padding to a multiple of four around the XOR passes, cut off again afterwards.\<close>

definition padded :: "(bytes \<Rightarrow> bytes) \<Rightarrow> bytes \<Rightarrow> bytes" where
  "padded f dst =
     (let dstLen = length dst; xtra = 4 - dstLen mod 4;
          dst' = (if xtra \<noteq> 4 then dst @ replicate xtra 0 else dst) in
      if xtra \<noteq> 4 then take dstLen (f dst') else f dst')"

text \<open>Hash, length and text, before the XOR pass.\<close>

definition authenticated :: "bytes \<Rightarrow> bytes" where
  "authenticated plain =
     (let body = be_bytes 2 (word_of_nat (length plain) :: uint16) @ plain in be_bytes 4 (fnv32a body) @ body)"

definition SimpleAuthenticator_Seal :: "bytes \<Rightarrow> bytes \<Rightarrow> bytes \<Rightarrow> bytes" where
  "SimpleAuthenticator_Seal nonce plain extra =
     padded xorfwd (authenticated plain)"

text \<open>
  What \<open>Seal(dst[:0], ...)\<close> leaves in the array behind \<open>dst\<close>, which has room for the hash, the length and
  the text. If the array has no room for the padding, \<open>append\<close> moves to a new array, and the XOR pass
  happens there.
\<close>

definition SimpleAuthenticator_SealInto :: "nat \<Rightarrow> bytes \<Rightarrow> bytes \<Rightarrow> bytes \<Rightarrow> bytes" where
  "SimpleAuthenticator_SealInto room nonce plain extra =
     (let dst = authenticated plain; xtra = 4 - length dst mod 4 in
      if xtra \<noteq> 4 \<and> room < length dst + xtra then dst else SimpleAuthenticator_Seal nonce plain extra)"

definition SimpleAuthenticator_Open :: "bytes \<Rightarrow> bytes \<Rightarrow> bytes \<Rightarrow> bytes result" where
  "SimpleAuthenticator_Open nonce cipherText extra =
     (let dst = padded xorbkd cipherText in
      if length dst < 4 then Err (Panic ''slice bounds out of range'')
      else if be_val (take 4 dst) \<noteq> fnv32a (drop 4 dst) then Err (ErrMsg ''invalid auth'')
      else if int (length dst) - 6 \<noteq> int (unat (be_val (take 2 (drop 4 dst)) :: uint16))
        then Err (ErrMsg ''invalid auth'')
      else Ok (drop 6 dst))"

definition SimpleAuthenticator :: cipherAEAD where
  "SimpleAuthenticator =
     \<lparr>NonceSize = 0, Overhead = 6, Seal = SimpleAuthenticator_Seal, Open = SimpleAuthenticator_Open\<rparr>"

section \<open>The XOR passes\<close>

lemma length_xorfwd_loop [simp]: "length (xorfwd_loop i k x) = length x"
  by (induction i k x rule: xorfwd_loop.induct) auto

lemma length_xorfwd [simp]: "length (xorfwd x) = length x"
  by (simp add: xorfwd_def)

lemma length_xorbkd_loop [simp]: "length (xorbkd_loop k x) = length x"
  by (induction k x rule: xorbkd_loop.induct) auto

lemma length_xorbkd [simp]: "length (xorbkd x) = length x"
  by (simp add: xorbkd_def)

lemma xorfwd_loop_low: "j < i \<Longrightarrow> xorfwd_loop i k x ! j = x ! j"
  by (induction i k x rule: xorfwd_loop.induct) auto

lemma xorfwd_loop_nth:
  "4 \<le> i \<Longrightarrow> i + k \<le> length x \<Longrightarrow> i \<le> j \<Longrightarrow> j < i + k \<Longrightarrow>
     xorfwd_loop i k x ! j = (x ! j) XOR (xorfwd_loop i k x ! (j - 4))"
proof (induction i k x rule: xorfwd_loop.induct)
  case (1 i x)
  then show ?case by simp
next
  case (2 i k x)
  let ?x = "x[i := (x ! i) XOR (x ! (i - 4))]"
  show ?case
  proof (cases "j = i")
    case True
    then show ?thesis using "2.prems" by (simp add: xorfwd_loop_low)
  next
    case False
    then have "xorfwd_loop (Suc i) k ?x ! j = (?x ! j) XOR (xorfwd_loop (Suc i) k ?x ! (j - 4))"
      using "2.prems" by (intro "2.IH") auto
    then show ?thesis using False by simp
  qed
qed

lemma xorfwd_nth:
  "j < length x \<Longrightarrow> xorfwd x ! j = (if j < 4 then x ! j else (x ! j) XOR (xorfwd x ! (j - 4)))"
  using xorfwd_loop_low [of j 4 "length x - 4" x] xorfwd_loop_nth [of 4 "length x - 4" x j]
  by (auto simp: xorfwd_def)

lemma xorbkd_loop_nth:
  "k + 4 \<le> length x \<Longrightarrow> j < length x \<Longrightarrow>
     xorbkd_loop k x ! j = (if 4 \<le> j \<and> j < k + 4 then (x ! j) XOR (x ! (j - 4)) else x ! j)"
proof (induction k x rule: xorbkd_loop.induct)
  case (1 x)
  then show ?case by auto
next
  case (2 k x)
  then show ?case by (auto simp: nth_list_update)
qed

lemma xorbkd_nth:
  "j < length x \<Longrightarrow> xorbkd x ! j = (if j < 4 then x ! j else (x ! j) XOR (x ! (j - 4)))"
  using xorbkd_loop_nth [of "length x - 4" x j]
  by (cases "4 \<le> length x") (auto simp: xorbkd_def)

lemma xorbkd_xorfwd [simp]: "xorbkd (xorfwd x) = x"
proof (rule nth_equalityI)
  fix j assume "j < length (xorbkd (xorfwd x))"
  then have j: "j < length x" by simp
  show "xorbkd (xorfwd x) ! j = x ! j"
    using j xorfwd_nth [OF j] by (simp add: xorbkd_nth xor.assoc)
qed simp

lemma xorfwd_append: "take (length x) (xorfwd (x @ z)) = xorfwd x"
proof (rule nth_equalityI)
  fix j assume "j < length (take (length x) (xorfwd (x @ z)))"
  then have "j < length x" by simp
  then have "xorfwd (x @ z) ! j = xorfwd x ! j"
  proof (induction j rule: less_induct)
    case (less j)
    then show ?case
      using xorfwd_nth [of j "x @ z"] xorfwd_nth [of j x] by (simp add: nth_append)
  qed
  with \<open>j < length x\<close> show "take (length x) (xorfwd (x @ z)) ! j = xorfwd x ! j" by simp
qed simp

lemma xorbkd_append: "take (length x) (xorbkd (x @ z)) = xorbkd x"
  by (rule nth_equalityI) (auto simp: xorbkd_nth nth_append)

lemma padded_xorfwd [simp]: "padded xorfwd x = xorfwd x"
  by (simp add: padded_def Let_def xorfwd_append)

lemma padded_xorbkd [simp]: "padded xorbkd x = xorbkd x"
  by (simp add: padded_def Let_def xorbkd_append)

section \<open>The contract\<close>

lemma Seal_length: "length (SimpleAuthenticator_Seal n p ad) = length p + 6"
  by (simp add: SimpleAuthenticator_Seal_def authenticated_def Let_def)

lemma Open_Seal:
  assumes "length p \<le> 65535"
  shows "SimpleAuthenticator_Open n (SimpleAuthenticator_Seal n p ad) ad = Ok p"
proof -
  have "unat (word_of_nat (length p) :: uint16) = length p"
    using assms by (simp add: unat_of_nat take_bit_nat_eq_self)
  then show ?thesis
    by (simp add: SimpleAuthenticator_Open_def SimpleAuthenticator_Seal_def authenticated_def Let_def)
qed

interpretation simple_auth: aead SimpleAuthenticator 65535
  by unfold_locales (simp_all add: SimpleAuthenticator_def Open_Seal Seal_length)

lemma SealInto_roomy:
  assumes "4 * ((length plain + 9) div 4) \<le> room"
  shows "SimpleAuthenticator_SealInto room nonce plain extra = SimpleAuthenticator_Seal nonce plain extra"
proof -
  have len: "length (authenticated plain) = length plain + 6"
    by (simp add: authenticated_def Let_def)
  have "(length plain + 6) + (4 - (length plain + 6) mod 4) \<le> 4 * ((length plain + 9) div 4) \<or> (length plain + 6) mod 4 = 0"
    by presburger
  then show ?thesis
    using assms len by (auto simp: SimpleAuthenticator_SealInto_def Let_def)
qed

lemma SealInto_tight:
  assumes "room < 4 * ((length plain + 9) div 4)" and "length plain + 6 \<le> room"
  shows "SimpleAuthenticator_SealInto room nonce plain extra = authenticated plain"
proof -
  have len: "length (authenticated plain) = length plain + 6"
    by (simp add: authenticated_def Let_def)
  have "4 - (length plain + 6) mod 4 \<noteq> 4"
    using assms by presburger
  moreover have "4 * ((length plain + 9) div 4) \<le> (length plain + 6) + (4 - (length plain + 6) mod 4)"
    by presburger
  ultimately show ?thesis
    using assms len by (simp add: SimpleAuthenticator_SealInto_def Let_def)
qed

end
