(* ===== verification/Reflex_Morphing.thy ===== *)
theory Reflex_Morphing
  imports Complex_Main Prelude "HOL-Library.AList" "HOL-Library.Multiset" "HOL-Library.Log_Nat"
begin

text \<open>
  Traffic profiles and statistics of the Reflex inbound: the profile part of
  \<open>proxy/reflex/inbound/morphing.go\<close> and \<open>proxy/reflex/inbound/stats.go\<close>.

  A finite \<open>float64\<close> is a rational number. The Kolmogorov-Smirnov statistic rounds after every
  operation as IEEE 754 prescribes (\<open>float64\<close> below). The weights of the profiles are summed and divided
  without rounding; of the lemmas about them only the one on the sum of the weights depends on that. The value of \<open>rand.Float64()\<close> is an argument.
  Durations are nanoseconds as \<^typ>\<open>int\<close>. The order in which Go iterates over a map is the
  argument \<open>order\<close>, a function from the table to the sequence of its entries.
\<close>

section \<open>Profiles\<close>

record PacketSizeDist =
  psd_Size :: int
  psd_Weight :: rat

record DelayDist =
  dd_Delay :: int
  dd_Weight :: rat

record TrafficProfile =
  tp_Name :: string
  tp_PacketSizes :: "PacketSizeDist list"
  tp_Delays :: "DelayDist list"
  tp_nextPacketSize :: int
  tp_nextDelay :: int

definition psd :: "int \<Rightarrow> rat \<Rightarrow> PacketSizeDist" where
  "psd s w = \<lparr>psd_Size = s, psd_Weight = w\<rparr>"

definition dd :: "int \<Rightarrow> rat \<Rightarrow> DelayDist" where
  "dd d w = \<lparr>dd_Delay = d, dd_Weight = w\<rparr>"

definition ms :: "int \<Rightarrow> int" where "ms n = n * 1000000"

definition profile :: "string \<Rightarrow> PacketSizeDist list \<Rightarrow> DelayDist list \<Rightarrow> TrafficProfile" where
  "profile name sizes delays =
     \<lparr>tp_Name = name, tp_PacketSizes = sizes, tp_Delays = delays, tp_nextPacketSize = 0, tp_nextDelay = 0\<rparr>"

definition Profiles :: "(string \<times> TrafficProfile) list" where
  "Profiles =
     [(''youtube'', profile ''youtube''
         [psd 1400 (35/100), psd 1200 (25/100), psd 1000 (2/10), psd 800 (1/10), psd 600 (1/10)]
         [dd (ms 8) (30/100), dd (ms 12) (25/100), dd (ms 16) (20/100), dd (ms 20) (15/100), dd (ms 30) (10/100)]),
      (''zoom'', profile ''zoom''
         [psd 500 (30/100), psd 600 (40/100), psd 700 (30/100)]
         [dd (ms 30) (40/100), dd (ms 40) (40/100), dd (ms 50) (20/100)]),
      (''http2-api'', profile ''http2-api''
         [psd 200 (20/100), psd 500 (30/100), psd 1000 (30/100), psd 1400 (20/100)]
         [dd (ms 5) (30/100), dd (ms 10) (40/100), dd (ms 15) (30/100)]),
      (''mimic-http2-api'', profile ''mimic-http2-api''
         [psd 200 (20/100), psd 500 (30/100), psd 1000 (30/100), psd 1400 (20/100)]
         [dd (ms 5) (30/100), dd (ms 10) (40/100), dd (ms 15) (30/100)])]"

definition cloneProfile :: "TrafficProfile \<Rightarrow> TrafficProfile" where
  "cloneProfile p = profile (tp_Name p) (tp_PacketSizes p) (tp_Delays p)"

definition profileFromPolicy :: "string \<Rightarrow> TrafficProfile" where
  "profileFromPolicy policy =
     (case map_of Profiles policy of
        Some p \<Rightarrow> cloneProfile p
      | None \<Rightarrow> cloneProfile (the (map_of Profiles ''http2-api'')))"

section \<open>Picking sizes and delays\<close>

fun pickSize :: "rat \<Rightarrow> rat \<Rightarrow> PacketSizeDist list \<Rightarrow> int option" where
  "pickSize pick acc [] = None"
| "pickSize pick acc (d # ds) =
     (if pick \<le> acc + psd_Weight d then Some (psd_Size d) else pickSize pick (acc + psd_Weight d) ds)"

definition weightedPickSize :: "rat \<Rightarrow> PacketSizeDist list \<Rightarrow> int" where
  "weightedPickSize pick values =
     (if values = [] then 0
      else case pickSize pick 0 values of Some s \<Rightarrow> s | None \<Rightarrow> psd_Size (last values))"

fun pickDelay :: "rat \<Rightarrow> rat \<Rightarrow> DelayDist list \<Rightarrow> int option" where
  "pickDelay pick acc [] = None"
| "pickDelay pick acc (d # ds) =
     (if pick \<le> acc + dd_Weight d then Some (dd_Delay d) else pickDelay pick (acc + dd_Weight d) ds)"

definition weightedPickDelay :: "rat \<Rightarrow> DelayDist list \<Rightarrow> int" where
  "weightedPickDelay pick values =
     (if values = [] then 0
      else case pickDelay pick 0 values of Some s \<Rightarrow> s | None \<Rightarrow> dd_Delay (last values))"

definition GetPacketSize :: "rat \<Rightarrow> TrafficProfile \<Rightarrow> int \<times> TrafficProfile" where
  "GetPacketSize pick p =
     (if tp_nextPacketSize p > 0 then (tp_nextPacketSize p, p\<lparr>tp_nextPacketSize := 0\<rparr>)
      else (weightedPickSize pick (tp_PacketSizes p), p))"

definition GetDelay :: "rat \<Rightarrow> TrafficProfile \<Rightarrow> int \<times> TrafficProfile" where
  "GetDelay pick p =
     (if tp_nextDelay p > 0 then (tp_nextDelay p, p\<lparr>tp_nextDelay := 0\<rparr>)
      else (weightedPickDelay pick (tp_Delays p), p))"

definition SetNextPacketSize :: "int \<Rightarrow> TrafficProfile \<Rightarrow> TrafficProfile" where
  "SetNextPacketSize sz p = (if sz \<le> 0 then p else p\<lparr>tp_nextPacketSize := sz\<rparr>)"

definition SetNextDelay :: "int \<Rightarrow> TrafficProfile \<Rightarrow> TrafficProfile" where
  "SetNextDelay delay p = (if delay \<le> 0 then p else p\<lparr>tp_nextDelay := delay\<rparr>)"

section \<open>Profiles from observations\<close>

type_synonym freqTable = "(int \<times> nat) list"

definition countValue :: "int \<Rightarrow> freqTable \<Rightarrow> freqTable" where
  "countValue v freq = AList.update v (case map_of freq v of None \<Rightarrow> 1 | Some n \<Rightarrow> n + 1) freq"

fun countValues :: "int list \<Rightarrow> freqTable \<Rightarrow> freqTable" where
  "countValues [] freq = freq"
| "countValues (v # vs) freq = countValues vs (if v > 0 then countValue v freq else freq)"

definition calculateSizeDistribution :: "(freqTable \<Rightarrow> freqTable) \<Rightarrow> int list \<Rightarrow> PacketSizeDist list" where
  "calculateSizeDistribution order values =
     (let freq = order (countValues values []);
          total = sum_list (map snd freq);
          dist = map (\<lambda>(sz, count). psd sz (of_nat count / of_nat total)) freq in
      sort_key psd_Size dist)"

definition calculateDelayDistribution :: "(freqTable \<Rightarrow> freqTable) \<Rightarrow> int list \<Rightarrow> DelayDist list" where
  "calculateDelayDistribution order values =
     (let freq = order (countValues values []);
          total = sum_list (map snd freq);
          dist = map (\<lambda>(delay, count). dd delay (of_nat count / of_nat total)) freq in
      sort_key dd_Delay dist)"

definition CreateProfileFromObservations :: "(freqTable \<Rightarrow> freqTable) \<Rightarrow> string \<Rightarrow> int list \<Rightarrow> int list
    \<Rightarrow> TrafficProfile result" where
  "CreateProfileFromObservations order name packetSizes delays =
     (if length packetSizes = 0 \<or> length delays = 0 then Err (ErrMsg ''insufficient samples'')
      else Ok (profile name (calculateSizeDistribution order packetSizes) (calculateDelayDistribution order delays)))"

section \<open>The Kolmogorov-Smirnov statistic\<close>

text \<open>
  Rounding to \<open>float64\<close>, to nearest with ties to even: \<open>exponent x\<close> is the binary exponent of \<open>x\<close>, and 53 bits of
  the significand are kept. The numbers here are at most 1 and far above the subnormal range.
\<close>

definition exponent :: "rat \<Rightarrow> int" where
  "exponent x =
     (let (p, q) = quotient_of \<bar>x\<bar>; k = int (floorlog 2 (nat p)) - int (floorlog 2 (nat q)) in
      if \<bar>x\<bar> < 2 powi k then k - 1 else k)"

definition round_even :: "rat \<Rightarrow> int" where
  "round_even y = (let n = \<lfloor>y\<rfloor>; f = y - of_int n in if f < 1 / 2 \<or> f = 1 / 2 \<and> even n then n else n + 1)"

definition float64 :: "rat \<Rightarrow> rat" where
  "float64 x = (if x = 0 then 0 else let u = 2 powi (exponent x - 52) in of_int (round_even (x / u)) * u)"

text \<open>The value \<open>float64(i) / float64(n)\<close>, and the absolute difference of two such values.\<close>

definition cdf :: "nat \<Rightarrow> nat \<Rightarrow> rat" where
  "cdf i n = float64 (float64 (of_nat i) / float64 (of_nat n))"

definition ksDiff :: "nat \<Rightarrow> nat \<Rightarrow> nat \<Rightarrow> nat \<Rightarrow> rat" where
  "ksDiff n m i j = (let diff = float64 (cdf i n - cdf j m) in if diff < 0 then - diff else diff)"

text \<open>
  The three loops of \<open>KolmogorovSmirnovStatistic\<close> on what is left of the sorted samples: \<open>i\<close> and
  \<open>j\<close> count what was consumed, \<open>n\<close> and \<open>m\<close> are the sizes of the samples. Before the first value of a
  sample its function is 0, which is also \<open>cdf 0 n\<close>. Samples are finite numbers.
\<close>

fun ksMerge :: "nat \<Rightarrow> nat \<Rightarrow> rat list \<Rightarrow> rat list \<Rightarrow> nat \<Rightarrow> nat \<Rightarrow> rat \<Rightarrow> rat" where
  "ksMerge n m (x # xs) (y # ys) i j d =
     (if x \<le> y then
        let diff = ksDiff n m (i + 1) j in
        ksMerge n m xs (y # ys) (i + 1) j (if diff > d then diff else d)
      else
        let diff = ksDiff n m i (j + 1) in
        ksMerge n m (x # xs) ys i (j + 1) (if diff > d then diff else d))"
| "ksMerge n m (x # xs) [] i j d =
     (let diff = ksDiff n m (i + 1) j in
      ksMerge n m xs [] (i + 1) j (if diff > d then diff else d))"
| "ksMerge n m [] (y # ys) i j d =
     (let diff = ksDiff n m i (j + 1) in
      ksMerge n m [] ys i (j + 1) (if diff > d then diff else d))"
| "ksMerge n m [] [] i j d = d"

definition KolmogorovSmirnovStatistic :: "rat list \<Rightarrow> rat list \<Rightarrow> rat" where
  "KolmogorovSmirnovStatistic a b =
     (if a = [] \<or> b = [] then 1 else ksMerge (length a) (length b) (sort a) (sort b) 0 0 0)"

section \<open>A pick is one of the values\<close>

lemma pickSize_mem: "pickSize pick acc ds = Some s \<Longrightarrow> s \<in> psd_Size ` set ds"
  by (induction ds arbitrary: acc) (auto split: if_splits)

lemma pickDelay_mem: "pickDelay pick acc ds = Some s \<Longrightarrow> s \<in> dd_Delay ` set ds"
  by (induction ds arbitrary: acc) (auto split: if_splits)

lemma weightedPickSize_mem: "ds \<noteq> [] \<Longrightarrow> weightedPickSize pick ds \<in> psd_Size ` set ds"
  by (auto simp: weightedPickSize_def dest: pickSize_mem split: option.splits)

lemma weightedPickDelay_mem: "ds \<noteq> [] \<Longrightarrow> weightedPickDelay pick ds \<in> dd_Delay ` set ds"
  by (auto simp: weightedPickDelay_def dest: pickDelay_mem split: option.splits)

text \<open>A profile whose sizes and delays are usable; the built-in profiles are.\<close>

definition good_profile :: "TrafficProfile \<Rightarrow> bool" where
  "good_profile p \<longleftrightarrow> tp_PacketSizes p \<noteq> [] \<and> tp_Delays p \<noteq> []
     \<and> (\<forall>d\<in>set (tp_PacketSizes p). 0 < psd_Size d \<and> psd_Size d \<le> 65535)
     \<and> (\<forall>d\<in>set (tp_Delays p). 0 < dd_Delay d) \<and> tp_nextPacketSize p \<le> 65535"

lemma profileFromPolicy_good: "good_profile (profileFromPolicy policy)"
  by (auto simp: profileFromPolicy_def Profiles_def cloneProfile_def profile_def good_profile_def psd_def dd_def ms_def)

lemma GetPacketSize_good:
  assumes "good_profile p" and "GetPacketSize pick p = (sz, p')"
  shows "0 < sz" and "sz \<le> 65535" and "good_profile p'"
proof -
  have "weightedPickSize pick (tp_PacketSizes p) \<in> psd_Size ` set (tp_PacketSizes p)"
    using assms(1) by (intro weightedPickSize_mem) (simp add: good_profile_def)
  then show "0 < sz" and "sz \<le> 65535" and "good_profile p'"
    using assms by (auto simp: GetPacketSize_def good_profile_def split: if_splits)
qed

lemma GetDelay_good:
  assumes "good_profile p" and "GetDelay pick p = (d, p')"
  shows "0 < d" and "good_profile p'"
proof -
  have "weightedPickDelay pick (tp_Delays p) \<in> dd_Delay ` set (tp_Delays p)"
    using assms(1) by (intro weightedPickDelay_mem) (simp add: good_profile_def)
  then show "0 < d" and "good_profile p'"
    using assms by (auto simp: GetDelay_def good_profile_def split: if_splits)
qed

section \<open>The distribution of observed values\<close>

definition positives :: "int list \<Rightarrow> int list" where
  "positives vs = filter (\<lambda>v. v > 0) vs"

lemma countValue_map_of: "map_of (countValue v freq) =
   (map_of freq)(v \<mapsto> (case map_of freq v of None \<Rightarrow> 1 | Some n \<Rightarrow> n + 1))"
  by (simp add: countValue_def update_conv')

lemma countValues_spec:
  "distinct (map fst freq) \<Longrightarrow> distinct (map fst (countValues vs freq))
     \<and> (\<forall>v. map_of (countValues vs freq) v =
          (let k = (case map_of freq v of None \<Rightarrow> 0 | Some n \<Rightarrow> n) + count_list (positives vs) v in
           if v \<in> dom (map_of freq) \<or> v \<in> set (positives vs) then Some k else None))"
proof (induction vs arbitrary: freq)
  case Nil
  then show ?case by (auto simp: positives_def split: option.splits)
next
  case (Cons x vs)
  show ?case
  proof (cases "x > 0")
    case False
    then show ?thesis using Cons by (simp add: positives_def)
  next
    case True
    have d: "distinct (map fst (countValue x freq))"
      using Cons.prems by (simp add: countValue_def distinct_update)
    note ih = Cons.IH [OF d]
    show ?thesis
      using True ih by (auto simp: positives_def countValue_map_of Let_def split: option.splits)
  qed
qed

lemma countValues_table:
  shows "distinct (map fst (countValues vs []))"
    and "set (countValues vs []) = {(v, count_list (positives vs) v) | v. v \<in> set (positives vs)}"
proof -
  note sp = countValues_spec [of "[]" vs]
  show d: "distinct (map fst (countValues vs []))"
    using sp by simp
  show "set (countValues vs []) = {(v, count_list (positives vs) v) | v. v \<in> set (positives vs)}"
  proof (rule set_eqI)
    fix p :: "int \<times> nat"
    obtain v n where p: "p = (v, n)" by (rule prod.exhaust)
    have "(v, n) \<in> set (countValues vs []) \<longleftrightarrow> map_of (countValues vs []) v = Some n"
      using map_of_eq_Some_iff [OF d] by simp
    also have "\<dots> \<longleftrightarrow> v \<in> set (positives vs) \<and> n = count_list (positives vs) v"
      using sp by (auto simp: Let_def)
    finally show "p \<in> set (countValues vs []) \<longleftrightarrow> p \<in> {(v, count_list (positives vs) v) | v. v \<in> set (positives vs)}"
      using p by auto
  qed
qed

lemma sum_counts:
  assumes "distinct (map fst freq)" and "set freq = {(v, count_list xs v) | v. v \<in> set xs}"
  shows "sum_list (map snd freq) = length xs"
proof -
  have "sum_list (map snd freq) = (\<Sum>p\<in>set freq. snd p)"
    using assms(1) by (intro sum_list_distinct_conv_sum_set) (simp add: distinct_map)
  also have "set freq = (\<lambda>v. (v, count_list xs v)) ` set xs"
    using assms(2) by auto
  also have "(\<Sum>p\<in>\<dots>. snd p) = (\<Sum>v\<in>set xs. count_list xs v)"
    by (subst sum.reindex) (auto simp: inj_on_def)
  also have "\<dots> = length xs"
    by (rule sum_count_set) simp_all
  finally show ?thesis .
qed

lemma order_table:
  assumes "mset (order (countValues vs [])) = mset (countValues vs [])"
  shows "distinct (map fst (order (countValues vs [])))"
    and "set (order (countValues vs [])) = {(v, count_list (positives vs) v) | v. v \<in> set (positives vs)}"
    and "sum_list (map snd (order (countValues vs []))) = length (positives vs)"
proof -
  show d: "distinct (map fst (order (countValues vs [])))"
    using countValues_table(1) [of vs] assms by (metis mset_eq_imp_distinct_iff mset_map)
  show s: "set (order (countValues vs [])) = {(v, count_list (positives vs) v) | v. v \<in> set (positives vs)}"
    using countValues_table(2) [of vs] mset_eq_setD [OF assms] by simp
  show "sum_list (map snd (order (countValues vs []))) = length (positives vs)"
    by (rule sum_counts [OF d s])
qed

lemma sort_distribution:
  fixes mk :: "int \<Rightarrow> nat \<Rightarrow> 'a" and key :: "'a \<Rightarrow> int"
  assumes freq: "distinct (map fst freq)" "set freq = {(v, c v) | v. v \<in> S}" and key: "\<And>v n. key (mk v n) = v"
    and fin: "finite S"
  shows "sort_key key (map (\<lambda>(v, n). mk v n) freq) = map (\<lambda>v. mk v (c v)) (sorted_list_of_set S)"
proof (rule sort_key_inj_key_eq)
  let ?L = "map (\<lambda>(v, n). mk v n) freq" and ?R = "map (\<lambda>v. mk v (c v)) (sorted_list_of_set S)"
  have keys: "map key ?L = map fst freq"
    by (simp add: key comp_def split_def)
  have "distinct ?L"
    using freq(1) by (metis distinct_map keys)
  moreover have "distinct ?R"
    by (simp add: distinct_map inj_on_def) (metis key)
  moreover have "set ?L = set ?R"
    using freq(2) fin by (auto simp: image_iff)
  ultimately show "mset ?L = mset ?R"
    using set_eq_iff_mset_eq_distinct by blast
  show "inj_on key (set ?L)"
    using freq(1) by (metis distinct_map keys)
  show "sorted (map key ?R)"
    by (simp add: key comp_def)
qed

lemma calculateSizeDistribution_eq:
  assumes "mset (order (countValues vs [])) = mset (countValues vs [])"
  shows "calculateSizeDistribution order vs
     = map (\<lambda>v. psd v (of_nat (count_list (positives vs) v) / of_nat (length (positives vs))))
         (sorted_list_of_set (set (positives vs)))"
  using sort_distribution [OF order_table(1,2) [where order = order and vs = vs, OF assms], of psd_Size
      "\<lambda>v n. psd v (of_nat n / of_nat (length (positives vs)))"]
  by (simp add: calculateSizeDistribution_def Let_def order_table(3) [where order = order and vs = vs, OF assms] psd_def)

lemma calculateDelayDistribution_eq:
  assumes "mset (order (countValues vs [])) = mset (countValues vs [])"
  shows "calculateDelayDistribution order vs
     = map (\<lambda>v. dd v (of_nat (count_list (positives vs) v) / of_nat (length (positives vs))))
         (sorted_list_of_set (set (positives vs)))"
  using sort_distribution [OF order_table(1,2) [where order = order and vs = vs, OF assms], of dd_Delay
      "\<lambda>v n. dd v (of_nat n / of_nat (length (positives vs)))"]
  by (simp add: calculateDelayDistribution_def Let_def order_table(3) [where order = order and vs = vs, OF assms] dd_def)

lemma sum_weights:
  fixes xs :: "int list"
  assumes "xs \<noteq> []"
  shows "sum_list (map (\<lambda>v. of_nat (count_list xs v) / of_nat (length xs)) (sorted_list_of_set (set xs))) = (1 :: rat)"
proof -
  have "sum_list (map (\<lambda>v. of_nat (count_list xs v) / of_nat (length xs)) (sorted_list_of_set (set xs)))
      = (\<Sum>v\<in>set xs. of_nat (count_list xs v) / (of_nat (length xs) :: rat))"
    by (subst sum_list_distinct_conv_sum_set) simp_all
  also have "\<dots> = of_nat (\<Sum>v\<in>set xs. count_list xs v) / of_nat (length xs)"
    by (simp add: sum_divide_distrib)
  also have "(\<Sum>v\<in>set xs. count_list xs v) = length xs"
    by (rule sum_count_set) simp_all
  finally show ?thesis using assms by simp
qed

section \<open>What the statistic computes\<close>

definition ecdf :: "rat list \<Rightarrow> rat \<Rightarrow> rat" where
  "ecdf xs t = of_nat (length (filter (\<lambda>x. x \<le> t) xs)) / of_nat (length xs)"

definition ecdf_gap :: "rat list \<Rightarrow> rat list \<Rightarrow> rat \<Rightarrow> rat" where
  "ecdf_gap a b t = \<bar>ecdf a t - ecdf b t\<bar>"

lemma ecdf_sort: "ecdf (sort xs) t = ecdf xs t"
proof -
  have "mset (filter (\<lambda>x. x \<le> t) (sort xs)) = mset (filter (\<lambda>x. x \<le> t) xs)"
    by (simp add: mset_filter)
  then have "length (filter (\<lambda>x. x \<le> t) (sort xs)) = length (filter (\<lambda>x. x \<le> t) xs)"
    by (metis size_mset)
  then show ?thesis by (simp add: ecdf_def)
qed

lemma ecdf_split:
  assumes "\<forall>x\<in>set pre. x \<le> t" and "\<forall>x\<in>set post. t < x"
  shows "ecdf (pre @ post) t = of_nat (length pre) / of_nat (length (pre @ post))"
proof -
  have "filter (\<lambda>x. x \<le> t) pre = pre" using assms(1) by (simp add: filter_id_conv)
  moreover have "filter (\<lambda>x. x \<le> t) post = []" using assms(2) by (auto simp: filter_empty_conv not_le)
  ultimately show ?thesis by (simp add: ecdf_def)
qed

lemma Max_insert_max:
  fixes d e :: rat
  assumes "finite S"
  shows "Max (insert (if e > d then e else d) S) = Max (insert d (insert e S))"
proof (cases "S = {}")
  case False
  then show ?thesis using assms by (auto simp: max_def)
qed (auto simp: max_def)

text \<open>The merge without rounding.\<close>

fun ksExact :: "nat \<Rightarrow> nat \<Rightarrow> rat list \<Rightarrow> rat list \<Rightarrow> nat \<Rightarrow> nat \<Rightarrow> rat \<Rightarrow> rat" where
  "ksExact n m (x # xs) (y # ys) i j d =
     (if x \<le> y then
        let diff = \<bar>of_nat (i + 1) / of_nat n - of_nat j / of_nat m\<bar> in
        ksExact n m xs (y # ys) (i + 1) j (if diff > d then diff else d)
      else
        let diff = \<bar>of_nat i / of_nat n - of_nat (j + 1) / of_nat m\<bar> in
        ksExact n m (x # xs) ys i (j + 1) (if diff > d then diff else d))"
| "ksExact n m (x # xs) [] i j d =
     (let diff = \<bar>of_nat (i + 1) / of_nat n - of_nat j / of_nat m\<bar> in
      ksExact n m xs [] (i + 1) j (if diff > d then diff else d))"
| "ksExact n m [] (y # ys) i j d =
     (let diff = \<bar>of_nat i / of_nat n - of_nat (j + 1) / of_nat m\<bar> in
      ksExact n m [] ys i (j + 1) (if diff > d then diff else d))"
| "ksExact n m [] [] i j d = d"

definition ksExactStatistic :: "rat list \<Rightarrow> rat list \<Rightarrow> rat" where
  "ksExactStatistic a b =
     (if a = [] \<or> b = [] then 1 else ksExact (length a) (length b) (sort a) (sort b) 0 0 0)"

text \<open>
  The merge visits the values in order and sees, at each of them, the gap between the two
  distribution functions, provided that no value occurs twice.
\<close>

definition ks_ready :: "rat list \<Rightarrow> rat list \<Rightarrow> rat list \<Rightarrow> rat list \<Rightarrow> bool" where
  "ks_ready pa xs pb ys \<longleftrightarrow> sorted_wrt (<) (pa @ xs) \<and> sorted_wrt (<) (pb @ ys) \<and> set xs \<inter> set ys = {}
     \<and> (\<forall>u\<in>set pa. \<forall>v\<in>set ys. u < v) \<and> (\<forall>u\<in>set pb. \<forall>v\<in>set xs. u < v)"

lemma ks_ready_left:
  assumes "ks_ready pa (x # xs) pb ys" and "\<forall>v\<in>set ys. x < v"
  shows "ks_ready (pa @ [x]) xs pb ys"
    and "ecdf_gap (pa @ x # xs) (pb @ ys) x
      = \<bar>of_nat (length pa + 1) / of_nat (length (pa @ x # xs)) - of_nat (length pb) / of_nat (length (pb @ ys))\<bar>"
proof -
  show "ks_ready (pa @ [x]) xs pb ys"
    using assms by (auto simp: ks_ready_def sorted_wrt_append)
  have "ecdf ((pa @ [x]) @ xs) x = of_nat (length (pa @ [x])) / of_nat (length ((pa @ [x]) @ xs))"
    using assms(1) by (intro ecdf_split) (auto simp: ks_ready_def sorted_wrt_append)
  moreover have "ecdf (pb @ ys) x = of_nat (length pb) / of_nat (length (pb @ ys))"
    using assms by (intro ecdf_split) (auto simp: ks_ready_def)
  ultimately show "ecdf_gap (pa @ x # xs) (pb @ ys) x
      = \<bar>of_nat (length pa + 1) / of_nat (length (pa @ x # xs)) - of_nat (length pb) / of_nat (length (pb @ ys))\<bar>"
    by (simp add: ecdf_gap_def)
qed

lemma ks_ready_sym: "ks_ready pa xs pb ys \<Longrightarrow> ks_ready pb ys pa xs"
  by (auto simp: ks_ready_def)

lemma ecdf_gap_sym: "ecdf_gap a b t = ecdf_gap b a t"
  by (simp add: ecdf_gap_def abs_minus_commute)

lemma ks_ready_right:
  assumes "ks_ready pa xs pb (y # ys)" and "\<forall>v\<in>set xs. y < v"
  shows "ks_ready pa xs (pb @ [y]) ys"
    and "ecdf_gap (pa @ xs) (pb @ y # ys) y
      = \<bar>of_nat (length pa) / of_nat (length (pa @ xs)) - of_nat (length pb + 1) / of_nat (length (pb @ y # ys))\<bar>"
  using ks_ready_left [OF ks_ready_sym [OF assms(1)] assms(2)] ks_ready_sym ecdf_gap_sym [of "pa @ xs"]
  by (auto simp: abs_minus_commute)

lemma ksExact_gap:
  assumes "ks_ready pa xs pb ys" and "n = length (pa @ xs)" and "m = length (pb @ ys)"
    and "i = length pa" and "j = length pb"
  shows "ksExact n m xs ys i j d = Max (insert d (ecdf_gap (pa @ xs) (pb @ ys) ` (set xs \<union> set ys)))"
  using assms
proof (induction n m xs ys i j d arbitrary: pa pb rule: ksExact.induct)
  case (1 n m x xs y ys i j d)
  let ?g = "ecdf_gap (pa @ x # xs) (pb @ y # ys)"
  have ne: "x \<noteq> y" and sx: "\<forall>v\<in>set xs. x < v" and sy: "\<forall>v\<in>set ys. y < v"
    using "1.prems"(1) by (auto simp: ks_ready_def sorted_wrt_append)
  show ?case
  proof (cases "x \<le> y")
    case True
    then have "\<forall>v\<in>set (y # ys). x < v" using ne sy by (auto intro: order_less_trans)
    note r = ks_ready_left [OF "1.prems"(1) this]
    have diff: "\<bar>of_nat (i + 1) / of_nat n - of_nat j / of_nat m\<bar> = ?g x"
      unfolding r(2) using "1.prems"(2-5) by simp
    have "ksExact n m xs (y # ys) (i + 1) j (if ?g x > d then ?g x else d)
        = Max (insert (if ?g x > d then ?g x else d) (ecdf_gap ((pa @ [x]) @ xs) (pb @ y # ys) ` (set xs \<union> set (y # ys))))"
      by (rule "1.IH"(1) [OF True diff [symmetric] r(1)]) (use "1.prems"(2-5) in simp_all)
    also have "\<dots> = Max (insert d (?g ` (set (x # xs) \<union> set (y # ys))))"
      by (subst Max_insert_max, simp, rule arg_cong [of _ _ Max], auto)
    finally show ?thesis
      using True diff by (simp only: ksExact.simps Let_def if_True)
  next
    case False
    then have "\<forall>v\<in>set (x # xs). y < v" using sx by (auto intro: order_less_trans)
    note r = ks_ready_right [OF "1.prems"(1) this]
    have diff: "\<bar>of_nat i / of_nat n - of_nat (j + 1) / of_nat m\<bar> = ?g y"
      unfolding r(2) using "1.prems"(2-5) by simp
    have "ksExact n m (x # xs) ys i (j + 1) (if ?g y > d then ?g y else d)
        = Max (insert (if ?g y > d then ?g y else d) (ecdf_gap (pa @ x # xs) ((pb @ [y]) @ ys) ` (set (x # xs) \<union> set ys)))"
      by (rule "1.IH"(2) [OF False diff [symmetric] r(1)]) (use "1.prems"(2-5) in simp_all)
    also have "\<dots> = Max (insert d (?g ` (set (x # xs) \<union> set (y # ys))))"
      by (subst Max_insert_max, simp, rule arg_cong [of _ _ Max], auto)
    finally show ?thesis
      using False diff by (simp only: ksExact.simps Let_def if_False)
  qed
next
  case (2 n m x xs i j d)
  let ?g = "ecdf_gap (pa @ x # xs) (pb @ [])"
  note r = ks_ready_left [OF "2.prems"(1)]
  have diff: "\<bar>of_nat (i + 1) / of_nat n - of_nat j / of_nat m\<bar> = ?g x"
    using r(2) "2.prems"(2-5) by simp
  have "ksExact n m xs [] (i + 1) j (if ?g x > d then ?g x else d)
      = Max (insert (if ?g x > d then ?g x else d) (ecdf_gap ((pa @ [x]) @ xs) (pb @ []) ` (set xs \<union> set [])))"
    by (rule "2.IH" [OF diff [symmetric] r(1)]) (use "2.prems"(2-5) in simp_all)
  also have "\<dots> = Max (insert d (?g ` (set (x # xs) \<union> set [])))"
    by (subst Max_insert_max, simp, rule arg_cong [of _ _ Max], auto)
  finally show ?case
    using diff by (simp only: ksExact.simps Let_def)
next
  case (3 n m y ys i j d)
  let ?g = "ecdf_gap (pa @ []) (pb @ y # ys)"
  note r = ks_ready_right [OF "3.prems"(1)]
  have diff: "\<bar>of_nat i / of_nat n - of_nat (j + 1) / of_nat m\<bar> = ?g y"
    using r(2) "3.prems"(2-5) by simp
  have "ksExact n m [] ys i (j + 1) (if ?g y > d then ?g y else d)
      = Max (insert (if ?g y > d then ?g y else d) (ecdf_gap (pa @ []) ((pb @ [y]) @ ys) ` (set [] \<union> set ys)))"
    by (rule "3.IH" [OF diff [symmetric] r(1)]) (use "3.prems"(2-5) in simp_all)
  also have "\<dots> = Max (insert d (?g ` (set [] \<union> set (y # ys))))"
    by (subst Max_insert_max, simp, rule arg_cong [of _ _ Max], auto)
  finally show ?case
    using diff by (simp only: ksExact.simps Let_def)
next
  case (4 n m i j d)
  then show ?case by simp
qed

lemma sorted_distinct_strict: "distinct (xs :: rat list) \<Longrightarrow> sorted_wrt (<) (sort xs)"
  by (simp add: strict_sorted_iff)

lemma ks_value:
  assumes "a \<noteq> []" and "b \<noteq> []" and "distinct (a @ b)"
  shows "ksExactStatistic a b = Max (ecdf_gap a b ` (set a \<union> set b))"
proof -
  let ?S = "ecdf_gap a b ` (set a \<union> set b)"
  have "ks_ready [] (sort a) [] (sort b)"
    using assms(3) by (auto simp: ks_ready_def sorted_distinct_strict)
  then have "ksExact (length a) (length b) (sort a) (sort b) 0 0 0
      = Max (insert 0 (ecdf_gap (sort a) (sort b) ` (set (sort a) \<union> set (sort b))))"
    by (subst ksExact_gap [of "[]" _ "[]"]) simp_all
  also have "ecdf_gap (sort a) (sort b) ` (set (sort a) \<union> set (sort b)) = ?S"
    by (simp add: ecdf_gap_def ecdf_sort)
  also have "Max (insert 0 ?S) = max 0 (Max ?S)"
    using assms(1) by (intro Max_insert) auto
  also have "\<dots> = Max ?S"
  proof -
    obtain x where "x \<in> ?S" using assms(1) by (metis equals0I image_is_empty set_empty sup_eq_bot_iff)
    moreover have "0 \<le> x" using \<open>x \<in> ?S\<close> by (auto simp: ecdf_gap_def)
    ultimately have "0 \<le> Max ?S" by (meson Max_ge List.finite_set finite_UnI finite_imageI order_trans)
    then show ?thesis by simp
  qed
  finally show ?thesis using assms(1,2) by (simp add: ksExactStatistic_def)
qed

section \<open>Rounding\<close>

lemma round_even_error: "\<bar>of_int (round_even y) - y\<bar> \<le> 1 / 2"
proof -
  have "of_int \<lfloor>y\<rfloor> \<le> y" "y < of_int \<lfloor>y\<rfloor> + 1" by linarith+
  then show ?thesis by (auto simp: round_even_def Let_def)
qed

lemma round_even_int: "round_even (of_int k) = k"
  by (simp add: round_even_def)

lemma exponent_le:
  assumes "x \<noteq> 0"
  shows "2 powi exponent x \<le> \<bar>x\<bar>"
proof -
  obtain p q where pq: "quotient_of \<bar>x\<bar> = (p, q)" by fastforce
  have q: "0 < q" using quotient_of_denom_pos [OF pq] .
  have x: "\<bar>x\<bar> = of_int p / of_int q" using quotient_of_div [OF pq] .
  have "0 < of_int p / (of_int q :: rat)" using assms x [symmetric] by simp
  then have p: "0 < p" using q by (simp add: zero_less_divide_iff)
  define a b where "a = floorlog 2 (nat p)" and "b = floorlog 2 (nat q)"
  have ab: "0 < a" "0 < b" using p q by (simp_all add: a_def b_def floorlog_def)
  have "2 ^ (a - 1) \<le> nat p" "nat q < 2 ^ b"
    using p q floorlog_bounds [of "nat p" 2] floorlog_bounds [of "nat q" 2] by (simp_all add: a_def b_def)
  then have "2 ^ (a - 1) \<le> p" "q \<le> 2 ^ b" using p q by (simp_all add: nat_less_iff le_nat_iff)
  then have bounds: "2 ^ (a - 1) \<le> (of_int p :: rat)" "(of_int q :: rat) \<le> 2 ^ b"
    using of_int_le_iff [where ?'a = rat, of "2 ^ (a - 1)" p] of_int_le_iff [where ?'a = rat, of q "2 ^ b"] by simp_all
  have "2 powi (int a - int b - 1) = 2 ^ (a - 1) / (2 :: rat) ^ b"
    using ab(1) by (simp add: power_int_diff power_diff)
  also have "\<dots> \<le> of_int p / of_int q"
    using bounds p q by (intro frac_le) simp_all
  finally have "2 powi (int a - int b - 1) \<le> \<bar>x\<bar>" using x by simp
  then show ?thesis by (simp add: exponent_def pq Let_def a_def b_def)
qed

lemma float64_error: "\<bar>float64 x - x\<bar> \<le> \<bar>x\<bar> / 2 ^ 53"
proof (cases "x = 0")
  case False
  define u where "u = (2 :: rat) powi (exponent x - 52)"
  have u: "0 < u" by (simp add: u_def)
  have "float64 x - x = (of_int (round_even (x / u)) - x / u) * u"
    using False u by (simp add: float64_def u_def [symmetric] Let_def algebra_simps)
  then have "\<bar>float64 x - x\<bar> = \<bar>of_int (round_even (x / u)) - x / u\<bar> * u"
    using u by (simp add: abs_mult)
  also have "\<dots> \<le> 1 / 2 * u"
    using round_even_error u by (intro mult_right_mono) simp_all
  also have "u = 2 powi exponent x / 2 ^ 52"
    by (simp add: u_def power_int_diff)
  also have "1 / 2 * (2 powi exponent x / 2 ^ 52) \<le> \<bar>x\<bar> / 2 ^ 53"
    using exponent_le [OF False] by simp
  finally show ?thesis .
qed (simp add: float64_def)

lemma exponent_nat:
  assumes "k < 2 ^ 53" "0 < k"
  shows "exponent (of_nat k) \<le> 52"
proof -
  have "quotient_of \<bar>of_nat k\<bar> = (int k, 1)"
    by (simp add: quotient_of_int [of "int k", simplified])
  moreover have "floorlog 2 k \<le> 53" using assms by (simp add: floorlog_leI)
  moreover have "floorlog 2 1 = 1" by (simp add: floorlog_def)
  ultimately show ?thesis by (simp add: exponent_def Let_def)
qed

lemma float64_nat:
  assumes "k < 2 ^ 53"
  shows "float64 (of_nat k) = of_nat k"
proof (cases "k = 0")
  case False
  define e where "e = nat (52 - exponent (of_nat k))"
  have u: "2 powi (exponent (of_nat k) - 52) = 1 / (2 :: rat) ^ e"
    using exponent_nat [OF assms] False by (auto simp: e_def power_int_def inverse_eq_divide power_one_over)
  have "of_nat k / (1 / 2 ^ e) = (of_int (int k * 2 ^ e) :: rat)" by simp
  then have "round_even (of_nat k / (1 / 2 ^ e)) = int k * 2 ^ e"
    by (simp only: round_even_int)
  then show ?thesis
    unfolding float64_def Let_def u using False by simp
qed (simp add: float64_def)

lemma cdf_error:
  assumes "i \<le> n" and "0 < n" and "n < 2 ^ 53"
  shows "\<bar>cdf i n - of_nat i / of_nat n\<bar> \<le> 1 / 2 ^ 53"
proof -
  have "cdf i n = float64 (of_nat i / of_nat n)"
    using assms by (simp add: cdf_def float64_nat)
  moreover have "0 \<le> of_nat i / (of_nat n :: rat)" "of_nat i / (of_nat n :: rat) \<le> 1"
    using assms by (simp_all add: divide_le_eq_1)
  ultimately show ?thesis
    using float64_error [of "of_nat i / of_nat n"] by simp
qed

lemma ksDiff_error:
  assumes "i \<le> n" "0 < n" "n < 2 ^ 53" and "j \<le> m" "0 < m" "m < 2 ^ 53"
  shows "\<bar>ksDiff n m i j - \<bar>of_nat i / of_nat n - of_nat j / of_nat m\<bar>\<bar> \<le> 1 / 2 ^ 51"
proof -
  let ?x = "of_nat i / of_nat n :: rat" and ?y = "of_nat j / of_nat m :: rat" and ?c = "cdf i n - cdf j m"
  have xy: "0 \<le> ?x" "?x \<le> 1" "0 \<le> ?y" "?y \<le> 1"
    using assms by (simp_all add: divide_le_eq_1)
  define u :: rat where "u = 1 / 2 ^ 53"
  have u: "0 \<le> u" "u \<le> 1 / 4"
    by (simp_all add: u_def)
  have "\<bar>cdf i n - ?x\<bar> \<le> u" "\<bar>cdf j m - ?y\<bar> \<le> u"
    using cdf_error [OF assms(1-3)] cdf_error [OF assms(4-6)] by (simp_all only: u_def)
  then have c: "\<bar>?c - (?x - ?y)\<bar> \<le> 2 * u"
    by linarith
  then have "\<bar>?c\<bar> \<le> 2"
    using xy u by linarith
  then have "\<bar>?c\<bar> * u \<le> 2 * u"
    using u(1) by (rule mult_right_mono)
  moreover have "\<bar>float64 ?c - ?c\<bar> \<le> \<bar>?c\<bar> * u"
    using float64_error [of ?c] by (simp add: u_def)
  ultimately have "\<bar>float64 ?c - (?x - ?y)\<bar> \<le> 4 * u"
    using c by linarith
  moreover have "4 * u = 1 / 2 ^ 51"
    by (simp add: u_def)
  moreover have "ksDiff n m i j = \<bar>float64 ?c\<bar>"
    by (simp add: ksDiff_def Let_def)
  ultimately show ?thesis
    using abs_triangle_ineq3 [of "float64 ?c" "?x - ?y"] by linarith
qed

lemma max_close: "\<bar>d - d'\<bar> \<le> u \<Longrightarrow> \<bar>e - e'\<bar> \<le> u \<Longrightarrow> \<bar>(if e > d then e else d) - (if e' > d' then e' else d')\<bar> \<le> u"
  for d :: rat
  by (auto simp: abs_le_iff)

lemma ksMerge_close:
  assumes "i + length xs = n" "j + length ys = m" "0 < n" "n < 2 ^ 53" "0 < m" "m < 2 ^ 53" "\<bar>d - d'\<bar> \<le> 1 / 2 ^ 51"
  shows "\<bar>ksMerge n m xs ys i j d - ksExact n m xs ys i j d'\<bar> \<le> 1 / 2 ^ 51"
  using assms
proof (induction n m xs ys i j d arbitrary: d' rule: ksMerge.induct)
  case (1 n m x xs y ys i j d)
  show ?case
  proof (cases "x \<le> y")
    case True
    have "\<bar>ksDiff n m (i + 1) j - \<bar>of_nat (i + 1) / of_nat n - of_nat j / of_nat m\<bar>\<bar> \<le> 1 / 2 ^ 51"
      by (rule ksDiff_error) (use "1.prems" in simp_all)
    then show ?thesis
      unfolding ksMerge.simps ksExact.simps Let_def if_P [OF True]
      by (intro "1.IH"(1) [OF True refl] max_close "1.prems"(7)) (use "1.prems" in simp_all)
  next
    case False
    have "\<bar>ksDiff n m i (j + 1) - \<bar>of_nat i / of_nat n - of_nat (j + 1) / of_nat m\<bar>\<bar> \<le> 1 / 2 ^ 51"
      by (rule ksDiff_error) (use "1.prems" in simp_all)
    then show ?thesis
      unfolding ksMerge.simps ksExact.simps Let_def if_not_P [OF False]
      by (intro "1.IH"(2) [OF False refl] max_close "1.prems"(7)) (use "1.prems" in simp_all)
  qed
next
  case (2 n m x xs i j d)
  have "\<bar>ksDiff n m (i + 1) j - \<bar>of_nat (i + 1) / of_nat n - of_nat j / of_nat m\<bar>\<bar> \<le> 1 / 2 ^ 51"
    by (rule ksDiff_error) (use "2.prems" in simp_all)
  then show ?case
    unfolding ksMerge.simps ksExact.simps Let_def
    by (intro "2.IH" [OF refl] max_close "2.prems"(7)) (use "2.prems" in simp_all)
next
  case (3 n m y ys i j d)
  have "\<bar>ksDiff n m i (j + 1) - \<bar>of_nat i / of_nat n - of_nat (j + 1) / of_nat m\<bar>\<bar> \<le> 1 / 2 ^ 51"
    by (rule ksDiff_error) (use "3.prems" in simp_all)
  then show ?case
    unfolding ksMerge.simps ksExact.simps Let_def
    by (intro "3.IH" [OF refl] max_close "3.prems"(7)) (use "3.prems" in simp_all)
qed simp

text \<open>On equal values the merge advances one sample at a time, so equal samples are far apart.\<close>

lemma ks_equal_samples: "KolmogorovSmirnovStatistic [1] [1] = 1" and "ecdf_gap [1] [1] t = 0"
  by code_simp (simp add: ecdf_gap_def)

section \<open>Properties\<close>

text \<open>
  C28. The merge over the sorted samples computes the Kolmogorov-Smirnov statistic up to rounding: when no
  value occurs twice and the samples have fewer than \<open>2 ^ 53\<close> values, the result, computed in
  \<open>float64\<close>, differs by at most \<open>1 / 2 ^ 51\<close> from the largest distance between the two empirical distribution
  functions.
\<close>

theorem ks_is_maximal_gap:
  assumes "a \<noteq> []" and "b \<noteq> []" and "distinct (a @ b)" and "length a < 2 ^ 53" and "length b < 2 ^ 53"
  shows "\<bar>KolmogorovSmirnovStatistic a b - Max (ecdf_gap a b ` (set a \<union> set b))\<bar> \<le> 1 / 2 ^ 51"
proof -
  have "\<bar>KolmogorovSmirnovStatistic a b - ksExactStatistic a b\<bar> \<le> 1 / 2 ^ 51"
    unfolding KolmogorovSmirnovStatistic_def ksExactStatistic_def
    using ksMerge_close [of 0 "sort a" "length a" 0 "sort b" "length b" 0 0] assms by simp
  then show ?thesis
    unfolding ks_value [OF assms(1-3)] .
qed

theorem ks_is_maximal_gap_witness:
  "\<bar>KolmogorovSmirnovStatistic [1, 3, 5] [2, 4] - Max (ecdf_gap [1, 3, 5] [2, 4] ` {1, 2, 3, 4, 5})\<bar> \<le> 1 / 2 ^ 51"
proof -
  have eq: "{1, 2, 3, 4, 5 :: rat} = set [1, 3, 5] \<union> set [2, 4]"
    by auto
  show ?thesis
    unfolding eq by (rule ks_is_maximal_gap) simp_all
qed

text \<open>
  A profile learnt from observations is a distribution: it lists each positive observed size
  once, in increasing order, with its relative frequency, and the weights sum to one; the order in
  which Go iterates over the frequency map has no influence.
\<close>

theorem observed_distribution:
  assumes "mset (order (countValues vs [])) = mset (countValues vs [])" and "positives vs \<noteq> []"
  shows "calculateSizeDistribution order vs
      = map (\<lambda>v. psd v (of_nat (count_list (positives vs) v) / of_nat (length (positives vs))))
          (sorted_list_of_set (set (positives vs)))
    \<and> sum_list (map psd_Weight (calculateSizeDistribution order vs)) = 1"
  using calculateSizeDistribution_eq [of order vs, OF assms(1)] sum_weights [OF assms(2)] by (simp add: comp_def psd_def)

theorem observed_distribution_witness:
  "sum_list (map psd_Weight (calculateSizeDistribution rev [1400, 200, 1400])) = 1"
  by (rule conjunct2 [OF observed_distribution]) (simp_all add: positives_def)

text \<open>
  Whatever policy name the server grants, the profile chosen for it yields packet sizes between
  1 and 65535 and positive delays for every random draw, and stays such a profile.
\<close>

theorem policy_profile_sizes:
  assumes "GetPacketSize x (profileFromPolicy policy) = (sz, p)" and "GetDelay y p = (delay, p')"
  shows "0 < sz \<and> sz \<le> 65535 \<and> 0 < delay \<and> good_profile p'"
  using GetPacketSize_good [OF profileFromPolicy_good assms(1)] GetDelay_good [OF _ assms(2)] by blast

theorem policy_profile_sizes_witness:
  "\<exists>sz p delay p'. GetPacketSize (1 / 2) (profileFromPolicy ''zoom'') = (sz, p) \<and> GetDelay (1 / 3) p = (delay, p') \<and> 0 < sz"
proof -
  obtain sz p where g: "GetPacketSize (1 / 2) (profileFromPolicy ''zoom'') = (sz, p)"
    by (rule prod.exhaust)
  obtain delay p' where d: "GetDelay (1 / 3) p = (delay, p')"
    by (rule prod.exhaust)
  from policy_profile_sizes [OF g d] g d show ?thesis by blast
qed

end
