(* ===== verification/Reflex_Session.thy ===== *)
theory Reflex_Session
  imports Reflex_Morphing Buf Aead Net_Address
begin

text \<open>
  Reflex sessions: the frame layer of \<open>proxy/reflex/inbound/session.go\<close> and the control frames of
  \<open>morphing.go\<close>.

  The AEAD is the record of its methods; SHA-256 is the argument \<open>sha256\<close> and the value of the
  \<open>k\<close>-th call of \<open>rand.Float64\<close> is \<open>rnd k\<close>. An \<open>io.Writer\<close> is a function from its state and the
  bytes to an error and the new state. The upstream link is a type \<open>'l\<close> with its operations as
  arguments. \<open>poll k\<close> is what the non-blocking receive on \<open>upstreamErr\<close> finds in the \<open>k\<close>-th pass of
  the session loop.
\<close>

section \<open>Frames\<close>

definition FrameTypeData :: byte where "FrameTypeData = 0x01"
definition FrameTypePadding :: byte where "FrameTypePadding = 0x02"
definition FrameTypeTiming :: byte where "FrameTypeTiming = 0x03"
definition FrameTypeClose :: byte where "FrameTypeClose = 0x04"
definition maxFramePayloadSize :: nat where "maxFramePayloadSize = 65535"
definition replayWindowSize :: nat where "replayWindowSize = 1000"

record Frame =
  fr_Length :: uint16
  fr_Type :: byte
  fr_Payload :: bytes

record Session =
  se_aead :: cipherAEAD
  se_readNonce :: uint64
  se_writeNonce :: uint64
  se_profile :: "TrafficProfile option"
  se_replaySeen :: "bytes set"
  se_replayOrder :: "bytes list"

definition NewSession :: "(bytes \<Rightarrow> cipherAEAD result) \<Rightarrow> bytes \<Rightarrow> Session result" where
  "NewSession newAEAD sessionKey =
     (case newAEAD sessionKey of
        Inl e \<Rightarrow> Err e
      | Inr a \<Rightarrow> Ok \<lparr>se_aead = a, se_readNonce = 0, se_writeNonce = 0, se_profile = None,
                    se_replaySeen = {}, se_replayOrder = []\<rparr>)"

definition SetTrafficProfile :: "TrafficProfile \<Rightarrow> Session \<Rightarrow> Session" where
  "SetTrafficProfile p s = s\<lparr>se_profile := Some p\<rparr>"

text \<open>\<open>chacha20poly1305.NonceSize\<close> is 12.\<close>

definition makeNonce :: "uint64 \<Rightarrow> bytes" where
  "makeNonce counter = replicate 4 0 @ be_bytes 8 counter"

definition rememberCiphertext :: "(bytes \<Rightarrow> bytes) \<Rightarrow> bytes \<Rightarrow> Session \<Rightarrow> bool \<times> Session" where
  "rememberCiphertext sha256 ciphertext s =
     (let h = sha256 ciphertext in
      if h \<in> se_replaySeen s then (False, s)
      else
        let s1 = s\<lparr>se_replaySeen := insert h (se_replaySeen s), se_replayOrder := se_replayOrder s @ [h]\<rparr> in
        (True,
         if length (se_replayOrder s1) > replayWindowSize
         then s1\<lparr>se_replaySeen := se_replaySeen s1 - {hd (se_replayOrder s1)},
                 se_replayOrder := tl (se_replayOrder s1)\<rparr>
         else s1))"

definition ReadFrame :: "(bytes \<Rightarrow> bytes) \<Rightarrow> Session \<Rightarrow> stream \<Rightarrow> Frame result \<times> Session \<times> stream" where
  "ReadFrame sha256 s reader =
     (case read_full 3 reader of
        (Inl e, r1) \<Rightarrow> (Err e, s, r1)
      | (Inr header, r1) \<Rightarrow>
          (let len = be_val (take 2 header) :: uint16; frameType = header ! 2 in
           if len = 0 \<or> unat len > maxFramePayloadSize
           then (Err (ErrMsg ''invalid reflex frame length''), s, r1)
           else
             (case read_full (unat len) r1 of
                (Inl e, r2) \<Rightarrow> (Err e, s, r2)
              | (Inr encryptedPayload, r2) \<Rightarrow>
                  (let (fresh, s1) = rememberCiphertext sha256 encryptedPayload s in
                   if \<not> fresh then (Err (ErrMsg ''replay detected''), s1, r2)
                   else
                     let nonce = makeNonce (se_readNonce s1);
                         s2 = s1\<lparr>se_readNonce := se_readNonce s1 + 1\<rparr> in
                     case Open (se_aead s2) nonce encryptedPayload [] of
                       Inl e \<Rightarrow> (Err e, s2, r2)
                     | Inr payload \<Rightarrow>
                         (Ok \<lparr>fr_Length = len, fr_Type = frameType, fr_Payload = payload\<rparr>, s2, r2)))))"

type_synonym 'w writer = "'w \<Rightarrow> bytes \<Rightarrow> goerror option \<times> 'w"

definition WriteFrame :: "'w writer \<Rightarrow> byte \<Rightarrow> bytes \<Rightarrow> Session \<Rightarrow> 'w \<Rightarrow> goerror option \<times> Session \<times> 'w" where
  "WriteFrame wr frameType d s w =
     (let nonce = makeNonce (se_writeNonce s);
          s1 = s\<lparr>se_writeNonce := se_writeNonce s + 1\<rparr>;
          encrypted = Seal (se_aead s1) nonce d [] in
      if length encrypted > maxFramePayloadSize then (Some (ErrMsg ''frame too large''), s1, w)
      else
        (case wr w (be_bytes 2 (word_of_nat (length encrypted) :: uint16) @ [frameType]) of
           (Some e, w1) \<Rightarrow> (Some e, s1, w1)
         | (None, w1) \<Rightarrow>
             (case wr w1 encrypted of
                (Some e, w2) \<Rightarrow> (Some e, s1, w2)
              | (None, w2) \<Rightarrow> (None, s1, w2))))"

section \<open>Control frames\<close>

text \<open>Go's \<open>int64\<close>: arithmetic modulo \<open>2 ^ 64\<close>, read as a signed number.\<close>

definition i64 :: "int \<Rightarrow> int" where
  "i64 x = sint (word_of_int x :: uint64)"

definition SendPaddingControl :: "'w writer \<Rightarrow> int \<Rightarrow> Session \<Rightarrow> 'w \<Rightarrow> goerror option \<times> Session \<times> 'w" where
  "SendPaddingControl wr targetSize s w =
     (if targetSize \<le> 0 \<or> targetSize > 65535 then (Some (ErrMsg ''invalid target size''), s, w)
      else WriteFrame wr FrameTypePadding (be_bytes 2 (word_of_int targetSize :: uint16)) s w)"

definition SendTimingControl :: "'w writer \<Rightarrow> int \<Rightarrow> Session \<Rightarrow> 'w \<Rightarrow> goerror option \<times> Session \<times> 'w" where
  "SendTimingControl wr delay s w =
     (if delay \<le> 0 then (Some (ErrMsg ''invalid delay''), s, w)
      else WriteFrame wr FrameTypeTiming (be_bytes 8 (word_of_int (delay div 1000000) :: uint64)) s w)"

definition HandleControlFrame :: "Frame \<Rightarrow> Session \<Rightarrow> goerror option \<times> Session" where
  "HandleControlFrame frame s =
     (case se_profile s of
        None \<Rightarrow> (None, s)
      | Some p \<Rightarrow>
          (if fr_Type frame = FrameTypePadding then
             (if length (fr_Payload frame) \<noteq> 2 then (Some (ErrMsg ''invalid padding control payload''), s)
              else (None, s\<lparr>se_profile := Some (SetNextPacketSize (int (unat (be_val (fr_Payload frame) :: uint16))) p)\<rparr>))
           else if fr_Type frame = FrameTypeTiming then
             (if length (fr_Payload frame) \<noteq> 8 then (Some (ErrMsg ''invalid timing control payload''), s)
              else (None, s\<lparr>se_profile := Some (SetNextDelay
                       (i64 (sint (be_val (fr_Payload frame) :: uint64) * 1000000)) p)\<rparr>))
           else (None, s)))"

section \<open>Morphing\<close>

text \<open>
  The loop of \<open>WriteFrameWithMorphing\<close>. The profile is a pointer of the session: it is passed
  along with the session and stored back at the end.
\<close>

function morphLoop :: "'w writer \<Rightarrow> (nat \<Rightarrow> rat) \<Rightarrow> nat \<Rightarrow> bytes \<Rightarrow> TrafficProfile \<Rightarrow> Session \<Rightarrow> 'w
    \<Rightarrow> goerror option \<times> TrafficProfile \<times> Session \<times> 'w" where
  "morphLoop wr rnd k remaining p s w =
     (if remaining = [] then (None, p, s, w)
      else
        let (picked, p1) = GetPacketSize (rnd (2 * k)) p;
            targetSize = (if picked \<le> 0 then int (length remaining) else picked);
            chunkSize = (if int (length remaining) > targetSize then nat targetSize else length remaining) in
        case WriteFrame wr FrameTypeData (take chunkSize remaining) s w of
          (Some e, s1, w1) \<Rightarrow> (Some e, p1, s1, w1)
        | (None, s1, w1) \<Rightarrow>
            (case SendPaddingControl wr targetSize s1 w1 of
               (Some e, s2, w2) \<Rightarrow> (Some e, p1, s2, w2)
             | (None, s2, w2) \<Rightarrow>
                 (let (delay, p2) = GetDelay (rnd (2 * k + 1)) p1 in
                  if delay > 0 then
                    (case SendTimingControl wr delay s2 w2 of
                       (Some e, s3, w3) \<Rightarrow> (Some e, p2, s3, w3)
                     | (None, s3, w3) \<Rightarrow> morphLoop wr rnd (k + 1) (drop chunkSize remaining) p2 s3 w3)
                  else morphLoop wr rnd (k + 1) (drop chunkSize remaining) p2 s2 w2)))"
  by pat_completeness auto
termination
  by (relation "measure (\<lambda>(wr, rnd, k, remaining, p, s, w). length remaining)") auto

declare morphLoop.simps [simp del]

definition WriteFrameWithMorphing :: "'w writer \<Rightarrow> (nat \<Rightarrow> rat) \<Rightarrow> byte \<Rightarrow> bytes \<Rightarrow> Session \<Rightarrow> 'w
    \<Rightarrow> goerror option \<times> Session \<times> 'w" where
  "WriteFrameWithMorphing wr rnd frameType d s w =
     (case se_profile s of
        None \<Rightarrow> WriteFrame wr frameType d s w
      | Some p \<Rightarrow>
          (if frameType \<noteq> FrameTypeData then WriteFrame wr frameType d s w
           else let (e, p', s', w') = morphLoop wr rnd 0 d p s w in (e, s'\<lparr>se_profile := Some p'\<rparr>, w')))"

section \<open>The session loop\<close>

definition parseDestination :: "bytes \<Rightarrow> (Destination \<times> bytes) result" where
  "parseDestination d =
     (if length d < 3 then Err (ErrMsg ''data frame too short'')
      else
        let addrLen = unat (d ! 0) in
        if length d < 1 + addrLen + 2 then Err (ErrMsg ''data frame missing destination'')
        else
          let addr = ParseAddress (bytes_str (take addrLen (drop 1 d)));
              port = be_val (take 2 (drop (1 + addrLen) d)) :: uint16 in
          Ok (TCPDestination addr port, drop (1 + addrLen + 2) d))"

definition writeUpstream :: "('l \<Rightarrow> MultiBuffer \<Rightarrow> goerror option \<times> 'l) \<Rightarrow> 'l \<Rightarrow> bytes \<Rightarrow> goerror option \<times> 'l" where
  "writeUpstream linkWrite link payload =
     (if payload = [] then (None, link) else linkWrite link [FromBytes payload])"

fun forwardBuffers :: "'w writer \<Rightarrow> (nat \<Rightarrow> nat \<Rightarrow> rat) \<Rightarrow> nat \<Rightarrow> MultiBuffer \<Rightarrow> Session \<Rightarrow> 'w
    \<Rightarrow> goerror option \<times> Session \<times> 'w" where
  "forwardBuffers wr rnd i [] s w = (None, s, w)"
| "forwardBuffers wr rnd i (b # mb) s w =
     (case Bytes b of
        Inl e \<Rightarrow> (Some e, s, w)
      | Inr d \<Rightarrow>
          (case WriteFrameWithMorphing wr (rnd i) FrameTypeData d s w of
             (Some e, s', w') \<Rightarrow> (Some e, s', w')
           | (None, s', w') \<Rightarrow> forwardBuffers wr rnd (i + 1) mb s' w'))"

text \<open>
  \<open>forwardUpstreamToClient\<close> on what \<open>link.Reader\<close> delivers: multi-buffers, then an error.
  \<open>rnd j i\<close> are the random numbers drawn for buffer \<open>i\<close> of multi-buffer \<open>j\<close>.
\<close>

fun forwardUpstreamToClient :: "'w writer \<Rightarrow> (nat \<Rightarrow> nat \<Rightarrow> nat \<Rightarrow> rat) \<Rightarrow> nat \<Rightarrow> MultiBuffer list \<Rightarrow> goerror
    \<Rightarrow> Session \<Rightarrow> 'w \<Rightarrow> goerror \<times> Session \<times> 'w" where
  "forwardUpstreamToClient wr rnd j [] err s w = (err, s, w)"
| "forwardUpstreamToClient wr rnd j (mb # mbs) err s w =
     (case forwardBuffers wr (rnd j) 0 mb s w of
        (Some e, s', w') \<Rightarrow> (e, s', w')
      | (None, s', w') \<Rightarrow> forwardUpstreamToClient wr rnd (j + 1) mbs err s' w')"

lemma ReadFrame_consumes:
  assumes "ReadFrame sha256 s r = (Inr f, s', r')"
  shows "length (avail r') < length (avail r)"
proof -
  obtain header r1 where h: "read_full 3 r = (Inr header, r1)"
    using assms by (auto simp: ReadFrame_def split: sum.splits prod.splits)
  have "avail r = header @ avail r1" "length header = 3"
    using read_full_OkD [OF h] by auto
  moreover have "length (avail r') \<le> length (avail r1)"
    using assms h read_full_le [of _ r1]
    by (auto simp: ReadFrame_def Let_def split: sum.splits prod.splits if_splits dest: read_full_OkD(1))
  ultimately show ?thesis by simp
qed

function sessionLoop :: "(bytes \<Rightarrow> bytes) \<Rightarrow> (Destination \<Rightarrow> 'l result) \<Rightarrow> ('l \<Rightarrow> MultiBuffer \<Rightarrow> goerror option \<times> 'l)
    \<Rightarrow> ('l \<Rightarrow> 'l) \<Rightarrow> 'w writer \<Rightarrow> (nat \<Rightarrow> goerror option) \<Rightarrow> nat \<Rightarrow> Session \<Rightarrow> stream \<Rightarrow> 'l option \<Rightarrow> 'w
    \<Rightarrow> goerror option \<times> Session \<times> stream \<times> 'l option \<times> 'w" where
  "sessionLoop sha256 dispatch linkWrite linkClose wr poll k s reader link w =
     (case ReadFrame sha256 s reader of
        (Inl e, s1, r1) \<Rightarrow> (if e = EOF then None else Some e, s1, r1, link, w)
      | (Inr frame, s1, r1) \<Rightarrow>
          (if fr_Type frame = FrameTypeData then
             (case link of
                None \<Rightarrow>
                  (case parseDestination (fr_Payload frame) of
                     Inl e \<Rightarrow> (Some e, s1, r1, link, w)
                   | Inr (dest, payload) \<Rightarrow>
                       (case dispatch dest of
                          Inl e \<Rightarrow> (Some e, s1, r1, link, w)
                        | Inr l \<Rightarrow>
                            (case writeUpstream linkWrite l payload of
                               (Some e, l') \<Rightarrow> (Some e, s1, r1, Some l', w)
                             | (None, l') \<Rightarrow>
                                 sessionLoop sha256 dispatch linkWrite linkClose wr poll k s1 r1 (Some l') w)))
              | Some l \<Rightarrow>
                  (case writeUpstream linkWrite l (fr_Payload frame) of
                     (Some e, l') \<Rightarrow> (Some e, s1, r1, Some l', w)
                   | (None, l') \<Rightarrow>
                       (case poll k of
                          None \<Rightarrow> sessionLoop sha256 dispatch linkWrite linkClose wr poll (k + 1) s1 r1 (Some l') w
                        | Some upErr \<Rightarrow>
                            (if upErr = EOF then
                               let (_, s2, w2) = WriteFrame wr FrameTypeClose [] s1 w in (None, s2, r1, Some l', w2)
                             else (Some upErr, s1, r1, Some l', w)))))
           else if fr_Type frame = FrameTypePadding \<or> fr_Type frame = FrameTypeTiming then
             (case HandleControlFrame frame s1 of
                (Some e, s2) \<Rightarrow> (Some e, s2, r1, link, w)
              | (None, s2) \<Rightarrow> sessionLoop sha256 dispatch linkWrite linkClose wr poll k s2 r1 link w)
           else if fr_Type frame = FrameTypeClose then
             (None, s1, r1, map_option linkClose link, w)
           else (Some (ErrMsg ''unknown frame type''), s1, r1, link, w)))"
  by pat_completeness auto
termination
  by (relation "measure (\<lambda>(sha256, dispatch, linkWrite, linkClose, wr, poll, k, s, reader, link, w). length (avail reader))")
    (auto dest: ReadFrame_consumes [OF sym])

declare sessionLoop.simps [simp del]

definition handleSession :: "(bytes \<Rightarrow> cipherAEAD result) \<Rightarrow> (bytes \<Rightarrow> bytes) \<Rightarrow> (Destination \<Rightarrow> 'l result)
    \<Rightarrow> ('l \<Rightarrow> MultiBuffer \<Rightarrow> goerror option \<times> 'l) \<Rightarrow> ('l \<Rightarrow> 'l) \<Rightarrow> 'w writer \<Rightarrow> (nat \<Rightarrow> goerror option)
    \<Rightarrow> bytes \<Rightarrow> string \<Rightarrow> stream \<Rightarrow> 'w \<Rightarrow> goerror option \<times> 'l option \<times> 'w" where
  "handleSession newAEAD sha256 dispatch linkWrite linkClose wr poll sessionKey policy reader w =
     (case NewSession newAEAD sessionKey of
        Inl e \<Rightarrow> (Some e, None, w)
      | Inr s \<Rightarrow>
          (let (e, _, _, link, w') =
                 sessionLoop sha256 dispatch linkWrite linkClose wr poll 0
                   (SetTrafficProfile (profileFromPolicy policy) s) reader None w in
           (e, link, w')))"

section \<open>Nonces and the replay window\<close>

lemma length_makeNonce [simp]: "length (makeNonce n) = 12"
  by (simp add: makeNonce_def)

lemma makeNonce_inj: "makeNonce m = makeNonce n \<longleftrightarrow> m = n"
  using be_bytes_inj [of 8 m n] by (auto simp: makeNonce_def)

definition replay_inv :: "Session \<Rightarrow> bool" where
  "replay_inv s \<longleftrightarrow> se_replaySeen s = set (se_replayOrder s) \<and> distinct (se_replayOrder s)
     \<and> length (se_replayOrder s) \<le> replayWindowSize"

lemma replay_inv_frame [simp]:
  "replay_inv (s\<lparr>se_readNonce := n\<rparr>) = replay_inv s" "replay_inv (s\<lparr>se_profile := p\<rparr>) = replay_inv s"
  "replay_inv (s\<lparr>se_writeNonce := n\<rparr>) = replay_inv s"
  by (simp_all add: replay_inv_def)

definition last_n :: "nat \<Rightarrow> 'a list \<Rightarrow> 'a list" where
  "last_n n xs = drop (length xs - n) xs"

lemma rememberCiphertext_effect:
  assumes "replay_inv s" and "rememberCiphertext sha256 c s = (fresh, s')"
  shows "fresh \<longleftrightarrow> sha256 c \<notin> set (se_replayOrder s)"
    and "se_replayOrder s' = (if fresh then last_n replayWindowSize (se_replayOrder s @ [sha256 c]) else se_replayOrder s)"
    and "replay_inv s'"
    and "se_aead s' = se_aead s" "se_readNonce s' = se_readNonce s" "se_writeNonce s' = se_writeNonce s"
    and "se_profile s' = se_profile s"
proof -
  show f: "fresh \<longleftrightarrow> sha256 c \<notin> set (se_replayOrder s)"
    using assms by (auto simp: rememberCiphertext_def replay_inv_def Let_def split: if_splits)
  show "se_aead s' = se_aead s" "se_readNonce s' = se_readNonce s" "se_writeNonce s' = se_writeNonce s"
      "se_profile s' = se_profile s"
    using assms(2) by (auto simp: rememberCiphertext_def Let_def split: if_splits)
  let ?o = "se_replayOrder s @ [sha256 c]"
  show "se_replayOrder s' = (if fresh then last_n replayWindowSize ?o else se_replayOrder s)"
  proof (cases "length ?o > replayWindowSize")
    case True
    then have "length ?o - replayWindowSize = 1"
      using assms(1) by (auto simp: replay_inv_def)
    then have "last_n replayWindowSize ?o = tl ?o"
      by (simp only: last_n_def drop_Suc One_nat_def drop_0)
    then show ?thesis
      using True assms by (auto simp: rememberCiphertext_def Let_def split: if_splits)
  next
    case False
    then show ?thesis
      using assms by (auto simp: rememberCiphertext_def Let_def last_n_def split: if_splits)
  qed
  show "replay_inv s'"
  proof (cases fresh)
    case True
    obtain x xs where o': "?o = x # xs" by (metis append_is_Nil_conv list.exhaust not_Cons_self2)
    have d: "distinct ?o" "set ?o = insert (sha256 c) (se_replaySeen s)"
      using True f assms(1) by (auto simp: replay_inv_def)
    have s': "s' = (let s1 = s\<lparr>se_replaySeen := insert (sha256 c) (se_replaySeen s), se_replayOrder := ?o\<rparr> in
        if length ?o > replayWindowSize then s1\<lparr>se_replaySeen := set ?o - {x}, se_replayOrder := xs\<rparr> else s1)"
      using True assms(2) o' d(2) by (auto simp: rememberCiphertext_def Let_def split: if_splits)
    have "length ?o \<le> Suc replayWindowSize"
      using assms(1) by (simp add: replay_inv_def)
    then show ?thesis
      using s' d o' by (auto simp: replay_inv_def Let_def)
  next
    case False
    then have "s' = s" using assms(2) by (auto simp: rememberCiphertext_def Let_def split: if_splits)
    then show ?thesis using assms(1) by simp
  qed
qed

section \<open>Frames on the wire\<close>

definition frame_bytes :: "cipherAEAD \<Rightarrow> uint64 \<Rightarrow> byte \<Rightarrow> bytes \<Rightarrow> bytes" where
  "frame_bytes A n frameType d =
     (let encrypted = Seal A (makeNonce n) d [] in
      be_bytes 2 (word_of_nat (length encrypted) :: uint16) @ [frameType] @ encrypted)"

fun frames_bytes :: "cipherAEAD \<Rightarrow> uint64 \<Rightarrow> (byte \<times> bytes) list \<Rightarrow> bytes" where
  "frames_bytes A n [] = []"
| "frames_bytes A n ((t, d) # fs) = frame_bytes A n t d @ frames_bytes A (n + 1) fs"

fun ciphertexts :: "cipherAEAD \<Rightarrow> uint64 \<Rightarrow> (byte \<times> bytes) list \<Rightarrow> bytes list" where
  "ciphertexts A n [] = []"
| "ciphertexts A n ((t, d) # fs) = Seal A (makeNonce n) d [] # ciphertexts A (n + 1) fs"

text \<open>A payload that fits into a frame.\<close>

definition fits :: "cipherAEAD \<Rightarrow> nat \<Rightarrow> bytes \<Rightarrow> bool" where
  "fits A limit d \<longleftrightarrow> length d \<le> limit \<and> 0 < length d + Overhead A \<and> length d + Overhead A \<le> maxFramePayloadSize"

text \<open>An AEAD that keeps its contract and takes the nonces of the session.\<close>

definition session_aead :: "cipherAEAD \<Rightarrow> nat \<Rightarrow> bool" where
  "session_aead A limit \<longleftrightarrow> aead A limit \<and> NonceSize A = 12"

context aead
begin

lemma ReadFrame_frame:
  assumes nonce_size: "NonceSize A = 12" and "se_aead s = A" and "fits A limit d" and "replay_inv s"
    and "sha256 (Seal A (makeNonce (se_readNonce s)) d []) \<notin> set (se_replayOrder s)"
  shows "\<exists>s' len. ReadFrame sha256 s \<lparr>avail = frame_bytes A (se_readNonce s) t d @ rest, ending = e\<rparr>
      = (Ok \<lparr>fr_Length = len, fr_Type = t, fr_Payload = d\<rparr>, s', \<lparr>avail = rest, ending = e\<rparr>)
    \<and> se_aead s' = A \<and> se_readNonce s' = se_readNonce s + 1 \<and> se_profile s' = se_profile s \<and> replay_inv s'
    \<and> se_replayOrder s' = last_n replayWindowSize
        (se_replayOrder s @ [sha256 (Seal A (makeNonce (se_readNonce s)) d [])])"
proof -
  let ?n = "makeNonce (se_readNonce s)" and ?c = "Seal A (makeNonce (se_readNonce s)) d []"
  let ?len = "word_of_nat (length ?c) :: uint16"
  have len: "length ?c = length d + Overhead A"
    using assms(3) by (intro length_seal) (simp add: fits_def)
  have bound: "length ?c < 2 ^ 16" "length ?c > 0" "length ?c \<le> maxFramePayloadSize"
    using assms(3) by (simp_all add: fits_def len maxFramePayloadSize_def)
  then have ulen: "unat ?len = length ?c"
    by (simp add: unat_of_nat take_bit_nat_eq_self)
  obtain fresh s1 where r: "rememberCiphertext sha256 ?c s = (fresh, s1)"
    by (metis prod.exhaust)
  note e = rememberCiphertext_effect [OF assms(4) r]
  have fresh: fresh
    using e(1) assms(5) by simp
  have op: "Open A ?n ?c [] = Ok d"
    using assms(3) by (intro open_seal) (simp_all add: nonce_size fits_def)
  have hd: "read_full 3 \<lparr>avail = frame_bytes A (se_readNonce s) t d @ rest, ending = e\<rparr>
      = (Ok (be_bytes 2 ?len @ [t]), \<lparr>avail = ?c @ rest, ending = e\<rparr>)"
    using read_full_append [of 3 "be_bytes 2 ?len @ [t]" "?c @ rest" e] by (simp add: frame_bytes_def Let_def)
  have hval: "be_val (take 2 (be_bytes 2 ?len @ [t])) = ?len" "(be_bytes 2 ?len @ [t]) ! 2 = t"
    by (simp_all add: nth_append del: be_bytes.simps)
  have body: "read_full (unat ?len) \<lparr>avail = ?c @ rest, ending = e\<rparr> = (Ok ?c, \<lparr>avail = rest, ending = e\<rparr>)"
    using ulen by (intro read_full_append) simp
  have pos: "?len \<noteq> 0"
    using ulen bound(2) by auto
  show ?thesis
    using r fresh e op pos bound(3) ulen assms(2)
    unfolding ReadFrame_def hd Let_def hval
    by (simp add: body [unfolded ulen] hval(2) del: be_bytes.simps)
qed

end

section \<open>Writing frames\<close>

lemma fits_seal:
  assumes "aead A limit" and "fits A limit d"
  shows "length (Seal A n d ad) \<le> maxFramePayloadSize"
  using aead.length_seal [OF assms(1), of d n ad] assms(2) by (simp add: fits_def)

context byte_writer
begin

lemma WriteFrame_writes:
  assumes "good w" and "aead (se_aead s) limit" and "fits (se_aead s) limit d"
  shows "\<exists>w'. WriteFrame wr t d s w = (None, s\<lparr>se_writeNonce := se_writeNonce s + 1\<rparr>, w') \<and> good w'
     \<and> accepted w' = accepted w @ frame_bytes (se_aead s) (se_writeNonce s) t d"
proof -
  let ?c = "Seal (se_aead s) (makeNonce (se_writeNonce s)) d []"
  let ?h = "be_bytes 2 (word_of_nat (length ?c) :: uint16) @ [t]"
  obtain w1 where w1: "wr w ?h = (None, w1)" "good w1" "accepted w1 = accepted w @ ?h"
    using assms(1) by (rule wr_obtain)
  obtain w2 where w2: "wr w1 ?c = (None, w2)" "good w2" "accepted w2 = accepted w1 @ ?c"
    using w1(2) by (rule wr_obtain)
  have "\<not> length ?c > maxFramePayloadSize"
    using fits_seal [OF assms(2,3)] by (simp add: not_less)
  then show ?thesis
    using w1 w2 by (simp add: WriteFrame_def frame_bytes_def Let_def del: be_bytes.simps)
qed

end

section \<open>Morphing keeps the data\<close>

text \<open>The bytes that the data frames of a sequence carry.\<close>

fun data_of :: "(byte \<times> bytes) list \<Rightarrow> bytes" where
  "data_of [] = []"
| "data_of ((t, d) # fs) = (if t = FrameTypeData then d else []) @ data_of fs"

text \<open>A control frame that a peer accepts.\<close>

fun sendable :: "(byte \<times> bytes) \<Rightarrow> bool" where
  "sendable (t, d) \<longleftrightarrow> t = FrameTypeData \<or> t = FrameTypePadding \<and> length d = 2 \<or> t = FrameTypeTiming \<and> length d = 8"

lemma data_of_append [simp]: "data_of (xs @ ys) = data_of xs @ data_of ys"
  by (induction xs rule: data_of.induct) auto

lemma frames_bytes_append:
  "frames_bytes A n (xs @ ys) = frames_bytes A n xs @ frames_bytes A (n + word_of_nat (length xs)) ys"
  by (induction A n xs rule: frames_bytes.induct) (simp_all add: algebra_simps)

lemma frame_types_distinct [simp]:
  "FrameTypeData \<noteq> FrameTypePadding" "FrameTypeData \<noteq> FrameTypeTiming" "FrameTypeData \<noteq> FrameTypeClose"
  "FrameTypePadding \<noteq> FrameTypeData" "FrameTypeTiming \<noteq> FrameTypeData" "FrameTypeClose \<noteq> FrameTypeData"
  "FrameTypePadding \<noteq> FrameTypeTiming" "FrameTypeTiming \<noteq> FrameTypePadding"
  "FrameTypeClose \<noteq> FrameTypePadding" "FrameTypeClose \<noteq> FrameTypeTiming"
  "FrameTypePadding \<noteq> FrameTypeClose" "FrameTypeTiming \<noteq> FrameTypeClose"
  by (simp_all add: FrameTypeData_def FrameTypePadding_def FrameTypeTiming_def FrameTypeClose_def)

context byte_writer
begin

text \<open>A run of frames appends their bytes and counts the nonce up.\<close>

definition wrote :: "Session \<Rightarrow> 'w \<Rightarrow> (byte \<times> bytes) list \<Rightarrow> Session \<Rightarrow> 'w \<Rightarrow> bool" where
  "wrote s w fs s' w' \<longleftrightarrow> good w' \<and> s' = s\<lparr>se_writeNonce := se_writeNonce s + word_of_nat (length fs)\<rparr>
     \<and> accepted w' = accepted w @ frames_bytes (se_aead s) (se_writeNonce s) fs"

lemma wrote_trans: "wrote s w fs s' w' \<Longrightarrow> wrote s' w' gs s'' w'' \<Longrightarrow> wrote s w (fs @ gs) s'' w''"
  by (auto simp: wrote_def frames_bytes_append algebra_simps)

lemma WriteFrame_wrote:
  assumes "good w" and "aead (se_aead s) limit" and "fits (se_aead s) limit d"
  obtains s' w' where "WriteFrame wr t d s w = (None, s', w')" and "wrote s w [(t, d)] s' w'"
  using WriteFrame_writes [OF assms, of t] by (auto simp: wrote_def)

lemma SendPaddingControl_wrote:
  assumes "good w" and "aead (se_aead s) limit" and "\<forall>d. length d \<le> 8 \<longrightarrow> fits (se_aead s) limit d"
    and "0 < sz" and "sz \<le> 65535"
  obtains s' w' d where "SendPaddingControl wr sz s w = (None, s', w')" and "wrote s w [(FrameTypePadding, d)] s' w'"
    and "length d = 2"
proof -
  let ?d = "be_bytes 2 (word_of_int sz :: uint16)"
  have "fits (se_aead s) limit ?d"
    using assms(3) by (simp del: be_bytes.simps)
  then obtain s' w' where "WriteFrame wr FrameTypePadding ?d s w = (None, s', w')"
      "wrote s w [(FrameTypePadding, ?d)] s' w'"
    by (rule WriteFrame_wrote [OF assms(1,2)])
  then show thesis
    using assms(4,5) by (intro that [of s' w' ?d]) (simp_all add: SendPaddingControl_def del: be_bytes.simps)
qed

lemma SendTimingControl_wrote:
  assumes "good w" and "aead (se_aead s) limit" and "\<forall>d. length d \<le> 8 \<longrightarrow> fits (se_aead s) limit d" and "0 < dl"
  obtains s' w' d where "SendTimingControl wr dl s w = (None, s', w')" and "wrote s w [(FrameTypeTiming, d)] s' w'"
    and "length d = 8"
proof -
  let ?d = "be_bytes 8 (word_of_int (dl div 1000000) :: uint64)"
  have "fits (se_aead s) limit ?d"
    using assms(3) by (simp del: be_bytes.simps)
  then obtain s' w' where "WriteFrame wr FrameTypeTiming ?d s w = (None, s', w')"
      "wrote s w [(FrameTypeTiming, ?d)] s' w'"
    by (rule WriteFrame_wrote [OF assms(1,2)])
  then show thesis
    using assms(4) by (intro that [of s' w' ?d]) (simp_all add: SendTimingControl_def del: be_bytes.simps)
qed

lemma wrote_keeps: "wrote s w fs s' w' \<Longrightarrow> good w' \<and> se_aead s' = se_aead s"
  by (simp add: wrote_def)

lemma morphLoop_wrote:
  assumes "good w" and "good_profile p" and "aead (se_aead s) limit" and "\<forall>d. length d \<le> 8 \<longrightarrow> fits (se_aead s) limit d"
    and "\<forall>d. length d \<le> length remaining \<longrightarrow> fits (se_aead s) limit d"
  shows "\<exists>p' s' w' fs. morphLoop wr rnd k remaining p s w = (None, p', s', w') \<and> good_profile p'
     \<and> wrote s w fs s' w' \<and> data_of fs = remaining \<and> list_all sendable fs \<and> length fs \<le> 3 * length remaining
     \<and> (\<forall>d. (FrameTypeData, d) \<in> set fs \<longrightarrow> d \<noteq> [] \<and> length d \<le> 65535)"
  using assms
proof (induction "length remaining" arbitrary: remaining k p s w rule: less_induct)
  case less
  show ?case
  proof (cases "remaining = []")
    case True
    then show ?thesis
      using less.prems(1,2) by (auto simp: morphLoop.simps [of wr rnd k "[]"] wrote_def intro!: exI [of _ "[]"])
  next
    case False
    obtain sz p1 where g: "GetPacketSize (rnd (2 * k)) p = (sz, p1)"
      by (metis prod.exhaust)
    note sz = GetPacketSize_good [OF less.prems(2) g]
    define c where "c = (if int (length remaining) > sz then nat sz else length remaining)"
    have c: "0 < c" "c \<le> length remaining" "c \<le> 65535"
      using sz False by (auto simp: c_def)
    have fitc: "fits (se_aead s) limit (take c remaining)"
      using less.prems(5) by simp
    obtain s1 w1 where f1: "WriteFrame wr FrameTypeData (take c remaining) s w = (None, s1, w1)"
        "wrote s w [(FrameTypeData, take c remaining)] s1 w1"
      by (rule WriteFrame_wrote [OF less.prems(1,3) fitc])
    note k1 = wrote_keeps [OF f1(2)]
    obtain s2 w2 d2 where f2: "SendPaddingControl wr sz s1 w1 = (None, s2, w2)"
        "wrote s1 w1 [(FrameTypePadding, d2)] s2 w2" "length d2 = 2"
      using SendPaddingControl_wrote [of w1 s1 limit sz] k1 less.prems(3,4) sz by auto
    note k2 = wrote_keeps [OF f2(2)]
    obtain dl p2 where gd: "GetDelay (rnd (2 * k + 1)) p1 = (dl, p2)"
      by (metis prod.exhaust)
    note dl = GetDelay_good [OF sz(3) gd]
    obtain s3 w3 d3 where f3: "SendTimingControl wr dl s2 w2 = (None, s3, w3)"
        "wrote s2 w2 [(FrameTypeTiming, d3)] s3 w3" "length d3 = 8"
      using SendTimingControl_wrote [of w2 s2 limit dl] k1 k2 less.prems(3,4) dl(1) by auto
    note k3 = wrote_keeps [OF f3(2)]
    have step: "morphLoop wr rnd k remaining p s w = morphLoop wr rnd (k + 1) (drop c remaining) p2 s3 w3"
      using False g sz(1) f1(1) f2(1) gd dl(1) f3(1)
      by (subst morphLoop.simps) (cases "sz < int (length remaining)"; simp add: Let_def c_def)
    have shorter: "length (drop c remaining) < length remaining"
      using c False by simp
    obtain p' s' w' fs where rec: "morphLoop wr rnd (k + 1) (drop c remaining) p2 s3 w3 = (None, p', s', w')"
        "good_profile p'" "wrote s3 w3 fs s' w'" "data_of fs = drop c remaining" "list_all sendable fs"
        "length fs \<le> 3 * length (drop c remaining)"
        "\<forall>d. (FrameTypeData, d) \<in> set fs \<longrightarrow> d \<noteq> [] \<and> length d \<le> 65535"
      using less.hyps [OF shorter, of w3 p2 s3 "k + 1"] dl(2) k1 k2 k3 less.prems(3-5) by auto
    let ?fs = "([(FrameTypeData, take c remaining)] @ [(FrameTypePadding, d2)] @ [(FrameTypeTiming, d3)]) @ fs"
    have "wrote s w ?fs s' w'"
      by (rule wrote_trans [OF wrote_trans [OF f1(2) wrote_trans [OF f2(2) f3(2)]] rec(3)])
    then show ?thesis
      using step rec f2(3) f3(3) c by (intro exI [of _ p'] exI [of _ s'] exI [of _ w'] exI [of _ ?fs]) auto
  qed
qed

end

section \<open>The session loop reads what a peer writes\<close>

text \<open>The contract of the upstream link: it takes every multi-buffer and keeps its bytes.\<close>

locale mb_writer =
  fixes lw :: "'l \<Rightarrow> MultiBuffer \<Rightarrow> goerror option \<times> 'l" and got :: "'l \<Rightarrow> bytes"
  assumes lw_accepts: "wf_MB mb \<Longrightarrow> \<exists>l'. lw l mb = (None, l') \<and> got l' = got l @ mcontent mb"
begin

lemma writeUpstream_accepts:
  assumes "length d \<le> maxFramePayloadSize"
  shows "\<exists>l'. writeUpstream lw l d = (None, l') \<and> got l' = got l @ d"
proof (cases "d = []")
  case False
  have "wf_MB [FromBytes d]" and "mcontent [FromBytes d] = d"
    using assms by (simp_all add: maxFramePayloadSize_def)
  then show ?thesis
    using lw_accepts [of "[FromBytes d]" l] False by (simp add: writeUpstream_def)
qed (simp add: writeUpstream_def)

end

interpretation mbc_link: mb_writer MBC_WriteMultiBuffer mcontent
  by unfold_locales (auto simp: MBC_WriteMultiBuffer_def MergeMulti_def)

lemma parseDestination_header:
  assumes "length a < 256"
  shows "parseDestination (word_of_nat (length a) # a @ be_bytes 2 (port :: uint16) @ p)
     = Ok (TCPDestination (ParseAddress (bytes_str a)) port, p)"
proof -
  have "unat (word_of_nat (length a) :: byte) = length a"
    using assms by (simp add: unat_of_nat take_bit_nat_eq_self)
  then show ?thesis
    by (simp add: parseDestination_def Let_def del: be_bytes.simps)
qed

lemma HandleControlFrame_sendable:
  assumes "sendable (fr_Type f, fr_Payload f)"
  shows "\<exists>p. HandleControlFrame f s = (None, s\<lparr>se_profile := p\<rparr>)"
proof -
  have same: "\<exists>p. s = s\<lparr>se_profile := p\<rparr>"
    by (rule exI [of _ "se_profile s"]) simp
  then show ?thesis
    using assms by (auto simp: HandleControlFrame_def split: option.splits)
qed

lemma set_last_n: "set (last_n n xs) \<subseteq> set xs"
  by (simp add: last_n_def set_drop_subset)

text \<open>The session can read the frames: each payload fits, and no ciphertext repeats.\<close>

definition readable :: "(bytes \<Rightarrow> bytes) \<Rightarrow> nat \<Rightarrow> Session \<Rightarrow> (byte \<times> bytes) list \<Rightarrow> bool" where
  "readable sha256 limit s fs \<longleftrightarrow> replay_inv s \<and> (\<forall>f\<in>set fs. fits (se_aead s) limit (snd f))
     \<and> distinct (map sha256 (ciphertexts (se_aead s) (se_readNonce s) fs))
     \<and> set (map sha256 (ciphertexts (se_aead s) (se_readNonce s) fs)) \<inter> set (se_replayOrder s) = {}"

lemma readable_Cons:
  assumes "session_aead (se_aead s) limit" and "readable sha256 limit s ((t, d) # fs)"
  obtains s' len where
    "ReadFrame sha256 s \<lparr>avail = frames_bytes (se_aead s) (se_readNonce s) ((t, d) # fs) @ rest, ending = e\<rparr>
      = (Ok \<lparr>fr_Length = len, fr_Type = t, fr_Payload = d\<rparr>, s',
         \<lparr>avail = frames_bytes (se_aead s) (se_readNonce s + 1) fs @ rest, ending = e\<rparr>)"
    and "readable sha256 limit s' fs" and "se_aead s' = se_aead s" and "se_readNonce s' = se_readNonce s + 1"
proof -
  let ?c = "Seal (se_aead s) (makeNonce (se_readNonce s)) d []"
  obtain s' len where r: "ReadFrame sha256 s \<lparr>avail = frame_bytes (se_aead s) (se_readNonce s) t d
        @ frames_bytes (se_aead s) (se_readNonce s + 1) fs @ rest, ending = e\<rparr>
      = (Ok \<lparr>fr_Length = len, fr_Type = t, fr_Payload = d\<rparr>, s',
         \<lparr>avail = frames_bytes (se_aead s) (se_readNonce s + 1) fs @ rest, ending = e\<rparr>)"
      "se_aead s' = se_aead s" "se_readNonce s' = se_readNonce s + 1" "replay_inv s'"
      "se_replayOrder s' = last_n replayWindowSize (se_replayOrder s @ [sha256 ?c])"
    using aead.ReadFrame_frame [of "se_aead s" limit s d sha256 t
        "frames_bytes (se_aead s) (se_readNonce s + 1) fs @ rest" e] assms by (auto simp: readable_def session_aead_def)
  let ?hs = "map sha256 (ciphertexts (se_aead s) (se_readNonce s + 1) fs)"
  have "set ?hs \<inter> set (se_replayOrder s @ [sha256 ?c]) = {}"
    using assms(2) by (auto simp: readable_def)
  moreover have "set (se_replayOrder s') \<subseteq> set (se_replayOrder s @ [sha256 ?c])"
    unfolding r(5) by (rule set_last_n)
  ultimately have "set ?hs \<inter> set (se_replayOrder s') = {}"
    by (meson disjoint_iff subsetD)
  then have "readable sha256 limit s' fs"
    using assms(2) r(2-4) by (simp add: readable_def)
  with r show thesis by (intro that) simp_all
qed

lemma readable_profile [simp]: "readable sha256 limit (s\<lparr>se_profile := p\<rparr>) fs = readable sha256 limit s fs"
  by (simp add: readable_def)

context mb_writer
begin

lemma sessionLoop_frames:
  assumes "session_aead (se_aead s) limit" and "readable sha256 limit s (fs @ [(FrameTypeClose, c)])"
    and "list_all sendable fs" and "\<forall>k. poll k = None"
  shows "\<exists>s' r' l'. sessionLoop sha256 dispatch lw lc wr poll k s
      \<lparr>avail = frames_bytes (se_aead s) (se_readNonce s) (fs @ [(FrameTypeClose, c)]) @ rest, ending = e\<rparr> (Some l) w
      = (None, s', r', Some (lc l'), w) \<and> got l' = got l @ data_of fs"
  using assms(1-3)
proof (induction fs arbitrary: s k l)
  case Nil
  have "readable sha256 limit s ((FrameTypeClose, c) # [])"
    using Nil.prems(2) by simp
  then obtain s' len where "ReadFrame sha256 s
      \<lparr>avail = frames_bytes (se_aead s) (se_readNonce s) ((FrameTypeClose, c) # []) @ rest, ending = e\<rparr>
      = (Ok \<lparr>fr_Length = len, fr_Type = FrameTypeClose, fr_Payload = c\<rparr>, s',
         \<lparr>avail = frames_bytes (se_aead s) (se_readNonce s + 1) [] @ rest, ending = e\<rparr>)"
    by (rule readable_Cons [OF Nil.prems(1)])
  then show ?case
    by (subst sessionLoop.simps) auto
next
  case (Cons f fs)
  obtain t d where f: "f = (t, d)" by (rule prod.exhaust)
  have r0: "readable sha256 limit s ((t, d) # fs @ [(FrameTypeClose, c)])"
    using Cons.prems(2) f by simp
  then obtain s' len where rd: "ReadFrame sha256 s
      \<lparr>avail = frames_bytes (se_aead s) (se_readNonce s) ((t, d) # fs @ [(FrameTypeClose, c)]) @ rest, ending = e\<rparr>
      = (Ok \<lparr>fr_Length = len, fr_Type = t, fr_Payload = d\<rparr>, s',
         \<lparr>avail = frames_bytes (se_aead s) (se_readNonce s + 1) (fs @ [(FrameTypeClose, c)]) @ rest, ending = e\<rparr>)"
      and s': "readable sha256 limit s' (fs @ [(FrameTypeClose, c)])" "se_aead s' = se_aead s"
        "se_readNonce s' = se_readNonce s + 1"
    by (rule readable_Cons [OF Cons.prems(1)])
  have d: "length d \<le> maxFramePayloadSize"
    using r0 by (simp add: readable_def fits_def)
  have snd: "sendable (t, d)" "list_all sendable fs"
    using Cons.prems(3) f by simp_all
  have ih: "\<exists>s'' r' l''. sessionLoop sha256 dispatch lw lc wr poll k' (s'\<lparr>se_profile := p\<rparr>)
      \<lparr>avail = frames_bytes (se_aead s) (se_readNonce s + 1) (fs @ [(FrameTypeClose, c)]) @ rest, ending = e\<rparr> (Some l1) w
      = (None, s'', r', Some (lc l''), w) \<and> got l'' = got l1 @ data_of fs" for k' p l1
    using Cons.IH [of "s'\<lparr>se_profile := p\<rparr>" k' l1] Cons.prems(1) s' snd(2) by simp
  have same: "s'\<lparr>se_profile := se_profile s'\<rparr> = s'" by simp
  show ?case
  proof (cases "t = FrameTypeData")
    case True
    obtain l1 where l1: "writeUpstream lw l d = (None, l1)" "got l1 = got l @ d"
      using writeUpstream_accepts [OF d] by blast
    show ?thesis
      using ih [of "k + 1" "se_profile s'" l1] l1 rd f True assms(4) same by (subst sessionLoop.simps) auto
  next
    case False
    obtain p where "HandleControlFrame \<lparr>fr_Length = len, fr_Type = t, fr_Payload = d\<rparr> s' = (None, s'\<lparr>se_profile := p\<rparr>)"
      using HandleControlFrame_sendable [of "\<lparr>fr_Length = len, fr_Type = t, fr_Payload = d\<rparr>" s'] snd(1) by auto
    then show ?thesis
      using ih [of k p l] rd f False snd(1) by (subst sessionLoop.simps) auto
  qed
qed

lemma handleSession_delivers:
  assumes "newAEAD key = Ok A" and "session_aead A limit"
    and "s0 = \<lparr>se_aead = A, se_readNonce = 0, se_writeNonce = 0, se_profile = None, se_replaySeen = {}, se_replayOrder = []\<rparr>"
    and "length a < 256"
    and first: "first = (FrameTypeData, word_of_nat (length a) # a @ be_bytes 2 (port :: uint16) @ d)"
    and "readable sha256 limit s0 (first # fs @ [(FrameTypeClose, c)])" and "list_all sendable fs"
    and "\<forall>k. poll k = None"
    and "dispatch (TCPDestination (ParseAddress (bytes_str a)) port) = Ok l"
  shows "\<exists>l'. handleSession newAEAD sha256 dispatch lw lc wr poll key policy
      \<lparr>avail = frames_bytes A 0 (first # fs @ [(FrameTypeClose, c)]) @ rest, ending = e\<rparr> w = (None, Some (lc l'), w)
      \<and> got l' = got l @ d @ data_of fs"
proof -
  let ?s = "s0\<lparr>se_profile := Some (profileFromPolicy policy)\<rparr>"
  have s: "se_aead ?s = A" "se_readNonce ?s = 0"
    using assms(3) by simp_all
  let ?h = "word_of_nat (length a) # a @ be_bytes 2 (port :: uint16) @ d"
  have r0: "readable sha256 limit ?s ((FrameTypeData, ?h) # fs @ [(FrameTypeClose, c)])"
    using assms(6) first by (simp del: be_bytes.simps)
  obtain s' len where rd: "ReadFrame sha256 ?s
      \<lparr>avail = frames_bytes (se_aead ?s) (se_readNonce ?s) ((FrameTypeData, ?h) # fs @ [(FrameTypeClose, c)]) @ rest, ending = e\<rparr>
      = (Ok \<lparr>fr_Length = len, fr_Type = FrameTypeData, fr_Payload = ?h\<rparr>, s',
         \<lparr>avail = frames_bytes (se_aead ?s) (se_readNonce ?s + 1) (fs @ [(FrameTypeClose, c)]) @ rest, ending = e\<rparr>)"
      and s': "readable sha256 limit s' (fs @ [(FrameTypeClose, c)])" "se_aead s' = se_aead ?s"
        "se_readNonce s' = se_readNonce ?s + 1"
    by (rule readable_Cons [OF assms(2) [folded s(1)] r0])
  have d: "length d \<le> maxFramePayloadSize"
    using r0 by (simp add: readable_def fits_def)
  obtain l1 where l1: "writeUpstream lw l d = (None, l1)" "got l1 = got l @ d"
    using writeUpstream_accepts [OF d] by blast
  obtain s'' r' l' where fin: "sessionLoop sha256 dispatch lw lc wr poll 0 s'
      \<lparr>avail = frames_bytes (se_aead s') (se_readNonce s') (fs @ [(FrameTypeClose, c)]) @ rest, ending = e\<rparr> (Some l1) w
      = (None, s'', r', Some (lc l'), w)" "got l' = got l1 @ data_of fs"
    using sessionLoop_frames [of s' limit sha256 fs c poll] assms(2,7,8) s'(1,2) s(1) by metis
  have "sessionLoop sha256 dispatch lw lc wr poll 0 ?s
      \<lparr>avail = frames_bytes A 0 (first # fs @ [(FrameTypeClose, c)]) @ rest, ending = e\<rparr> None w
      = (None, s'', r', Some (lc l'), w)"
    using rd parseDestination_header [OF assms(4), of port d] assms(9) l1(1) fin(1) s s' first
    by (subst sessionLoop.simps) (simp del: be_bytes.simps)
  then show ?thesis
    using assms(1,3) fin(2) l1(2)
    by (intro exI [of _ l']) (simp add: handleSession_def NewSession_def SetTrafficProfile_def)
qed

end

section \<open>Morphed traffic\<close>

context byte_writer
begin

text \<open>Like \<open>wrote\<close>, for a session whose profile may have been used meanwhile.\<close>

definition morphed :: "Session \<Rightarrow> 'w \<Rightarrow> (byte \<times> bytes) list \<Rightarrow> Session \<Rightarrow> 'w \<Rightarrow> bool" where
  "morphed s w fs s' w' \<longleftrightarrow> good w' \<and> list_all sendable fs
     \<and> (\<exists>p. good_profile p \<and> s' = s\<lparr>se_writeNonce := se_writeNonce s + word_of_nat (length fs), se_profile := Some p\<rparr>)
     \<and> accepted w' = accepted w @ frames_bytes (se_aead s) (se_writeNonce s) fs"

lemma morphed_trans: "morphed s w fs s' w' \<Longrightarrow> morphed s' w' gs s'' w'' \<Longrightarrow> morphed s w (fs @ gs) s'' w''"
  by (auto simp: morphed_def frames_bytes_append algebra_simps)

lemma WriteFrameWithMorphing_morphed:
  assumes "good w" and "se_profile s = Some p" and "good_profile p" and "aead (se_aead s) limit"
    and "\<And>x. length x \<le> max 8 (length d) \<Longrightarrow> fits (se_aead s) limit x"
  obtains s' w' fs where "WriteFrameWithMorphing wr rnd FrameTypeData d s w = (None, s', w')"
    and "morphed s w fs s' w'" and "data_of fs = d" and "length fs \<le> 3 * length d"
proof -
  obtain p' s' w' fs where m: "morphLoop wr rnd 0 d p s w = (None, p', s', w')" "good_profile p'" "wrote s w fs s' w'"
      "data_of fs = d" "list_all sendable fs" "length fs \<le> 3 * length d"
    using morphLoop_wrote [of w p s limit d rnd 0] assms by auto
  then have "morphed s w fs (s'\<lparr>se_profile := Some p'\<rparr>) w'"
    by (auto simp: morphed_def wrote_def)
  then show thesis
    using m assms(2) by (intro that) (simp_all add: WriteFrameWithMorphing_def)
qed

lemma forwardBuffers_morphed:
  assumes "good w" and "se_profile s = Some p" and "good_profile p" and "aead (se_aead s) limit" and "wf_MB mb"
    and "\<forall>b \<in> set mb. length (content b) \<le> n" and "8 \<le> n" and "\<And>x. length x \<le> n \<Longrightarrow> fits (se_aead s) limit x"
  shows "\<exists>s' w' fs. forwardBuffers wr rnd i mb s w = (None, s', w') \<and> morphed s w fs s' w' \<and> data_of fs = mcontent mb"
  using assms
proof (induction mb arbitrary: i s w p)
  case Nil
  have "morphed s w [] s w"
    using Nil.prems(1-3) by (auto simp: morphed_def)
  then show ?case by force
next
  case (Cons b mb)
  have b: "Bytes b = Ok (content b)"
    using Cons.prems(5) by (simp add: Bytes_content)
  obtain s1 w1 fs where w1: "WriteFrameWithMorphing wr (rnd i) FrameTypeData (content b) s w = (None, s1, w1)"
      "morphed s w fs s1 w1" "data_of fs = content b"
    by (rule WriteFrameWithMorphing_morphed [OF Cons.prems(1-4), of "content b" "rnd i"]) (use Cons.prems(6-8) in auto)
  obtain p1 where p1: "good w1" "se_profile s1 = Some p1" "good_profile p1" "se_aead s1 = se_aead s"
    using w1(2) by (auto simp: morphed_def)
  obtain s' w' gs where "forwardBuffers wr rnd (i + 1) mb s1 w1 = (None, s', w')" "morphed s1 w1 gs s' w'"
      "data_of gs = mcontent mb"
    using Cons.IH [OF p1(1-3), of "i + 1"] p1(4) Cons.prems(4-8) by auto
  then show ?case
    using b w1 morphed_trans [OF w1(2)] by (intro exI [of _ s'] exI [of _ w'] exI [of _ "fs @ gs"]) simp
qed

lemma forwardUpstreamToClient_morphed:
  assumes "good w" and "se_profile s = Some p" and "good_profile p" and "aead (se_aead s) limit" and "list_all wf_MB mbs"
    and "\<forall>mb \<in> set mbs. \<forall>b \<in> set mb. length (content b) \<le> n" and "8 \<le> n" and "\<And>x. length x \<le> n \<Longrightarrow> fits (se_aead s) limit x"
  shows "\<exists>s' w' fs. forwardUpstreamToClient wr rnd j mbs err s w = (err, s', w') \<and> morphed s w fs s' w'
    \<and> data_of fs = concat (map mcontent mbs)"
  using assms
proof (induction mbs arbitrary: j s w p)
  case Nil
  have "morphed s w [] s w"
    using Nil.prems(1-3) by (auto simp: morphed_def)
  then show ?case by force
next
  case (Cons mb mbs)
  obtain s1 w1 fs where w1: "forwardBuffers wr (rnd j) 0 mb s w = (None, s1, w1)" "morphed s w fs s1 w1"
      "data_of fs = mcontent mb"
    using forwardBuffers_morphed [OF Cons.prems(1-4), of mb n "rnd j" 0] Cons.prems(5-8) by auto
  obtain p1 where p1: "good w1" "se_profile s1 = Some p1" "good_profile p1" "se_aead s1 = se_aead s"
    using w1(2) by (auto simp: morphed_def)
  obtain s' w' gs where "forwardUpstreamToClient wr rnd (j + 1) mbs err s1 w1 = (err, s', w')" "morphed s1 w1 gs s' w'"
      "data_of gs = concat (map mcontent mbs)"
    using Cons.IH [OF p1(1-3), of "j + 1"] p1(4) Cons.prems(4-8) by auto
  then show ?case
    using w1 morphed_trans [OF w1(2)] by (intro exI [of _ s'] exI [of _ w'] exI [of _ "fs @ gs"]) simp
qed

end

section \<open>Properties\<close>

text \<open>
  C17. The replay window: a ciphertext is refused exactly when its hash is among the last 1000
  accepted ones. The set and the queue of hashes describe the same window, without duplicates.
\<close>

theorem replay_window:
  assumes "replay_inv s" and "rememberCiphertext sha256 c s = (fresh, s')"
  shows "(fresh \<longleftrightarrow> sha256 c \<notin> set (se_replayOrder s))
    \<and> se_replayOrder s' = (if fresh then last_n 1000 (se_replayOrder s @ [sha256 c]) else se_replayOrder s)
    \<and> replay_inv s'"
  using rememberCiphertext_effect [OF assms] by (simp add: replayWindowSize_def)

definition fresh_session :: "cipherAEAD \<Rightarrow> Session" where
  "fresh_session A = \<lparr>se_aead = A, se_readNonce = 0, se_writeNonce = 0, se_profile = None, se_replaySeen = {}, se_replayOrder = []\<rparr>"

text \<open>An AEAD that keeps the contract, for concrete runs: the tag is the nonce and four zero bytes.\<close>

definition tag_aead :: cipherAEAD where
  "tag_aead = \<lparr>NonceSize = 12, Overhead = 16,
     Seal = (\<lambda>n p ad. p @ take 12 (n @ replicate 12 0) @ replicate 4 0),
     Open = (\<lambda>n c ad. if length c < 16 then Err (ErrMsg ''message authentication failed'') else Ok (take (length c - 16) c))\<rparr>"

lemma session_tag_aead: "session_aead tag_aead limit"
  by (auto simp: session_aead_def aead_def tag_aead_def)

lemma distinct_tagged: "length fs < 2 ^ 64 \<Longrightarrow> distinct (ciphertexts tag_aead n fs)"
proof -
  have nth: "i < length fs \<Longrightarrow> ciphertexts A m fs ! i = Seal A (makeNonce (m + word_of_nat i)) (snd (fs ! i)) []" for A m i
    by (induction A m fs arbitrary: i rule: ciphertexts.induct) (auto simp: nth_Cons' algebra_simps of_nat_diff)
  have len: "length (ciphertexts A m fs) = length fs" for A m
    by (induction A m fs rule: ciphertexts.induct) auto
  assume small: "length fs < 2 ^ 64"
  have "i = j" if "i < length fs" "j < length fs" "ciphertexts tag_aead n fs ! i = ciphertexts tag_aead n fs ! j" for i j
  proof -
    have "makeNonce (n + word_of_nat i) = makeNonce (n + word_of_nat j)"
      using that by (simp add: nth tag_aead_def)
    then have "(word_of_nat i :: uint64) = word_of_nat j"
      by (simp add: makeNonce_inj)
    then show ?thesis
      using that small by (simp add: word_of_nat_eq_iff take_bit_nat_eq_self)
  qed
  then show ?thesis
    by (auto simp: distinct_conv_nth len)
qed

lemma readable_tagged:
  assumes "list_all (\<lambda>f. length (snd f) \<le> 1000) fs" and "length fs < 2 ^ 64"
  shows "readable id 1000 (fresh_session tag_aead) fs"
  using assms distinct_tagged [OF assms(2), of 0]
  by (auto simp: readable_def replay_inv_def fresh_session_def fits_def list_all_iff tag_aead_def maxFramePayloadSize_def)

theorem replay_window_witness:
  "\<exists>s1 s2. rememberCiphertext id [1] (fresh_session tag_aead) = (True, s1) \<and> rememberCiphertext id [1] s1 = (False, s2)"
proof -
  let ?s = "fresh_session tag_aead"
  have inv: "replay_inv ?s"
    by (simp add: replay_inv_def fresh_session_def)
  obtain f1 s1 where r1: "rememberCiphertext id [1] ?s = (f1, s1)"
    by (rule prod.exhaust)
  obtain f2 s2 where r2: "rememberCiphertext id [1] s1 = (f2, s2)"
    by (rule prod.exhaust)
  note p1 = replay_window [OF inv r1]
  then have "f1" and s1: "se_replayOrder s1 = [[1]]" and "replay_inv s1"
    by (simp_all add: fresh_session_def last_n_def)
  from replay_window [OF this(3) r2] s1 have "\<not> f2"
    by simp
  with r1 r2 \<open>f1\<close> show ?thesis by auto
qed

text \<open>
  C15. The server side of a session delivers what the peer's frames carry: it reads the destination
  from the first data frame, dispatches to it, hands the data of all data frames to the link in
  order, applies the control frames in between, and closes the link at the close frame. The
  hypotheses are the AEAD contract, payloads that fit a frame, and hashes of the ciphertexts that
  do not collide.
\<close>

theorem session_delivers:
  assumes "newAEAD key = Ok A" and "session_aead A limit" and "length a < 256"
    and "first = (FrameTypeData, word_of_nat (length a) # a @ be_bytes 2 (port :: uint16) @ d)"
    and "readable sha256 limit (fresh_session A) (first # fs @ [(FrameTypeClose, c)])" and "list_all sendable fs"
    and "\<forall>k. poll k = None" and "dispatch (TCPDestination (ParseAddress (bytes_str a)) port) = Ok l"
  shows "\<exists>l'. handleSession newAEAD sha256 dispatch MBC_WriteMultiBuffer lc wr poll key policy
      \<lparr>avail = frames_bytes A 0 (first # fs @ [(FrameTypeClose, c)]) @ rest, ending = e\<rparr> w = (None, Some (lc l'), w)
    \<and> mcontent l' = mcontent l @ d @ data_of fs"
  by (rule mbc_link.handleSession_delivers [where newAEAD = newAEAD and dispatch = dispatch and poll = poll,
      OF assms(1,2) fresh_session_def assms(3-8)])

theorem session_delivers_witness:
  "\<exists>l'. handleSession (\<lambda>_. Ok tag_aead) id (\<lambda>_. Ok []) MBC_WriteMultiBuffer id (\<lambda>w d. (None, w)) (\<lambda>_. None) [] ''zoom''
      \<lparr>avail = frames_bytes tag_aead 0 ((FrameTypeData, [1, 97, 0, 80, 5]) # [(FrameTypeData, [6])] @ [(FrameTypeClose, [])]) @ [],
       ending = EOF\<rparr> () = (None, Some (id l'), ())
    \<and> mcontent l' = mcontent [] @ [5] @ data_of [(FrameTypeData, [6])]"
proof (rule session_delivers [where limit = 100 and a = "[97]" and port = 80])
  show "session_aead tag_aead 100"
    by (rule session_tag_aead)
  show "readable id 100 (fresh_session tag_aead) ((FrameTypeData, [1, 97, 0, 80, 5]) # [(FrameTypeData, [6])] @ [(FrameTypeClose, [])])"
    by (simp add: readable_def replay_inv_def fresh_session_def fits_def tag_aead_def replayWindowSize_def maxFramePayloadSize_def)
      (auto dest: arg_cong [where f = length])
  show "(FrameTypeData, [1, 97, 0, 80, 5]) =
      (FrameTypeData, word_of_nat (length [97 :: byte]) # [97] @ be_bytes 2 (80 :: uint16) @ [5])"
    by code_simp
qed simp_all

text \<open>
  C16. Morphing changes the shape of the traffic and nothing else: forwarding multi-buffers from
  upstream writes frames whose data, concatenated, is exactly the bytes read, all of which a peer
  accepts, sealed under consecutive nonces; it ends with the error that ended the reading. There is no
  bound on the number of buffers or on their total; each single buffer with its seal fits in one frame.
\<close>

theorem morphing_keeps_data:
  assumes "wf_MB w" and "se_profile s = Some (profileFromPolicy policy)" and "aead (se_aead s) limit"
    and "list_all wf_MB mbs"
    and "\<forall>mb \<in> set mbs. \<forall>b \<in> set mb. length (content b) \<le> n" and "8 \<le> n" and "n \<le> limit"
    and "0 < Overhead (se_aead s)" and "n + Overhead (se_aead s) \<le> maxFramePayloadSize"
  shows "\<exists>s' w' fs. forwardUpstreamToClient (MBC_Write pad) rnd 0 mbs err s w = (err, s', w')
    \<and> mcontent w' = mcontent w @ frames_bytes (se_aead s) (se_writeNonce s) fs
    \<and> data_of fs = concat (map mcontent mbs) \<and> list_all sendable fs
    \<and> se_writeNonce s' = se_writeNonce s + word_of_nat (length fs)"
proof -
  have "fits (se_aead s) limit x" if "length x \<le> n" for x
    using that assms(7-9) by (simp add: fits_def)
  then obtain s' w' fs where f: "forwardUpstreamToClient (MBC_Write pad) rnd 0 mbs err s w = (err, s', w')"
      "mbc.morphed s w fs s' w'" "data_of fs = concat (map mcontent mbs)"
    using mbc.forwardUpstreamToClient_morphed [OF assms(1,2) profileFromPolicy_good assms(3-6)] by blast
  then show ?thesis
    by (intro exI [of _ s'] exI [of _ w'] exI [of _ fs]) (auto simp: mbc.morphed_def)
qed

theorem morphing_keeps_data_witness:
  "\<exists>s' w' fs. forwardUpstreamToClient (MBC_Write []) (\<lambda>_ _ _. 1 / 2) 0 [[FromBytes [1, 2]], [FromBytes [3]]] EOF
       ((fresh_session tag_aead)\<lparr>se_profile := Some (profileFromPolicy ''zoom'')\<rparr>) [] = (EOF, s', w')
     \<and> data_of fs = [1, 2, 3] \<and> mcontent w' = frames_bytes tag_aead 0 fs"
proof -
  let ?s = "(fresh_session tag_aead)\<lparr>se_profile := Some (profileFromPolicy ''zoom'')\<rparr>"
  have "aead (se_aead ?s) 100"
    using session_tag_aead by (simp add: session_aead_def fresh_session_def)
  moreover have "0 < Overhead (se_aead ?s)" "8 + Overhead (se_aead ?s) \<le> maxFramePayloadSize"
    by (simp_all add: fresh_session_def tag_aead_def maxFramePayloadSize_def)
  ultimately show ?thesis
    using morphing_keeps_data [of "[]" ?s "''zoom''" 100 "[[FromBytes [1, 2]], [FromBytes [3]]]" 8 "[]" "\<lambda>_ _ _. 1 / 2" EOF]
    by (auto simp: fresh_session_def)
qed

end
