(* ===== verification/UUID.thy ===== *)
theory UUID
  imports Prelude
begin

text \<open>
  UUIDs: \<open>common/uuid/uuid.go\<close>, with the hexadecimal coding of Go's \<open>encoding/hex\<close>.

  A UUID is its 16 bytes. Random bytes and the SHA-1 function are arguments. The lemmas show that
  the textual form determines the UUID and that \<open>ParseString\<close> reads it back.
\<close>

section \<open>encoding/hex\<close>

definition hextable :: string where "hextable = ''0123456789abcdef''"

definition hex_byte :: "byte \<Rightarrow> string" where
  "hex_byte b = [hextable ! unat (drop_bit 4 b), hextable ! unat (b AND 0x0f)]"

definition EncodeToString :: "bytes \<Rightarrow> string" where
  "EncodeToString bs = concat (map hex_byte bs)"

definition fromHexChar :: "char \<Rightarrow> byte option" where
  "fromHexChar c =
     (let n = of_char c :: nat in
      if 48 \<le> n \<and> n \<le> 57 then Some (word_of_nat (n - 48))
      else if 97 \<le> n \<and> n \<le> 102 then Some (word_of_nat (n - 87))
      else if 65 \<le> n \<and> n \<le> 70 then Some (word_of_nat (n - 55))
      else None)"

fun hex_Decode :: "string \<Rightarrow> bytes result" where
  "hex_Decode [] = Ok []"
| "hex_Decode [p] =
     (case fromHexChar p of
        None \<Rightarrow> Err (ErrMsg ''encoding/hex: invalid byte'')
      | Some _ \<Rightarrow> Err (ErrMsg ''encoding/hex: odd length hex string''))"
| "hex_Decode (p # q # src) =
     (case fromHexChar p of
        None \<Rightarrow> Err (ErrMsg ''encoding/hex: invalid byte'')
      | Some a \<Rightarrow>
          (case fromHexChar q of
             None \<Rightarrow> Err (ErrMsg ''encoding/hex: invalid byte'')
           | Some b \<Rightarrow>
               (case hex_Decode src of
                  Inl e \<Rightarrow> Err e
                | Inr bs \<Rightarrow> Ok ((push_bit 4 a OR b) # bs))))"

section \<open>UUID\<close>

type_synonym UUID = bytes

definition byteGroups :: "nat list" where "byteGroups = [8, 4, 4, 4, 12]"

fun groupStrings :: "nat list \<Rightarrow> bytes \<Rightarrow> string" where
  "groupStrings [] bs = []"
| "groupStrings (g # gs) bs = ''-'' @ EncodeToString (take (g div 2) bs) @ groupStrings gs (drop (g div 2) bs)"

definition UUID_String :: "UUID \<Rightarrow> string" where
  "UUID_String u =
     EncodeToString (take (hd byteGroups div 2) u) @ groupStrings (tl byteGroups) (drop (hd byteGroups div 2) u)"

definition UUID_Equals :: "UUID option \<Rightarrow> UUID option \<Rightarrow> bool" where
  "UUID_Equals u another =
     (case (u, another) of
        (None, None) \<Rightarrow> True
      | (Some a, Some b) \<Rightarrow> a = b
      | _ \<Rightarrow> False)"

definition set_version :: "byte \<Rightarrow> bytes \<Rightarrow> bytes" where
  "set_version v u =
     (let u1 = u[6 := (u ! 6 AND 0x0f) OR push_bit 4 v] in
      u1[8 := (u1 ! 8 AND drop_bit 2 0xff) OR push_bit 6 0x02])"

definition UUID_New :: "bytes \<Rightarrow> UUID" where
  "UUID_New random = set_version 4 (take 16 random)"

definition ParseBytes :: "bytes \<Rightarrow> UUID result" where
  "ParseBytes b = (if length b \<noteq> 16 then Err (ErrMsg ''invalid UUID'') else Ok b)"

fun parseGroups :: "nat list \<Rightarrow> string \<Rightarrow> bytes result" where
  "parseGroups [] txt = Ok []"
| "parseGroups (g # gs) txt =
     (let txt1 = (if txt \<noteq> [] \<and> hd txt = CHR ''-'' then tl txt else txt) in
      if length txt1 < g then Err (ErrMsg ''invalid UUID'')
      else
        (case hex_Decode (take g txt1) of
           Inl e \<Rightarrow> Err e
         | Inr bs \<Rightarrow>
             (case parseGroups gs (drop g txt1) of
                Inl e \<Rightarrow> Err e
              | Inr r \<Rightarrow> Ok (bs @ r))))"

definition ParseString :: "(bytes \<Rightarrow> bytes) \<Rightarrow> string \<Rightarrow> UUID result" where
  "ParseString sha1 str =
     (let l = length str in
      if l < 32 \<or> l > 36 then
        (if l = 0 \<or> l > 30 then Err (ErrMsg ''invalid UUID'')
         else Ok (set_version 5 (take 16 (sha1 (replicate 16 0 @ str_bytes str)))))
      else parseGroups byteGroups str)"

section \<open>The textual form\<close>

lemma nibble_nth: "i < 16 \<Longrightarrow> fromHexChar (hextable ! i) = Some (word_of_nat i) \<and> hextable ! i \<noteq> CHR ''-''"
  by (auto simp: less_Suc_eq numeral_eq_Suc) (simp_all add: hextable_def fromHexChar_def)

lemma nibbles:
  "unat (drop_bit 4 (b :: byte)) < 16" "unat (b AND 0x0f) < 16"
  "push_bit 4 (drop_bit 4 b) OR (b AND 0x0f) = b"
proof -
  have "unat (drop_bit 4 b) = unat b div 16"
    by (simp add: drop_bit_eq_div unat_div)
  then show "unat (drop_bit 4 b) < 16"
    using unat_bound [of b] by simp
  have "b AND 0x0f \<le> 15"
    by (rule word_and_le1)
  then show "unat (b AND 0x0f) < 16"
    by (simp add: word_le_nat_alt)
  have "b AND 0x0f = take_bit 4 b"
    by (simp add: take_bit_eq_mask mask_numeral and.commute)
  then show "push_bit 4 (drop_bit 4 b) OR (b AND 0x0f) = b"
    by (auto intro!: bit_word_eqI simp: bit_simps)
qed

lemma hex_Decode_EncodeToString [simp]: "hex_Decode (EncodeToString bs) = Ok bs"
proof (induction bs)
  case (Cons b bs)
  then show ?case
    using nibble_nth [OF nibbles(1) [of b]] nibble_nth [OF nibbles(2) [of b]] nibbles(3) [of b]
    by (simp add: EncodeToString_def hex_byte_def)
qed (simp add: EncodeToString_def)

lemma length_EncodeToString [simp]: "length (EncodeToString bs) = 2 * length bs"
  by (induction bs) (simp_all add: EncodeToString_def hex_byte_def)

lemma EncodeToString_no_dash: "CHR ''-'' \<notin> set (EncodeToString bs)"
proof -
  have "CHR ''-'' \<notin> set (hex_byte b)" for b
    using nibble_nth [OF nibbles(1) [of b]] nibble_nth [OF nibbles(2) [of b]] by (auto simp: hex_byte_def)
  then show ?thesis by (auto simp: EncodeToString_def)
qed

lemma groupStrings_parse:
  "length bs = sum_list (map (\<lambda>g. g div 2) gs) \<Longrightarrow> \<forall>g\<in>set gs. even g \<Longrightarrow> parseGroups gs (groupStrings gs bs) = Ok bs"
proof (induction gs arbitrary: bs)
  case (Cons g gs)
  have "length (EncodeToString (take (g div 2) bs)) = g"
    using Cons.prems by auto
  then show ?case
    using Cons by simp
qed simp

lemma UUID_String_length: "length u = 16 \<Longrightarrow> length (UUID_String u) = 36"
  by (simp add: UUID_String_def byteGroups_def)

lemma ParseString_String:
  assumes "length u = 16"
  shows "ParseString sha1 (UUID_String u) = Ok u"
proof -
  let ?h = "EncodeToString (take 4 u)" and ?r = "groupStrings [4, 4, 4, 12] (drop 4 u)"
  have s: "UUID_String u = ?h @ ?r"
    by (simp add: UUID_String_def byteGroups_def)
  have len: "length ?h = 8" using assms by simp
  then have ne: "?h \<noteq> []" by (metis length_0_conv zero_neq_numeral)
  then have "hd (?h @ ?r) \<noteq> CHR ''-''"
    using EncodeToString_no_dash [of "take 4 u"] by (metis hd_append2 hd_in_set)
  moreover have "parseGroups [4, 4, 4, 12] ?r = Ok (drop 4 u)"
    using assms by (intro groupStrings_parse) simp_all
  ultimately have "parseGroups byteGroups (?h @ ?r) = Ok u"
    using len by (simp add: byteGroups_def del: groupStrings.simps parseGroups.simps(2))
      (simp add: parseGroups.simps(2) [of 8] del: groupStrings.simps)
  then have "parseGroups byteGroups (UUID_String u) = Ok u"
    by (simp only: s)
  then show ?thesis
    using UUID_String_length [OF assms] by (simp add: ParseString_def)
qed

lemma UUID_String_inj: "length u = 16 \<Longrightarrow> length v = 16 \<Longrightarrow> UUID_String u = UUID_String v \<longleftrightarrow> u = v"
  by (metis ParseString_String sum.inject(2))

section \<open>Properties\<close>

text \<open>
  C31. The canonical text of a UUID parses back to it, whatever hash is used for short names, and
  different UUIDs have different texts; so comparing texts decides equality.
\<close>

theorem uuid_text_faithful:
  assumes "length u = 16" and "length v = 16"
  shows "ParseString sha1 (UUID_String u) = Ok u \<and> (UUID_String u = UUID_String v \<longleftrightarrow> UUID_Equals (Some u) (Some v))"
  using ParseString_String [OF assms(1)] UUID_String_inj [OF assms] by (simp add: UUID_Equals_def)

theorem uuid_text_faithful_witness:
  "ParseString (\<lambda>_. []) (UUID_String (replicate 16 255)) = Ok (replicate 16 255)
   \<and> UUID_String (replicate 16 255) \<noteq> UUID_String (replicate 16 0)"
  using uuid_text_faithful [of "replicate 16 255" "replicate 16 0" "\<lambda>_. []"] by (simp add: UUID_Equals_def)

end
