(* ===== verification/Reflex_Handshake.thy ===== *)
theory Reflex_Handshake
  imports Reflex_Session UUID "HOL-Library.AList"
begin

text \<open>
  The Reflex handshake: \<open>proxy/reflex/inbound/handshake.go\<close>.

  Cryptographic primitives and the random values drawn for one handshake are the record \<open>Crypto\<close>,
  an argument. The wall clock is an argument in nanoseconds since the Unix epoch. Base64 is written
  out; the JSON decoder and the HTTP request reader of the standard library are arguments.
\<close>

section \<open>Messages\<close>

definition ReflexMagic :: uint32 where "ReflexMagic = 0x5246584C"
definition maxPolicyPayloadSize :: nat where "maxPolicyPayloadSize = 4096"
definition handshakeSkew :: int where "handshakeSkew = 5 * 60 * 1000000000"
definition defaultNonceLifetime :: int where "defaultNonceLifetime = 15 * 60 * 1000000000"

record ClientHandshake =
  ch_PublicKey :: bytes
  ch_UserID :: bytes
  ch_PolicyReq :: bytes
  ch_Timestamp :: int
  ch_Nonce :: bytes

record ServerHandshake =
  sh_PublicKey :: bytes
  sh_PolicyGrant :: bytes

definition be32 :: "bytes \<Rightarrow> uint32" where "be32 bs = be_val bs"
definition be16 :: "bytes \<Rightarrow> uint16" where "be16 bs = be_val bs"
definition be64 :: "bytes \<Rightarrow> uint64" where "be64 bs = be_val bs"

definition sub_bytes :: "nat \<Rightarrow> nat \<Rightarrow> bytes \<Rightarrow> bytes" where
  "sub_bytes i j bs = take (j - i) (drop i bs)"

definition readBinaryHandshake :: "stream \<Rightarrow> ClientHandshake result \<times> stream" where
  "readBinaryHandshake r =
     (case read_full 74 r of
        (Inl e, r1) \<Rightarrow> (Err e, r1)
      | (Inr head, r1) \<Rightarrow>
          (let hs = \<lparr>ch_PublicKey = sub_bytes 0 32 head, ch_UserID = sub_bytes 32 48 head, ch_PolicyReq = [],
                     ch_Timestamp = sint (be64 (sub_bytes 48 56 head)), ch_Nonce = sub_bytes 56 72 head\<rparr>;
               policyLen = be16 (sub_bytes 72 74 head) in
           if policyLen > word_of_nat maxPolicyPayloadSize
           then (Err (ErrMsg ''reflex handshake policy too large''), r1)
           else if policyLen > 0 then
             (case read_full (unat policyLen) r1 of
                (Inl e, r2) \<Rightarrow> (Err e, r2)
              | (Inr p, r2) \<Rightarrow> (Ok (hs\<lparr>ch_PolicyReq := p\<rparr>), r2))
           else (Ok hs, r1)))"

definition parseBinaryHandshake :: "bytes \<Rightarrow> ClientHandshake result" where
  "parseBinaryHandshake raw =
     (if length raw < 74 then Err (ErrMsg ''reflex handshake too short'')
      else
        let policyLen = unat (be16 (sub_bytes 72 74 raw)) in
        if policyLen > maxPolicyPayloadSize then Err (ErrMsg ''reflex handshake policy too large'')
        else if length raw \<noteq> 74 + policyLen then Err (ErrMsg ''reflex handshake malformed payload length'')
        else Ok \<lparr>ch_PublicKey = sub_bytes 0 32 raw, ch_UserID = sub_bytes 32 48 raw,
                 ch_PolicyReq = (if policyLen > 0 then drop 74 raw else []),
                 ch_Timestamp = sint (be64 (sub_bytes 48 56 raw)), ch_Nonce = sub_bytes 56 72 raw\<rparr>)"

definition marshalServerHandshake :: "ServerHandshake \<Rightarrow> bytes" where
  "marshalServerHandshake hs =
     sh_PublicKey hs @ be_bytes 2 (word_of_nat (length (sh_PolicyGrant hs)) :: uint16) @ sh_PolicyGrant hs"

section \<open>Base64 and HTTP text\<close>

definition b64_table :: string where
  "b64_table = ''ABCDEFGHIJKLMNOPQRSTUVWXYZabcdefghijklmnopqrstuvwxyz0123456789+/''"

definition b64_char :: "nat \<Rightarrow> char" where "b64_char n = b64_table ! n"

fun b64_encode :: "bytes \<Rightarrow> string" where
  "b64_encode [] = []"
| "b64_encode [a] =
     (let v = unat a * 16 in [b64_char (v div 64), b64_char (v mod 64), CHR ''='', CHR ''=''])"
| "b64_encode [a, b] =
     (let v = (unat a * 256 + unat b) * 4 in
      [b64_char (v div 4096), b64_char (v div 64 mod 64), b64_char (v mod 64), CHR ''=''])"
| "b64_encode (a # b # c # rest) =
     (let v = (unat a * 256 + unat b) * 256 + unat c in
      [b64_char (v div 262144), b64_char (v div 4096 mod 64), b64_char (v div 64 mod 64), b64_char (v mod 64)]
      @ b64_encode rest)"

definition b64_value :: "char \<Rightarrow> nat option" where
  "b64_value c =
     (let n = of_char c :: nat in
      if 65 \<le> n \<and> n \<le> 90 then Some (n - 65)
      else if 97 \<le> n \<and> n \<le> 122 then Some (n - 71)
      else if 48 \<le> n \<and> n \<le> 57 then Some (n + 4)
      else if c = CHR ''+'' then Some 62
      else if c = CHR ''/'' then Some 63
      else None)"

definition corrupt :: "bytes result" where
  "corrupt = Err (ErrMsg ''illegal base64 data'')"

text \<open>One quantum after another; \<open>=\<close> is allowed at the end of the last one only.\<close>

fun b64_quanta :: "string \<Rightarrow> bytes result" where
  "b64_quanta [] = Ok []"
| "b64_quanta (c1 # c2 # c3 # c4 # rest) =
     (case (b64_value c1, b64_value c2) of
        (Some x1, Some x2) \<Rightarrow>
          (case b64_value c3 of
             None \<Rightarrow>
               (if c3 = CHR ''='' \<and> c4 = CHR ''='' \<and> rest = []
                then Ok [word_of_nat ((x1 * 64 + x2) div 16)] else corrupt)
           | Some x3 \<Rightarrow>
               (case b64_value c4 of
                  None \<Rightarrow>
                    (if c4 = CHR ''='' \<and> rest = []
                     then let v = ((x1 * 64 + x2) * 64 + x3) div 4 in
                          Ok [word_of_nat (v div 256), word_of_nat (v mod 256)]
                     else corrupt)
                | Some x4 \<Rightarrow>
                    (let v = ((x1 * 64 + x2) * 64 + x3) * 64 + x4 in
                     case b64_quanta rest of
                       Inl e \<Rightarrow> Err e
                     | Inr bs \<Rightarrow> Ok (word_of_nat (v div 65536) # word_of_nat (v div 256 mod 256)
                                   # word_of_nat (v mod 256) # bs))))
      | _ \<Rightarrow> corrupt)"
| "b64_quanta _ = corrupt"

definition b64_DecodeString :: "string \<Rightarrow> bytes result" where
  "b64_DecodeString s = b64_quanta (filter (\<lambda>c. c \<noteq> CHR 0x0A \<and> c \<noteq> CHR 0x0D) s)"

definition dec_digit :: "nat \<Rightarrow> char" where "dec_digit n = ''0123456789'' ! n"

fun decimal :: "nat \<Rightarrow> string" where
  "decimal n = (if n < 10 then [dec_digit n] else decimal (n div 10) @ [dec_digit (n mod 10)])"

declare decimal.simps [simp del]

definition crlf :: string where "crlf = [CHR 0x0D, CHR 0x0A]"

text \<open>\<open>json.Marshal\<close> of the envelope, for a base64 string: none of its characters is escaped.\<close>

definition json_envelope :: "string \<Rightarrow> string" where
  "json_envelope d = ''{'' @ [CHR 0x22] @ ''data'' @ [CHR 0x22] @ '':'' @ [CHR 0x22] @ d @ [CHR 0x22] @ ''}''"

definition responseText :: "ServerHandshake \<Rightarrow> string" where
  "responseText hs =
     (let body = json_envelope (b64_encode (marshalServerHandshake hs)) in
      ''HTTP/1.1 200 OK'' @ crlf @ ''Content-Type: application/json'' @ crlf @
      ''Content-Length: '' @ decimal (length body) @ crlf @ ''Connection: keep-alive'' @ crlf @ crlf @ body)"

definition writeHandshakeResponse :: "'w writer \<Rightarrow> ServerHandshake \<Rightarrow> 'w \<Rightarrow> goerror option \<times> 'w" where
  "writeHandshakeResponse wr hs w = wr w (str_bytes (responseText hs))"

definition StatusForbidden :: nat where "StatusForbidden = 403"
definition StatusInternalServerError :: nat where "StatusInternalServerError = 500"

definition StatusText :: "nat \<Rightarrow> string" where
  "StatusText status =
     (if status = 403 then ''Forbidden'' else if status = 500 then ''Internal Server Error'' else [])"

definition errorText :: "nat \<Rightarrow> string" where
  "errorText status =
     (let txt = (if StatusText status = [] then ''Error'' else StatusText status) in
      ''HTTP/1.1 '' @ decimal status @ '' '' @ txt @ crlf @ ''Content-Type: text/plain'' @ crlf @
      ''Content-Length: '' @ decimal (length txt) @ crlf @ ''Connection: close'' @ crlf @ crlf @ txt)"

definition writeHTTPError :: "'w writer \<Rightarrow> nat \<Rightarrow> 'w \<Rightarrow> goerror option \<times> 'w" where
  "writeHTTPError wr status w = wr w (str_bytes (errorText status))"

section \<open>The client's message\<close>

text \<open>The one encoding of a client handshake.\<close>

definition client_bytes :: "ClientHandshake \<Rightarrow> bytes" where
  "client_bytes hs =
     ch_PublicKey hs @ ch_UserID hs @ be_bytes 8 (word_of_int (ch_Timestamp hs) :: uint64) @ ch_Nonce hs
     @ be_bytes 2 (word_of_nat (length (ch_PolicyReq hs)) :: uint16) @ ch_PolicyReq hs"

definition wf_ClientHandshake :: "ClientHandshake \<Rightarrow> bool" where
  "wf_ClientHandshake hs \<longleftrightarrow> length (ch_PublicKey hs) = 32 \<and> length (ch_UserID hs) = 16 \<and> length (ch_Nonce hs) = 16
     \<and> length (ch_PolicyReq hs) \<le> maxPolicyPayloadSize \<and> - (2 ^ 63) \<le> ch_Timestamp hs \<and> ch_Timestamp hs < 2 ^ 63"

lemma sub_bytes_append: "sub_bytes i j (xs @ ys) =
    (if j \<le> length xs then sub_bytes i j xs
     else if length xs \<le> i then sub_bytes (i - length xs) (j - length xs) ys
     else drop i xs @ take (j - length xs) ys)"
  by (auto simp: sub_bytes_def)

lemma sub_bytes_all: "i = 0 \<Longrightarrow> length xs \<le> j \<Longrightarrow> sub_bytes i j xs = xs"
  by (simp add: sub_bytes_def)

lemma sint_of_int64: "- (2 ^ 63) \<le> t \<Longrightarrow> t < 2 ^ 63 \<Longrightarrow> sint (word_of_int t :: uint64) = t"
  by (simp add: int_word_sint)

lemma client_head:
  assumes "wf_ClientHandshake hs"
  shows "sub_bytes 0 32 (client_bytes hs @ rest) = ch_PublicKey hs" "sub_bytes 32 48 (client_bytes hs @ rest) = ch_UserID hs"
    and "sint (be64 (sub_bytes 48 56 (client_bytes hs @ rest))) = ch_Timestamp hs"
    and "sub_bytes 56 72 (client_bytes hs @ rest) = ch_Nonce hs"
    and "be16 (sub_bytes 72 74 (client_bytes hs @ rest)) = word_of_nat (length (ch_PolicyReq hs))"
    and "drop 74 (client_bytes hs @ rest) = ch_PolicyReq hs @ rest"
    and "length (client_bytes hs @ rest) = 74 + length (ch_PolicyReq hs) + length rest"
  using assms
  by (simp_all add: wf_ClientHandshake_def client_bytes_def sub_bytes_append sub_bytes_all be64_def be16_def
      sint_of_int64 del: be_bytes.simps)

lemma policy_length:
  assumes "wf_ClientHandshake hs"
  shows "unat (word_of_nat (length (ch_PolicyReq hs)) :: uint16) = length (ch_PolicyReq hs)"
  using assms by (simp add: wf_ClientHandshake_def maxPolicyPayloadSize_def unat_of_nat take_bit_nat_eq_self)

lemma parseBinaryHandshake_client_bytes:
  assumes "wf_ClientHandshake hs"
  shows "parseBinaryHandshake (client_bytes hs) = Ok hs"
proof -
  note h = client_head [OF assms, where rest = "[]", simplified]
  have "ch_PolicyReq hs = [] \<or> length (ch_PolicyReq hs) > 0"
    by simp
  then show ?thesis
    using h policy_length [OF assms] assms
    by (auto simp: parseBinaryHandshake_def wf_ClientHandshake_def Let_def)
qed

lemma bytes_split:
  assumes "74 \<le> length raw"
  shows "raw = sub_bytes 0 32 raw @ sub_bytes 32 48 raw @ sub_bytes 48 56 raw @ sub_bytes 56 72 raw
    @ sub_bytes 72 74 raw @ drop 74 raw"
proof -
  have step: "sub_bytes i j raw @ drop j raw = drop i raw" if "i \<le> j" for i j
    using that append_take_drop_id [of "j - i" "drop i raw"] by (simp add: sub_bytes_def)
  show ?thesis
    using step [of 72 74] step [of 56 72] step [of 48 56] step [of 32 48] step [of 0 32] by simp
qed

lemma parseBinaryHandshake_fields:
  assumes "parseBinaryHandshake raw = Ok hs"
  defines "n \<equiv> be16 (sub_bytes 72 74 raw)"
  shows "74 \<le> length raw" and "length raw = 74 + unat n" and "unat n \<le> maxPolicyPayloadSize"
    and "hs = \<lparr>ch_PublicKey = sub_bytes 0 32 raw, ch_UserID = sub_bytes 32 48 raw, ch_PolicyReq = drop 74 raw,
      ch_Timestamp = sint (be64 (sub_bytes 48 56 raw)), ch_Nonce = sub_bytes 56 72 raw\<rparr>"
proof -
  show len: "74 \<le> length raw" "length raw = 74 + unat n" "unat n \<le> maxPolicyPayloadSize"
    using assms by (simp_all add: parseBinaryHandshake_def Let_def split: if_split_asm)
  have "parseBinaryHandshake raw = Ok \<lparr>ch_PublicKey = sub_bytes 0 32 raw, ch_UserID = sub_bytes 32 48 raw,
      ch_PolicyReq = (if unat n > 0 then drop 74 raw else []), ch_Timestamp = sint (be64 (sub_bytes 48 56 raw)),
      ch_Nonce = sub_bytes 56 72 raw\<rparr>"
    unfolding parseBinaryHandshake_def Let_def n_def [symmetric] using len by (simp only: not_less if_not_P not_le simp_thms)
  moreover have "(if unat n > 0 then drop 74 raw else []) = drop 74 raw"
    using len(2) by simp
  ultimately show "hs = \<lparr>ch_PublicKey = sub_bytes 0 32 raw, ch_UserID = sub_bytes 32 48 raw, ch_PolicyReq = drop 74 raw,
      ch_Timestamp = sint (be64 (sub_bytes 48 56 raw)), ch_Nonce = sub_bytes 56 72 raw\<rparr>"
    using assms(1) by (simp only: sum.inject)
qed

lemma parseBinaryHandshake_Ok:
  assumes "parseBinaryHandshake raw = Ok hs"
  shows "wf_ClientHandshake hs \<and> raw = client_bytes hs"
proof -
  let ?n = "be16 (sub_bytes 72 74 raw)" and ?t = "be64 (sub_bytes 48 56 raw)"
  note len = parseBinaryHandshake_fields(1-3) [OF assms] and hs = parseBinaryHandshake_fields(4) [OF assms]
  have ls: "length (sub_bytes 0 32 raw) = 32" "length (sub_bytes 32 48 raw) = 16" "length (sub_bytes 48 56 raw) = 8"
      "length (sub_bytes 56 72 raw) = 16" "length (sub_bytes 72 74 raw) = 2"
    using len(1) by (simp_all add: sub_bytes_def)
  have ld: "length (drop 74 raw) = unat ?n"
    using len(2) by simp
  have t: "be_bytes 8 ?t = sub_bytes 48 56 raw" and n: "be_bytes 2 ?n = sub_bytes 72 74 raw"
    using be_bytes_be_val [of "sub_bytes 48 56 raw", where 'a = 64] be_bytes_be_val [of "sub_bytes 72 74 raw", where 'a = 16]
      ls(3,5) by (simp_all add: be64_def be16_def del: be_bytes.simps)
  have "- (2 ^ 63) \<le> sint ?t \<and> sint ?t < 2 ^ 63"
    using sint_greater_eq [of ?t] sint_less [of ?t] by simp
  then have "wf_ClientHandshake hs"
    using ls ld len(3) by (simp add: wf_ClientHandshake_def hs)
  moreover have "client_bytes hs = raw"
    using bytes_split [OF len(1)] t n ld by (simp add: client_bytes_def hs del: be_bytes.simps)
  ultimately show ?thesis by simp
qed

lemma readBinaryHandshake_parsed:
  assumes "parseBinaryHandshake raw = Ok hs"
  shows "readBinaryHandshake \<lparr>avail = raw @ rest, ending = e\<rparr> = (Ok hs, \<lparr>avail = rest, ending = e\<rparr>)"
proof -
  define head p where "head = take 74 raw" and "p = drop 74 raw"
  let ?n = "be16 (sub_bytes 72 74 head)"
  have "74 \<le> length raw"
    by (rule parseBinaryHandshake_fields(1) [OF assms])
  then have raw: "raw = head @ p" and head: "length head = 74"
    by (simp_all add: head_def p_def)
  have sub: "sub_bytes i j raw = sub_bytes i j head" if "j \<le> 74" for i j
    using that head by (simp add: raw sub_bytes_append)
  have n: "unat ?n \<le> maxPolicyPayloadSize" "length p = unat ?n"
    using parseBinaryHandshake_fields(2,3) [OF assms] by (simp_all add: sub p_def)
  have hs: "hs = \<lparr>ch_PublicKey = sub_bytes 0 32 head, ch_UserID = sub_bytes 32 48 head, ch_PolicyReq = p,
      ch_Timestamp = sint (be64 (sub_bytes 48 56 head)), ch_Nonce = sub_bytes 56 72 head\<rparr>"
    using parseBinaryHandshake_fields(4) [OF assms] by (simp add: sub p_def)
  have small: "\<not> ?n > word_of_nat maxPolicyPayloadSize"
    using n(1) by (simp add: word_less_nat_alt maxPolicyPayloadSize_def)
  have "read_full 74 \<lparr>avail = raw @ rest, ending = e\<rparr> = (Ok head, \<lparr>avail = p @ rest, ending = e\<rparr>)"
    using head by (simp add: raw read_full_append)
  moreover have "read_full (unat ?n) \<lparr>avail = p @ rest, ending = e\<rparr> = (Ok p, \<lparr>avail = rest, ending = e\<rparr>)"
    using n(2) by (simp add: read_full_append)
  ultimately show ?thesis
    using small n(2) by (cases "?n = 0") (simp_all add: readBinaryHandshake_def Let_def hs word_neq_0_conv)
qed

lemma readBinaryHandshake_Ok:
  assumes "readBinaryHandshake r = (Ok hs, r')"
  shows "\<exists>raw. avail r = raw @ avail r' \<and> ending r' = ending r \<and> parseBinaryHandshake raw = Ok hs"
proof -
  obtain head r1 where rd: "read_full 74 r = (Inr head, r1)"
    using assms by (auto simp: readBinaryHandshake_def split: sum.splits prod.splits)
  note a = read_full_OkD [OF rd]
  let ?n = "be16 (sub_bytes 72 74 head)"
  have small: "\<not> ?n > word_of_nat maxPolicyPayloadSize"
    using assms rd by (auto simp: readBinaryHandshake_def Let_def split: if_splits)
  then have small': "unat ?n \<le> maxPolicyPayloadSize"
    by (simp add: word_less_nat_alt maxPolicyPayloadSize_def not_less)
  have sub: "sub_bytes i j (head @ p) = sub_bytes i j head" if "j \<le> 74" for i j p
    using that a(2) by (simp add: sub_bytes_def)
  show ?thesis
  proof (cases "?n > 0")
    case True
    obtain p r2 where rp: "read_full (unat ?n) r1 = (Inr p, r2)"
      using assms rd small True by (auto simp: readBinaryHandshake_def Let_def split: sum.splits prod.splits)
    note b = read_full_OkD [OF rp]
    have "parseBinaryHandshake (head @ p) = Ok hs" and "r' = r2"
      using assms rd rp small small' True a(2) b(2)
      by (auto simp: readBinaryHandshake_def parseBinaryHandshake_def sub Let_def)
    then show ?thesis
      using a b by (intro exI [of _ "head @ p"]) simp
  next
    case False
    have "parseBinaryHandshake head = Ok hs" and "r' = r1"
      using assms rd small small' False a(2)
      by (auto simp: readBinaryHandshake_def parseBinaryHandshake_def Let_def word_less_nat_alt)
    then show ?thesis
      using a by (intro exI [of _ head]) simp
  qed
qed

section \<open>Base64\<close>

section \<open>Base64\<close>

lemma b64_table_values: "map b64_value b64_table = map Some [0..<64]"
  by (simp add: b64_table_def b64_value_def upt_conv_Cons)

lemma b64_value_char [simp]:
  assumes "n < 64"
  shows "b64_value (b64_char n) = Some n"
proof -
  have "length b64_table = 64"
    by (simp add: b64_table_def)
  then show ?thesis
    using assms arg_cong [OF b64_table_values, where f = "\<lambda>l. l ! n"] by (simp add: b64_char_def)
qed

lemma b64_value_pad [simp]: "b64_value CHR ''='' = None"
  by (simp add: b64_value_def)

lemma base_64_digits:
  fixes v :: nat
  shows "v div 64 * 64 + v mod 64 = v" "(v div 4096 * 64 + v div 64 mod 64) * 64 + v mod 64 = v"
    "((v div 262144 * 64 + v div 4096 mod 64) * 64 + v div 64 mod 64) * 64 + v mod 64 = v"
proof -
  have q: "v div 4096 = v div 64 div 64" "v div 262144 = v div 64 div 64 div 64"
    by (simp_all add: div_mult2_eq [symmetric])
  show "v div 64 * 64 + v mod 64 = v" "(v div 4096 * 64 + v div 64 mod 64) * 64 + v mod 64 = v"
    "((v div 262144 * 64 + v div 4096 mod 64) * 64 + v div 64 mod 64) * 64 + v mod 64 = v"
    by (simp_all only: q div_mult_mod_eq)
qed

lemma byte_digit: "c < 256 \<Longrightarrow> (q * 256 + c) div 256 = q \<and> (q * 256 + c) mod 256 = (c :: nat)"
  by simp

lemma b64_quantum:
  assumes "b64_value c1 = Some x1" "b64_value c2 = Some x2" "b64_value c3 = Some x3" "b64_value c4 = Some x4"
    and "((x1 * 64 + x2) * 64 + x3) * 64 + x4 = v" and "b64_quanta rest = Ok bs"
  shows "b64_quanta (c1 # c2 # c3 # c4 # rest)
    = Ok (word_of_nat (v div 65536) # word_of_nat (v div 256 mod 256) # word_of_nat (v mod 256) # bs)"
  using assms by (simp only: b64_quanta.simps prod.case option.case sum.case Let_def)

lemma b64_quanta_encode: "b64_quanta (b64_encode bs) = Ok bs"
proof (induction bs rule: b64_encode.induct)
  case (2 a)
  let ?v = "unat a * 16"
  have "?v div 64 < 64"
    using unat_bound [of a] by simp
  moreover have "(?v div 64 * 64 + ?v mod 64) div 16 = unat a"
    by (simp only: base_64_digits)
  ultimately show ?case by (simp add: Let_def del: div_mult_self4)
next
  case (3 a b)
  let ?v = "(unat a * 256 + unat b) * 4"
  have "?v div 4096 < 64"
    using unat_bound [of a] unat_bound [of b] by simp
  moreover have "((?v div 4096 * 64 + ?v div 64 mod 64) * 64 + ?v mod 64) div 4 = unat a * 256 + unat b"
    by (simp only: base_64_digits) simp
  moreover have "(unat a * 256 + unat b) div 256 = unat a" "(unat a * 256 + unat b) mod 256 = unat b"
    using unat_bound [of b] by simp_all
  ultimately show ?case by (simp add: Let_def)
next
  case (4 a b c rest)
  let ?v = "(unat a * 256 + unat b) * 256 + unat c"
  have "?v div 262144 < 64"
    using unat_bound [of a] unat_bound [of b] unat_bound [of c] by simp
  moreover have "?v div 65536 = unat a" "?v div 256 mod 256 = unat b" "?v mod 256 = unat c"
  proof -
    have q: "?v div 256 = unat a * 256 + unat b" "?v mod 256 = unat c"
      by (rule byte_digit [THEN conjunct1], use unat_bound [of c] in simp)
        (rule byte_digit [THEN conjunct2], use unat_bound [of c] in simp)
    have "?v div 65536 = ?v div 256 div 256"
      by (simp add: div_mult2_eq [symmetric])
    then show "?v div 65536 = unat a" "?v div 256 mod 256 = unat b" "?v mod 256 = unat c"
      using q byte_digit [of "unat b" "unat a"] unat_bound [of b] by simp_all
  qed
  moreover have "b64_quanta (b64_encode (a # b # c # rest))
      = Ok (word_of_nat (?v div 65536) # word_of_nat (?v div 256 mod 256) # word_of_nat (?v mod 256) # rest)"
    unfolding b64_encode.simps Let_def append.simps
    by (rule b64_quantum [OF b64_value_char b64_value_char b64_value_char b64_value_char base_64_digits(3) 4])
      (use calculation in simp_all)
  ultimately show ?case by (simp only: of_nat_unat ucast_id)
qed simp

lemma b64_value_line_end [simp]: "b64_value CHR 0x0A = None" "b64_value CHR 0x0D = None"
  by (simp_all add: b64_value_def)

lemma b64_encode_chars: "c \<in> set (b64_encode bs) \<Longrightarrow> c = CHR ''='' \<or> b64_value c \<noteq> None"
proof (induction bs rule: b64_encode.induct)
  case (2 a)
  have "unat a * 16 div 64 < 64"
    using unat_bound [of a] by simp
  with 2 show ?case by (auto simp: Let_def)
next
  case (3 a b)
  have "(unat a * 256 + unat b) * 4 div 4096 < 64"
    using unat_bound [of a] unat_bound [of b] by simp
  with 3 show ?case by (auto simp: Let_def)
next
  case (4 a b c rest)
  have "((unat a * 256 + unat b) * 256 + unat c) div 262144 < 64"
    using unat_bound [of a] unat_bound [of b] unat_bound [of c] by simp
  with 4 show ?case by (auto simp: Let_def)
qed simp

lemma b64_roundtrip: "b64_DecodeString (b64_encode bs) = Ok bs"
proof -
  have "filter (\<lambda>c. c \<noteq> CHR 0x0A \<and> c \<noteq> CHR 0x0D) (b64_encode bs) = b64_encode bs"
    by (rule filter_True) (use b64_encode_chars in force)
  then show ?thesis
    by (simp add: b64_DecodeString_def b64_quanta_encode)
qed

section \<open>Properties\<close>

text \<open>
  The two decoders of the client handshake agree, and the encoding is unique: reading from a
  stream succeeds exactly when the bytes it takes off are a message the slice decoder accepts, with
  the same result, and the slice decoder accepts exactly the encodings of well-formed handshakes.
\<close>

theorem handshake_decoders_agree:
  "(readBinaryHandshake r = (Ok hs, r')
      \<longleftrightarrow> (\<exists>raw. avail r = raw @ avail r' \<and> ending r' = ending r \<and> parseBinaryHandshake raw = Ok hs))
   \<and> (parseBinaryHandshake raw = Ok hs \<longleftrightarrow> wf_ClientHandshake hs \<and> raw = client_bytes hs)"
proof (intro conjI iffI)
  assume "\<exists>raw. avail r = raw @ avail r' \<and> ending r' = ending r \<and> parseBinaryHandshake raw = Ok hs"
  then obtain raw where raw: "avail r = raw @ avail r'" "ending r' = ending r" "parseBinaryHandshake raw = Ok hs"
    by blast
  have "r = \<lparr>avail = raw @ avail r', ending = ending r\<rparr>" and "r' = \<lparr>avail = avail r', ending = ending r\<rparr>"
    by (simp_all add: raw(1,2) [symmetric])
  with readBinaryHandshake_parsed [OF raw(3), of "avail r'" "ending r"] show "readBinaryHandshake r = (Ok hs, r')"
    by metis
qed (use readBinaryHandshake_Ok parseBinaryHandshake_Ok parseBinaryHandshake_client_bytes in blast)+

text \<open>
  A client recovers the server's answer: decoding the base64 text of the response gives the
  public key, the length of the policy grant and the grant itself.
\<close>

theorem response_roundtrip:
  assumes "length (sh_PublicKey hs) = 32" and "length (sh_PolicyGrant hs) < 65536"
  shows "\<exists>raw. b64_DecodeString (b64_encode (marshalServerHandshake hs)) = Ok raw \<and> take 32 raw = sh_PublicKey hs
    \<and> unat (be16 (sub_bytes 32 34 raw)) = length (sh_PolicyGrant hs) \<and> drop 34 raw = sh_PolicyGrant hs"
  using assms
  by (simp add: b64_roundtrip marshalServerHandshake_def sub_bytes_append sub_bytes_all be16_def unat_of_nat
      take_bit_nat_eq_self del: be_bytes.simps)

theorem response_roundtrip_witness:
  "\<exists>raw. b64_DecodeString (b64_encode (marshalServerHandshake \<lparr>sh_PublicKey = replicate 32 7, sh_PolicyGrant = [1, 2, 3]\<rparr>)) = Ok raw
    \<and> take 32 raw = replicate 32 7 \<and> drop 34 raw = [1, 2, 3]"
  using response_roundtrip [of "\<lparr>sh_PublicKey = replicate 32 7, sh_PolicyGrant = [1, 2, 3]\<rparr>"] by auto

end
