(* ===== verification/Reflex_Inbound.thy ===== *)
theory Reflex_Inbound
  imports Reflex_Handshake
begin

text \<open>
  The Reflex inbound handler: the handshake logic of \<open>proxy/reflex/inbound/handshake.go\<close>, the
  handler of \<open>inbound.go\<close>, and the configuration of \<open>infra/conf/reflex.go\<close>.

  What one call of \<open>Process\<close> takes from its surroundings is the record \<open>Env\<close>: the readings of the
  clock, the random source, X25519, HKDF, ChaCha20-Poly1305 and SHA-256, the HTTP request reader and
  the JSON decoder of the standard library, the dispatcher with its links, the dialer, the fallback
  server, and the order in which the two copying goroutines of the fallback take turns. A call
  returns the error, the relay it ran, the link of its session, the connection as written to, and
  the handler.
\<close>

section \<open>State\<close>

record MemoryAccount =
  ma_ID :: string
  ma_Policy :: string

text \<open>\<open>protocol.Account\<close> is an interface; accounts of other proxies do not occur in its users here.\<close>

datatype Account = ReflexAccount MemoryAccount | OtherAccount

definition Account_Equals :: "MemoryAccount \<Rightarrow> Account \<Rightarrow> bool" where
  "Account_Equals a account =
     (case account of ReflexAccount other \<Rightarrow> ma_ID a = ma_ID other | OtherAccount \<Rightarrow> False)"

record MemoryUser =
  mu_Account :: Account
  mu_Email :: string

record Handler =
  h_clients :: "MemoryUser list"
  h_fallback :: "uint32 option"
  h_seenNonces :: "(bytes \<times> int) list"
  h_nonceLifetime :: int

text \<open>
  One turn of the fallback's goroutines. \<open>Up n f\<close> moves one chunk of at most \<open>n + 1\<close> bytes from the
  client to the fallback server; with \<open>f = Some (k, e)\<close> the server accepts only \<open>k\<close> bytes of it and the
  write fails with \<open>e\<close>. \<open>Down n\<close> moves one chunk the other way.
\<close>

datatype turn = Up nat "(nat \<times> goerror) option" | Down nat

text \<open>Which copy ended first: a side that had no more to send, or a failed write.\<close>

datatype relayEnd = UpEnd | UpFailed | DownEnd | DownFailed

record Relay =
  re_port :: uint32
  re_sent :: bytes
  re_received :: bytes
  re_end :: relayEnd

text \<open>
  The body of an HTTP request as \<open>http.ReadRequest\<close> leaves it: the bytes it delivers with the error
  that ends it, and the reader below once that many bytes of the body have been taken.
\<close>

record Body =
  bd_data :: stream
  bd_rest :: "nat \<Rightarrow> stream"

record ('l, 'w) Env =
  env_now_ts :: int
  env_now_nonce :: int
  env_generateKey :: "(bytes \<times> bytes) result"
  env_newPrivateKey :: "bytes \<Rightarrow> goerror option"
  env_newPublicKey :: "bytes \<Rightarrow> goerror option"
  env_ecdh :: "bytes \<Rightarrow> bytes \<Rightarrow> bytes result"
  env_hkdf :: "bytes \<Rightarrow> bytes \<Rightarrow> string \<Rightarrow> stream"
  env_newAEAD :: "bytes \<Rightarrow> cipherAEAD result"
  env_random :: stream
  env_sha256 :: "bytes \<Rightarrow> bytes"
  env_readRequest :: "stream \<Rightarrow> (string \<times> Body) result \<times> stream"
  env_unmarshal :: "bytes \<Rightarrow> string result"
  env_dispatch :: "Destination \<Rightarrow> 'l result"
  env_linkWrite :: "'l \<Rightarrow> MultiBuffer \<Rightarrow> goerror option \<times> 'l"
  env_linkClose :: "'l \<Rightarrow> 'l"
  env_write :: "'w writer"
  env_poll :: "nat \<Rightarrow> goerror option"
  env_dial :: "uint32 \<Rightarrow> goerror option"
  env_buffered :: "stream \<Rightarrow> nat"
  env_target :: stream
  env_turns :: "turn list"

type_synonym ('l, 'w) processed = "goerror option \<times> Relay option \<times> 'l option \<times> 'w \<times> Handler"

section \<open>Detection\<close>

text \<open>
  \<open>peekForDetection\<close>: when the stream ends early, what there is. The buffer of the reader is large
  enough for the five bytes asked for.
\<close>

definition peekForDetection :: "stream \<Rightarrow> nat \<Rightarrow> bytes result" where
  "peekForDetection reader n =
     (case peek n reader of
        Inr peeked \<Rightarrow> Ok peeked
      | Inl e \<Rightarrow>
          (if e = ErrBufferFull \<or> e = EOF then
             (let available = length (avail reader) in
              if available = 0 then Err e else peek available reader)
           else Err e))"

definition isReflexMagic :: "bytes \<Rightarrow> bool" where
  "isReflexMagic d \<longleftrightarrow> length d \<ge> 4 \<and> be32 (take 4 d) = ReflexMagic"

definition isHTTPPostLike :: "bytes \<Rightarrow> bool" where
  "isHTTPPostLike d \<longleftrightarrow> length d \<ge> 5 \<and> bytes_str (take 5 d) = ''POST ''"

definition isReflexHandshake :: "bytes \<Rightarrow> bool" where
  "isReflexHandshake d \<longleftrightarrow> (if isReflexMagic d then True else isHTTPPostLike d)"

section \<open>Time and nonces\<close>

text \<open>
  \<open>time.Unix\<close> adds the seconds from year 1 to 1970 in \<open>int64\<close>; the order of two times compares the
  seconds and then the nanoseconds.
\<close>

definition time_of_unix :: "int \<Rightarrow> int \<times> int" where
  "time_of_unix ts = (i64 (ts + 62135596800), 0)"

definition time_of_nanos :: "int \<Rightarrow> int \<times> int" where
  "time_of_nanos n = (n div 1000000000 + 62135596800, n mod 1000000000)"

definition time_before :: "int \<times> int \<Rightarrow> int \<times> int \<Rightarrow> bool" where
  "time_before t u \<longleftrightarrow> fst t < fst u \<or> fst t = fst u \<and> snd t < snd u"

definition validateHandshakeTimestamp :: "int \<Rightarrow> int \<Rightarrow> goerror option" where
  "validateHandshakeTimestamp now ts =
     (let t = time_of_unix ts in
      if time_before t (time_of_nanos (now - handshakeSkew)) \<or> time_before (time_of_nanos (now + handshakeSkew)) t
      then Some (ErrMsg ''reflex handshake timestamp out of range'') else None)"

definition cleanupExpiredNonces :: "int \<Rightarrow> Handler \<Rightarrow> Handler" where
  "cleanupExpiredNonces now h =
     h\<lparr>h_seenNonces := filter (\<lambda>(_, ts). \<not> now - ts > h_nonceLifetime h div 1000000000) (h_seenNonces h)\<rparr>"

definition checkAndStoreNonce :: "int \<Rightarrow> bytes \<Rightarrow> Handler \<Rightarrow> bool \<times> Handler" where
  "checkAndStoreNonce clock nonce h =
     (let now = clock div 1000000000; h1 = cleanupExpiredNonces now h in
      case map_of (h_seenNonces h1) nonce of
        Some _ \<Rightarrow> (False, h1)
      | None \<Rightarrow> (True, h1\<lparr>h_seenNonces := AList.update nonce now (h_seenNonces h1)\<rparr>))"

section \<open>Keys, users and the policy grant\<close>

text \<open>\<open>copy\<close> into an array of \<open>n\<close> bytes.\<close>

definition to_array :: "nat \<Rightarrow> bytes \<Rightarrow> bytes" where
  "to_array n bs = take n (bs @ replicate n 0)"

definition generateKeyPair :: "('l, 'w) Env \<Rightarrow> (bytes \<times> bytes) result" where
  "generateKeyPair env =
     (case env_generateKey env of
        Inl e \<Rightarrow> Err e
      | Inr (priv, pub) \<Rightarrow> Ok (priv, to_array 32 pub))"

definition deriveSharedKey :: "('l, 'w) Env \<Rightarrow> bytes \<Rightarrow> bytes \<Rightarrow> bytes result" where
  "deriveSharedKey env privateKey peerPublic =
     (case env_newPrivateKey env privateKey of
        Some e \<Rightarrow> Err e
      | None \<Rightarrow>
          (case env_newPublicKey env peerPublic of
             Some e \<Rightarrow> Err e
           | None \<Rightarrow>
               (case env_ecdh env privateKey peerPublic of
                  Inl e \<Rightarrow> Err e
                | Inr secret \<Rightarrow> Ok (to_array 32 secret))))"

definition deriveSessionKey :: "('l, 'w) Env \<Rightarrow> bytes \<Rightarrow> bytes \<Rightarrow> bytes result" where
  "deriveSessionKey env sharedKey salt = fst (read_full 32 (env_hkdf env sharedKey salt ''reflex-session''))"

fun findUser :: "string \<Rightarrow> MemoryUser list \<Rightarrow> MemoryUser result" where
  "findUser uidStr [] = Err (ErrMsg ''reflex user not found'')"
| "findUser uidStr (user # us) =
     (case mu_Account user of
        OtherAccount \<Rightarrow> findUser uidStr us
      | ReflexAccount account \<Rightarrow> (if ma_ID account = uidStr then Ok user else findUser uidStr us))"

definition authenticateUser :: "bytes \<Rightarrow> Handler \<Rightarrow> MemoryUser result" where
  "authenticateUser userID h =
     (case ParseBytes userID of
        Inl e \<Rightarrow> Err e
      | Inr uid \<Rightarrow> findUser (UUID_String uid) (h_clients h))"

definition userPolicy :: "MemoryUser option \<Rightarrow> string" where
  "userPolicy user =
     (case user of
        None \<Rightarrow> []
      | Some u \<Rightarrow> (case mu_Account u of ReflexAccount account \<Rightarrow> ma_Policy account | OtherAccount \<Rightarrow> []))"

definition encryptPolicyGrant :: "('l, 'w) Env \<Rightarrow> bytes \<Rightarrow> string \<Rightarrow> bytes result" where
  "encryptPolicyGrant env sessionKey policy =
     (case env_newAEAD env sessionKey of
        Inl e \<Rightarrow> Err e
      | Inr a \<Rightarrow>
          (case fst (read_full 12 (env_random env)) of
             Inl e \<Rightarrow> Err e
           | Inr nonce \<Rightarrow> Ok (nonce @ Seal a nonce (str_bytes policy) [])))"

section \<open>Fallback\<close>

text \<open>
  The state of the two copies. The client's bytes are first those that the \<open>bufio.Reader\<close> has already
  buffered, then those still on the connection; \<open>preloadedConn\<close> reads from the reader.
\<close>

record 'w relayState =
  rl_buffered :: bytes
  rl_conn :: stream
  rl_sent :: bytes
  rl_target :: stream
  rl_received :: bytes
  rl_client :: 'w

text \<open>\<open>io.Copy\<close> reports the end of its source as no error.\<close>

definition copyError :: "goerror \<Rightarrow> goerror option" where
  "copyError e = (if e = EOF then None else Some e)"

definition copyUp :: "nat \<Rightarrow> (nat \<times> goerror) option \<Rightarrow> 'w relayState \<Rightarrow> (relayEnd \<times> goerror option) option \<times> 'w relayState" where
  "copyUp n failure s =
     (let (chunk, s1) =
            (if rl_buffered s \<noteq> [] then (rl_buffered s, s\<lparr>rl_buffered := []\<rparr>)
             else (take (Suc n) (avail (rl_conn s)),
                   s\<lparr>rl_conn := (rl_conn s)\<lparr>avail := drop (Suc n) (avail (rl_conn s))\<rparr>\<rparr>)) in
      if chunk = [] then (Some (UpEnd, copyError (ending (rl_conn s))), s1)
      else
        (case failure of
           None \<Rightarrow> (None, s1\<lparr>rl_sent := rl_sent s @ chunk\<rparr>)
         | Some (k, e) \<Rightarrow> (Some (UpFailed, Some e), s1\<lparr>rl_sent := rl_sent s @ take k chunk\<rparr>)))"

definition copyDown :: "'w writer \<Rightarrow> nat \<Rightarrow> 'w relayState \<Rightarrow> (relayEnd \<times> goerror option) option \<times> 'w relayState" where
  "copyDown wr n s =
     (let chunk = take (Suc n) (avail (rl_target s)) in
      if chunk = [] then (Some (DownEnd, copyError (ending (rl_target s))), s)
      else
        (let (err, conn') = wr (rl_client s) chunk;
             s1 = s\<lparr>rl_target := (rl_target s)\<lparr>avail := drop (Suc n) (avail (rl_target s))\<rparr>,
                    rl_received := rl_received s @ chunk, rl_client := conn'\<rparr> in
         case err of None \<Rightarrow> (None, s1) | Some e \<Rightarrow> (Some (DownFailed, Some e), s1)))"

definition copyTurn :: "'w writer \<Rightarrow> turn \<Rightarrow> 'w relayState \<Rightarrow> (relayEnd \<times> goerror option) option \<times> 'w relayState" where
  "copyTurn wr t s = (case t of Up n failure \<Rightarrow> copyUp n failure s | Down n \<Rightarrow> copyDown wr n s)"

text \<open>
  The copies run until one of them ends. After the given turns only the client's copy goes on, in
  chunks of the 32 KiB buffer of \<open>io.Copy\<close>.
\<close>

definition next_turn :: "turn list \<Rightarrow> turn" where
  "next_turn ts = (case ts of [] \<Rightarrow> Up 32767 None | t # _ \<Rightarrow> t)"

function relay :: "'w writer \<Rightarrow> turn list \<Rightarrow> 'w relayState \<Rightarrow> relayEnd \<times> goerror option \<times> 'w relayState" where
  "relay wr ts s =
     (case copyTurn wr (next_turn ts) s of
        (Some (how, err), s1) \<Rightarrow> (how, err, s1)
      | (None, s1) \<Rightarrow> relay wr (tl ts) s1)"
  by pat_completeness auto
termination
  by (relation "measure (\<lambda>(_, ts, s). length ts + length (rl_buffered s) + length (avail (rl_conn s)))")
    (auto simp: copyTurn_def next_turn_def copyUp_def copyDown_def Let_def
      split: list.splits turn.splits if_splits option.splits prod.splits)

declare relay.simps [simp del]

definition handleFallback :: "('l, 'w) Env \<Rightarrow> stream \<Rightarrow> 'w \<Rightarrow> Handler \<Rightarrow> ('l, 'w) processed" where
  "handleFallback env reader conn h =
     (case h_fallback h of
        None \<Rightarrow> (Some (ErrMsg ''reflex handshake not matched and fallback is not configured''), None, None, conn, h)
      | Some dest \<Rightarrow>
          (if dest = 0
           then (Some (ErrMsg ''reflex handshake not matched and fallback is not configured''), None, None, conn, h)
           else
             (case env_dial env dest of
                Some e \<Rightarrow> (Some e, None, None, conn, h)
              | None \<Rightarrow>
                  (let buffered = env_buffered env reader;
                       (how, err, s) = relay (env_write env) (env_turns env)
                         \<lparr>rl_buffered = take buffered (avail reader),
                          rl_conn = reader\<lparr>avail := drop buffered (avail reader)\<rparr>, rl_sent = [],
                          rl_target = env_target env, rl_received = [], rl_client = conn\<rparr> in
                   (if err = Some EOF then None else err,
                    Some \<lparr>re_port = dest, re_sent = rl_sent s, re_received = rl_received s, re_end = how\<rparr>,
                    None, rl_client s, h)))))"

section \<open>The handshake\<close>

definition refuse :: "('l, 'w) Env \<Rightarrow> nat \<Rightarrow> stream \<Rightarrow> 'w \<Rightarrow> Handler \<Rightarrow> ('l, 'w) processed" where
  "refuse env status reader conn h = handleFallback env reader (snd (writeHTTPError (env_write env) status conn)) h"

definition abort :: "('l, 'w) Env \<Rightarrow> goerror \<Rightarrow> 'w \<Rightarrow> Handler \<Rightarrow> ('l, 'w) processed" where
  "abort env e conn h =
     (Some e, None, None, snd (writeHTTPError (env_write env) StatusInternalServerError conn), h)"

definition processHandshake :: "('l, 'w) Env \<Rightarrow> stream \<Rightarrow> 'w \<Rightarrow> ClientHandshake \<Rightarrow> Handler \<Rightarrow> ('l, 'w) processed" where
  "processHandshake env reader conn clientHS h =
     (case validateHandshakeTimestamp (env_now_ts env) (ch_Timestamp clientHS) of
        Some _ \<Rightarrow> refuse env StatusForbidden reader conn h
      | None \<Rightarrow>
          (let (fresh, h1) = checkAndStoreNonce (env_now_nonce env) (ch_Nonce clientHS) h in
           if \<not> fresh then refuse env StatusForbidden reader conn h1
           else
             (case generateKeyPair env of
                Inl e \<Rightarrow> abort env e conn h1
              | Inr (serverPriv, serverPub) \<Rightarrow>
                  (case deriveSharedKey env serverPriv (ch_PublicKey clientHS) of
                     Inl _ \<Rightarrow> refuse env StatusForbidden reader conn h1
                   | Inr sharedKey \<Rightarrow>
                       (case deriveSessionKey env sharedKey (ch_Nonce clientHS) of
                          Inl e \<Rightarrow> abort env e conn h1
                        | Inr sessionKey \<Rightarrow>
                            (case authenticateUser (ch_UserID clientHS) h1 of
                               Inl _ \<Rightarrow> refuse env StatusForbidden reader conn h1
                             | Inr user \<Rightarrow>
                                 (case encryptPolicyGrant env sessionKey (userPolicy (Some user)) of
                                    Inl e \<Rightarrow> abort env e conn h1
                                  | Inr grant \<Rightarrow>
                                      (case writeHandshakeResponse (env_write env)
                                              \<lparr>sh_PublicKey = serverPub, sh_PolicyGrant = grant\<rparr> conn of
                                         (Some e, conn') \<Rightarrow> (Some e, None, None, conn', h1)
                                       | (None, conn') \<Rightarrow>
                                           (let (err, link, conn'') =
                                                  handleSession (env_newAEAD env) (env_sha256 env) (env_dispatch env)
                                                    (env_linkWrite env) (env_linkClose env) (env_write env) (env_poll env)
                                                    sessionKey (userPolicy (Some user)) reader conn' in
                                            (err, None, link, conn'', h1))))))))))"

definition handleReflexMagic :: "('l, 'w) Env \<Rightarrow> stream \<Rightarrow> 'w \<Rightarrow> Handler \<Rightarrow> ('l, 'w) processed" where
  "handleReflexMagic env reader conn h =
     (case read_full 4 reader of
        (Inl e, _) \<Rightarrow> (Some e, None, None, conn, h)
      | (Inr magic, r1) \<Rightarrow>
          (if be32 magic \<noteq> ReflexMagic then handleFallback env r1 conn h
           else
             (case readBinaryHandshake r1 of
                (Inl _, r2) \<Rightarrow> handleFallback env r2 conn h
              | (Inr clientHS, r2) \<Rightarrow> processHandshake env r2 conn clientHS h)))"

definition stripMagic :: "bytes \<Rightarrow> bytes" where
  "stripMagic rawPayload =
     (if length rawPayload \<ge> 4 \<and> be32 (take 4 rawPayload) = ReflexMagic then drop 4 rawPayload else rawPayload)"

text \<open>
  \<open>io.ReadAll(io.LimitReader(r, n))\<close>: the first \<open>n\<close> bytes; a reader that ends before them ends the
  reading, and its error is reported unless it is \<open>EOF\<close>.
\<close>

definition readAll_limited :: "nat \<Rightarrow> stream \<Rightarrow> bytes result" where
  "readAll_limited n s =
     (if n \<le> length (avail s) \<or> ending s = EOF then Ok (take n (avail s)) else Err (ending s))"

definition handleReflexHTTP :: "('l, 'w) Env \<Rightarrow> stream \<Rightarrow> 'w \<Rightarrow> Handler \<Rightarrow> ('l, 'w) processed" where
  "handleReflexHTTP env reader conn h =
     (case env_readRequest env reader of
        (Inl _, r1) \<Rightarrow> handleFallback env r1 conn h
      | (Inr (reqMethod, reqBody), r1) \<Rightarrow>
          (if reqMethod \<noteq> ''POST'' then handleFallback env r1 conn h
           else
             (let r2 = bd_rest reqBody (min maxPolicyPayloadSize (length (avail (bd_data reqBody)))) in
              case readAll_limited maxPolicyPayloadSize (bd_data reqBody) of
                Inl _ \<Rightarrow> handleFallback env r2 conn h
              | Inr body \<Rightarrow>
                  (case env_unmarshal env body of
                     Inl _ \<Rightarrow> handleFallback env r2 conn h
                   | Inr dataField \<Rightarrow>
                       (case b64_DecodeString dataField of
                          Inl _ \<Rightarrow> handleFallback env r2 conn h
                        | Inr rawPayload \<Rightarrow>
                            (case parseBinaryHandshake (stripMagic rawPayload) of
                               Inl _ \<Rightarrow> handleFallback env r2 conn h
                             | Inr clientHS \<Rightarrow> processHandshake env r2 conn clientHS h))))))"

definition Process :: "('l, 'w) Env \<Rightarrow> Network \<Rightarrow> stream \<Rightarrow> 'w \<Rightarrow> Handler \<Rightarrow> ('l, 'w) processed" where
  "Process env network reader conn h =
     (if network \<noteq> Network_TCP then (Some (ErrMsg ''reflex inbound supports tcp only''), None, None, conn, h)
      else
        (case peekForDetection reader 5 of
           Inl e \<Rightarrow> (if e \<noteq> EOF then (Some e, None, None, conn, h) else (None, None, None, conn, h))
         | Inr peeked \<Rightarrow>
             (if peeked = [] then (None, None, None, conn, h)
              else if isReflexMagic peeked then handleReflexMagic env reader conn h
              else if isHTTPPostLike peeked then handleReflexHTTP env reader conn h
              else handleFallback env reader conn h)))"

section \<open>Configuration\<close>

record User =
  us_Id :: string
  us_Policy :: string

record InboundConfig =
  ic_Clients :: "User list"
  ic_Fallback :: "uint32 option"

definition New :: "InboundConfig \<Rightarrow> Handler" where
  "New config =
     \<lparr>h_clients = map (\<lambda>c. \<lparr>mu_Account = ReflexAccount \<lparr>ma_ID = us_Id c, ma_Policy = us_Policy c\<rparr>, mu_Email = us_Id c\<rparr>)
        (ic_Clients config),
      h_fallback = ic_Fallback config, h_seenNonces = [], h_nonceLifetime = defaultNonceLifetime\<rparr>"

text \<open>\<open>ReflexInboundConfig.Build\<close> on the decoded user entries; decoding a raw entry may fail.\<close>

record ReflexUserConfig =
  uc_ID :: string
  uc_Policy :: string

fun buildUsers :: "(bytes \<Rightarrow> bytes) \<Rightarrow> ReflexUserConfig result list \<Rightarrow> User list result" where
  "buildUsers sha1 [] = Ok []"
| "buildUsers sha1 (raw # rest) =
     (case raw of
        Inl e \<Rightarrow> Err (ErrMsg ''invalid Reflex user'')
      | Inr user \<Rightarrow>
          (case ParseString sha1 (uc_ID user) of
             Inl e \<Rightarrow> Err e
           | Inr u \<Rightarrow>
               (case buildUsers sha1 rest of
                  Inl e \<Rightarrow> Err e
                | Inr us \<Rightarrow> Ok (\<lparr>us_Id = UUID_String u, us_Policy = uc_Policy user\<rparr> # us))))"

definition Inbound_Build :: "(bytes \<Rightarrow> bytes) \<Rightarrow> ReflexUserConfig result list \<Rightarrow> uint32 option \<Rightarrow> InboundConfig result" where
  "Inbound_Build sha1 clients fallback =
     (case buildUsers sha1 clients of
        Inl e \<Rightarrow> Err e
      | Inr us \<Rightarrow> Ok \<lparr>ic_Clients = us, ic_Fallback = fallback\<rparr>)"

record OutboundConfig =
  oc_Address :: string
  oc_Port :: uint32
  oc_Id :: string

definition Outbound_Build :: "(bytes \<Rightarrow> bytes) \<Rightarrow> string option \<Rightarrow> uint16 \<Rightarrow> string \<Rightarrow> OutboundConfig result" where
  "Outbound_Build sha1 address port ident =
     (case address of
        None \<Rightarrow> Err (ErrMsg ''Reflex outbound: address is not set'')
      | Some a \<Rightarrow>
          (if port = 0 then Err (ErrMsg ''Reflex outbound: port is not set'')
           else
             (case ParseString sha1 ident of
                Inl e \<Rightarrow> Err e
              | Inr u \<Rightarrow> Ok \<lparr>oc_Address = a, oc_Port = ucast port, oc_Id = UUID_String u\<rparr>)))"

section \<open>Time\<close>

abbreviation second :: int where "second \<equiv> 1000000000"

definition plausible_clock :: "int \<Rightarrow> bool" where
  "plausible_clock now \<longleftrightarrow> handshakeSkew \<le> now"

lemma i64_id: "- (2 ^ 63) \<le> x \<Longrightarrow> x < 2 ^ 63 \<Longrightarrow> i64 x = x"
  by (simp add: i64_def sint_of_int64)

lemma i64_wrap:
  assumes "2 ^ 63 \<le> x" and "x < 2 ^ 64"
  shows "i64 x < 0"
proof -
  define y where "y = x - 2 ^ 63"
  have y: "0 \<le> y" "y < 2 ^ 63"
    using assms by (simp_all add: y_def)
  have "i64 x = (y + 2 ^ 64) mod 2 ^ 64 - 2 ^ 63"
    by (simp add: i64_def int_word_sint y_def add.commute)
  also have "(y + 2 ^ 64) mod 2 ^ 64 = y"
    using y by simp
  finally show ?thesis using y by simp
qed

lemma validate_range:
  assumes ok: "validateHandshakeTimestamp now ts = None" and "plausible_clock now" and ts: "- (2 ^ 63) \<le> ts" "ts < 2 ^ 63"
  shows "now - handshakeSkew \<le> ts * second" and "ts * second \<le> now + handshakeSkew"
proof -
  let ?lo = "now - handshakeSkew" and ?hi = "now + handshakeSkew"
  let ?t = "i64 (ts + 62135596800)"
  have lo: "\<not> ?t < ?lo div second + 62135596800" "\<not> (?t = ?lo div second + 62135596800 \<and> 0 < ?lo mod second)"
    and hi: "\<not> ?hi div second + 62135596800 < ?t"
    using ok by (auto simp: validateHandshakeTimestamp_def time_before_def time_of_unix_def time_of_nanos_def Let_def
        split: if_splits)
  have "0 \<le> ?lo div second"
    using assms(2) by (simp add: plausible_clock_def pos_imp_zdiv_nonneg_iff)
  then have "\<not> ?t < 0"
    using lo(1) by linarith
  then have "ts + 62135596800 < 2 ^ 63"
    using i64_wrap [of "ts + 62135596800"] ts by fastforce
  then have t: "?t = ts + 62135596800"
    using ts by (intro i64_id) simp_all
  have d: "?lo div second * second + ?lo mod second = ?lo" "?lo mod second < second" "?hi div second * second + ?hi mod second = ?hi"
      "0 \<le> ?hi mod second" "0 \<le> ?lo mod second"
    by simp_all
  show "?lo \<le> ts * second"
    using lo t d(1,2,5) by (cases "ts = ?lo div second") auto
  show "ts * second \<le> ?hi"
    using hi t d(3,4) by simp
qed

section \<open>Nonces\<close>

text \<open>
  The part of the handshake that decides about freshness: what \<open>processHandshake\<close> makes of the
  handler, whatever happens afterwards.
\<close>

definition admit :: "int \<Rightarrow> int \<Rightarrow> ClientHandshake \<Rightarrow> Handler \<Rightarrow> bool \<times> Handler" where
  "admit v n hs h =
     (if validateHandshakeTimestamp v (ch_Timestamp hs) \<noteq> None then (False, h)
      else checkAndStoreNonce n (ch_Nonce hs) h)"

lemma handleFallback_handler:
  assumes "handleFallback env r conn h = (e, re, l, conn', h')"
  shows "h' = h" and "l = None"
  using assms by (auto simp: handleFallback_def Let_def split: option.splits if_splits prod.splits)

lemma refuse_handler:
  assumes "refuse env st r conn h = (e, re, l, conn', h')"
  shows "h' = h" and "l = None"
  using assms by (auto simp: refuse_def dest: handleFallback_handler)

lemma abort_handler:
  assumes "abort env e0 conn h = (e, re, l, conn', h')"
  shows "h' = h" and "l = None"
  using assms by (auto simp: abort_def)

lemmas ended_handler = handleFallback_handler refuse_handler abort_handler

lemma processHandshake_admit:
  assumes "processHandshake env r conn hs h = (e, re, l, conn', h')"
    and "admit (env_now_ts env) (env_now_nonce env) hs h = (ok, h1)"
  shows "h' = h1" and "l \<noteq> None \<Longrightarrow> ok \<and> (\<exists>user. authenticateUser (ch_UserID hs) h1 = Ok user)"
proof -
  have "h' = h1 \<and> (l \<noteq> None \<longrightarrow> ok \<and> (\<exists>user. authenticateUser (ch_UserID hs) h1 = Ok user))"
  proof (cases "validateHandshakeTimestamp (env_now_ts env) (ch_Timestamp hs)")
    case (Some x)
    then have "refuse env StatusForbidden r conn h = (e, re, l, conn', h')" and "h1 = h"
      using assms by (simp_all add: processHandshake_def admit_def)
    then show ?thesis by (auto dest: refuse_handler)
  next
    case None
    then have c: "checkAndStoreNonce (env_now_nonce env) (ch_Nonce hs) h = (ok, h1)"
      using assms(2) by (simp add: admit_def)
    show ?thesis
    proof (cases ok)
      case False
      then have "refuse env StatusForbidden r conn h1 = (e, re, l, conn', h')"
        using assms(1) None c by (simp add: processHandshake_def)
      then show ?thesis by (auto dest: refuse_handler)
    next
      case True
      then show ?thesis
        using assms(1) None c
        by (auto simp: processHandshake_def dest: refuse_handler abort_handler split: sum.splits prod.splits option.splits)
    qed
  qed
  then show "h' = h1" and "l \<noteq> None \<Longrightarrow> ok \<and> (\<exists>user. authenticateUser (ch_UserID hs) h1 = Ok user)"
    by blast+
qed

lemma checkAndStoreNonce_effect:
  assumes "checkAndStoreNonce n nonce h = (ok, h')"
  defines "now \<equiv> n div second" and "life \<equiv> h_nonceLifetime h div second"
  defines "live \<equiv> filter (\<lambda>(_, t). \<not> now - t > life) (h_seenNonces h)"
  shows "ok \<longleftrightarrow> map_of live nonce = None"
    and "h_seenNonces h' = (if ok then AList.update nonce now live else live)"
    and "h_clients h' = h_clients h" "h_fallback h' = h_fallback h" "h_nonceLifetime h' = h_nonceLifetime h"
  using assms
  by (auto simp: checkAndStoreNonce_def cleanupExpiredNonces_def Let_def live_def now_def life_def split: option.splits)

section \<open>A handler over its lifetime\<close>

record ('l, 'w) Attempt =
  at_env :: "('l, 'w) Env"
  at_hs :: ClientHandshake
  at_link :: "'l option"

text \<open>
  The handshakes that one handler processes, with the result of each. Time does not run backwards,
  and a handshake reaches the nonce table at most five minutes after its timestamp was checked.
\<close>

inductive handler_run :: "InboundConfig \<Rightarrow> int \<Rightarrow> ('l, 'w) Attempt list \<Rightarrow> Handler \<Rightarrow> bool"
  for config :: InboundConfig where
  run_start: "handler_run config 0 [] (New config)"
| run_step: "handler_run config t atts h \<Longrightarrow> processHandshake env r conn hs h = (e, re, l, conn', h') \<Longrightarrow>
     wf_ClientHandshake hs \<Longrightarrow> t \<le> env_now_ts env \<Longrightarrow> plausible_clock (env_now_ts env) \<Longrightarrow>
     env_now_ts env \<le> env_now_nonce env \<Longrightarrow> env_now_nonce env \<le> env_now_ts env + handshakeSkew \<Longrightarrow>
     handler_run config (env_now_nonce env) (atts @ [\<lparr>at_env = env, at_hs = hs, at_link = l\<rparr>]) h'"

definition at_key :: "('l, 'w) Attempt \<Rightarrow> int \<times> bytes" where
  "at_key a = (ch_Timestamp (at_hs a), ch_Nonce (at_hs a))"

text \<open>An accepted handshake is in the nonce table, or so old that its timestamp has expired.\<close>

definition remembered :: "int \<Rightarrow> Handler \<Rightarrow> ('l, 'w) Attempt \<Rightarrow> bool" where
  "remembered t h a \<longleftrightarrow>
     (let n = env_now_nonce (at_env a) div second in
      (\<exists>x\<ge>n. map_of (h_seenNonces h) (ch_Nonce (at_hs a)) = Some x) \<or> n + 900 < t div second)"

definition in_time :: "int \<Rightarrow> ('l, 'w) Attempt \<Rightarrow> bool" where
  "in_time t a \<longleftrightarrow> ch_Timestamp (at_hs a) * second \<le> env_now_ts (at_env a) + handshakeSkew
     \<and> env_now_ts (at_env a) \<le> env_now_nonce (at_env a) \<and> env_now_nonce (at_env a) \<le> t"

definition handler_inv :: "int \<Rightarrow> ('l, 'w) Attempt list \<Rightarrow> Handler \<Rightarrow> bool" where
  "handler_inv t atts h \<longleftrightarrow> h_nonceLifetime h = defaultNonceLifetime
     \<and> (\<forall>a\<in>set atts. at_link a \<noteq> None \<longrightarrow> in_time t a \<and> remembered t h a)
     \<and> distinct (map at_key (filter (\<lambda>a. at_link a \<noteq> None) atts))"

lemma lifetime_seconds: "defaultNonceLifetime div second = 900"
  by (simp add: defaultNonceLifetime_def)

lemma map_of_filter_first: "map_of xs k = Some x \<Longrightarrow> P (k, x) \<Longrightarrow> map_of (filter P xs) k = Some x"
  by (induction xs) (auto split: if_splits)

lemma remembered_later: "remembered t h a \<Longrightarrow> t \<le> t' \<Longrightarrow> remembered t' h a"
  using zdiv_mono1 [of t t' second] by (auto simp: remembered_def Let_def)

lemma remembered_check:
  assumes "remembered t h a" and c: "checkAndStoreNonce n nonce h = (ok, h')" and "t \<le> n"
    and life: "h_nonceLifetime h = defaultNonceLifetime"
  shows "remembered n h' a" and "ok \<Longrightarrow> ch_Nonce (at_hs a) = nonce \<Longrightarrow> env_now_nonce (at_env a) div second + 900 < n div second"
proof -
  note e = checkAndStoreNonce_effect [OF c]
  let ?k = "ch_Nonce (at_hs a)" and ?na = "env_now_nonce (at_env a) div second"
  let ?live = "filter (\<lambda>(_, t). \<not> n div second - t > 900) (h_seenNonces h)"
  have later: "t div second \<le> n div second"
    using assms(3) by (rule zdiv_mono1) simp
  have found: "map_of ?live ?k = Some x \<or> ?na + 900 < n div second" if "?na \<le> x" "map_of (h_seenNonces h) ?k = Some x" for x
    using map_of_filter_first [OF that(2), of "\<lambda>(_, t). \<not> n div second - t > 900"] that(1) by fastforce
  have live: "(\<exists>x\<ge>?na. map_of ?live ?k = Some x) \<or> ?na + 900 < n div second"
    using assms(1) found later by (fastforce simp: remembered_def Let_def)
  show "?na + 900 < n div second" if "ok" "?k = nonce"
    using live e(1) that by (auto simp: life lifetime_seconds)
  then show "remembered n h' a"
    using live e(1,2) by (auto simp: remembered_def Let_def life lifetime_seconds update_conv')
qed

lemma admit_cases:
  assumes "admit v n hs h = (ok, h1)"
  shows "validateHandshakeTimestamp v (ch_Timestamp hs) = None \<and> checkAndStoreNonce n (ch_Nonce hs) h = (ok, h1)
    \<or> \<not> ok \<and> h1 = h"
  using assms by (auto simp: admit_def split: if_splits)

lemma admit_remembered:
  assumes "remembered t h a" and "admit v n hs h = (ok, h1)" and "t \<le> n" and "h_nonceLifetime h = defaultNonceLifetime"
  shows "remembered n h1 a"
  using admit_cases [OF assms(2)] remembered_check(1) [OF assms(1) _ assms(3,4)] remembered_later [OF assms(1,3)] by auto

lemma admit_new_key:
  assumes a: "remembered t h a" "in_time t a" and ad: "admit v n hs h = (True, h1)" and "t \<le> n"
    and life: "h_nonceLifetime h = defaultNonceLifetime"
    and wf: "wf_ClientHandshake hs" and clock: "plausible_clock v" "n \<le> v + handshakeSkew"
  shows "at_key a \<noteq> (ch_Timestamp hs, ch_Nonce hs)"
proof
  assume key: "at_key a = (ch_Timestamp hs, ch_Nonce hs)"
  let ?na = "env_now_nonce (at_env a)"
  have c: "validateHandshakeTimestamp v (ch_Timestamp hs) = None" "checkAndStoreNonce n (ch_Nonce hs) h = (True, h1)"
    using admit_cases [OF ad] by simp_all
  have late: "?na div second + 900 < n div second"
    using remembered_check(2) [OF a(1) c(2) assms(4) life] key by (simp add: at_key_def)
  have "v - handshakeSkew \<le> ch_Timestamp hs * second"
    using validate_range(1) [OF c(1) clock(1)] wf by (simp add: wf_ClientHandshake_def)
  then have "n \<le> ?na + 900 * second"
    using a(2) key clock(2) by (simp add: in_time_def at_key_def handshakeSkew_def)
  then have "n div second \<le> (?na + 900 * second) div second"
    by (rule zdiv_mono1) simp
  also have "\<dots> = ?na div second + 900"
    by simp
  finally show False using late by simp
qed

lemma admit_new_remembered:
  assumes "admit (env_now_ts env) (env_now_nonce env) hs h = (True, h1)" and "wf_ClientHandshake hs"
    and "plausible_clock (env_now_ts env)" and "env_now_ts env \<le> env_now_nonce env"
    and a_def: "a = \<lparr>at_env = env, at_hs = hs, at_link = l\<rparr>"
  shows "in_time (env_now_nonce env) a \<and> remembered (env_now_nonce env) h1 a"
proof -
  have c: "validateHandshakeTimestamp (env_now_ts env) (ch_Timestamp hs) = None"
      "checkAndStoreNonce (env_now_nonce env) (ch_Nonce hs) h = (True, h1)"
    using admit_cases [OF assms(1)] by simp_all
  have "in_time (env_now_nonce env) a"
    using validate_range(2) [OF c(1) assms(3)] assms(2,4) by (simp add: in_time_def a_def wf_ClientHandshake_def)
  moreover have "remembered (env_now_nonce env) h1 a"
    using checkAndStoreNonce_effect(2) [OF c(2)] by (simp add: remembered_def a_def update_conv')
  ultimately show ?thesis ..
qed

lemma admit_lifetime: "admit v n hs h = (ok, h1) \<Longrightarrow> h_nonceLifetime h1 = h_nonceLifetime h \<and> h_clients h1 = h_clients h"
  using checkAndStoreNonce_effect(3,5) by (metis admit_cases)

lemma handler_inv_step:
  assumes inv: "handler_inv t atts h" and pr: "processHandshake env r conn hs h = (e, re, l, conn', h')"
    and wf: "wf_ClientHandshake hs" and clock: "t \<le> env_now_ts env" "plausible_clock (env_now_ts env)"
      "env_now_ts env \<le> env_now_nonce env" "env_now_nonce env \<le> env_now_ts env + handshakeSkew"
  shows "handler_inv (env_now_nonce env) (atts @ [\<lparr>at_env = env, at_hs = hs, at_link = l\<rparr>]) h'"
proof -
  let ?n = "env_now_nonce env" and ?a = "\<lparr>at_env = env, at_hs = hs, at_link = l\<rparr>"
  obtain ok h1 where ad: "admit (env_now_ts env) ?n hs h = (ok, h1)"
    by (rule prod.exhaust)
  note pa = processHandshake_admit [OF pr ad]
  have life: "h_nonceLifetime h = defaultNonceLifetime" and tn: "t \<le> ?n"
    using inv clock by (simp_all add: handler_inv_def)
  have old: "in_time t a" "remembered t h a" if "a \<in> set atts" "at_link a \<noteq> None" for a
    using inv that by (simp_all add: handler_inv_def)
  have keep: "in_time ?n a" "remembered ?n h' a" if "a \<in> set atts" "at_link a \<noteq> None" for a
    using old [OF that] admit_remembered [OF old(2) [OF that] ad tn life] tn pa(1) by (simp_all add: in_time_def)
  have fresh: "at_key a \<noteq> at_key ?a" if "a \<in> set atts" "at_link a \<noteq> None" "l \<noteq> None" for a
    using admit_new_key [OF old(2,1) [OF that(1,2)] _ tn life wf clock(2,4)] ad pa(2) [OF that(3)]
    by (simp add: at_key_def)
  have new: "in_time ?n ?a \<and> remembered ?n h' ?a" if "l \<noteq> None"
    using admit_new_remembered [OF _ wf clock(2,3) refl] ad pa that by simp
  have "h_nonceLifetime h' = defaultNonceLifetime"
    using admit_lifetime [OF ad] pa(1) life by simp
  then show ?thesis
    using inv keep fresh new by (auto simp: handler_inv_def) blast
qed

lemma handler_run_inv: "handler_run config t atts h \<Longrightarrow> handler_inv t atts h"
proof (induction rule: handler_run.induct)
  case run_start
  then show ?case by (simp add: handler_inv_def New_def)
next
  case run_step
  then show ?case by (intro handler_inv_step)
qed

section \<open>Users\<close>

lemma findUser_Ok:
  "findUser s us = Ok u \<Longrightarrow> u \<in> set us \<and> (\<exists>acc. mu_Account u = ReflexAccount acc \<and> ma_ID acc = s)"
  by (induction s us rule: findUser.induct) (auto split: Account.splits if_splits)

lemma findUser_complete:
  "u \<in> set us \<Longrightarrow> mu_Account u = ReflexAccount acc \<Longrightarrow> \<exists>u'. findUser (ma_ID acc) us = Ok u'"
  by (induction us) (auto split: Account.splits)

lemma buildUsers_Ok:
  assumes "buildUsers sha1 clients = Ok us"
  shows "list_all2 (\<lambda>c u. \<exists>cfg uid. c = Ok cfg \<and> ParseString sha1 (uc_ID cfg) = Ok uid
    \<and> u = \<lparr>us_Id = UUID_String uid, us_Policy = uc_Policy cfg\<rparr>) clients us"
  using assms by (induction sha1 clients arbitrary: us rule: buildUsers.induct) (auto split: sum.splits)

lemma list_all2_members:
  "list_all2 P xs ys \<Longrightarrow> x \<in> set xs \<Longrightarrow> \<exists>y\<in>set ys. P x y" "list_all2 P xs ys \<Longrightarrow> y \<in> set ys \<Longrightarrow> \<exists>x\<in>set xs. P x y"
  by (auto simp: list_all2_conv_all_nth set_conv_nth)

section \<open>Properties\<close>

text \<open>
  C5. Exactly the configured users get in. After building the configuration and creating the
  handler, a 16-byte identity is authenticated if and only if some configured entry's ID parses to
  it, and the user found carries the policy of such an entry.
\<close>

theorem configured_users_authenticate:
  assumes "Inbound_Build sha1 clients fallback = Ok config" and "length uid = 16"
    and "\<forall>cfg u. Ok cfg \<in> set clients \<and> ParseString sha1 (uc_ID cfg) = Ok u \<longrightarrow> length u = 16"
  shows "((\<exists>user. authenticateUser uid (New config) = Ok user)
      \<longleftrightarrow> (\<exists>cfg. Ok cfg \<in> set clients \<and> ParseString sha1 (uc_ID cfg) = Ok uid))
    \<and> (\<forall>user. authenticateUser uid (New config) = Ok user \<longrightarrow>
        (\<exists>cfg. Ok cfg \<in> set clients \<and> ParseString sha1 (uc_ID cfg) = Ok uid \<and> userPolicy (Some user) = uc_Policy cfg))"
proof -
  have us: "list_all2 (\<lambda>c u. \<exists>cfg uid. c = Ok cfg \<and> ParseString sha1 (uc_ID cfg) = Ok uid
      \<and> u = \<lparr>us_Id = UUID_String uid, us_Policy = uc_Policy cfg\<rparr>) clients (ic_Clients config)"
    using assms(1) buildUsers_Ok by (auto simp: Inbound_Build_def split: sum.splits)
  have auth: "authenticateUser uid (New config) = findUser (UUID_String uid) (h_clients (New config))"
    using assms(2) by (simp add: authenticateUser_def ParseBytes_def)
  have sound: "\<exists>cfg. Ok cfg \<in> set clients \<and> ParseString sha1 (uc_ID cfg) = Ok uid \<and> userPolicy (Some user) = uc_Policy cfg"
    if found: "authenticateUser uid (New config) = Ok user" for user
  proof -
    obtain acc where u: "user \<in> set (h_clients (New config))" "mu_Account user = ReflexAccount acc" "ma_ID acc = UUID_String uid"
      using findUser_Ok [OF found [unfolded auth]] by blast
    then obtain c where c: "c \<in> set (ic_Clients config)" "acc = \<lparr>ma_ID = us_Id c, ma_Policy = us_Policy c\<rparr>"
      by (auto simp: New_def)
    from list_all2_members(2) [OF us c(1)] obtain cfg u' where cfg: "Ok cfg \<in> set clients" "ParseString sha1 (uc_ID cfg) = Ok u'"
        "c = \<lparr>us_Id = UUID_String u', us_Policy = uc_Policy cfg\<rparr>"
      by auto
    then have "UUID_String u' = UUID_String uid"
      using u(3) c(2) by simp
    then have "u' = uid"
      using UUID_String_inj [of u' uid] assms(2,3) cfg(1,2) by simp
    then show ?thesis
      using cfg u(2) c(2) by (auto simp: userPolicy_def)
  qed
  have complete: "\<exists>user. authenticateUser uid (New config) = Ok user"
    if cfg: "Ok cfg \<in> set clients" "ParseString sha1 (uc_ID cfg) = Ok uid" for cfg
  proof -
    obtain c where c: "c \<in> set (ic_Clients config)" "c = \<lparr>us_Id = UUID_String uid, us_Policy = uc_Policy cfg\<rparr>"
      using list_all2_members(1) [OF us cfg(1)] cfg(2) by auto
    let ?acc = "\<lparr>ma_ID = us_Id c, ma_Policy = us_Policy c\<rparr>"
    have "\<lparr>mu_Account = ReflexAccount ?acc, mu_Email = us_Id c\<rparr> \<in> set (h_clients (New config))"
      using c(1) by (simp add: New_def)
    from findUser_complete [OF this, of ?acc] show ?thesis
      using c(2) by (simp add: auth)
  qed
  show ?thesis
    using sound complete by blast
qed

definition example_users :: "ReflexUserConfig result list" where
  "example_users = [Ok \<lparr>uc_ID = UUID_String (replicate 16 7), uc_Policy = ''zoom''\<rparr>]"

lemma example_build:
  "Inbound_Build sha1 example_users (Some 80)
     = Ok \<lparr>ic_Clients = [\<lparr>us_Id = UUID_String (replicate 16 7), us_Policy = ''zoom''\<rparr>], ic_Fallback = Some 80\<rparr>"
  by (simp add: Inbound_Build_def example_users_def ParseString_String)

lemma example_user: "Ok cfg \<in> set example_users \<longleftrightarrow> cfg = \<lparr>uc_ID = UUID_String (replicate 16 7), uc_Policy = ''zoom''\<rparr>"
  by (auto simp: example_users_def)

lemma example_id: "ParseString sha1 (UUID_String (replicate 16 7)) = Ok u \<longleftrightarrow> u = replicate 16 7"
  using ParseString_String [of "replicate 16 7" sha1] by simp blast

theorem configured_users_authenticate_witness:
  "\<exists>config user. Inbound_Build (\<lambda>_. []) example_users (Some 80) = Ok config
     \<and> authenticateUser (replicate 16 7) (New config) = Ok user \<and> userPolicy (Some user) = ''zoom''
     \<and> \<not> (\<exists>user. authenticateUser (replicate 16 0) (New config) = Ok user)"
proof -
  let ?c = "\<lparr>ic_Clients = [\<lparr>us_Id = UUID_String (replicate 16 7), us_Policy = ''zoom''\<rparr>], ic_Fallback = Some 80\<rparr>"
  have ids: "\<forall>cfg u. Ok cfg \<in> set example_users \<and> ParseString (\<lambda>_. []) (uc_ID cfg) = Ok u \<longrightarrow> length u = 16"
    by (simp add: example_user example_id)
  note a = configured_users_authenticate [where uid = "replicate 16 7", OF example_build length_replicate ids]
    and b = configured_users_authenticate [where uid = "replicate 16 0", OF example_build length_replicate ids]
  obtain user where u: "authenticateUser (replicate 16 7) (New ?c) = Ok user"
    using a by (auto simp: example_user example_id)
  have "userPolicy (Some user) = ''zoom''"
    using a u by (auto simp: example_user)
  moreover have "replicate 16 (0 :: byte) \<noteq> replicate 16 7"
    by simp
  then have "\<not> (\<exists>user. authenticateUser (replicate 16 0) (New ?c) = Ok user)"
    using b by (auto simp: example_user example_id)
  ultimately show ?thesis
    using example_build u by blast
qed

section \<open>An example\<close>

text \<open>A surrounding in which a handshake succeeds, one hour after the epoch.\<close>

definition example_env :: "(MultiBuffer, MultiBuffer) Env" where
  "example_env = \<lparr>env_now_ts = 3600000000000, env_now_nonce = 3600000000000, env_generateKey = Ok (replicate 32 1, replicate 32 2),
     env_newPrivateKey = (\<lambda>_. None), env_newPublicKey = (\<lambda>_. None), env_ecdh = (\<lambda>_ _. Ok (replicate 32 3)),
     env_hkdf = (\<lambda>_ _ _. \<lparr>avail = replicate 32 4, ending = EOF\<rparr>), env_newAEAD = (\<lambda>_. Ok tag_aead),
     env_random = \<lparr>avail = replicate 12 5, ending = EOF\<rparr>, env_sha256 = id,
     env_readRequest = (\<lambda>r. (Err (ErrMsg ''malformed HTTP request''), r)), env_unmarshal = (\<lambda>_. Err (ErrMsg ''invalid character'')),
     env_dispatch = (\<lambda>_. Ok []), env_linkWrite = MBC_WriteMultiBuffer, env_linkClose = id, env_write = MBC_Write [],
     env_poll = (\<lambda>_. None), env_dial = (\<lambda>_. None), env_buffered = (\<lambda>r. 5),
     env_target = \<lparr>avail = [], ending = EOF\<rparr>, env_turns = []\<rparr>"

definition example_hs :: ClientHandshake where
  "example_hs = \<lparr>ch_PublicKey = replicate 32 8, ch_UserID = replicate 16 7, ch_PolicyReq = [], ch_Timestamp = 3600,
     ch_Nonce = replicate 16 9\<rparr>"

definition example_config :: InboundConfig where
  "example_config = \<lparr>ic_Clients = [\<lparr>us_Id = UUID_String (replicate 16 7), us_Policy = ''zoom''\<rparr>], ic_Fallback = Some 80\<rparr>"

definition example_reader :: stream where
  "example_reader = \<lparr>avail = frames_bytes tag_aead 0
     ((FrameTypeData, word_of_nat (length [97 :: byte]) # [97] @ be_bytes 2 (80 :: uint16) @ [5]) # [] @ [(FrameTypeClose, [])]) @ [],
     ending = EOF\<rparr>"

lemma example_readable:
  "readable id 1000 (fresh_session tag_aead)
     ((FrameTypeData, word_of_nat (length [97 :: byte]) # [97] @ be_bytes 2 (80 :: uint16) @ [5]) # [] @ [(FrameTypeClose, [])])"
  by (rule readable_tagged) (simp_all del: be_bytes.simps)

lemma example_session:
  "\<exists>l. handleSession (\<lambda>_. Ok tag_aead) id (\<lambda>_. Ok []) MBC_WriteMultiBuffer id wr (\<lambda>_. None) key policy example_reader w
     = (None, Some (id l), w) \<and> mcontent l = mcontent [] @ [5] @ data_of []"
  unfolding example_reader_def
  by (rule mbc_link.handleSession_delivers [where newAEAD = "\<lambda>_. Ok tag_aead" and dispatch = "\<lambda>_. Ok []"
      and poll = "\<lambda>_. None" and a = "[97]" and port = 80 and key = key and ?sha256.0 = id,
      OF refl session_tag_aead fresh_session_def _ refl example_readable]) simp_all

lemma example_env_simps [simp]:
  "env_now_ts example_env = 3600000000000" "env_now_nonce example_env = 3600000000000"
  "env_generateKey example_env = Ok (replicate 32 1, replicate 32 2)" "env_newPrivateKey example_env k = None"
  "env_newPublicKey example_env k = None" "env_ecdh example_env k k' = Ok (replicate 32 3)"
  "env_hkdf example_env k s i = \<lparr>avail = replicate 32 4, ending = EOF\<rparr>" "env_newAEAD example_env = (\<lambda>_. Ok tag_aead)"
  "env_random example_env = \<lparr>avail = replicate 12 5, ending = EOF\<rparr>" "env_sha256 example_env = id"
  "env_dispatch example_env = (\<lambda>_. Ok [])" "env_linkWrite example_env = MBC_WriteMultiBuffer" "env_linkClose example_env = id"
  "env_write example_env = MBC_Write []" "env_poll example_env = (\<lambda>_. None)" "env_dial example_env p = None"
  "env_buffered example_env r = 5" "env_target example_env = \<lparr>avail = [], ending = EOF\<rparr>" "env_turns example_env = []"
  by (simp_all add: example_env_def)

lemma wf_example_hs: "wf_ClientHandshake example_hs"
  by (simp add: wf_ClientHandshake_def example_hs_def)

lemma example_valid: "validateHandshakeTimestamp 3600000000000 (ch_Timestamp example_hs) = None"
  by (simp add: example_hs_def validateHandshakeTimestamp_def time_before_def time_of_unix_def time_of_nanos_def handshakeSkew_def i64_id)

lemma example_accepted:
  "\<exists>l conn' h'. processHandshake example_env example_reader [] example_hs (New example_config) = (None, None, Some l, conn', h')"
proof -
  obtain h1 where h1: "checkAndStoreNonce 3600000000000 (ch_Nonce example_hs) (New example_config) = (True, h1)"
      "h_clients h1 = h_clients (New example_config)"
    by (simp add: checkAndStoreNonce_def cleanupExpiredNonces_def New_def Let_def)
  have user: "authenticateUser (ch_UserID example_hs) h1 = Ok \<lparr>mu_Account = ReflexAccount
      \<lparr>ma_ID = UUID_String (replicate 16 7), ma_Policy = ''zoom''\<rparr>, mu_Email = UUID_String (replicate 16 7)\<rparr>"
    by (simp add: authenticateUser_def ParseBytes_def h1(2) New_def example_config_def example_hs_def)
  obtain conn' where w: "writeHandshakeResponse (MBC_Write []) hs [] = (None, conn' hs)" for hs
    by (simp add: writeHandshakeResponse_def MBC_Write_def)
  have "\<exists>hs. processHandshake example_env example_reader [] example_hs (New example_config)
      = (let (err, link, conn'') = handleSession (\<lambda>_. Ok tag_aead) id (\<lambda>_. Ok []) MBC_WriteMultiBuffer id (MBC_Write [])
               (\<lambda>_. None) (replicate 32 4) ''zoom'' example_reader (conn' hs) in (err, None, link, conn'', h1))"
    using h1(1) user
    by (simp add: processHandshake_def example_valid generateKeyPair_def deriveSharedKey_def
        deriveSessionKey_def read_full_def encryptPolicyGrant_def w userPolicy_def) blast
  then obtain hs where "processHandshake example_env example_reader [] example_hs (New example_config)
      = (let (err, link, conn'') = handleSession (\<lambda>_. Ok tag_aead) id (\<lambda>_. Ok []) MBC_WriteMultiBuffer id (MBC_Write [])
               (\<lambda>_. None) (replicate 32 4) ''zoom'' example_reader (conn' hs) in (err, None, link, conn'', h1))" ..
  moreover obtain l where "handleSession (\<lambda>_. Ok tag_aead) id (\<lambda>_. Ok []) MBC_WriteMultiBuffer id (MBC_Write [])
      (\<lambda>_. None) (replicate 32 4) ''zoom'' example_reader (conn' hs) = (None, Some (id l), conn' hs)"
    using example_session [of "MBC_Write []" "replicate 32 4" "''zoom''" "conn' hs"] by (elim exE conjE)
  ultimately show ?thesis by simp
qed

section \<open>Properties of the handshake\<close>

text \<open>
  C3. No replay: over the whole life of a handler, no two handshakes with the same timestamp and
  nonce are both answered with a session. The nonce table forgets a nonce after fifteen minutes, but
  by then the timestamp is no longer accepted.
\<close>

theorem no_handshake_replay:
  assumes "handler_run config t atts h"
  shows "distinct (map at_key (filter (\<lambda>a. at_link a \<noteq> None) atts))"
  using handler_run_inv [OF assms] by (simp add: handler_inv_def)

theorem no_handshake_replay_witness:
  "\<exists>t a h. handler_run example_config t [a] h \<and> at_link (a :: (MultiBuffer, MultiBuffer) Attempt) \<noteq> None
     \<and> distinct (map at_key (filter (\<lambda>a. at_link a \<noteq> None) [a]))"
proof -
  obtain l conn' h' where p: "processHandshake example_env example_reader [] example_hs (New example_config)
      = (None, None, Some l, conn', h')"
    using example_accepted by blast
  let ?a = "\<lparr>at_env = example_env, at_hs = example_hs, at_link = Some l\<rparr>"
  have "handler_run example_config (env_now_nonce example_env) ([] @ [?a]) h'"
    by (rule run_step [OF run_start p wf_example_hs]) (simp_all add: plausible_clock_def handshakeSkew_def)
  then have run: "handler_run example_config (env_now_nonce example_env) [?a] h'"
    by simp
  from no_handshake_replay [OF run] run show ?thesis
    by (intro exI [of _ "env_now_nonce example_env"] exI [of _ ?a] exI [of _ h']) simp
qed

lemma checkAndStoreNonce_expired:
  assumes "checkAndStoreNonce n nonce h = (True, h')" and "(nonce, t) \<in> set (h_seenNonces h)"
  shows "n div second - t > h_nonceLifetime h div second"
proof (rule ccontr)
  let ?live = "filter (\<lambda>(_, t). \<not> n div second - t > h_nonceLifetime h div second) (h_seenNonces h)"
  assume "\<not> n div second - t > h_nonceLifetime h div second"
  then have "nonce \<in> fst ` set ?live"
    using assms(2) by force
  then show False
    using checkAndStoreNonce_effect(1) [OF assms(1)] by (simp add: map_of_eq_None_iff)
qed

text \<open>
  C4. A session is opened only for an authenticated client. Whenever \<open>processHandshake\<close> ends with a
  link, at a clock after 1970: the client's timestamp lay within 300 seconds of the clock; every
  earlier use of the nonce that the handler remembered was older than the lifetime of nonces; the
  nonce is now recorded with the current time, so a second use within the lifetime finds it; and the
  user ID is the ID of an account of the handler.
\<close>

theorem session_requires_authentication:
  assumes "processHandshake env r conn hs h = (e, re, Some l, conn', h')"
    and "wf_ClientHandshake hs" and "300 * second \<le> env_now_ts env"
  shows "\<bar>ch_Timestamp hs * second - env_now_ts env\<bar> \<le> 300 * second
    \<and> (\<forall>t. (ch_Nonce hs, t) \<in> set (h_seenNonces h) \<longrightarrow> env_now_nonce env div second - t > h_nonceLifetime h div second)
    \<and> map_of (h_seenNonces h') (ch_Nonce hs) = Some (env_now_nonce env div second)
    \<and> length (ch_UserID hs) = 16
    \<and> (\<exists>user acc. user \<in> set (h_clients h) \<and> mu_Account user = ReflexAccount acc \<and> ma_ID acc = UUID_String (ch_UserID hs))"
proof -
  obtain ok h1 where ad: "admit (env_now_ts env) (env_now_nonce env) hs h = (ok, h1)"
    by (rule prod.exhaust)
  obtain user where p: "h' = h1" "ok" "authenticateUser (ch_UserID hs) h1 = Ok user"
    using processHandshake_admit [OF assms(1) ad] by blast
  then have c: "validateHandshakeTimestamp (env_now_ts env) (ch_Timestamp hs) = None"
      "checkAndStoreNonce (env_now_nonce env) (ch_Nonce hs) h = (True, h1)"
    using admit_cases [OF ad] by simp_all
  have time: "\<bar>ch_Timestamp hs * second - env_now_ts env\<bar> \<le> 300 * second"
    using validate_range [OF c(1)] assms(2,3) by (simp add: plausible_clock_def handshakeSkew_def wf_ClientHandshake_def)
  have len: "length (ch_UserID hs) = 16" and f: "findUser (UUID_String (ch_UserID hs)) (h_clients h1) = Ok user"
    using p(3) by (auto simp: authenticateUser_def ParseBytes_def split: if_splits)
  then show ?thesis
    using time checkAndStoreNonce_expired [OF c(2)] checkAndStoreNonce_effect(2,3) [OF c(2)] p(1) findUser_Ok [OF f]
    by (auto simp: update_conv')
qed

theorem session_requires_authentication_witness:
  "\<exists>l conn' h'. processHandshake example_env example_reader [] example_hs (New example_config) = (None, None, Some l, conn', h')
     \<and> map_of (h_seenNonces h') (ch_Nonce example_hs) = Some 3600"
proof -
  obtain l conn' h' where p: "processHandshake example_env example_reader [] example_hs (New example_config)
      = (None, None, Some l, conn', h')"
    using example_accepted by blast
  from session_requires_authentication [OF p wf_example_hs] have "map_of (h_seenNonces h') (ch_Nonce example_hs) = Some 3600"
    by simp
  with p show ?thesis by blast
qed





















section \<open>The fallback\<close>

definition up_left :: "'w relayState \<Rightarrow> bytes" where
  "up_left s = rl_buffered s @ avail (rl_conn s)"

definition received_by :: "'w writer \<Rightarrow> 'w \<Rightarrow> bytes \<Rightarrow> 'w \<Rightarrow> bool" where
  "received_by wr conn bs conn' \<longleftrightarrow> (\<exists>chunks. bs = concat chunks \<and> conn' = foldl (\<lambda>w c. snd (wr w c)) conn chunks)"

lemma received_by_step:
  assumes "received_by wr (snd (wr conn c)) bs conn'"
  shows "received_by wr conn (c @ bs) conn'"
proof -
  obtain chunks where "bs = concat chunks" "conn' = foldl (\<lambda>w c. snd (wr w c)) (snd (wr conn c)) chunks"
    using assms unfolding received_by_def by (elim exE conjE)
  then show ?thesis
    unfolding received_by_def by (intro exI [of _ "c # chunks"]) simp
qed

lemma received_by_none: "received_by wr conn [] conn"
  unfolding received_by_def by (rule exI [of _ "[]"]) simp

lemma received_by_one: "received_by wr conn c (snd (wr conn c))"
  using received_by_step [OF received_by_none] by simp

text \<open>A copy that goes on moves a chunk from what is left to what has been sent.\<close>

lemma copyUp_continues:
  assumes "copyUp n f s = (None, s1)"
  shows "rl_sent s1 @ up_left s1 = rl_sent s @ up_left s" and "rl_target s1 = rl_target s"
    and "rl_received s1 = rl_received s" and "rl_client s1 = rl_client s"
  using assms by (auto simp: copyUp_def up_left_def Let_def split: if_splits option.splits)

lemma copyDown_continues:
  assumes "copyDown wr n s = (None, s1)"
  shows "\<exists>c. rl_received s1 = rl_received s @ c \<and> c @ avail (rl_target s1) = avail (rl_target s) \<and> rl_client s1 = snd (wr (rl_client s) c)"
    and "rl_sent s1 = rl_sent s" and "up_left s1 = up_left s"
  using assms by (auto simp: copyDown_def up_left_def Let_def split: if_splits option.splits prod.splits)

lemma copyUp_ends:
  assumes "copyUp n f s = (Some (how, err), s1)"
  shows "(\<exists>rest. rl_sent s1 @ rest = rl_sent s @ up_left s) \<and> rl_received s1 = rl_received s \<and> rl_client s1 = rl_client s
    \<and> (how = UpEnd \<and> rl_sent s1 = rl_sent s @ up_left s \<or> how = UpFailed \<and> f \<noteq> None)"
proof -
  have a: "\<exists>rest. take k xs @ rest = xs @ ys" for k and xs ys :: bytes
    by (rule exI [of _ "drop k xs @ ys"]) simp
  have b: "\<exists>rest. take k (take m xs) @ rest = xs" for k m and xs :: bytes
    unfolding take_take by (rule exI [of _ "drop (min k m) xs"]) simp
  show ?thesis
    using assms by (auto simp: copyUp_def up_left_def Let_def split: if_splits option.splits intro!: a b [unfolded take_take])
qed

lemma copyDown_ends:
  assumes "copyDown wr n s = (Some (how, err), s1)"
  shows "rl_sent s1 = rl_sent s
    \<and> (\<exists>c. rl_received s1 = rl_received s @ c \<and> (\<exists>rest. c @ rest = avail (rl_target s)) \<and> received_by wr (rl_client s) c (rl_client s1)
        \<and> (how = DownEnd \<and> c = avail (rl_target s) \<or> how = DownFailed))"
proof (cases "avail (rl_target s) = []")
  case True
  then show ?thesis
    using assms received_by_none [of wr "rl_client s"] by (auto simp: copyDown_def)
next
  case False
  let ?c = "take (Suc n) (avail (rl_target s))"
  have "rl_sent s1 = rl_sent s" "rl_received s1 = rl_received s @ ?c" "rl_client s1 = snd (wr (rl_client s) ?c)" "how = DownFailed"
    using assms False by (auto simp: copyDown_def Let_def split: option.splits prod.splits)
  then show ?thesis
    using received_by_one [of wr "rl_client s" ?c]
    by (intro conjI exI [of _ ?c] exI [of _ "drop (Suc n) (avail (rl_target s))"]) simp_all
qed

text \<open>How a relay from \<open>s\<close> may end.\<close>

definition relay_outcome :: "'w writer \<Rightarrow> turn list \<Rightarrow> 'w relayState \<Rightarrow> relayEnd \<Rightarrow> 'w relayState \<Rightarrow> bool" where
  "relay_outcome wr ts s how s' \<longleftrightarrow>
     (\<exists>rest. rl_sent s' @ rest = rl_sent s @ up_left s)
     \<and> (\<exists>c. rl_received s' = rl_received s @ c \<and> (\<exists>rest. c @ rest = avail (rl_target s)) \<and> received_by wr (rl_client s) c (rl_client s')
          \<and> (how = DownEnd \<longrightarrow> c = avail (rl_target s)))
     \<and> (how = UpEnd \<longrightarrow> rl_sent s' = rl_sent s @ up_left s)
     \<and> (how = UpFailed \<longrightarrow> (\<exists>n k e. Up n (Some (k, e)) \<in> set ts))
     \<and> (how = DownEnd \<or> how = DownFailed \<longrightarrow> (\<exists>n. Down n \<in> set ts))"

lemma relay_outcome_ends:
  assumes "copyTurn wr (next_turn ts) s = (Some (how, err), s1)"
  shows "relay_outcome wr ts s how s1"
proof (cases "next_turn ts")
  case (Up n f)
  then have "f \<noteq> None \<Longrightarrow> Up n f \<in> set ts"
    by (auto simp: next_turn_def split: list.splits)
  moreover note copyUp_ends [of n f s how err s1] received_by_none [of wr "rl_client s"]
  ultimately show ?thesis
    using assms Up by (auto simp: copyTurn_def relay_outcome_def)
next
  case (Down n)
  then have "Down n \<in> set ts"
    by (auto simp: next_turn_def split: list.splits)
  then show ?thesis
    using assms Down copyDown_ends [of wr n s how err s1] by (auto simp: copyTurn_def relay_outcome_def)
qed

lemma relay_outcome_continues:
  assumes "copyTurn wr (next_turn ts) s = (None, s1)" and out: "relay_outcome wr (tl ts) s1 how s'"
  shows "relay_outcome wr ts s how s'"
proof (cases "next_turn ts")
  have ts: "x \<in> set ts" if "x \<in> set (tl ts)" for x
    using that by (cases ts) simp_all
  case (Up n f)
  then show ?thesis
    using copyUp_continues [of n f s s1] assms ts by (auto simp: copyTurn_def relay_outcome_def)
next
  have ts: "x \<in> set ts" if "x \<in> set (tl ts)" for x
    using that by (cases ts) simp_all
  case (Down n)
  then have c1: "copyDown wr n s = (None, s1)"
    using assms(1) by (simp add: copyTurn_def)
  obtain c where c: "rl_received s1 = rl_received s @ c" "c @ avail (rl_target s1) = avail (rl_target s)"
      "rl_client s1 = snd (wr (rl_client s) c)"
    using copyDown_continues(1) [OF c1] by blast
  obtain c' where c': "rl_received s' = rl_received s1 @ c'" "\<exists>rest. c' @ rest = avail (rl_target s1)"
      "received_by wr (rl_client s1) c' (rl_client s')" "how = DownEnd \<longrightarrow> c' = avail (rl_target s1)"
    using out unfolding relay_outcome_def by blast
  obtain rest where "c' @ rest = avail (rl_target s1)"
    using c'(2) ..
  then have "(c @ c') @ rest = avail (rl_target s)"
    using c(2) by simp
  moreover have "rl_received s' = rl_received s @ c @ c'"
      "received_by wr (rl_client s) (c @ c') (rl_client s')" "how = DownEnd \<longrightarrow> c @ c' = avail (rl_target s)"
    using c c' received_by_step [of wr "rl_client s" c c' "rl_client s'"] by auto
  ultimately have "\<exists>c. rl_received s' = rl_received s @ c \<and> (\<exists>rest. c @ rest = avail (rl_target s))
      \<and> received_by wr (rl_client s) c (rl_client s') \<and> (how = DownEnd \<longrightarrow> c = avail (rl_target s))"
    by blast
  then show ?thesis
    using out ts unfolding relay_outcome_def copyDown_continues(2,3) [OF c1] by blast
qed

lemma relay_ends: "relay wr ts s = (how, err, s') \<Longrightarrow> relay_outcome wr ts s how s'"
proof (induction wr ts s rule: relay.induct)
  case (1 wr ts s)
  obtain r s1 where c: "copyTurn wr (next_turn ts) s = (r, s1)"
    by (rule prod.exhaust)
  show ?case
  proof (cases r)
    case None
    then have "relay wr (tl ts) s1 = (how, err, s')"
      using "1.prems" c by (subst (asm) relay.simps) simp
    then show ?thesis
      using "1.IH" [OF c [symmetric] None] c None relay_outcome_continues by blast
  next
    case (Some x)
    then show ?thesis
      using "1.prems" c relay_outcome_ends [of wr ts s] by (subst (asm) relay.simps) (cases x, simp)
  qed
qed

text \<open>
  C9. Traffic that is not Reflex passes through untouched. When the first bytes are neither the magic
  number nor an HTTP POST, the connection is relayed to the fallback server and no session is opened,
  however many bytes the detection has buffered and however the two copies take turns. What the
  server receives is a prefix of the client's bytes, the inspected ones included, and all of them when
  the client's side ends first; what the client is sent is a prefix of the server's bytes, written in
  order, and all of them when the server's side ends first. The relay ends otherwise only by a failed
  write.
\<close>

theorem other_traffic_passes_through:
  assumes "avail r \<noteq> []" and "ending r = EOF \<or> 5 \<le> length (avail r)"
    and "\<not> isReflexMagic (take 5 (avail r))" and "\<not> isHTTPPostLike (take 5 (avail r))"
    and "h_fallback h = Some port" and "port \<noteq> 0" and "env_dial env port = None"
  shows "\<exists>err re conn'. Process env Network_TCP r conn h = (err, Some re, None, conn', h) \<and> re_port re = port
    \<and> (\<exists>rest. avail r = re_sent re @ rest) \<and> (re_end re = UpEnd \<longrightarrow> re_sent re = avail r)
    \<and> (\<exists>rest. avail (env_target env) = re_received re @ rest) \<and> (re_end re = DownEnd \<longrightarrow> re_received re = avail (env_target env))
    \<and> (\<exists>chunks. re_received re = concat chunks \<and> conn' = foldl (\<lambda>w c. snd (env_write env w c)) conn chunks)
    \<and> (re_end re = UpFailed \<longrightarrow> (\<exists>n k e. Up n (Some (k, e)) \<in> set (env_turns env)))
    \<and> (re_end re = DownEnd \<or> re_end re = DownFailed \<longrightarrow> (\<exists>n. Down n \<in> set (env_turns env)))"
proof -
  have "peekForDetection r 5 = Ok (take 5 (avail r))"
    using assms(1,2) by (auto simp: peekForDetection_def peek_def Let_def)
  then have P: "Process env Network_TCP r conn h = handleFallback env r conn h"
    using assms by (simp add: Process_def)
  let ?s = "\<lparr>rl_buffered = take (env_buffered env r) (avail r), rl_conn = r\<lparr>avail := drop (env_buffered env r) (avail r)\<rparr>,
      rl_sent = [], rl_target = env_target env, rl_received = [], rl_client = conn\<rparr>"
  obtain how err s' where r: "relay (env_write env) (env_turns env) ?s = (how, err, s')"
    by (rule prod_cases3)
  have "relay_outcome (env_write env) (env_turns env) ?s how s'"
    by (rule relay_ends [OF r])
  then have out: "\<exists>rest. avail r = rl_sent s' @ rest" "how = UpEnd \<longrightarrow> rl_sent s' = avail r"
      "\<exists>rest. avail (env_target env) = rl_received s' @ rest" "how = DownEnd \<longrightarrow> rl_received s' = avail (env_target env)"
      "\<exists>chunks. rl_received s' = concat chunks \<and> rl_client s' = foldl (\<lambda>w c. snd (env_write env w c)) conn chunks"
      "how = UpFailed \<longrightarrow> (\<exists>n k e. Up n (Some (k, e)) \<in> set (env_turns env))"
      "how = DownEnd \<or> how = DownFailed \<longrightarrow> (\<exists>n. Down n \<in> set (env_turns env))"
    by (auto simp: relay_outcome_def up_left_def received_by_def dest: sym)
  have "handleFallback env r conn h = (if err = Some EOF then None else err,
      Some \<lparr>re_port = port, re_sent = rl_sent s', re_received = rl_received s', re_end = how\<rparr>, None, rl_client s', h)"
    using assms(5-7) r by (simp add: handleFallback_def)
  with P show ?thesis
    using out by (intro exI [of _ "if err = Some EOF then None else err"] exI [of _ "\<lparr>re_port = port, re_sent = rl_sent s',
        re_received = rl_received s', re_end = how\<rparr>"] exI [of _ "rl_client s'"]) (simp only: Relay.select_convs simp_thms)
qed

definition get_request :: bytes where
  "get_request = str_bytes ''GET / HTTP/1.1''"

definition web_env :: "(MultiBuffer, MultiBuffer) Env" where
  "web_env = example_env\<lparr>env_target := \<lparr>avail = str_bytes ''HTTP/1.1 200 OK'', ending = EOF\<rparr>, env_turns := [Up 3 None, Up 1 None]\<rparr>"

theorem other_traffic_passes_through_witness:
  "\<exists>err re conn'. Process web_env Network_TCP \<lparr>avail = get_request, ending = EOF\<rparr> [] (New example_config)
      = (err, Some re, None, conn', New example_config) \<and> re_port re = 80
    \<and> re_sent re = get_request"
proof -
  let ?r = "\<lparr>avail = get_request, ending = EOF\<rparr>"
  have first: "\<not> isReflexMagic (take 5 (avail ?r))" "\<not> isHTTPPostLike (take 5 (avail ?r))"
    by code_simp+
  have r: "avail ?r \<noteq> []" "ending ?r = EOF \<or> 5 \<le> length (avail ?r)" "h_fallback (New example_config) = Some 80" "(80 :: uint32) \<noteq> 0"
      "env_dial web_env 80 = None"
    by (simp_all add: get_request_def str_bytes_def New_def example_config_def web_env_def)
  obtain err re conn' where p: "Process web_env Network_TCP ?r [] (New example_config) = (err, Some re, None, conn', New example_config)"
      "re_port re = 80" "re_end re = UpEnd \<longrightarrow> re_sent re = avail ?r"
      "re_end re = UpFailed \<longrightarrow> (\<exists>n k e. Up n (Some (k, e)) \<in> set (env_turns web_env))"
      "re_end re = DownEnd \<or> re_end re = DownFailed \<longrightarrow> (\<exists>n. Down n \<in> set (env_turns web_env))"
    using other_traffic_passes_through [OF r(1,2) first r(3-5), of "[]"] by (elim exE conjE)
  then have "re_end re = UpEnd"
    by (cases "re_end re") (auto simp: web_env_def)
  with p show ?thesis by auto
qed

text \<open>
  C10. A client that is not a configured user learns nothing more than a prober: whatever its
  timestamp and nonce, once the keys can be derived it receives the text of a 403 response and is
  handed to the fallback, and the users and the fallback of the handler stay as they were.
\<close>

theorem unknown_user_refused:
  assumes "authenticateUser (ch_UserID hs) h = Err e0" and "generateKeyPair env = Ok (priv, pub)"
    and "deriveSharedKey env priv (ch_PublicKey hs) = Ok shared" and "deriveSessionKey env shared (ch_Nonce hs) = Ok key"
  shows "\<exists>h'. processHandshake env r conn hs h
      = handleFallback env r (snd (env_write env conn (str_bytes (errorText 403)))) h'
    \<and> h_clients h' = h_clients h \<and> h_fallback h' = h_fallback h"
proof -
  obtain ok h1 where c: "checkAndStoreNonce (env_now_nonce env) (ch_Nonce hs) h = (ok, h1)"
    by (rule prod.exhaust)
  have h1: "h_clients h1 = h_clients h" "h_fallback h1 = h_fallback h"
    using checkAndStoreNonce_effect(3,4) [OF c] by simp_all
  then have "authenticateUser (ch_UserID hs) h1 = Err e0"
    using assms(1) by (auto simp: authenticateUser_def split: sum.splits)
  then show ?thesis
    using assms c h1
    by (cases "validateHandshakeTimestamp (env_now_ts env) (ch_Timestamp hs)")
      (auto simp: processHandshake_def refuse_def writeHTTPError_def StatusForbidden_def)
qed

theorem unknown_user_refused_witness:
  "\<exists>h'. processHandshake example_env example_reader [] (example_hs\<lparr>ch_UserID := replicate 16 1\<rparr>) (New example_config)
      = handleFallback example_env example_reader (snd (MBC_Write [] [] (str_bytes (errorText 403)))) h'"
proof -
  let ?hs = "example_hs\<lparr>ch_UserID := replicate 16 1\<rparr>"
  have "UUID_String (replicate 16 7) \<noteq> UUID_String (replicate 16 1)"
    using UUID_String_inj [of "replicate 16 7" "replicate 16 1"] by simp
  then have "authenticateUser (ch_UserID ?hs) (New example_config) = Err (ErrMsg ''reflex user not found'')"
    by (simp add: authenticateUser_def ParseBytes_def New_def example_config_def)
  from unknown_user_refused [OF this, of example_env "replicate 32 1" "replicate 32 2" "replicate 32 3" "replicate 32 4"
      example_reader "[]"] show ?thesis
    by (auto simp: generateKeyPair_def deriveSharedKey_def deriveSessionKey_def to_array_def read_full_def)
qed

end
