(* ===== verification/Strmatcher.thy ===== *)
theory Strmatcher
  imports Prelude "HOL-Library.AList" "HOL-Library.Sublist"
begin

text \<open>
  String matchers: \<open>common/strmatcher\<close>, without the automaton and the hash table, which have
  theories of their own.

  Single matchers (\<open>matchers.go\<close>) are the reference; \<open>FullMatcherGroup\<close> (\<open>full_matcher.go\<close>),
  \<open>DomainMatcherGroup\<close> (\<open>domain_matcher.go\<close>) and \<open>MatcherGroup\<close> (\<open>strmatcher.go\<close>) answer for many of
  them at once. Go maps are association lists; a compiled regular expression is the predicate that
  the \<open>regexp\<close> package makes of it.
\<close>

section \<open>Matchers\<close>

datatype Type = Full | Substr | Domain | Regex | UnknownType

datatype Matcher =
    fullMatcher string
  | substrMatcher string
  | domainMatcher string
  | regexMatcher "string \<Rightarrow> bool"

text \<open>\<open>strings.Contains\<close> and \<open>strings.HasSuffix\<close>.\<close>

fun contains_str :: "string \<Rightarrow> string \<Rightarrow> bool" where
  "contains_str [] p \<longleftrightarrow> p = []"
| "contains_str (c # s) p \<longleftrightarrow> take (length p) (c # s) = p \<or> contains_str s p"

definition has_suffix :: "string \<Rightarrow> string \<Rightarrow> bool" where
  "has_suffix s p \<longleftrightarrow> length p \<le> length s \<and> drop (length s - length p) s = p"

definition domainMatch :: "string \<Rightarrow> string \<Rightarrow> bool" where
  "domainMatch pattern s \<longleftrightarrow>
     (if \<not> has_suffix s pattern then False
      else length s = length pattern \<or> s ! (length s - length pattern - 1) = CHR ''.'')"

definition fullMatcher_Match :: "string \<Rightarrow> string \<Rightarrow> bool" where
  [simp]: "fullMatcher_Match m s \<longleftrightarrow> m = s"

definition substrMatcher_Match :: "string \<Rightarrow> string \<Rightarrow> bool" where
  [simp]: "substrMatcher_Match m s \<longleftrightarrow> contains_str s m"

definition regexMatcher_Match :: "(string \<Rightarrow> bool) \<Rightarrow> string \<Rightarrow> bool" where
  [simp]: "regexMatcher_Match pattern s \<longleftrightarrow> pattern s"

text \<open>The method of the interface; \<open>String\<close> serves logging only.\<close>

fun Matcher_Match :: "Matcher \<Rightarrow> string \<Rightarrow> bool" where
  "Matcher_Match (fullMatcher m) s \<longleftrightarrow> fullMatcher_Match m s"
| "Matcher_Match (substrMatcher m) s \<longleftrightarrow> substrMatcher_Match m s"
| "Matcher_Match (domainMatcher m) s \<longleftrightarrow> domainMatch m s"
| "Matcher_Match (regexMatcher pattern) s \<longleftrightarrow> regexMatcher_Match pattern s"

definition Type_New :: "(string \<Rightarrow> (string \<Rightarrow> bool) result) \<Rightarrow> Type \<Rightarrow> string \<Rightarrow> Matcher result" where
  "Type_New compile t pattern =
     (case t of
        Full \<Rightarrow> Ok (fullMatcher pattern)
      | Substr \<Rightarrow> Ok (substrMatcher pattern)
      | Domain \<Rightarrow> Ok (domainMatcher pattern)
      | Regex \<Rightarrow> (case compile pattern of Inl e \<Rightarrow> Err e | Inr r \<Rightarrow> Ok (regexMatcher r))
      | UnknownType \<Rightarrow> Err (ErrMsg ''unk type''))"

section \<open>Groups\<close>

type_synonym FullMatcherGroup = "(string \<times> uint32 list) list"

definition Full_Match :: "FullMatcherGroup \<Rightarrow> string \<Rightarrow> uint32 list" where
  "Full_Match g str = (case map_of g str of None \<Rightarrow> [] | Some vs \<Rightarrow> vs)"

definition Full_Add :: "string \<Rightarrow> uint32 \<Rightarrow> FullMatcherGroup \<Rightarrow> FullMatcherGroup" where
  "Full_Add domain v g = AList.update domain (Full_Match g domain @ [v]) g"

text \<open>\<open>strings.Split(domain, ".")\<close>: always at least one part.\<close>

fun breakDomain :: "string \<Rightarrow> string list" where
  "breakDomain [] = [[]]"
| "breakDomain (c # s) =
     (if c = CHR ''.'' then [] # breakDomain s
      else (case breakDomain s of [] \<Rightarrow> [[c]] | p # ps \<Rightarrow> (c # p) # ps))"

datatype node = Node (node_values: "uint32 list") (node_sub: "(string \<times> node) list")

fun addParts :: "string list \<Rightarrow> uint32 \<Rightarrow> node \<Rightarrow> node" where
  "addParts [] v (Node vs sub) = Node (vs @ [v]) sub"
| "addParts (part # parts) v (Node vs sub) =
     (let next = (case map_of sub part of None \<Rightarrow> Node [] [] | Some n \<Rightarrow> n) in
      Node vs (AList.update part (addParts parts v next) sub))"

type_synonym DomainMatcherGroup = "node option"

definition Domain_Add :: "string \<Rightarrow> uint32 \<Rightarrow> DomainMatcherGroup \<Rightarrow> DomainMatcherGroup" where
  "Domain_Add domain v root =
     Some (addParts (rev (breakDomain domain)) v (case root of None \<Rightarrow> Node [] [] | Some n \<Rightarrow> n))"

text \<open>The dot before position \<open>idx\<close>, or \<open>-1\<close>.\<close>

fun nextPart :: "string \<Rightarrow> nat \<Rightarrow> int" where
  "nextPart domain 0 = -1"
| "nextPart domain (Suc i) = (if domain ! i = CHR ''.'' then int i else nextPart domain i)"

lemma nextPart_less: "nextPart domain idx < int idx"
  by (induction idx) auto

lemma nextPart_ge: "-1 \<le> nextPart domain idx"
  by (induction idx) auto

function matchLoop :: "string \<Rightarrow> int \<Rightarrow> node \<Rightarrow> uint32 list list \<Rightarrow> uint32 list list" where
  "matchLoop domain idx cur matches =
     (if idx < 0 \<or> node_sub cur = [] then matches
      else
        let nidx = nextPart domain (nat idx);
            part = drop (nat (nidx + 1)) (take (nat idx) domain) in
        case map_of (node_sub cur) part of
          None \<Rightarrow> matches
        | Some next \<Rightarrow>
            matchLoop domain nidx next (if length (node_values next) > 0 then matches @ [node_values next] else matches))"
  by pat_completeness auto
termination
proof (relation "measure (\<lambda>(domain, idx, cur, matches). nat (idx + 1))")
  fix domain idx cur matches x xa x2
  assume "\<not> (idx < 0 \<or> node_sub cur = [])" and "x = nextPart domain (nat idx)"
  then have "0 \<le> idx" and "x < int (nat idx)"
    using nextPart_less [of domain "nat idx"] by auto
  then show "((domain, x, x2, if length (node_values x2) > 0 then matches @ [node_values x2] else matches), domain, idx, cur, matches)
      \<in> measure (\<lambda>(domain, idx, cur, matches). nat (idx + 1))"
    by simp
qed simp

declare matchLoop.simps [simp del]

definition Domain_Match :: "DomainMatcherGroup \<Rightarrow> string \<Rightarrow> uint32 list" where
  "Domain_Match root domain =
     (if domain = [] then []
      else case root of
             None \<Rightarrow> []
           | Some n \<Rightarrow>
               (let matches = matchLoop domain (int (length domain)) n [] in
                case matches of [] \<Rightarrow> [] | [m] \<Rightarrow> m | _ \<Rightarrow> concat (rev matches)))"

record MatcherGroup =
  mg_count :: uint32
  mg_fullMatcher :: FullMatcherGroup
  mg_domainMatcher :: DomainMatcherGroup
  mg_otherMatchers :: "(Matcher \<times> uint32) list"

definition NewMatcherGroup :: MatcherGroup where
  "NewMatcherGroup = \<lparr>mg_count = 0, mg_fullMatcher = [], mg_domainMatcher = None, mg_otherMatchers = []\<rparr>"

definition Group_Add :: "Matcher \<Rightarrow> MatcherGroup \<Rightarrow> uint32 \<times> MatcherGroup" where
  "Group_Add m g =
     (let c = mg_count g + 1; g1 = g\<lparr>mg_count := c\<rparr> in
      (c,
       case m of
         fullMatcher tm \<Rightarrow> g1\<lparr>mg_fullMatcher := Full_Add tm c (mg_fullMatcher g1)\<rparr>
       | domainMatcher tm \<Rightarrow> g1\<lparr>mg_domainMatcher := Domain_Add tm c (mg_domainMatcher g1)\<rparr>
       | _ \<Rightarrow> g1\<lparr>mg_otherMatchers := mg_otherMatchers g1 @ [(m, c)]\<rparr>))"

definition Group_Match :: "MatcherGroup \<Rightarrow> string \<Rightarrow> uint32 list" where
  "Group_Match g pattern =
     Full_Match (mg_fullMatcher g) pattern @ Domain_Match (mg_domainMatcher g) pattern
     @ map snd (filter (\<lambda>(m, _). Matcher_Match m pattern) (mg_otherMatchers g))"

definition Group_Size :: "MatcherGroup \<Rightarrow> uint32" where
  "Group_Size g = mg_count g"

section \<open>Splitting at dots\<close>

fun joinDots :: "string list \<Rightarrow> string" where
  "joinDots [] = []"
| "joinDots [p] = p"
| "joinDots (p # ps) = p @ CHR ''.'' # joinDots ps"

lemma breakDomain_not_Nil [simp]: "breakDomain s \<noteq> []"
  by (induction s) (auto split: list.splits)

lemma joinDots_breakDomain [simp]: "joinDots (breakDomain s) = s"
proof (induction s)
  case (Cons c s)
  obtain p ps where "breakDomain s = p # ps"
    by (meson breakDomain_not_Nil list.exhaust)
  then show ?case
    using Cons by (cases ps) auto
qed simp

lemma breakDomain_inj: "breakDomain s = breakDomain t \<longleftrightarrow> s = t"
  by (metis joinDots_breakDomain)

lemma breakDomain_dot: "breakDomain (s @ CHR ''.'' # t) = breakDomain s @ breakDomain t"
proof (induction s)
  case (Cons c s)
  then show ?case
    by (cases "breakDomain s") auto
qed simp

lemma joinDots_append: "ps \<noteq> [] \<Longrightarrow> qs \<noteq> [] \<Longrightarrow> joinDots (ps @ qs) = joinDots ps @ CHR ''.'' # joinDots qs"
  by (induction ps rule: joinDots.induct) (auto simp: neq_Nil_conv)

lemma has_suffix_iff: "has_suffix s p \<longleftrightarrow> suffix p s"
  unfolding has_suffix_def suffix_def by (metis append_take_drop_id diff_diff_cancel length_append length_drop le_add2 append_eq_conv_conj add_diff_cancel_right')

lemma domainMatch_iff: "domainMatch d s \<longleftrightarrow> s = d \<or> suffix (CHR ''.'' # d) s"
proof
  assume m: "domainMatch d s"
  then obtain x where x: "s = x @ d"
    by (auto simp: domainMatch_def has_suffix_iff suffix_def split: if_splits)
  show "s = d \<or> suffix (CHR ''.'' # d) s"
  proof (cases x rule: rev_cases)
    case (snoc y c)
    then have "s ! (length s - length d - 1) = c"
      using x by (simp add: nth_append)
    then show ?thesis
      using m x snoc by (auto simp: domainMatch_def suffix_def split: if_splits)
  qed (use x in simp)
qed (auto simp: domainMatch_def has_suffix_iff suffix_def nth_append)

lemma domainMatch_parts: "domainMatch d s \<longleftrightarrow> suffix (breakDomain d) (breakDomain s)"
proof
  assume "domainMatch d s"
  then show "suffix (breakDomain d) (breakDomain s)"
    by (auto simp: domainMatch_iff suffix_def breakDomain_dot)
next
  assume "suffix (breakDomain d) (breakDomain s)"
  then obtain ps where ps: "breakDomain s = ps @ breakDomain d"
    by (auto simp: suffix_def)
  then have "s = joinDots (ps @ breakDomain d)"
    by (metis joinDots_breakDomain)
  then show "domainMatch d s"
    by (cases "ps = []") (auto simp: domainMatch_iff joinDots_append suffix_def)
qed

lemma breakDomain_snoc:
  "breakDomain (s @ [c]) =
     (if c = CHR ''.'' then breakDomain s @ [[]] else butlast (breakDomain s) @ [last (breakDomain s) @ [c]])"
proof (induction s)
  case (Cons a s)
  then show ?case
    by (cases "breakDomain s") auto
qed simp

lemma breakDomain_nextPart:
  assumes "idx \<le> length domain"
  shows "breakDomain (take idx domain) =
    (if nextPart domain idx = -1 then [] else breakDomain (take (nat (nextPart domain idx)) domain))
    @ [drop (nat (nextPart domain idx + 1)) (take idx domain)]"
  using assms
proof (induction idx)
  case (Suc i)
  let ?n = "nextPart domain i"
  have t: "take (Suc i) domain = take i domain @ [domain ! i]"
    using Suc.prems by (simp add: take_Suc_conv_app_nth)
  have "nat (?n + 1) \<le> i"
    using nextPart_less [of domain i] by simp
  then show ?case
    using Suc unfolding t by (auto simp: breakDomain_snoc)
qed simp

section \<open>The domain tree\<close>

fun walk :: "string list \<Rightarrow> node \<Rightarrow> uint32 list list" where
  "walk [] n = []"
| "walk (p # ps) n = (case map_of (node_sub n) p of None \<Rightarrow> [] | Some m \<Rightarrow> node_values m # walk ps m)"

fun vals_at :: "string list \<Rightarrow> node \<Rightarrow> uint32 list" where
  "vals_at [] n = node_values n"
| "vals_at (p # ps) n = (case map_of (node_sub n) p of None \<Rightarrow> [] | Some m \<Rightarrow> vals_at ps m)"

lemma walk_leaf: "node_sub n = [] \<Longrightarrow> walk ps n = []"
  by (cases ps) auto

lemma vals_at_empty [simp]: "vals_at qs (Node [] []) = []"
  by (cases qs) auto

lemma matchLoop_walk:
  assumes "-1 \<le> idx" and "idx \<le> int (length domain)"
  shows "matchLoop domain idx cur ms
    = ms @ filter (\<lambda>vs. vs \<noteq> []) (walk (if idx < 0 then [] else rev (breakDomain (take (nat idx) domain))) cur)"
  using assms
proof (induction domain idx cur ms rule: matchLoop.induct)
  case (1 domain idx cur ms)
  let ?n = "nextPart domain (nat idx)"
  let ?part = "drop (nat (?n + 1)) (take (nat idx) domain)"
  show ?case
  proof (cases "idx < 0 \<or> node_sub cur = []")
    case True
    then show ?thesis
      by (auto simp: matchLoop.simps [of domain idx] walk_leaf)
  next
    case False
    have n: "-1 \<le> ?n" "?n \<le> int (length domain)"
      using nextPart_less [of domain "nat idx"] nextPart_ge [of domain "nat idx"] "1.prems" False by simp_all
    have parts: "rev (breakDomain (take (nat idx) domain))
        = ?part # (if ?n < 0 then [] else rev (breakDomain (take (nat ?n) domain)))"
      using breakDomain_nextPart [of "nat idx" domain] "1.prems" False n by auto
    show ?thesis
    proof (cases "map_of (node_sub cur) ?part")
      case None
      then show ?thesis
        using False parts by (simp add: matchLoop.simps [of domain idx] Let_def)
    next
      case (Some next')
      then show ?thesis
        using False parts "1.IH" [OF False refl refl Some n] by (simp add: matchLoop.simps [of domain idx] Let_def)
    qed
  qed
qed

lemma concat_filter_nonempty: "concat (filter (\<lambda>x. x \<noteq> []) xs) = concat xs"
  by (induction xs) auto

lemma Domain_Match_walk:
  assumes "domain \<noteq> []"
  shows "Domain_Match (Some n) domain = concat (rev (walk (rev (breakDomain domain)) n))"
proof -
  let ?w = "walk (rev (breakDomain domain)) n"
  have m: "matchLoop domain (int (length domain)) n [] = filter (\<lambda>vs. vs \<noteq> []) ?w"
    using matchLoop_walk [of "int (length domain)" domain n "[]"] by simp
  have "Domain_Match (Some n) domain = concat (rev (filter (\<lambda>vs. vs \<noteq> []) ?w))"
    using assms by (auto simp: Domain_Match_def m Let_def split: list.splits)
  also have "\<dots> = concat (rev ?w)"
    by (metis concat_filter_nonempty rev_filter)
  finally show ?thesis .
qed

lemma concat_rev_walk:
  "concat (rev (walk ps n)) = concat (rev (map (\<lambda>k. vals_at (take (Suc k) ps) n) [0..<length ps]))"
proof (induction ps arbitrary: n)
  case (Cons p ps)
  have split: "[0..<length (p # ps)] = 0 # map Suc [0..<length ps]"
    by (simp add: upt_conv_Cons map_Suc_upt del: upt_Suc)
  show ?case
  proof (cases "map_of (node_sub n) p")
    case None
    then show ?thesis
      unfolding split by (simp add: comp_def rev_map)
  next
    case (Some m)
    then show ?thesis
      unfolding split using Cons [of m] by (simp add: comp_def)
  qed
qed simp

lemma vals_at_addParts: "vals_at qs (addParts ps v n) = vals_at qs n @ (if qs = ps then [v] else [])"
proof (induction ps v n arbitrary: qs rule: addParts.induct)
  case (1 v vs sub)
  then show ?case by (cases qs) auto
next
  case (2 part parts v vs sub)
  then show ?case
    by (cases qs) (auto simp: update_conv' Let_def split: option.splits)
qed

definition addDomains :: "(string \<times> uint32) list \<Rightarrow> DomainMatcherGroup" where
  "addDomains es = fold (\<lambda>(d, v) g. Domain_Add d v g) es None"

lemma addDomains_snoc: "addDomains (es @ [(d, v)]) = Domain_Add d v (addDomains es)"
  by (simp add: addDomains_def)

lemma vals_at_addDomains:
  "vals_at qs (case addDomains es of None \<Rightarrow> Node [] [] | Some n \<Rightarrow> n)
     = map snd (filter (\<lambda>(d, _). rev (breakDomain d) = qs) es)"
proof (induction es rule: rev_induct)
  case Nil
  then show ?case by (cases qs) (simp_all add: addDomains_def)
next
  case (snoc e es)
  obtain d v where "e = (d, v)" by (rule prod.exhaust)
  then show ?case
    using snoc.IH by (simp add: addDomains_snoc Domain_Add_def vals_at_addParts eq_commute [of qs])
qed

lemma Domain_Match_addDomains:
  assumes "s \<noteq> []"
  shows "Domain_Match (addDomains es) s =
    concat (rev (map (\<lambda>k. map snd (filter (\<lambda>(d, _). rev (breakDomain d) = take (Suc k) (rev (breakDomain s))) es))
      [0..<length (breakDomain s)]))"
proof (cases "addDomains es")
  case None
  then have "es = []"
    by (cases es rule: rev_cases) (auto simp: addDomains_snoc Domain_Add_def)
  then show ?thesis
    using None assms by (simp add: Domain_Match_def concat_eq_Nil_conv)
next
  case (Some n)
  then show ?thesis
    using assms vals_at_addDomains [of _ es] by (simp add: Domain_Match_walk concat_rev_walk)
qed

lemma set_Domain_Match:
  assumes "s \<noteq> []"
  shows "set (Domain_Match (addDomains es) s) = {v. \<exists>d. (d, v) \<in> set es \<and> domainMatch d s}"
proof -
  have iff: "domainMatch d s \<longleftrightarrow> (\<exists>k<length (breakDomain s). rev (breakDomain d) = take (Suc k) (rev (breakDomain s)))" for d
  proof -
    have "domainMatch d s \<longleftrightarrow> prefix (rev (breakDomain d)) (rev (breakDomain s))"
      by (simp add: domainMatch_parts suffix_to_prefix)
    also have "\<dots> \<longleftrightarrow> (\<exists>k<length (breakDomain s). rev (breakDomain d) = take (Suc k) (rev (breakDomain s)))"
    proof
      assume p: "prefix (rev (breakDomain d)) (rev (breakDomain s))"
      then have "rev (breakDomain d) = take (length (breakDomain d)) (rev (breakDomain s))"
        by (auto simp: prefix_def)
      moreover obtain k where "length (breakDomain d) = Suc k"
        by (cases "length (breakDomain d)") auto
      moreover have "length (breakDomain d) \<le> length (breakDomain s)"
        using prefix_length_le [OF p] by simp
      ultimately show "\<exists>k<length (breakDomain s). rev (breakDomain d) = take (Suc k) (rev (breakDomain s))"
        by (intro exI [of _ k]) (metis Suc_le_eq)
    qed (metis take_is_prefix)
    finally show ?thesis .
  qed
  show ?thesis
    unfolding iff Domain_Match_addDomains [OF assms] by (auto, blast, force)
qed


lemma Full_Match_Add: "Full_Match (Full_Add d v g) s = Full_Match g s @ (if s = d then [v] else [])"
  by (simp add: Full_Match_def Full_Add_def update_conv' split: option.splits)

section \<open>The group of all matchers\<close>

definition addAll :: "Matcher list \<Rightarrow> MatcherGroup" where
  "addAll ms = fold (\<lambda>m g. snd (Group_Add m g)) ms NewMatcherGroup"

definition numbered :: "Matcher list \<Rightarrow> (Matcher \<times> uint32) list" where
  "numbered ms = zip ms (map (\<lambda>i. word_of_nat (Suc i)) [0..<length ms])"

lemma numbered_snoc: "numbered (ms @ [m]) = numbered ms @ [(m, word_of_nat (length ms) + 1)]"
  by (simp add: numbered_def add.commute)

definition is_full :: "Matcher \<Rightarrow> bool" where
  "is_full m \<longleftrightarrow> (case m of fullMatcher _ \<Rightarrow> True | _ \<Rightarrow> False)"

definition is_domain :: "Matcher \<Rightarrow> bool" where
  "is_domain m \<longleftrightarrow> (case m of domainMatcher _ \<Rightarrow> True | _ \<Rightarrow> False)"

fun pattern_of :: "Matcher \<Rightarrow> string" where
  "pattern_of (fullMatcher p) = p"
| "pattern_of (substrMatcher p) = p"
| "pattern_of (domainMatcher p) = p"
| "pattern_of (regexMatcher _) = []"

lemma addAll_snoc: "addAll (ms @ [m]) = snd (Group_Add m (addAll ms))"
  by (simp add: addAll_def)

lemma addAll_parts:
  "mg_count (addAll ms) = word_of_nat (length ms)"
  "Full_Match (mg_fullMatcher (addAll ms)) s
     = map snd (filter (\<lambda>(m, _). is_full m \<and> Matcher_Match m s) (numbered ms))"
  "mg_domainMatcher (addAll ms) = addDomains (map (\<lambda>(m, v). (pattern_of m, v)) (filter (\<lambda>(m, _). is_domain m) (numbered ms)))"
  "mg_otherMatchers (addAll ms) = filter (\<lambda>(m, _). \<not> is_full m \<and> \<not> is_domain m) (numbered ms)"
proof (induction ms rule: rev_induct)
  case Nil
  {
    case 1 then show ?case by (simp add: addAll_def NewMatcherGroup_def)
  next
    case 2 then show ?case by (simp add: addAll_def NewMatcherGroup_def Full_Match_def numbered_def)
  next
    case 3 then show ?case by (simp add: addAll_def NewMatcherGroup_def addDomains_def numbered_def)
  next
    case 4 then show ?case by (simp add: addAll_def NewMatcherGroup_def numbered_def)
  }
next
  case (snoc m ms)
  note ih = snoc.IH
  {
    case 1 then show ?case
      using ih(1) by (cases m) (simp_all add: addAll_snoc Group_Add_def Let_def)
  next
    case 2 then show ?case
      using ih(1,2) by (cases m) (auto simp: addAll_snoc Group_Add_def Let_def numbered_snoc Full_Match_Add is_full_def)
  next
    case 3 then show ?case
      using ih(1,3) by (cases m) (simp_all add: addAll_snoc Group_Add_def Let_def numbered_snoc addDomains_snoc is_domain_def)
  next
    case 4 then show ?case
      using ih(1,4) by (cases m) (simp_all add: addAll_snoc Group_Add_def Let_def numbered_snoc is_full_def is_domain_def)
  }
qed

lemma set_Group_Match:
  assumes "s \<noteq> []"
  shows "set (Group_Match (addAll ms) s) = {v. \<exists>m. (m, v) \<in> set (numbered ms) \<and> Matcher_Match m s}"
proof -
  have d: "is_domain m \<Longrightarrow> domainMatch (pattern_of m) s = Matcher_Match m s" for m
    by (cases m) (auto simp: is_domain_def)
  have full: "set (Full_Match (mg_fullMatcher (addAll ms)) s) = {v. \<exists>m. (m, v) \<in> set (numbered ms) \<and> is_full m \<and> Matcher_Match m s}"
    unfolding addAll_parts by force
  have dom: "set (Domain_Match (mg_domainMatcher (addAll ms)) s)
      = {v. \<exists>m. (m, v) \<in> set (numbered ms) \<and> is_domain m \<and> Matcher_Match m s}"
    unfolding addAll_parts set_Domain_Match [OF assms] using d by force
  have other: "set (map snd (filter (\<lambda>(m, _). Matcher_Match m s) (mg_otherMatchers (addAll ms))))
      = {v. \<exists>m. (m, v) \<in> set (numbered ms) \<and> \<not> is_full m \<and> \<not> is_domain m \<and> Matcher_Match m s}"
    unfolding addAll_parts by force
  show ?thesis
    unfolding Group_Match_def set_append full dom other by blast
qed

section \<open>Properties\<close>

text \<open>
  A group of matchers gives the same answer as asking every matcher: for a non-empty input, the
  indices returned are exactly those of the matchers that match it, counted from one in the order of
  adding, although full matchers sit in a hash map and domain matchers in a tree of labels.
\<close>

theorem group_matches_each:
  assumes "s \<noteq> []" and "length ms < 2 ^ 32" and "i < length ms"
  shows "(word_of_nat (Suc i) \<in> set (Group_Match (addAll ms) s) \<longleftrightarrow> Matcher_Match (ms ! i) s)
    \<and> set (Group_Match (addAll ms) s) \<subseteq> {word_of_nat (Suc i) | i. i < length ms}"
proof -
  have inj: "(word_of_nat (Suc i) :: uint32) = word_of_nat (Suc j) \<longleftrightarrow> i = j" if "j < length ms" for j
    using that assms(2,3) by (simp add: word_of_nat_eq_iff take_bit_nat_eq_self del: of_nat_Suc)
  have mem: "(m, v) \<in> set (numbered ms) \<longleftrightarrow> (\<exists>j<length ms. m = ms ! j \<and> v = word_of_nat (Suc j))" for m v
    by (auto simp: numbered_def in_set_zip simp del: of_nat_Suc)
  show ?thesis
    using inj assms(3) by (auto simp: set_Group_Match [OF assms(1)] mem simp del: of_nat_Suc)
qed

theorem group_matches_each_witness:
  "word_of_nat (Suc 1) \<in> set (Group_Match (addAll [fullMatcher ''a.b'', domainMatcher ''b'', substrMatcher ''x'']) ''a.b'')
     \<longleftrightarrow> Matcher_Match ([fullMatcher ''a.b'', domainMatcher ''b'', substrMatcher ''x''] ! 1) ''a.b''"
  by (rule conjunct1 [OF group_matches_each]) simp_all

end
