(* ===== verification/AC_Automaton.thy ===== *)
theory AC_Automaton
  imports Strmatcher
begin

text \<open>
  The Aho-Corasick automaton of \<open>common/strmatcher/ac_automaton_matcher.go\<close>. Patterns and inputs are
  read from their ends, folded to one of 53 character classes. \<open>Build\<close> is a breadth-first traversal;
  run on an automaton that was built already it would not end, so it is a partial function.
\<close>

section \<open>The automaton\<close>

definition validCharCount :: nat where "validCharCount = 53"

record MatchType =
  matchType :: Type
  exist :: bool

record Edge =
  edgeType :: bool
  nextNode :: nat

record ACAutomaton =
  ac_trie :: "Edge list list"
  ac_fail :: "nat list"
  ac_exists :: "MatchType list"
  ac_count :: nat

definition noEdge :: Edge where "noEdge = \<lparr>edgeType = False, nextNode = 0\<rparr>"

definition newNode :: "Edge list" where
  "newNode = replicate validCharCount noEdge"

definition noMatch :: MatchType where "noMatch = \<lparr>matchType = Full, exist = False\<rparr>"

text \<open>The table \<open>char2Index\<close>: 127 entries; a character without an entry of its own has index 0.\<close>

definition special_chars :: string where
  "special_chars = ''!$&'' @ [CHR 0x27] @ ''()*+,;=:%-._~0123456789''"

fun position :: "char \<Rightarrow> string \<Rightarrow> nat \<Rightarrow> nat option" where
  "position c [] n = None"
| "position c (d # ds) n = (if c = d then Some n else position c ds (n + 1))"

definition char2Index :: "char \<Rightarrow> nat option" where
  "char2Index c =
     (let n = of_char c :: nat in
      if n \<ge> 127 then None
      else Some (if 65 \<le> n \<and> n \<le> 90 then n - 65
                 else if 97 \<le> n \<and> n \<le> 122 then n - 97
                 else case position c special_chars 26 of Some i \<Rightarrow> i | None \<Rightarrow> 0))"

definition NewACAutomaton :: ACAutomaton where
  "NewACAutomaton = \<lparr>ac_trie = [newNode], ac_fail = [0], ac_exists = [noMatch], ac_count = 0\<rparr>"

text \<open>The step that \<open>Add\<close> takes for a character: an existing edge, or a new node.\<close>

definition edge_at :: "ACAutomaton \<Rightarrow> nat \<Rightarrow> nat \<Rightarrow> Edge" where
  "edge_at ac node idx = ac_trie ac ! node ! idx"

definition set_edge :: "nat \<Rightarrow> nat \<Rightarrow> Edge \<Rightarrow> ACAutomaton \<Rightarrow> ACAutomaton" where
  "set_edge node idx e ac = ac\<lparr>ac_trie := (ac_trie ac)[node := (ac_trie ac ! node)[idx := e]]\<rparr>"

definition addStep :: "nat \<Rightarrow> nat \<Rightarrow> ACAutomaton \<Rightarrow> nat \<times> ACAutomaton" where
  "addStep node idx ac =
     (let ac3 =
        (if nextNode (edge_at ac node idx) = 0 then
           let ac1 = ac\<lparr>ac_count := ac_count ac + 1\<rparr>;
               ac2 = (if length (ac_trie ac1) < ac_count ac1 + 1
                      then ac1\<lparr>ac_trie := ac_trie ac1 @ [newNode], ac_fail := ac_fail ac1 @ [0],
                               ac_exists := ac_exists ac1 @ [noMatch]\<rparr>
                      else ac1) in
           set_edge node idx \<lparr>edgeType = True, nextNode = ac_count ac2\<rparr> ac2
         else ac) in
      (nextNode (edge_at ac3 node idx), ac3))"

fun addLoop :: "string \<Rightarrow> nat \<Rightarrow> ACAutomaton \<Rightarrow> (nat \<times> ACAutomaton) result" where
  "addLoop [] node ac = Ok (node, ac)"
| "addLoop (c # cs) node ac =
     (case char2Index c of
        None \<Rightarrow> Err (Panic ''index out of range'')
      | Some idx \<Rightarrow> (let (node', ac') = addStep node idx ac in addLoop cs node' ac'))"

definition set_exists :: "nat \<Rightarrow> Type \<Rightarrow> ACAutomaton \<Rightarrow> ACAutomaton" where
  "set_exists node t ac = ac\<lparr>ac_exists := (ac_exists ac)[node := \<lparr>matchType = t, exist = True\<rparr>]\<rparr>"

definition AC_Add :: "string \<Rightarrow> Type \<Rightarrow> ACAutomaton \<Rightarrow> ACAutomaton result" where
  "AC_Add domain t ac =
     (case addLoop (rev domain) 0 ac of
        Inl e \<Rightarrow> Err e
      | Inr (node, ac1) \<Rightarrow>
          (let ac2 = set_exists node t ac1 in
           case t of
             Domain \<Rightarrow>
               (let ac3 = set_exists node Full ac2; (node', ac4) = addStep node 40 ac3 in
                Ok (set_exists node' t ac4))
           | _ \<Rightarrow> Ok ac2))"

definition set_fail :: "nat \<Rightarrow> nat \<Rightarrow> ACAutomaton \<Rightarrow> ACAutomaton" where
  "set_fail node f ac = ac\<lparr>ac_fail := (ac_fail ac)[node := f]\<rparr>"

definition buildEdge :: "nat \<Rightarrow> nat \<Rightarrow> ACAutomaton \<times> nat list \<Rightarrow> ACAutomaton \<times> nat list" where
  "buildEdge node i st =
     (let (ac, queue) = st; child = nextNode (edge_at ac node i);
          via = nextNode (edge_at ac (ac_fail ac ! node) i) in
      if child \<noteq> 0 then (set_fail child via ac, queue @ [child])
      else (set_edge node i \<lparr>edgeType = False, nextNode = via\<rparr> ac, queue))"

partial_function (option) buildLoop :: "nat list \<Rightarrow> ACAutomaton \<Rightarrow> ACAutomaton option" where
  [code]: "buildLoop queue ac =
     (case queue of
        [] \<Rightarrow> Some ac
      | node # rest \<Rightarrow>
          (let (ac', queue') = fold (buildEdge node) [0..<validCharCount] (ac, rest) in buildLoop queue' ac'))"

definition AC_Build :: "ACAutomaton \<Rightarrow> ACAutomaton option" where
  "AC_Build ac =
     buildLoop (filter (\<lambda>n. n \<noteq> 0) (map (\<lambda>i. nextNode (edge_at ac 0 i)) [0..<validCharCount])) ac"

fun acLoop :: "ACAutomaton \<Rightarrow> string \<Rightarrow> nat \<Rightarrow> bool \<Rightarrow> bool" where
  "acLoop ac [] node fullMatch = (fullMatch \<and> exist (ac_exists ac ! node))"
| "acLoop ac (c # cs) node fullMatch =
     (case char2Index c of
        None \<Rightarrow> False
      | Some idx \<Rightarrow>
          (let fullMatch' = (fullMatch \<and> edgeType (edge_at ac node idx));
               node' = nextNode (edge_at ac node idx) in
           case matchType (ac_exists ac ! node') of
             Substr \<Rightarrow> True
           | Domain \<Rightarrow> (if fullMatch' then True else acLoop ac cs node' fullMatch')
           | _ \<Rightarrow> acLoop ac cs node' fullMatch'))"

definition AC_Match :: "ACAutomaton \<Rightarrow> string \<Rightarrow> bool" where
  "AC_Match ac s = acLoop ac (rev s) 0 True"

section \<open>Longest suffixes\<close>

text \<open>The longest suffix of a word that is a label.\<close>

fun lsuf :: "nat list set \<Rightarrow> nat list \<Rightarrow> nat list" where
  "lsuf L [] = []"
| "lsuf L (c # w) = (if c # w \<in> L then c # w else lsuf L w)"

definition pclosed :: "nat list set \<Rightarrow> bool" where
  "pclosed L \<longleftrightarrow> [] \<in> L \<and> (\<forall>w i. w @ [i] \<in> L \<longrightarrow> w \<in> L)"

lemma lsuf_in: "[] \<in> L \<Longrightarrow> lsuf L w \<in> L"
  by (induction w) auto

lemma lsuf_self [simp]: "w \<in> L \<Longrightarrow> lsuf L w = w"
  by (cases w) auto

lemma lsuf_suffix: "suffix (lsuf L w) w"
  by (induction w) (auto intro: suffix_ConsI)

lemma lsuf_longest: "suffix v w \<Longrightarrow> v \<in> L \<Longrightarrow> suffix v (lsuf L w)"
  by (induction w) (auto simp: suffix_Cons)

lemma length_lsuf: "length (lsuf L w) \<le> length w"
  using lsuf_suffix [of L w] by (rule suffix_length_le)

lemma lsuf_snoc:
  assumes "pclosed L"
  shows "lsuf L (lsuf L x @ [i]) = lsuf L (x @ [i])"
proof (induction x)
  case (Cons c x)
  have "(c # x) @ [i] \<notin> L" if "c # x \<notin> L"
    using that assms unfolding pclosed_def by blast
  with Cons show ?case
    by auto
qed simp

lemma pclosed_insert:
  assumes "pclosed L" and "w \<in> L"
  shows "pclosed (insert (w @ [i]) L)"
  using assms unfolding pclosed_def by auto

section \<open>The trie\<close>

text \<open>
  The label of a node is the word on the path to it. \<open>trie_ok labs ac\<close>: the automaton is the trie
  of the labels \<open>labs\<close>, node \<open>n\<close> having the label \<open>labs ! n\<close>.
\<close>

definition original :: "nat list list \<Rightarrow> nat \<Rightarrow> nat \<Rightarrow> Edge \<Rightarrow> bool" where
  "original labs n i e \<longleftrightarrow>
     (if labs ! n @ [i] \<in> set labs
      then edgeType e \<and> nextNode e < length labs \<and> labs ! nextNode e = labs ! n @ [i]
      else e = noEdge)"

definition row_orig :: "nat list list \<Rightarrow> ACAutomaton \<Rightarrow> nat \<Rightarrow> bool" where
  "row_orig labs ac n \<longleftrightarrow> (\<forall>i<validCharCount. original labs n i (edge_at ac n i))"

definition labels_ok :: "nat list list \<Rightarrow> bool" where
  "labels_ok labs \<longleftrightarrow> distinct labs \<and> labs \<noteq> [] \<and> labs ! 0 = [] \<and> pclosed (set labs)
     \<and> (\<forall>w\<in>set labs. set w \<subseteq> {..<validCharCount})"

definition sizes_ok :: "nat \<Rightarrow> ACAutomaton \<Rightarrow> bool" where
  "sizes_ok n ac \<longleftrightarrow> length (ac_trie ac) = n \<and> length (ac_fail ac) = n \<and> length (ac_exists ac) = n
     \<and> ac_count ac + 1 = n \<and> (\<forall>row\<in>set (ac_trie ac). length row = validCharCount)"

definition trie_ok :: "nat list list \<Rightarrow> ACAutomaton \<Rightarrow> bool" where
  "trie_ok labs ac \<longleftrightarrow> labels_ok labs \<and> sizes_ok (length labs) ac
     \<and> (\<forall>n<length labs. row_orig labs ac n) \<and> (\<forall>n<length labs. ac_fail ac ! n = 0)"

text \<open>The nodes that end a pattern, all of them of type \<open>Substr\<close>.\<close>

definition ends_ok :: "nat list set \<Rightarrow> nat list list \<Rightarrow> ACAutomaton \<Rightarrow> bool" where
  "ends_ok K labs ac \<longleftrightarrow> K \<subseteq> set labs \<and>
     (\<forall>n<length labs. ac_exists ac ! n =
        (if labs ! n \<in> K then \<lparr>matchType = Substr, exist = True\<rparr> else noMatch))"

lemma trie_ok_New: "trie_ok [[]] NewACAutomaton" and ends_ok_New: "ends_ok {} [[]] NewACAutomaton"
  by (auto simp: trie_ok_def labels_ok_def sizes_ok_def row_orig_def original_def pclosed_def ends_ok_def
      NewACAutomaton_def newNode_def edge_at_def)

lemma edge_at_set_edge:
  assumes "node < length (ac_trie ac)" and "idx < length (ac_trie ac ! node)"
  shows "edge_at (set_edge node idx e ac) n i = (if n = node \<and> i = idx then e else edge_at ac n i)"
  using assms by (auto simp: edge_at_def set_edge_def nth_list_update)

lemma set_edge_simps [simp]:
  "ac_fail (set_edge n i e ac) = ac_fail ac" "ac_exists (set_edge n i e ac) = ac_exists ac"
  "ac_count (set_edge n i e ac) = ac_count ac" "length (ac_trie (set_edge n i e ac)) = length (ac_trie ac)"
  by (simp_all add: set_edge_def)

lemma sizes_ok_set_edge:
  assumes "sizes_ok k ac" and "n < k"
  shows "sizes_ok k (set_edge n i e ac)"
proof -
  have "length (ac_trie ac ! n) = validCharCount"
    using assms by (simp add: sizes_ok_def)
  moreover have "set ((ac_trie ac)[n := (ac_trie ac ! n)[i := e]]) \<subseteq> insert ((ac_trie ac ! n)[i := e]) (set (ac_trie ac))"
    by (rule set_update_subset_insert)
  ultimately show ?thesis
    using assms by (auto simp: sizes_ok_def set_edge_def)
qed

lemma row_length: "sizes_ok k ac \<Longrightarrow> n < k \<Longrightarrow> length (ac_trie ac ! n) = validCharCount"
  by (simp add: sizes_ok_def)

definition grow :: "ACAutomaton \<Rightarrow> ACAutomaton" where
  "grow ac = ac\<lparr>ac_count := ac_count ac + 1, ac_trie := ac_trie ac @ [newNode],
     ac_fail := ac_fail ac @ [0], ac_exists := ac_exists ac @ [noMatch]\<rparr>"

lemma sizes_ok_grow: "sizes_ok k ac \<Longrightarrow> sizes_ok (Suc k) (grow ac)"
  by (auto simp: sizes_ok_def grow_def newNode_def)

lemma edge_at_grow:
  assumes "sizes_ok k ac" and "n \<le> k" and "i < validCharCount"
  shows "edge_at (grow ac) n i = (if n = k then noEdge else edge_at ac n i)"
  using assms by (auto simp: edge_at_def grow_def newNode_def sizes_ok_def nth_append)

lemma addStep_new:
  assumes "sizes_ok k ac" and "node < k" and "idx < validCharCount" and "nextNode (edge_at ac node idx) = 0"
  shows "addStep node idx ac = (k, set_edge node idx \<lparr>edgeType = True, nextNode = k\<rparr> (grow ac))"
proof -
  have k: "ac_count ac + 1 = k" "length (ac_trie ac) = k"
    using assms(1) by (simp_all add: sizes_ok_def)
  have "node < length (ac_trie (grow ac))" "idx < length (ac_trie (grow ac) ! node)"
    using row_length [OF sizes_ok_grow [OF assms(1)], of node] assms(2,3) sizes_ok_grow [OF assms(1)]
    by (simp_all add: sizes_ok_def)
  then have "nextNode (edge_at (set_edge node idx \<lparr>edgeType = True, nextNode = k\<rparr> (grow ac)) node idx) = k"
    by (simp add: edge_at_set_edge)
  moreover have "ac_count (grow ac) = k"
    using k by (simp add: grow_def)
  ultimately show ?thesis
    using k assms(4) unfolding addStep_def Let_def grow_def by (simp add: ac_simps)
qed

lemma root_no_parent: "original labs n i e \<Longrightarrow> labels_ok labs \<Longrightarrow> labs ! n @ [i] \<in> set labs \<Longrightarrow> nextNode e \<noteq> 0"
  by (cases "nextNode e") (auto simp: original_def labels_ok_def)

lemma nextNode_zero_iff:
  assumes "labels_ok labs" and "original labs n i e"
  shows "nextNode e = 0 \<longleftrightarrow> labs ! n @ [i] \<notin> set labs"
  using assms root_no_parent [OF assms(2,1)] by (auto simp: original_def noEdge_def split: if_splits)

lemma labels_ok_snoc:
  assumes "labels_ok labs" and "w \<in> set labs" and "i < validCharCount" and "w @ [i] \<notin> set labs"
  shows "labels_ok (labs @ [w @ [i]])"
proof -
  have "pclosed (set (labs @ [w @ [i]]))"
    using pclosed_insert [of "set labs" w i] assms(1,2) by (simp add: labels_ok_def)
  with assms show ?thesis
    by (auto simp: labels_ok_def nth_append)
qed

lemma original_snoc:
  assumes "labels_ok labs" and "original labs n i e" and "n < length labs" and "labs ! n @ [i] \<noteq> v"
  shows "original (labs @ [v]) n i e"
  using assms by (auto simp: original_def nth_append)

lemma row_orig_new:
  assumes "labels_ok labs" and "v \<notin> set labs" and "w \<in> set labs" and "v = w @ [j]"
  shows "original (labs @ [v]) (length labs) i noEdge"
proof -
  have "v @ [i] \<notin> set labs"
    using assms(1,2) unfolding labels_ok_def pclosed_def by blast
  then show ?thesis
    by (simp add: original_def)
qed

lemma addStep_existing:
  assumes "trie_ok labs ac" and "n < length labs" and "i < validCharCount" and "labs ! n @ [i] \<in> set labs"
  shows "\<exists>m<length labs. addStep n i ac = (m, ac) \<and> labs ! m = labs ! n @ [i]"
proof -
  have o: "original labs n i (edge_at ac n i)" and l: "labels_ok labs"
    using assms(1-3) by (simp_all add: trie_ok_def row_orig_def)
  have "nextNode (edge_at ac n i) \<noteq> 0"
    using nextNode_zero_iff [OF l o] assms(4) by simp
  then have "addStep n i ac = (nextNode (edge_at ac n i), ac)"
    by (simp add: addStep_def)
  with o assms(4) show ?thesis
    by (auto simp: original_def)
qed

lemma original_grow:
  assumes "labels_ok labs" and "sizes_ok (length labs) ac"
    and row: "\<And>m j. m < length labs \<Longrightarrow> j < validCharCount \<Longrightarrow> original labs m j (edge_at ac m j)"
    and n: "n < length labs" and new: "labs ! n @ [i] \<notin> set labs"
    and m: "m \<le> length labs" and j: "j < validCharCount" and other: "\<not> (m = n \<and> j = i)"
  shows "original (labs @ [labs ! n @ [i]]) m j (edge_at (grow ac) m j)"
proof (cases "m = length labs")
  case True
  have "labs ! n \<in> set labs"
    using n by simp
  with True show ?thesis
    using row_orig_new [OF assms(1) new _ refl] edge_at_grow [OF assms(2) m j] by simp
next
  case False
  then have m': "m < length labs"
    using m by simp
  have "labs ! m @ [j] \<noteq> labs ! n @ [i]"
    using other assms(1) m' n by (auto simp: labels_ok_def nth_eq_iff_index_eq)
  then show ?thesis
    using False row [OF m' j] edge_at_grow [OF assms(2) m j] original_snoc [OF assms(1) _ m'] by simp
qed

lemma addStep_fresh:
  assumes ok: "trie_ok labs ac" and ends: "ends_ok K labs ac"
    and n: "n < length labs" and i: "i < validCharCount" and new: "labs ! n @ [i] \<notin> set labs"
  defines "labs' \<equiv> labs @ [labs ! n @ [i]]"
  shows "\<exists>ac'. addStep n i ac = (length labs, ac') \<and> trie_ok labs' ac' \<and> ends_ok K labs' ac'"
proof -
  let ?k = "length labs"
  let ?ac = "set_edge n i \<lparr>edgeType = True, nextNode = ?k\<rparr> (grow ac)"
  have l: "labels_ok labs" and sz: "sizes_ok ?k ac" and row: "\<And>m j. m < ?k \<Longrightarrow> j < validCharCount \<Longrightarrow> original labs m j (edge_at ac m j)"
    and fl: "\<And>m. m < ?k \<Longrightarrow> ac_fail ac ! m = 0"
    using ok by (simp_all add: trie_ok_def row_orig_def)
  have l': "labels_ok labs'"
    unfolding labs'_def using n by (intro labels_ok_snoc [OF l _ i new]) simp
  have sz1: "sizes_ok (Suc ?k) (grow ac)"
    by (rule sizes_ok_grow [OF sz])
  then have sz': "sizes_ok (Suc ?k) ?ac"
    using n by (intro sizes_ok_set_edge) simp_all
  have edge: "edge_at ?ac m j = (if m = n \<and> j = i then \<lparr>edgeType = True, nextNode = ?k\<rparr> else edge_at (grow ac) m j)" for m j
    using sz1 row_length [OF sz1, of n] n i by (intro edge_at_set_edge) (simp_all add: sizes_ok_def)
  have orig: "original labs' m j (edge_at ?ac m j)" if "m < length labs'" and "j < validCharCount" for m j
  proof (cases "m = n \<and> j = i")
    case True
    then show ?thesis
      using n by (simp add: edge original_def labs'_def nth_append)
  next
    case False
    then show ?thesis
      using original_grow [OF l sz row n new _ that(2) False] that(1)
      unfolding edge if_not_P [OF False] labs'_def by simp
  qed
  have "addStep n i ac = (?k, ?ac)"
    using nextNode_zero_iff [OF l row [OF n i]] new by (intro addStep_new [OF sz n i]) simp
  moreover have "trie_ok labs' ?ac"
    using l' sz' orig fl sz by (auto simp: trie_ok_def row_orig_def labs'_def grow_def nth_append sizes_ok_def less_Suc_eq)
  moreover have "ends_ok K labs' ?ac"
    using ends new sz by (auto simp: ends_ok_def labs'_def grow_def nth_append sizes_ok_def less_Suc_eq)
  ultimately show ?thesis
    by blast
qed

text \<open>Both cases at once: \<open>addStep\<close> leads to the node of the longer label.\<close>

lemma addStep_ok:
  assumes "trie_ok labs ac" and "ends_ok K labs ac" and "n < length labs" and "i < validCharCount"
  obtains m ac' labs' where "addStep n i ac = (m, ac')" and "trie_ok labs' ac'" and "ends_ok K labs' ac'"
    and "m < length labs'" and "labs' ! m = labs ! n @ [i]" and "set labs' = insert (labs ! n @ [i]) (set labs)"
proof (cases "labs ! n @ [i] \<in> set labs")
  case True
  from addStep_existing [OF assms(1,3,4) True] obtain m where "m < length labs"
    "addStep n i ac = (m, ac)" "labs ! m = labs ! n @ [i]"
    by blast
  with True assms(1,2) show ?thesis
    by (intro that [of m ac labs]) auto
next
  case False
  from addStep_fresh [OF assms False] obtain ac' where "addStep n i ac = (length labs, ac')"
    "trie_ok (labs @ [labs ! n @ [i]]) ac'" "ends_ok K (labs @ [labs ! n @ [i]]) ac'"
    by blast
  then show ?thesis
    by (intro that [of "length labs" ac' "labs @ [labs ! n @ [i]]"]) simp_all
qed

section \<open>Adding patterns\<close>

text \<open>A text as the automaton sees it: character classes, last character first.\<close>

definition classes :: "string \<Rightarrow> nat list" where
  "classes s = map (\<lambda>c. the (char2Index c)) s"

definition ac_key :: "string \<Rightarrow> nat list" where
  "ac_key s = rev (classes s)"

definition indexable :: "string \<Rightarrow> bool" where
  "indexable s \<longleftrightarrow> (\<forall>c\<in>set s. char2Index c \<noteq> None)"

lemma position_bound: "position c ds n = Some i \<Longrightarrow> i < n + length ds"
  by (induction c ds n rule: position.induct) (auto split: if_splits)

lemma char2Index_bound: "char2Index c = Some i \<Longrightarrow> i < validCharCount"
  using position_bound [of c special_chars 26]
  by (auto simp: char2Index_def validCharCount_def special_chars_def Let_def split: if_splits option.splits)

lemma addLoop_ok:
  assumes "trie_ok labs ac" and "ends_ok K labs ac" and "n < length labs" and "indexable cs"
  shows "\<exists>m ac' labs'. addLoop cs n ac = Ok (m, ac') \<and> trie_ok labs' ac' \<and> ends_ok K labs' ac' \<and> m < length labs'
    \<and> labs' ! m = labs ! n @ classes cs \<and> set labs' = set labs \<union> {labs ! n @ v | v. prefix v (classes cs)}"
  using assms
proof (induction cs arbitrary: n ac labs)
  case Nil
  then show ?case
    by (auto simp: classes_def)
next
  case (Cons c cs)
  from Cons.prems(4) obtain i where i: "char2Index c = Some i"
    by (auto simp: indexable_def)
  obtain m1 ac1 labs1 where 1: "addStep n i ac = (m1, ac1)" "trie_ok labs1 ac1" "ends_ok K labs1 ac1"
    "m1 < length labs1" "labs1 ! m1 = labs ! n @ [i]" "set labs1 = insert (labs ! n @ [i]) (set labs)"
    using addStep_ok [OF Cons.prems(1-3) char2Index_bound [OF i]] by metis
  have "indexable cs"
    using Cons.prems(4) by (simp add: indexable_def)
  from Cons.IH [OF 1(2,3,4) this] obtain m ac' labs' where 2: "addLoop cs m1 ac1 = Ok (m, ac')"
    "trie_ok labs' ac'" "ends_ok K labs' ac'" "m < length labs'" "labs' ! m = labs1 ! m1 @ classes cs"
    "set labs' = set labs1 \<union> {labs1 ! m1 @ v | v. prefix v (classes cs)}"
    by blast
  have cl: "classes (c # cs) = i # classes cs"
    by (simp add: classes_def i)
  have "labs ! n \<in> set labs"
    using Cons.prems(3) by simp
  then have "set labs' = set labs \<union> {labs ! n @ v | v. prefix v (i # classes cs)}"
    unfolding 2(6) 1(5,6) prefix_Cons by force
  with 1 2 i cl show ?case
    by auto
qed

lemma AC_Add_ok:
  assumes "trie_ok labs ac" and "ends_ok K labs ac" and "indexable p"
  shows "\<exists>ac' labs'. AC_Add p Substr ac = Ok ac' \<and> trie_ok labs' ac' \<and> ends_ok (insert (ac_key p) K) labs' ac'
    \<and> set labs' = set labs \<union> {v. prefix v (ac_key p)}"
proof -
  have l: "labs ! 0 = []" "0 < length labs" and idx: "indexable (rev p)"
    using assms by (auto simp: trie_ok_def labels_ok_def indexable_def)
  have k: "classes (rev p) = ac_key p"
    by (simp add: ac_key_def classes_def rev_map)
  from addLoop_ok [OF assms(1,2) l(2) idx] obtain m ac1 labs1 where
    1: "addLoop (rev p) 0 ac = Ok (m, ac1)" "trie_ok labs1 ac1" "ends_ok K labs1 ac1" "m < length labs1"
      "labs1 ! m = ac_key p" "set labs1 = set labs \<union> {v. prefix v (ac_key p)}"
    unfolding l(1) k by auto
  have sz: "length (ac_exists ac1) = length labs1" and d: "distinct labs1"
    using 1(2) by (simp_all add: trie_ok_def sizes_ok_def labels_ok_def)
  have "labs1 ! n = ac_key p \<longleftrightarrow> n = m" if "n < length labs1" for n
    using that 1(4,5) d by (metis nth_eq_iff_index_eq)
  then have "ends_ok (insert (ac_key p) K) labs1 (set_exists m Substr ac1)"
    using 1(3,4,6) sz by (auto simp: ends_ok_def set_exists_def nth_list_update)
  moreover have "trie_ok labs1 (set_exists m Substr ac1)"
    using 1(2) by (simp add: trie_ok_def sizes_ok_def row_orig_def set_exists_def edge_at_def)
  ultimately show ?thesis
    using 1(1,6) by (auto simp: AC_Add_def)
qed

text \<open>An automaton as \<open>MphMatcherGroup\<close> fills it: patterns of type \<open>Substr\<close>, one after the other.\<close>

fun addPatterns :: "string list \<Rightarrow> ACAutomaton \<Rightarrow> ACAutomaton result" where
  "addPatterns [] ac = Ok ac"
| "addPatterns (p # ps) ac = (case AC_Add p Substr ac of Inl e \<Rightarrow> Err e | Inr ac' \<Rightarrow> addPatterns ps ac')"

lemma addPatterns_ok:
  assumes "trie_ok labs ac" and "ends_ok K labs ac" and "\<forall>p\<in>set ps. indexable p"
  shows "\<exists>ac' labs'. addPatterns ps ac = Ok ac' \<and> trie_ok labs' ac' \<and> ends_ok (K \<union> ac_key ` set ps) labs' ac'
    \<and> set labs' = set labs \<union> {v. \<exists>p\<in>set ps. prefix v (ac_key p)}"
  using assms
proof (induction ps arbitrary: ac labs K)
  case (Cons p ps)
  from AC_Add_ok [OF Cons.prems(1,2), of p] Cons.prems(3) obtain ac1 labs1 where
    1: "AC_Add p Substr ac = Ok ac1" "trie_ok labs1 ac1" "ends_ok (insert (ac_key p) K) labs1 ac1"
      "set labs1 = set labs \<union> {v. prefix v (ac_key p)}"
    by auto
  have "\<forall>p\<in>set ps. indexable p"
    using Cons.prems(3) by simp
  from Cons.IH [OF 1(2,3) this] obtain ac' labs' where 2: "addPatterns ps ac1 = Ok ac'" "trie_ok labs' ac'"
    "ends_ok (insert (ac_key p) K \<union> ac_key ` set ps) labs' ac'"
    "set labs' = set labs1 \<union> {v. \<exists>p\<in>set ps. prefix v (ac_key p)}"
    by blast
  have "insert (ac_key p) K \<union> ac_key ` set ps = K \<union> ac_key ` set (p # ps)"
    "set labs' = set labs \<union> {v. \<exists>q\<in>set (p # ps). prefix v (ac_key q)}"
    unfolding 2(4) 1(4) by auto
  with 1(1) 2 show ?case
    by (intro exI [of _ ac'] exI [of _ labs']) simp
qed auto

section \<open>Building\<close>

text \<open>What one visit of \<open>Build\<close> does to a node: missing edges follow the failure link, children are
  linked and queued.\<close>

definition child :: "ACAutomaton \<Rightarrow> nat \<Rightarrow> nat \<Rightarrow> nat" where
  "child ac u i = nextNode (edge_at ac u i)"

definition children :: "ACAutomaton \<Rightarrow> nat \<Rightarrow> nat \<Rightarrow> nat list" where
  "children ac u k = filter (\<lambda>n. n \<noteq> 0) (map (child ac u) [0..<k])"

definition visited :: "ACAutomaton \<Rightarrow> nat \<Rightarrow> nat \<Rightarrow> ACAutomaton \<Rightarrow> bool" where
  "visited ac u k ac' \<longleftrightarrow>
     (\<forall>n<length (ac_trie ac). \<forall>i<validCharCount. edge_at ac' n i =
        (if n = u \<and> i < k \<and> child ac u i = 0
         then \<lparr>edgeType = False, nextNode = child ac (ac_fail ac ! u) i\<rparr> else edge_at ac n i))
     \<and> (\<forall>i<k. child ac u i \<noteq> 0 \<longrightarrow> ac_fail ac' ! child ac u i = child ac (ac_fail ac ! u) i)
     \<and> (\<forall>n. n \<notin> set (children ac u k) \<longrightarrow> ac_fail ac' ! n = ac_fail ac ! n)
     \<and> ac_exists ac' = ac_exists ac"

lemma set_children: "m \<in> set (children ac u k) \<longleftrightarrow> m \<noteq> 0 \<and> (\<exists>i<k. m = child ac u i)"
  by (auto simp: children_def)

lemma children_Suc: "children ac u (Suc k) = children ac u k @ (if child ac u k \<noteq> 0 then [child ac u k] else [])"
  by (simp add: children_def)

lemma sizes_ok_set_fail: "sizes_ok n ac \<Longrightarrow> sizes_ok n (set_fail c f ac)"
  by (simp add: sizes_ok_def set_fail_def)

lemma set_fail_simps [simp]:
  "edge_at (set_fail c f ac) = edge_at ac" "ac_exists (set_fail c f ac) = ac_exists ac"
  "ac_trie (set_fail c f ac) = ac_trie ac"
  by (simp_all add: set_fail_def edge_at_def fun_eq_iff)

lemma buildEdge_step:
  assumes vis: "visited ac u k ac'" and sz: "sizes_ok N ac" "sizes_ok N ac'"
    and u: "u < N" and f: "ac_fail ac ! u < N" "ac_fail ac ! u \<noteq> u" and k: "k < validCharCount"
    and ch: "child ac u k < N" and self: "u \<notin> set (children ac u k)"
    and fresh: "child ac u k \<noteq> 0 \<Longrightarrow> child ac u k \<notin> set (children ac u k)"
  shows "\<exists>ac''. buildEdge u k (ac', q @ children ac u k) = (ac'', q @ children ac u (Suc k))
    \<and> sizes_ok N ac'' \<and> visited ac u (Suc k) ac''"
proof -
  have N: "length (ac_trie ac) = N" "length (ac_trie ac') = N" "length (ac_fail ac') = N"
    using sz by (simp_all add: sizes_ok_def)
  have edge: "edge_at ac' n i = (if n = u \<and> i < k \<and> child ac u i = 0
      then \<lparr>edgeType = False, nextNode = child ac (ac_fail ac ! u) i\<rparr> else edge_at ac n i)"
    if "n < N" "i < validCharCount" for n i
    using vis that N by (simp add: visited_def)
  have fu: "ac_fail ac' ! u = ac_fail ac ! u"
    using vis self by (simp add: visited_def)
  have c: "child ac' u k = child ac u k" and via: "child ac' (ac_fail ac' ! u) k = child ac (ac_fail ac ! u) k"
    using edge [OF u k] edge [OF f(1) k] f(2) by (simp_all add: child_def fu)
  show ?thesis
  proof (cases "child ac u k = 0")
    case True
    let ?ac = "set_edge u k \<lparr>edgeType = False, nextNode = child ac (ac_fail ac ! u) k\<rparr> ac'"
    have e: "edge_at ?ac n i = (if n = u \<and> i = k then \<lparr>edgeType = False, nextNode = child ac (ac_fail ac ! u) k\<rparr> else edge_at ac' n i)" for n i
      using N u row_length [OF sz(2) u] k by (intro edge_at_set_edge) simp_all
    have "visited ac u (Suc k) ?ac"
      using vis True edge by (simp add: visited_def e N children_Suc less_Suc_eq)
    moreover have "buildEdge u k (ac', q @ children ac u k) = (?ac, q @ children ac u (Suc k))"
      using True c via by (simp add: buildEdge_def child_def [symmetric] children_Suc Let_def)
    ultimately show ?thesis
      using sizes_ok_set_edge [OF sz(2) u] by blast
  next
    case False
    let ?ac = "set_fail (child ac u k) (child ac (ac_fail ac ! u) k) ac'"
    have ne: "child ac u k \<noteq> child ac u i" if "i < k" for i
      using that fresh [OF False] False by (auto simp: set_children)
    have "visited ac u (Suc k) ?ac"
      using vis False ne ch by (simp add: visited_def N children_Suc less_Suc_eq) (auto simp: set_fail_def N)
    moreover have "buildEdge u k (ac', q @ children ac u k) = (?ac, q @ children ac u (Suc k))"
      using False c via by (simp add: buildEdge_def child_def [symmetric] children_Suc Let_def)
    ultimately show ?thesis
      using sizes_ok_set_fail [OF sz(2)] by blast
  qed
qed

lemma visit_node:
  assumes sz: "sizes_ok N ac" and u: "u < N" and f: "ac_fail ac ! u < N" "ac_fail ac ! u \<noteq> u"
    and ch: "\<And>i. i < validCharCount \<Longrightarrow> child ac u i < N" and self: "u \<notin> set (children ac u validCharCount)"
    and inj: "distinct (children ac u validCharCount)" and k: "k \<le> validCharCount"
  shows "\<exists>ac'. fold (buildEdge u) [0..<k] (ac, q) = (ac', q @ children ac u k) \<and> sizes_ok N ac' \<and> visited ac u k ac'"
  using k
proof (induction k)
  case 0
  then show ?case
    using sz by (simp add: children_def visited_def)
next
  case (Suc k)
  then obtain ac' where 1: "fold (buildEdge u) [0..<k] (ac, q) = (ac', q @ children ac u k)" "sizes_ok N ac'" "visited ac u k ac'"
    by auto
  have split: "children ac u validCharCount = children ac u (Suc k) @ filter (\<lambda>n. n \<noteq> 0) (map (child ac u) [Suc k..<validCharCount])"
    using upt_add_eq_append [of 0 "Suc k" "validCharCount - Suc k"] Suc.prems
    by (simp add: children_def del: upt_Suc flip: filter_append map_append)
  have d: "distinct (children ac u (Suc k))"
    using inj unfolding split distinct_append by blast
  have s: "u \<notin> set (children ac u k)"
    using self unfolding split children_Suc by simp
  from d have fresh: "child ac u k \<noteq> 0 \<Longrightarrow> child ac u k \<notin> set (children ac u k)"
    by (simp add: children_Suc)
  have kv: "k < validCharCount"
    using Suc.prems by simp
  from buildEdge_step [OF 1(3) sz 1(2) u f kv ch [OF kv] s fresh, of q] 1(1) show ?case
    by auto
qed

text \<open>A node that stands for a word, and a node whose transitions are complete.\<close>

definition stands :: "nat list list \<Rightarrow> nat \<Rightarrow> nat list \<Rightarrow> bool" where
  "stands labs n w \<longleftrightarrow> n < length labs \<and> labs ! n = lsuf (set labs) w"

definition row_done :: "nat list list \<Rightarrow> ACAutomaton \<Rightarrow> nat \<Rightarrow> bool" where
  "row_done labs ac n \<longleftrightarrow> (\<forall>i<validCharCount.
     stands labs (child ac n i) (labs ! n @ [i]) \<and> (edgeType (edge_at ac n i) \<longleftrightarrow> labs ! n @ [i] \<in> set labs))"

abbreviation depth :: "nat list list \<Rightarrow> nat \<Rightarrow> nat" where
  "depth labs n \<equiv> length (labs ! n)"

text \<open>
  The invariant of the traversal: \<open>P\<close> are the finished nodes, \<open>Q\<close> is the queue. Queued nodes know
  their failure link; the queue is ordered by depth and everything less deep than its head is done.
\<close>

definition bfs :: "nat list list \<Rightarrow> nat set \<Rightarrow> nat list \<Rightarrow> ACAutomaton \<Rightarrow> bool" where
  "bfs labs P Q ac \<longleftrightarrow> sizes_ok (length labs) ac \<and> 0 \<in> P \<and> P \<union> set Q \<subseteq> {..<length labs}
     \<and> distinct Q \<and> set Q \<inter> P = {}
     \<and> (\<forall>n\<in>P. row_done labs ac n) \<and> (\<forall>n<length labs. n \<notin> P \<longrightarrow> row_orig labs ac n)
     \<and> (\<forall>q\<in>set Q. stands labs (ac_fail ac ! q) (tl (labs ! q)))
     \<and> (\<forall>m<length labs. m \<noteq> 0 \<longrightarrow> (m \<in> P \<union> set Q \<longleftrightarrow> (\<exists>p\<in>P. labs ! p = butlast (labs ! m))))
     \<and> sorted (map (depth labs) Q)
     \<and> (\<forall>q\<in>set Q. depth labs q \<le> Suc (depth labs (hd Q)))
     \<and> (Q \<noteq> [] \<longrightarrow> (\<forall>n<length labs. depth labs n < depth labs (hd Q) \<longrightarrow> n \<in> P))"

lemma root_iff: "labels_ok labs \<Longrightarrow> n < length labs \<Longrightarrow> labs ! n = [] \<longleftrightarrow> n = 0"
  by (metis labels_ok_def length_greater_0_conv nth_eq_iff_index_eq)

lemma child_orig:
  assumes "labels_ok labs" and "row_orig labs ac u" and "i < validCharCount"
  shows "child ac u i < length labs" and "child ac u i = 0 \<longleftrightarrow> labs ! u @ [i] \<notin> set labs"
    and "child ac u i \<noteq> 0 \<Longrightarrow> labs ! child ac u i = labs ! u @ [i]"
proof -
  have o: "original labs u i (edge_at ac u i)"
    using assms(2,3) by (simp add: row_orig_def)
  show z: "child ac u i = 0 \<longleftrightarrow> labs ! u @ [i] \<notin> set labs"
    using nextNode_zero_iff [OF assms(1) o] by (simp add: child_def)
  show "child ac u i < length labs" "child ac u i \<noteq> 0 \<Longrightarrow> labs ! child ac u i = labs ! u @ [i]"
    using o assms(1) z by (auto simp: original_def child_def noEdge_def labels_ok_def split: if_splits)
qed

lemma children_orig:
  assumes "labels_ok labs" and "row_orig labs ac u" and "u < length labs"
  shows "m \<in> set (children ac u validCharCount) \<longleftrightarrow> m < length labs \<and> m \<noteq> 0 \<and> butlast (labs ! m) = labs ! u"
proof
  assume "m \<in> set (children ac u validCharCount)"
  then obtain i where i: "i < validCharCount" "m = child ac u i" "m \<noteq> 0"
    by (auto simp: set_children)
  then show "m < length labs \<and> m \<noteq> 0 \<and> butlast (labs ! m) = labs ! u"
    using child_orig [OF assms(1,2) i(1)] by simp
next
  assume m: "m < length labs \<and> m \<noteq> 0 \<and> butlast (labs ! m) = labs ! u"
  then have ne: "labs ! m \<noteq> []" and mem: "labs ! m \<in> set labs"
    using root_iff [OF assms(1)] by auto
  define i where "i = last (labs ! m)"
  have w: "labs ! m = labs ! u @ [i]"
    using ne m unfolding i_def by (metis append_butlast_last_id)
  have i: "i < validCharCount"
  proof -
    have "set (labs ! m) \<subseteq> {..<validCharCount}"
      using assms(1) mem by (simp add: labels_ok_def)
    then show ?thesis
      by (simp add: w)
  qed
  have "labs ! u @ [i] \<in> set labs"
    using mem by (simp only: w)
  then have c: "child ac u i \<noteq> 0" "labs ! child ac u i = labs ! m" "child ac u i < length labs"
    using child_orig [OF assms(1,2) i] by (simp_all add: w)
  have "m = child ac u i"
  proof (rule nth_eq_iff_index_eq [THEN iffD1])
    show "distinct labs" "m < length labs"
      using assms(1) m by (simp_all add: labels_ok_def)
  qed (simp_all only: c)
  with c(1) i show "m \<in> set (children ac u validCharCount)"
    by (auto simp: set_children)
qed

lemma distinct_children:
  assumes "labels_ok labs" and "row_orig labs ac u"
  shows "distinct (children ac u validCharCount)"
proof -
  have "i = j" if "i < validCharCount" "j < validCharCount" "child ac u i = child ac u j" "child ac u i \<noteq> 0" for i j
  proof -
    have "child ac u j \<noteq> 0"
      using that(3,4) by simp
    then have "labs ! u @ [i] = labs ! u @ [j]"
      using child_orig(3) [OF assms that(1,4)] child_orig(3) [OF assms that(2)] that(3) by metis
    then show ?thesis
      by simp
  qed
  then have "inj_on (child ac u) (set (filter (\<lambda>i. child ac u i \<noteq> 0) [0..<validCharCount]))"
    by (auto simp: inj_on_def)
  then show ?thesis
    by (simp add: children_def filter_map comp_def distinct_map)
qed

lemma root_done:
  assumes "labels_ok labs" and "row_orig labs ac 0"
  shows "row_done labs ac 0"
proof -
  have l: "labs ! 0 = []" "0 < length labs" "[] \<in> set labs"
    using assms(1) by (auto simp: labels_ok_def pclosed_def)
  have "stands labs (child ac 0 i) [i] \<and> (edgeType (edge_at ac 0 i) \<longleftrightarrow> [i] \<in> set labs)" if "i < validCharCount" for i
    using child_orig [OF assms that] assms(2) that l
    by (auto simp: stands_def row_orig_def original_def noEdge_def split: if_splits)
  with l show ?thesis
    by (simp add: row_done_def)
qed

text \<open>The head of the queue becomes a finished node.\<close>

lemma visit_done:
  assumes l: "labels_ok labs" and sz: "sizes_ok (length labs) ac" and orig: "row_orig labs ac u"
    and u: "u < length labs" "u \<noteq> 0" and f: "stands labs (ac_fail ac ! u) (tl (labs ! u))"
    and fd: "row_done labs ac (ac_fail ac ! u)" and vis: "visited ac u validCharCount ac'"
  shows "row_done labs ac' u"
    and "m \<in> set (children ac u validCharCount) \<Longrightarrow> stands labs (ac_fail ac' ! m) (tl (labs ! m))"
proof -
  have ne: "labs ! u \<noteq> []" and pc: "pclosed (set labs)" and N: "length (ac_trie ac) = length labs"
    using root_iff [OF l u(1)] u(2) l sz by (simp_all add: labels_ok_def sizes_ok_def)
  have via: "stands labs (child ac (ac_fail ac ! u) i) (tl (labs ! u) @ [i])" if "i < validCharCount" for i
    using fd f that lsuf_snoc [OF pc, of "tl (labs ! u)" i] by (simp add: row_done_def stands_def)
  have skip: "lsuf (set labs) (labs ! u @ [i]) = lsuf (set labs) (tl (labs ! u) @ [i])" if "labs ! u @ [i] \<notin> set labs" for i
    using that ne by (cases "labs ! u") auto
  show "row_done labs ac' u"
    unfolding row_done_def
  proof (intro allI impI)
    fix i assume i: "i < validCharCount"
    have e: "edge_at ac' u i = (if child ac u i = 0
        then \<lparr>edgeType = False, nextNode = child ac (ac_fail ac ! u) i\<rparr> else edge_at ac u i)"
      using vis i u(1) N by (simp add: visited_def)
    show "stands labs (child ac' u i) (labs ! u @ [i]) \<and> (edgeType (edge_at ac' u i) \<longleftrightarrow> labs ! u @ [i] \<in> set labs)"
    proof (cases "child ac u i = 0")
      case True
      then show ?thesis
        using e via [OF i] skip child_orig(2) [OF l orig i] by (simp add: child_def stands_def)
    next
      case False
      then show ?thesis
        using e child_orig [OF l orig i] orig i by (auto simp: child_def stands_def row_orig_def original_def)
    qed
  qed
  show "stands labs (ac_fail ac' ! m) (tl (labs ! m))" if m: "m \<in> set (children ac u validCharCount)"
  proof -
    from m obtain i where i: "i < validCharCount" "m = child ac u i" "m \<noteq> 0"
      by (auto simp: set_children)
    then show ?thesis
      using vis via [OF i(1)] child_orig(3) [OF l orig i(1)] ne by (simp add: visited_def)
  qed
qed

lemma row_done_cong: "(\<And>i. i < validCharCount \<Longrightarrow> edge_at ac' n i = edge_at ac n i) \<Longrightarrow> row_done labs ac' n = row_done labs ac n"
  and row_orig_cong: "(\<And>i. i < validCharCount \<Longrightarrow> edge_at ac' n i = edge_at ac n i) \<Longrightarrow> row_orig labs ac' n = row_orig labs ac n"
  by (simp_all add: row_done_def row_orig_def child_def)

lemma Suc_length_butlast: "w \<noteq> [] \<Longrightarrow> Suc (length (butlast w)) = length w"
  by (cases w rule: rev_cases) simp_all

lemma parent_exists:
  assumes "labels_ok labs" and "n < length labs" and "n \<noteq> 0"
  obtains p where "p < length labs" and "labs ! p = butlast (labs ! n)" and "Suc (depth labs p) = depth labs n"
proof -
  have ne: "labs ! n \<noteq> []"
    using root_iff [OF assms(1,2)] assms(3) by simp
  then have "butlast (labs ! n) @ [last (labs ! n)] \<in> set labs"
    using assms(2) by simp
  then have "butlast (labs ! n) \<in> set labs"
    using assms(1) unfolding labels_ok_def pclosed_def by blast
  then obtain p where p: "p < length labs" "labs ! p = butlast (labs ! n)"
    by (auto simp: in_set_conv_nth)
  moreover have "Suc (depth labs p) = depth labs n"
    unfolding p(2) by (rule Suc_length_butlast [OF ne])
  ultimately show ?thesis
    by (rule that)
qed

lemma same_label: "labels_ok labs \<Longrightarrow> p < length labs \<Longrightarrow> q < length labs \<Longrightarrow> labs ! p = labs ! q \<Longrightarrow> p = q"
  by (simp add: labels_ok_def nth_eq_iff_index_eq)

lemma bfsD:
  assumes "bfs labs P Q ac"
  shows "sizes_ok (length labs) ac" "0 \<in> P" "P \<union> set Q \<subseteq> {..<length labs}" "distinct Q" "set Q \<inter> P = {}"
    and "n \<in> P \<Longrightarrow> row_done labs ac n" and "n < length labs \<Longrightarrow> n \<notin> P \<Longrightarrow> row_orig labs ac n"
    and "q \<in> set Q \<Longrightarrow> stands labs (ac_fail ac ! q) (tl (labs ! q))"
    and "m < length labs \<Longrightarrow> m \<noteq> 0 \<Longrightarrow> m \<in> P \<union> set Q \<longleftrightarrow> (\<exists>p\<in>P. labs ! p = butlast (labs ! m))"
  using assms unfolding bfs_def by simp_all

lemma bfs_head:
  assumes "labels_ok labs" and "bfs labs P (u # Q) ac"
  shows "u < length labs" "u \<noteq> 0" "u \<notin> P" "row_orig labs ac u" "labs ! u \<noteq> []"
    "ac_fail ac ! u \<in> P" "ac_fail ac ! u < length labs" "stands labs (ac_fail ac ! u) (tl (labs ! u))"
proof -
  show u: "u < length labs" "u \<noteq> 0" "u \<notin> P" and "row_orig labs ac u"
    and f: "stands labs (ac_fail ac ! u) (tl (labs ! u))"
    using assms(2) by (auto simp: bfs_def)
  show ne: "labs ! u \<noteq> []"
    using root_iff [OF assms(1) u(1)] u(2) by simp
  show len: "ac_fail ac ! u < length labs"
    using f by (simp add: stands_def)
  have "depth labs (ac_fail ac ! u) \<le> length (tl (labs ! u))"
    using f length_lsuf by (simp add: stands_def del: length_tl)
  also have "\<dots> < depth labs u"
    using ne by simp
  finally show "ac_fail ac ! u \<in> P"
    using assms(2) len by (simp add: bfs_def)
qed

text \<open>The children of the head are new: neither finished nor queued.\<close>

lemma bfs_children:
  assumes l: "labels_ok labs" and b: "bfs labs P (u # Q) ac" and m: "m \<in> set (children ac u validCharCount)"
  shows "m < length labs" "m \<noteq> 0" "butlast (labs ! m) = labs ! u" "depth labs m = Suc (depth labs u)"
    "m \<notin> P" "m \<notin> set (u # Q)"
proof -
  note h = bfs_head [OF l b]
  show c: "m < length labs" "m \<noteq> 0" "butlast (labs ! m) = labs ! u"
    using children_orig [OF l h(4,1)] m by simp_all
  show "depth labs m = Suc (depth labs u)"
    using root_iff [OF l c(1)] c(2) Suc_length_butlast [of "labs ! m"] by (simp only: c(3) not_False_eq_True)
  have "\<not> (\<exists>p\<in>P. labs ! p = butlast (labs ! m))"
  proof
    assume "\<exists>p\<in>P. labs ! p = butlast (labs ! m)"
    then obtain p where p: "p \<in> P" "labs ! p = labs ! u"
      unfolding c(3) by blast
    have "p < length labs"
      using b p(1) by (auto simp: bfs_def)
    with p same_label [OF l _ h(1)] h(3) show False
      by blast
  qed
  moreover have "m \<in> P \<union> set (u # Q) \<longleftrightarrow> (\<exists>p\<in>P. labs ! p = butlast (labs ! m))"
    using b c(1,2) unfolding bfs_def by blast
  ultimately show "m \<notin> P" "m \<notin> set (u # Q)"
    by simp_all
qed

text \<open>What is less deep than the next head is done.\<close>

lemma bfs_frontier:
  assumes l: "labels_ok labs" and b: "bfs labs P (u # Q) ac"
    and Q': "Q' = Q @ children ac u validCharCount"
  shows "sorted (map (depth labs) Q')"
    and "q \<in> set Q' \<Longrightarrow> depth labs u \<le> depth labs q \<and> depth labs q \<le> Suc (depth labs u)"
    and "Q' \<noteq> [] \<Longrightarrow> n < length labs \<Longrightarrow> depth labs n < depth labs (hd Q') \<Longrightarrow> n \<in> insert u P"
proof -
  have s: "sorted (map (depth labs) Q)" "\<And>q. q \<in> set Q \<Longrightarrow> depth labs u \<le> depth labs q"
    and le: "\<And>q. q \<in> set Q \<Longrightarrow> depth labs q \<le> Suc (depth labs u)"
    and low: "\<And>n. n < length labs \<Longrightarrow> depth labs n < depth labs u \<Longrightarrow> n \<in> P"
    using b by (auto simp: bfs_def)
  have c: "depth labs m = Suc (depth labs u)" if "m \<in> set (children ac u validCharCount)" for m
    by (rule bfs_children(4) [OF l b that])
  then have "map (depth labs) (children ac u validCharCount) = replicate (length (children ac u validCharCount)) (Suc (depth labs u))"
    by (simp add: list_eq_iff_nth_eq)
  then show sorted: "sorted (map (depth labs) Q')"
    using s(1) le by (auto simp: Q' sorted_append)
  show bounds: "depth labs u \<le> depth labs q \<and> depth labs q \<le> Suc (depth labs u)" if "q \<in> set Q'" for q
    using that s(2) le c unfolding Q' by fastforce
  show "n \<in> insert u P" if ne: "Q' \<noteq> []" and n: "n < length labs" "depth labs n < depth labs (hd Q')"
  proof (cases "depth labs n < depth labs u")
    case False
    have hd: "depth labs (hd Q') \<le> Suc (depth labs u)"
      using bounds [of "hd Q'"] ne by simp
    have "labs ! u \<noteq> []"
      by (rule bfs_head(5) [OF l b])
    then have "n \<noteq> 0"
      using False l by (cases n) (auto simp: labels_ok_def)
    then obtain p where p: "p < length labs" "labs ! p = butlast (labs ! n)" "Suc (depth labs p) = depth labs n"
      using parent_exists [OF l n(1)] by blast
    then have "p \<in> P"
      using low hd n(2) by simp
    then have "n \<in> P \<union> set (u # Q)"
      using b n(1) \<open>n \<noteq> 0\<close> p(2) unfolding bfs_def by blast
    moreover have "depth labs (hd Q') \<le> depth labs q" if "q \<in> set Q" for q
      using sorted that Q' by (cases Q') (auto simp: Cons_eq_append_conv)
    then have "n \<notin> set Q"
      using n(2) by (auto dest: leD)
    ultimately show ?thesis
      by auto
  qed (use low n(1) in blast)
qed

lemma bfs_step:
  assumes l: "labels_ok labs" and b: "bfs labs P (u # Q) ac"
  defines "Q' \<equiv> Q @ children ac u validCharCount"
  shows "\<exists>ac'. fold (buildEdge u) [0..<validCharCount] (ac, Q) = (ac', Q')
    \<and> ac_exists ac' = ac_exists ac \<and> bfs labs (insert u P) Q' ac'"
proof -
  note h = bfs_head [OF l b] and c = bfs_children [OF l b]
  let ?C = "set (children ac u validCharCount)"
  have sz: "sizes_ok (length labs) ac"
    using b by (simp add: bfs_def)
  have "ac_fail ac ! u \<noteq> u" "u \<notin> ?C"
    using h(3,6) c(6) [of u] by auto
  then obtain ac' where ac': "fold (buildEdge u) [0..<validCharCount] (ac, Q) = (ac', Q')"
      "sizes_ok (length labs) ac'" "visited ac u validCharCount ac'"
    using visit_node [OF sz h(1,7) _ child_orig(1) [OF l h(4)] _ distinct_children [OF l h(4)] order_refl]
    unfolding Q'_def by blast
  have N: "length (ac_trie ac) = length labs"
    using sz by (simp add: sizes_ok_def)
  have edge: "edge_at ac' n i = edge_at ac n i" if "n < length labs" "n \<noteq> u" "i < validCharCount" for n i
    using ac'(3) that N by (simp add: visited_def)
  have fail: "ac_fail ac' ! n = ac_fail ac ! n" if "n \<notin> ?C" for n
    using ac'(3) that by (simp add: visited_def)
  note dn = visit_done [OF l sz h(4,1,2,8) bfsD(6) [OF b h(6)] ac'(3)]
  have rows: "row_done labs ac' n" if "n \<in> insert u P" for n
  proof (cases "n = u")
    case False
    then have n: "n \<in> P" "n < length labs"
      using that bfsD(3) [OF b] by auto
    show ?thesis
      using row_done_cong [OF edge [OF n(2) False], where labs = labs] bfsD(6) [OF b n(1)] by simp
  qed (simp add: dn(1))
  have rest: "row_orig labs ac' n" if "n < length labs" "n \<notin> insert u P" for n
    using that row_orig_cong [OF edge [OF that(1)], where labs = labs] bfsD(7) [OF b that(1)] by simp
  have links: "stands labs (ac_fail ac' ! q) (tl (labs ! q))" if "q \<in> set Q'" for q
  proof (cases "q \<in> ?C")
    case False
    then show ?thesis
      using that bfsD(8) [OF b, of q] unfolding Q'_def fail [OF False] by simp
  qed (rule dn(2))
  have kids: "m \<in> insert u P \<union> set Q' \<longleftrightarrow> (\<exists>p\<in>insert u P. labs ! p = butlast (labs ! m))"
    if "m < length labs" "m \<noteq> 0" for m
    using bfsD(9) [OF b that] children_orig [OF l h(4,1), of m] that unfolding Q'_def by auto
  have dist: "distinct Q'" and disj: "set Q' \<inter> insert u P = {}" and sub: "insert u P \<union> set Q' \<subseteq> {..<length labs}"
    using bfsD(3-5) [OF b] c(1,5,6) distinct_children [OF l h(4)] unfolding Q'_def by fastforce+
  note fr = bfs_frontier [OF l b, of Q', unfolded Q'_def, OF refl, folded Q'_def]
  have near: "depth labs q \<le> Suc (depth labs (hd Q'))" if "q \<in> set Q'" for q
    using fr(2) [OF that] fr(2) [of "hd Q'"] that by (cases Q') auto
  have "bfs labs (insert u P) Q' ac'"
    unfolding bfs_def
    by (intro conjI ballI allI impI; (rule dist disj sub fr(1) ac'(2) insertI2 [OF bfsD(2) [OF b]]
          | erule rows | erule (1) rest | erule links | erule (1) kids | erule near | erule (2) fr(3)))
  moreover have "ac_exists ac' = ac_exists ac"
    using ac'(3) by (simp add: visited_def)
  ultimately show ?thesis
    using ac'(1) by blast
qed

text \<open>The traversal starts from the root and ends with every node finished.\<close>

lemma bfs_start:
  assumes "trie_ok labs ac"
  shows "bfs labs {0} (children ac 0 validCharCount) ac"
proof -
  have l: "labels_ok labs" and sz: "sizes_ok (length labs) ac" and o: "\<And>n. n < length labs \<Longrightarrow> row_orig labs ac n"
    and f: "\<And>n. n < length labs \<Longrightarrow> ac_fail ac ! n = 0"
    using assms by (simp_all add: trie_ok_def)
  have root: "0 < length labs" "labs ! 0 = []" "[] \<in> set labs"
    using l by (auto simp: labels_ok_def pclosed_def)
  note c = children_orig [OF l o [OF root(1)] root(1), unfolded root(2)]
  have one: "depth labs m = 1" if "m \<in> set (children ac 0 validCharCount)" for m
    using that c [of m] root_iff [OF l, of m] Suc_length_butlast [of "labs ! m"] by simp
  then have ones: "map (depth labs) (children ac 0 validCharCount) = replicate (length (children ac 0 validCharCount)) 1"
    by (simp add: list_eq_iff_nth_eq)
  have fail: "stands labs (ac_fail ac ! m) (tl (labs ! m))" if "m \<in> set (children ac 0 validCharCount)" for m
    using that c [of m] one [OF that] f [of m] root by (cases "labs ! m") (auto simp: stands_def)
  have low: "n = 0" if "n < length labs" "depth labs n < depth labs (hd (children ac 0 validCharCount))"
      "children ac 0 validCharCount \<noteq> []" for n
    using that one [of "hd (children ac 0 validCharCount)"] root_iff [OF l, of n] by simp
  show ?thesis
    unfolding bfs_def ones
    using sz root(1,2) distinct_children [OF l o [OF root(1)]] root_done [OF l o [OF root(1)]] o fail one low c
    by (auto simp: eq_commute [of "[]"])
qed

lemma buildLoop_ends:
  assumes "labels_ok labs" and "bfs labs P Q ac"
  shows "\<exists>ac'. buildLoop Q ac = Some ac' \<and> ac_exists ac' = ac_exists ac \<and> (\<exists>P'. bfs labs P' [] ac')"
  using assms(2)
proof (induction "card ({..<length labs} - P)" arbitrary: P Q ac rule: less_induct)
  case less
  show ?case
  proof (cases Q)
    case Nil
    with less.prems show ?thesis
      by (auto simp: buildLoop.simps)
  next
    case (Cons u R)
    note b = less.prems [unfolded Cons]
    from bfs_step [OF assms(1) b] obtain ac1 where 1: "fold (buildEdge u) [0..<validCharCount] (ac, R) = (ac1, R @ children ac u validCharCount)"
      "ac_exists ac1 = ac_exists ac" "bfs labs (insert u P) (R @ children ac u validCharCount) ac1"
      by blast
    have "{..<length labs} - insert u P \<subset> {..<length labs} - P"
      using bfs_head(1,3) [OF assms(1) b] by auto
    then have "card ({..<length labs} - insert u P) < card ({..<length labs} - P)"
      by (rule psubset_card_mono [rotated]) simp
    from less.hyps [OF this 1(3)] 1(1,2) show ?thesis
      unfolding Cons by (subst buildLoop.simps) simp
  qed
qed

lemma bfs_finished:
  assumes "labels_ok labs" and "bfs labs P [] ac" and "n < length labs"
  shows "row_done labs ac n"
proof -
  have "n \<in> P"
    using assms(3)
  proof (induction "depth labs n" arbitrary: n rule: less_induct)
    case less
    show ?case
    proof (cases "n = 0")
      case False
      then obtain p where p: "p < length labs" "labs ! p = butlast (labs ! n)" "Suc (depth labs p) = depth labs n"
        using parent_exists [OF assms(1) less.prems] by blast
      then have "p \<in> P"
        using less.hyps [of p] by simp
      then show ?thesis
        using bfsD(9) [OF assms(2) less.prems False] p(2) by auto
    qed (simp add: bfsD(2) [OF assms(2)])
  qed
  then show ?thesis
    by (rule bfsD(6) [OF assms(2)])
qed

lemma AC_Build_ok:
  assumes "trie_ok labs ac"
  shows "\<exists>ac'. AC_Build ac = Some ac' \<and> ac_exists ac' = ac_exists ac \<and> (\<forall>n<length labs. row_done labs ac' n)"
proof -
  have l: "labels_ok labs"
    using assms by (simp add: trie_ok_def)
  have "AC_Build ac = buildLoop (children ac 0 validCharCount) ac"
    by (simp add: AC_Build_def children_def child_def [abs_def])
  with buildLoop_ends [OF l bfs_start [OF assms]] bfs_finished [OF l] show ?thesis
    by auto
qed

section \<open>Matching\<close>

lemma ex_prefix_Cons:
  "(\<exists>v. v \<noteq> [] \<and> prefix v (i # u) \<and> Q v) \<longleftrightarrow> Q [i] \<or> (\<exists>v. v \<noteq> [] \<and> prefix v u \<and> Q (i # v))"
proof
  assume "\<exists>v. v \<noteq> [] \<and> prefix v (i # u) \<and> Q v"
  then obtain v where "prefix v u" "Q (i # v)"
    by (auto simp: prefix_Cons)
  then show "Q [i] \<or> (\<exists>v. v \<noteq> [] \<and> prefix v u \<and> Q (i # v))"
    by (cases "v = []") auto
next
  assume "Q [i] \<or> (\<exists>v. v \<noteq> [] \<and> prefix v u \<and> Q (i # v))"
  then obtain v where "prefix v u" "Q (i # v)"
    by (metis Nil_prefix)
  then show "\<exists>v. v \<noteq> [] \<and> prefix v (i # u) \<and> Q v"
    by (intro exI [of _ "i # v"]) simp
qed

text \<open>After reading \<open>w\<close> the automaton is at the longest suffix of \<open>w\<close> that is a label.\<close>

lemma acLoop_spec:
  assumes l: "labels_ok labs" and ends: "ends_ok K labs ac" and rows: "\<forall>n<length labs. row_done labs ac n"
    and "indexable s" and "stands labs n w"
  shows "acLoop ac s n (w \<in> set labs) \<longleftrightarrow>
    (\<exists>v. v \<noteq> [] \<and> prefix v (classes s) \<and> lsuf (set labs) (w @ v) \<in> K) \<or> w @ classes s \<in> K"
  using assms(4,5)
proof (induction s arbitrary: n w)
  case Nil
  then have n: "n < length labs" "labs ! n = lsuf (set labs) w"
    by (simp_all add: stands_def)
  have "K \<subseteq> set labs"
    using ends by (simp add: ends_ok_def)
  with n ends show ?case
    by (auto simp: classes_def ends_ok_def noMatch_def)
next
  case (Cons c cs)
  from Cons.prems obtain i where i: "char2Index c = Some i" and cs: "indexable cs"
    by (auto simp: indexable_def)
  have cl: "classes (c # cs) = i # classes cs"
    by (simp add: classes_def i)
  have n: "n < length labs" "labs ! n = lsuf (set labs) w" and pc: "pclosed (set labs)" and K: "K \<subseteq> set labs"
    using Cons.prems(2) l ends by (simp_all add: stands_def labels_ok_def ends_ok_def)
  have e: "stands labs (child ac n i) (w @ [i])" "edgeType (edge_at ac n i) \<longleftrightarrow> lsuf (set labs) w @ [i] \<in> set labs"
    using rows n char2Index_bound [OF i] lsuf_snoc [OF pc, of w i] by (simp_all add: row_done_def stands_def)
  have full: "(w \<in> set labs \<and> edgeType (edge_at ac n i)) \<longleftrightarrow> w @ [i] \<in> set labs"
    using e(2) pc unfolding pclosed_def by auto
  have t: "ac_exists ac ! child ac n i =
      (if lsuf (set labs) (w @ [i]) \<in> K then \<lparr>matchType = Substr, exist = True\<rparr> else noMatch)"
    using ends e(1) by (simp add: ends_ok_def stands_def)
  show ?case
    using Cons.IH [OF cs e(1)] i t
    unfolding cl ex_prefix_Cons by (simp add: full child_def noMatch_def)
qed

lemma sublist_rev_ends: "sublist k w \<longleftrightarrow> (\<exists>v. prefix v w \<and> suffix k v)"
  by (auto simp: sublist_altdef prefix_def suffix_def)

text \<open>When no key is a factor of another one, a key that ends here is the state.\<close>

lemma lsuf_ac_key:
  assumes L: "L = {[]} \<union> {v. \<exists>k\<in>K. prefix v k}" and free: "\<forall>k\<in>K. \<forall>k'\<in>K. sublist k k' \<longrightarrow> k = k'"
    and "k \<in> K" and "suffix k v"
  shows "lsuf L v = k"
proof -
  have "k \<in> L"
    using assms(3) unfolding L by auto
  then have long: "suffix k (lsuf L v)"
    by (rule lsuf_longest [OF assms(4)])
  have "lsuf L v \<in> L"
    by (rule lsuf_in) (simp add: L)
  then consider "lsuf L v = []" | k' where "k' \<in> K" "prefix (lsuf L v) k'"
    unfolding L by auto
  then show ?thesis
  proof cases
    case 2
    have "sublist k k'"
      using 2(2) long unfolding sublist_rev_ends by blast
    then have "k = k'"
      using free assms(3) 2(1) by blast
    then show ?thesis
      using long prefix_length_le [OF 2(2)] by (auto simp: suffix_def)
  qed (use long in simp)
qed

lemma automaton_keys:
  assumes ps: "\<forall>p\<in>set ps. indexable p" and s: "indexable s"
  defines "K \<equiv> ac_key ` set ps"
  shows "\<exists>ac ac'. addPatterns ps NewACAutomaton = Ok ac \<and> AC_Build ac = Some ac'
    \<and> (AC_Match ac' s \<longrightarrow> (\<exists>k\<in>K. sublist k (ac_key s)))
    \<and> ((\<forall>k\<in>K. \<forall>k'\<in>K. sublist k k' \<longrightarrow> k = k') \<longrightarrow> (\<exists>k\<in>K. sublist k (ac_key s)) \<longrightarrow> AC_Match ac' s)"
proof -
  from addPatterns_ok [OF trie_ok_New ends_ok_New ps] obtain ac labs where
    1: "addPatterns ps NewACAutomaton = Ok ac" "trie_ok labs ac" "ends_ok K labs ac"
      "set labs = {[]} \<union> {v. \<exists>k\<in>K. prefix v k}"
    unfolding K_def by auto
  from AC_Build_ok [OF 1(2)] obtain ac' where 2: "AC_Build ac = Some ac'" "ac_exists ac' = ac_exists ac"
    "\<forall>n<length labs. row_done labs ac' n"
    by blast
  have l: "labels_ok labs" and ends: "ends_ok K labs ac'"
    using 1(2,3) 2(2) by (simp_all add: trie_ok_def ends_ok_def)
  have start: "stands labs 0 []" and nil: "[] \<in> set labs"
    using l by (auto simp: stands_def labels_ok_def pclosed_def)
  have "indexable (rev s)" "classes (rev s) = ac_key s"
    using s by (simp_all add: indexable_def ac_key_def classes_def rev_map)
  then have match: "AC_Match ac' s \<longleftrightarrow> (\<exists>v. v \<noteq> [] \<and> prefix v (ac_key s) \<and> lsuf (set labs) v \<in> K) \<or> ac_key s \<in> K"
    using acLoop_spec [OF l ends 2(3) _ start, of "rev s"] nil by (simp add: AC_Match_def)
  have sound: "\<exists>k\<in>K. sublist k (ac_key s)" if "AC_Match ac' s"
    using that lsuf_suffix unfolding match sublist_rev_ends by (meson prefix_order.refl suffix_order.refl)
  have "AC_Match ac' s" if free: "\<forall>k\<in>K. \<forall>k'\<in>K. sublist k k' \<longrightarrow> k = k'" and k: "k \<in> K" "sublist k (ac_key s)" for k
  proof -
    note state = lsuf_ac_key [OF 1(4) free k(1)]
    obtain v where v: "prefix v (ac_key s)" "suffix k v"
      using k(2) unfolding sublist_rev_ends by blast
    show ?thesis
    proof (cases "v = []")
      case True
      then have "k = []"
        using v(2) by simp
      then have "lsuf (set labs) (ac_key s) \<in> K"
        using state [of "ac_key s"] k(1) by simp
      then show ?thesis
        using k(1) \<open>k = []\<close> unfolding match by (cases "ac_key s = []") (simp, blast)
    qed (use match v(1) k(1) state [OF v(2)] in blast)
  qed
  with 1(1) 2(1) sound show ?thesis
    by blast
qed

text \<open>
  The characters of the table that are not upper case have classes of their own: on texts made of
  them the automaton works as on the characters themselves.
\<close>

definition plain_chars :: string where
  "plain_chars = ''abcdefghijklmnopqrstuvwxyz'' @ special_chars"

definition plain :: "string \<Rightarrow> bool" where
  "plain s \<longleftrightarrow> set s \<subseteq> set plain_chars"

lemma plain_indexable: "plain s \<Longrightarrow> indexable s"
proof -
  have "list_all (\<lambda>c. char2Index c \<noteq> None) plain_chars"
    by code_simp
  then show "plain s \<Longrightarrow> indexable s"
    by (auto simp: plain_def indexable_def list_all_iff)
qed

lemma char2Index_inj: "inj_on (\<lambda>c. the (char2Index c)) (set plain_chars)"
proof -
  have "distinct (map (\<lambda>c. the (char2Index c)) plain_chars)"
    by code_simp
  then show ?thesis
    by (simp add: distinct_map)
qed

lemma sublist_map_inj_on:
  assumes "inj_on f A" and "set xs \<subseteq> A" and "set ys \<subseteq> A"
  shows "sublist (map f xs) (map f ys) \<longleftrightarrow> sublist xs ys"
proof
  assume "sublist (map f xs) (map f ys)"
  then obtain a x b where x: "ys = a @ x @ b" "map f x = map f xs"
    by (auto simp: sublist_def map_eq_append_conv append_eq_map_conv)
  then have "x = xs"
    using assms by (intro map_inj_on [OF x(2)] inj_on_subset [OF assms(1)]) auto
  with x(1) show "sublist xs ys"
    by (auto simp: sublist_def)
qed (rule map_mono_sublist)

lemma contains_str_sublist: "contains_str s p \<longleftrightarrow> sublist p s"
proof (induction s)
  case (Cons c s)
  have "take (length p) (c # s) = p \<longleftrightarrow> prefix p (c # s)"
    by (metis append_eq_conv_conj append_take_drop_id prefix_def)
  with Cons show ?case
    by (simp add: sublist_Cons_right)
qed simp

lemma ac_key_sublist: "plain p \<Longrightarrow> plain s \<Longrightarrow> sublist (ac_key p) (ac_key s) \<longleftrightarrow> contains_str s p"
  unfolding ac_key_def classes_def contains_str_sublist sublist_rev plain_def
  by (rule sublist_map_inj_on [OF char2Index_inj])

lemma ac_key_inj: "plain p \<Longrightarrow> plain q \<Longrightarrow> ac_key p = ac_key q \<longleftrightarrow> p = q"
  unfolding ac_key_def classes_def rev_is_rev_conv plain_def
  by (rule inj_on_map_eq_map, rule inj_on_subset [OF char2Index_inj]) blast

text \<open>
  The search does not follow failure links to shorter patterns: with \<open>abcd\<close> and \<open>bc\<close> in the
  automaton, the text \<open>xbcd\<close> is not matched although it contains \<open>bc\<close>.
\<close>

lemma nested_pattern_missed:
  "(case addPatterns [''abcd'', ''bc''] NewACAutomaton of
      Inl _ \<Rightarrow> None | Inr ac \<Rightarrow> map_option (\<lambda>ac'. AC_Match ac' ''xbcd'') (AC_Build ac)) = Some False"
  and "Matcher_Match (substrMatcher ''bc'') ''xbcd''"
  by code_simp+

section \<open>Properties\<close>

text \<open>
  C32. The automaton agrees with searching every pattern. For patterns and texts made of lower-case letters and the
  special characters that the automaton has an index for, adding the patterns succeeds, building the failure links ends, and what the automaton then matches
  contains one of the patterns; when no pattern contains another one it also matches every text that
  contains a pattern.
\<close>

theorem automaton_matches_substrings:
  assumes "\<forall>p\<in>set ps. plain p" and "plain s"
  shows "\<exists>ac ac'. addPatterns ps NewACAutomaton = Ok ac \<and> AC_Build ac = Some ac'
    \<and> (AC_Match ac' s \<longrightarrow> (\<exists>p\<in>set ps. Matcher_Match (substrMatcher p) s))
    \<and> ((\<forall>p\<in>set ps. \<forall>q\<in>set ps. contains_str q p \<longrightarrow> p = q) \<longrightarrow>
        (\<exists>p\<in>set ps. Matcher_Match (substrMatcher p) s) \<longrightarrow> AC_Match ac' s)"
proof -
  have "\<forall>p\<in>set ps. indexable p" and s: "indexable s"
    using assms plain_indexable by blast+
  note exact = automaton_keys [OF this]
  have hit: "(\<exists>k\<in>ac_key ` set ps. sublist k (ac_key s)) \<longleftrightarrow> (\<exists>p\<in>set ps. Matcher_Match (substrMatcher p) s)"
    using assms by (simp add: ac_key_sublist)
  have free: "(\<forall>k\<in>ac_key ` set ps. \<forall>k'\<in>ac_key ` set ps. sublist k k' \<longrightarrow> k = k')
      \<longleftrightarrow> (\<forall>p\<in>set ps. \<forall>q\<in>set ps. contains_str q p \<longrightarrow> p = q)"
    using assms by (simp add: ac_key_sublist ac_key_inj)
  from exact show ?thesis
    unfolding hit free .
qed

theorem automaton_matches_substrings_witness:
  "\<exists>ac ac'. addPatterns [''ads.'', ''track''] NewACAutomaton = Ok ac \<and> AC_Build ac = Some ac'
     \<and> AC_Match ac' ''my-tracker.com''"
proof -
  have "\<forall>p\<in>set [''ads.'', ''track'']. plain p" "plain ''my-tracker.com''"
    by code_simp+
  moreover have "\<forall>p\<in>set [''ads.'', ''track'']. \<forall>q\<in>set [''ads.'', ''track'']. contains_str q p \<longrightarrow> p = q"
    by code_simp
  moreover have "\<exists>p\<in>set [''ads.'', ''track'']. Matcher_Match (substrMatcher p) ''my-tracker.com''"
    by code_simp
  ultimately show ?thesis
    using automaton_matches_substrings [of "[''ads.'', ''track'']" "''my-tracker.com''"] by blast
qed

end
