(* ===== verification/Mph_Matcher.thy ===== *)
theory Mph_Matcher
  imports AC_Automaton "HOL-Library.Multiset"
begin

text \<open>
  The matcher group of the router, \<open>common/strmatcher/mph_matcher.go\<close>: full and domain patterns in a
  two-level perfect hash table, sub-string patterns in the automaton, regular expressions in a list.

  Pointers and \<open>uintptr\<close> are those of a 64-bit machine. The order in which Go ranges over a map and
  the order that \<open>sort.Sort\<close> gives to buckets of the same size are arguments (\<open>ranged\<close>, \<open>sorted_by\<close>);
  so are \<open>strings.ToLower\<close> and \<open>regexp.Compile\<close>. The search for a seed has no bound in the code and
  is a partial function.
\<close>

section \<open>Hashes\<close>

definition PrimeRK :: uint32 where "PrimeRK = 16777619"

definition char32 :: "char \<Rightarrow> uint32" where "char32 c = word_of_nat (of_char c)"

definition RollingHash :: "string \<Rightarrow> uint32" where
  "RollingHash s = foldl (\<lambda>h c. h * PrimeRK + char32 c) 0 (rev s)"

definition m1 :: uint64 where "m1 = 16877499708836156737"
definition m2 :: uint64 where "m2 = 2820277070424839065"
definition m3 :: uint64 where "m3 = 9497967016996688599"
definition m4 :: uint64 where "m4 = 15839092249703872147"

definition hashkey :: "uint64 list" where "hashkey = [1, 1, 1, 1]"

definition rotl31 :: "uint64 \<Rightarrow> uint64" where
  "rotl31 x = push_bit 31 x OR drop_bit (64 - 31) x"

text \<open>Reading memory: the bytes of a string from an offset, little endian.\<close>

definition byte_at :: "string \<Rightarrow> nat \<Rightarrow> uint64" where
  "byte_at s i = word_of_nat (of_char (s ! i))"

definition readUnaligned32 :: "string \<Rightarrow> nat \<Rightarrow> uint64" where
  "readUnaligned32 s p =
     byte_at s p OR push_bit 8 (byte_at s (p + 1)) OR push_bit 16 (byte_at s (p + 2))
     OR push_bit 24 (byte_at s (p + 3))"

definition readUnaligned64 :: "string \<Rightarrow> nat \<Rightarrow> uint64" where
  "readUnaligned64 s p =
     byte_at s p OR push_bit 8 (byte_at s (p + 1)) OR push_bit 16 (byte_at s (p + 2))
     OR push_bit 24 (byte_at s (p + 3)) OR push_bit 32 (byte_at s (p + 4))
     OR push_bit 40 (byte_at s (p + 5)) OR push_bit 48 (byte_at s (p + 6))
     OR push_bit 56 (byte_at s (p + 7))"

definition mix :: "uint64 \<Rightarrow> uint64 \<Rightarrow> uint64 \<Rightarrow> uint64 \<Rightarrow> uint64" where
  "mix h w a b = rotl31 ((h XOR w) * a) * b"

text \<open>The cases of the \<open>switch\<close> for at most 32 bytes, \<open>p\<close> the bytes that are left.\<close>

definition hashTail :: "uint64 \<Rightarrow> string \<Rightarrow> uint64" where
  "hashTail h p =
     (let s = length p in
      if s = 0 then h
      else if s < 4 then
        mix (h XOR byte_at p 0 XOR push_bit 8 (byte_at p (s div 2))) (push_bit 16 (byte_at p (s - 1))) m1 m2
      else if s \<le> 8 then
        mix (h XOR readUnaligned32 p 0) (push_bit 32 (readUnaligned32 p (s - 4))) m1 m2
      else if s \<le> 16 then
        mix (mix h (readUnaligned64 p 0) m1 m2) (readUnaligned64 p (s - 8)) m1 m2
      else
        mix (mix (mix (mix h (readUnaligned64 p 0) m1 m2) (readUnaligned64 p 8) m1 m2)
          (readUnaligned64 p (s - 16)) m1 m2) (readUnaligned64 p (s - 8)) m1 m2)"

function hashBlocks :: "uint64 \<Rightarrow> uint64 \<Rightarrow> uint64 \<Rightarrow> uint64 \<Rightarrow> string \<Rightarrow> uint64 \<times> string" where
  "hashBlocks v1 v2 v3 v4 p =
     (if length p \<ge> 32 then
        hashBlocks (mix v1 (readUnaligned64 p 0) m1 m2) (mix v2 (readUnaligned64 p 8) m2 m3)
          (mix v3 (readUnaligned64 p 16) m3 m4) (mix v4 (readUnaligned64 p 24) m4 m1) (drop 32 p)
      else (v1 XOR v2 XOR v3 XOR v4, p))"
  by pat_completeness auto
termination
  by (relation "measure (\<lambda>(_, _, _, _, p). length p)") auto

declare hashBlocks.simps [simp del]

definition memhashFallback :: "string \<Rightarrow> uint64 \<Rightarrow> uint64" where
  "memhashFallback p seed =
     (let h0 = seed + word_of_nat (length p) * hashkey ! 0;
          h1 = (if length p \<le> 32 then hashTail h0 p
                else let (h, q) = hashBlocks h0 (seed * hashkey ! 1) (seed * hashkey ! 2) (seed * hashkey ! 3) p
                     in hashTail h q);
          h2 = (h1 XOR drop_bit 29 h1) * m3 in
      h2 XOR drop_bit 32 h2)"

definition strhashFallback :: "string \<Rightarrow> uint32 \<Rightarrow> uint64" where
  "strhashFallback s seed = memhashFallback s (ucast seed)"

text \<open>\<open>bits.Len\<close>; \<open>bits.LeadingZeros\<close> is 64 minus it.\<close>

fun bits_Len :: "nat \<Rightarrow> nat" where
  "bits_Len v = (if v = 0 then 0 else Suc (bits_Len (v div 2)))"

declare bits_Len.simps [simp del]

definition nextPow2 :: "nat \<Rightarrow> nat" where
  "nextPow2 v = (if v \<le> 1 then 1 else unat (drop_bit (64 - bits_Len v) (-1 :: uint64) + 1))"

section \<open>The group\<close>

record MphMatcherGroup =
  mp_ac :: "ACAutomaton option"
  mp_otherMatchers :: "(Matcher \<times> uint32) list"
  mp_rules :: "string list"
  mp_level0 :: "uint32 list"
  mp_level0Mask :: nat
  mp_level1 :: "uint32 list"
  mp_level1Mask :: nat
  mp_count :: uint32
  mp_ruleMap :: "(string \<times> uint32) list option"

definition NewMphMatcherGroup :: MphMatcherGroup where
  "NewMphMatcherGroup = \<lparr>mp_ac = None, mp_otherMatchers = [], mp_rules = [], mp_level0 = [], mp_level0Mask = 0,
     mp_level1 = [], mp_level1Mask = 0, mp_count = 1, mp_ruleMap = Some []\<rparr>"

definition nilMap :: goerror where
  "nilMap = Panic ''invalid memory address or nil pointer dereference''"

definition AddFullOrDomainPattern :: "string \<Rightarrow> Type \<Rightarrow> MphMatcherGroup \<Rightarrow> MphMatcherGroup result" where
  "AddFullOrDomainPattern pattern t g =
     (let h = RollingHash pattern in
      case (t, mp_ruleMap g) of
        (Domain, Some m) \<Rightarrow>
          Ok (g\<lparr>mp_ruleMap := Some (AList.update pattern h
                (AList.update (CHR ''.'' # pattern) (h * PrimeRK + char32 CHR ''.'') m))\<rparr>)
      | (Full, Some m) \<Rightarrow> Ok (g\<lparr>mp_ruleMap := Some (AList.update pattern h m)\<rparr>)
      | (Domain, None) \<Rightarrow> Err nilMap
      | (Full, None) \<Rightarrow> Err nilMap
      | _ \<Rightarrow> Ok g)"

definition AddPattern ::
  "(string \<Rightarrow> string) \<Rightarrow> (string \<Rightarrow> (string \<Rightarrow> bool) result) \<Rightarrow> string \<Rightarrow> Type \<Rightarrow> MphMatcherGroup
    \<Rightarrow> (uint32 \<times> MphMatcherGroup) result" where
  "AddPattern toLower compile pattern t g =
     (case t of
        Substr \<Rightarrow>
          (case AC_Add pattern t (case mp_ac g of None \<Rightarrow> NewACAutomaton | Some ac \<Rightarrow> ac) of
             Inl e \<Rightarrow> Err e
           | Inr ac \<Rightarrow> Ok (mp_count g, g\<lparr>mp_ac := Some ac\<rparr>))
      | Regex \<Rightarrow>
          (case compile pattern of
             Inl e \<Rightarrow> Err e
           | Inr r \<Rightarrow> Ok (mp_count g, g\<lparr>mp_otherMatchers := mp_otherMatchers g @ [(regexMatcher r, mp_count g)]\<rparr>))
      | UnknownType \<Rightarrow> Err (Panic ''Unknown type'')
      | _ \<Rightarrow>
          (case AddFullOrDomainPattern (toLower pattern) t g of
             Inl e \<Rightarrow> Err e
           | Inr g' \<Rightarrow> Ok (mp_count g', g')))"

text \<open>The index of a hash in a table whose size is a power of two.\<close>

definition masked :: "uint64 \<Rightarrow> nat \<Rightarrow> nat" where
  "masked h msk = unat (h AND word_of_nat msk)"

text \<open>The loop that ranges over the rules and fills the sparse buckets.\<close>

fun fillBuckets :: "nat \<Rightarrow> (string \<times> uint32) list \<Rightarrow> nat \<Rightarrow> string list \<Rightarrow> nat list list
    \<Rightarrow> string list \<times> nat list list" where
  "fillBuckets msk [] ruleIdx rules sparse = (rules, sparse)"
| "fillBuckets msk ((rule, hash) # kvs) ruleIdx rules sparse =
     (let n = masked (ucast hash) msk in
      fillBuckets msk kvs (ruleIdx + 1) (rules @ [rule]) (sparse[n := sparse ! n @ [ruleIdx]]))"

definition indexBuckets :: "nat list list \<Rightarrow> (nat \<times> nat list) list" where
  "indexBuckets sparse = filter (\<lambda>(n, vals). vals \<noteq> []) (zip [0..<length sparse] sparse)"

text \<open>One attempt to place a bucket with a seed: whether it succeeded, occupancy and table.\<close>

fun tryBucket :: "string list \<Rightarrow> nat \<Rightarrow> uint32 \<Rightarrow> nat list \<Rightarrow> bool list \<Rightarrow> nat list \<Rightarrow> uint32 list
    \<Rightarrow> bool \<times> bool list \<times> uint32 list" where
  "tryBucket rules msk seed [] occ tmpOcc level1 = (True, occ, level1)"
| "tryBucket rules msk seed (i # vals) occ tmpOcc level1 =
     (let n = masked (strhashFallback (rules ! i) seed) msk in
      if occ ! n then (False, fold (\<lambda>n occ. occ[n := False]) tmpOcc occ, level1)
      else tryBucket rules msk seed vals (occ[n := True]) (tmpOcc @ [n]) (level1[n := word_of_nat i]))"

partial_function (option) findSeed :: "string list \<Rightarrow> nat \<Rightarrow> uint32 \<Rightarrow> nat list \<Rightarrow> bool list \<Rightarrow> uint32 list
    \<Rightarrow> (uint32 \<times> bool list \<times> uint32 list) option" where
  [code]: "findSeed rules msk seed vals occ level1 =
     (case tryBucket rules msk seed vals occ [] level1 of (found, occ', level1') \<Rightarrow>
        if found then Some (seed, occ', level1') else findSeed rules msk (seed + 1) vals occ' level1')"

fun placeBuckets :: "string list \<Rightarrow> nat \<Rightarrow> (nat \<times> nat list) list \<Rightarrow> bool list \<Rightarrow> uint32 list \<Rightarrow> uint32 list
    \<Rightarrow> (uint32 list \<times> uint32 list) option" where
  "placeBuckets rules msk [] occ level0 level1 = Some (level0, level1)"
| "placeBuckets rules msk ((n, vals) # buckets) occ level0 level1 =
     (case findSeed rules msk 0 vals occ level1 of
        None \<Rightarrow> None
      | Some (seed, occ', level1') \<Rightarrow> placeBuckets rules msk buckets occ' (level0[n := seed]) level1')"

definition buildTable ::
  "((string \<times> uint32) list \<Rightarrow> (string \<times> uint32) list) \<Rightarrow> ((nat \<times> nat list) list \<Rightarrow> (nat \<times> nat list) list)
    \<Rightarrow> (string \<times> uint32) list \<Rightarrow> MphMatcherGroup \<Rightarrow> MphMatcherGroup option" where
  "buildTable ranged sorted_by ruleMap g =
     (let keyLen = (if ruleMap = [] then 1 else length ruleMap);
          m = (if ruleMap = [] then [(''empty___'', RollingHash ''empty___'')] else ruleMap);
          level0 = replicate (nextPow2 (keyLen div 4)) 0; level0Mask = length level0 - 1;
          level1 = replicate (nextPow2 keyLen) 0; level1Mask = length level1 - 1;
          (rules, sparse) = fillBuckets level0Mask (ranged m) 0 (mp_rules g) (replicate (length level0) []);
          buckets = sorted_by (indexBuckets sparse) in
      case placeBuckets rules level1Mask buckets (replicate (length level1) False) level0 level1 of
        None \<Rightarrow> None
      | Some (level0', level1') \<Rightarrow>
          Some (g\<lparr>mp_rules := rules, mp_level0 := level0', mp_level0Mask := level0Mask, mp_level1 := level1',
                  mp_level1Mask := level1Mask, mp_ruleMap := None\<rparr>))"

definition Mph_Build ::
  "((string \<times> uint32) list \<Rightarrow> (string \<times> uint32) list) \<Rightarrow> ((nat \<times> nat list) list \<Rightarrow> (nat \<times> nat list) list)
    \<Rightarrow> MphMatcherGroup \<Rightarrow> MphMatcherGroup result option" where
  "Mph_Build ranged sorted_by g =
     (case (case mp_ac g of None \<Rightarrow> Some None | Some ac \<Rightarrow> map_option Some (AC_Build ac)) of
        None \<Rightarrow> None
      | Some ac' \<Rightarrow>
          (case mp_ruleMap g of
             None \<Rightarrow> Some (Err nilMap)
           | Some m \<Rightarrow> map_option Ok (buildTable ranged sorted_by m (g\<lparr>mp_ac := ac'\<rparr>))))"

definition Lookup :: "MphMatcherGroup \<Rightarrow> uint32 \<Rightarrow> string \<Rightarrow> bool result" where
  "Lookup g h s =
     (let i0 = masked (ucast h) (mp_level0Mask g) in
      if i0 \<ge> length (mp_level0 g) then Err (Panic ''index out of range'')
      else let i1 = masked (strhashFallback s (mp_level0 g ! i0)) (mp_level1Mask g) in
        if i1 \<ge> length (mp_level1 g) then Err (Panic ''index out of range'')
        else let n = unat (mp_level1 g ! i1) in
          if n \<ge> length (mp_rules g) then Err (Panic ''index out of range'')
          else Ok (s = mp_rules g ! n))"

text \<open>
  The loop of \<open>Match\<close> over the suffixes: \<open>cs\<close> are the characters that are still to be read, last one
  first, \<open>sfx\<close> the characters read. The result is the final hash and whether a rule was found.
\<close>

fun matchSuffixes :: "MphMatcherGroup \<Rightarrow> string \<Rightarrow> string \<Rightarrow> uint32 \<Rightarrow> (uint32 \<times> bool) result" where
  "matchSuffixes g [] sfx hash = Ok (hash, False)"
| "matchSuffixes g (c # cs) sfx hash =
     (let hash' = hash * PrimeRK + char32 c; sfx' = c # sfx in
      if c = CHR ''.'' then
        (case Lookup g hash' sfx' of
           Inl e \<Rightarrow> Err e
         | Inr True \<Rightarrow> Ok (hash', True)
         | Inr False \<Rightarrow> matchSuffixes g cs sfx' hash')
      else matchSuffixes g cs sfx' hash')"

definition Mph_Match :: "MphMatcherGroup \<Rightarrow> string \<Rightarrow> uint32 list result" where
  "Mph_Match g pattern =
     (case matchSuffixes g (rev pattern) [] 0 of
        Inl e \<Rightarrow> Err e
      | Inr (_, True) \<Rightarrow> Ok [1]
      | Inr (hash, False) \<Rightarrow>
          (case Lookup g hash pattern of
             Inl e \<Rightarrow> Err e
           | Inr True \<Rightarrow> Ok [1]
           | Inr False \<Rightarrow>
               if (case mp_ac g of None \<Rightarrow> False | Some ac \<Rightarrow> AC_Match ac pattern) then Ok [1]
               else case find (\<lambda>(m, _). Matcher_Match m pattern) (mp_otherMatchers g) of
                      Some (_, i) \<Rightarrow> Ok [i]
                    | None \<Rightarrow> Ok []))"

section \<open>Arithmetic of the table\<close>

lemma masked_le: "masked h m \<le> m"
proof -
  have "unat (h AND word_of_nat m) \<le> unat (word_of_nat m :: uint64)"
    by (simp add: word_le_nat_alt [symmetric] word_and_le1)
  also have "\<dots> \<le> m"
    by (simp add: unat_of_nat)
  finally show ?thesis
    by (simp add: masked_def)
qed

lemma bits_Len_bounds: "v < 2 ^ bits_Len v" "v \<noteq> 0 \<Longrightarrow> 2 ^ (bits_Len v - 1) \<le> v"
proof (induction v rule: bits_Len.induct)
  case (1 v)
  case 1
  show ?case
    using "1.IH"(1) by (cases "v = 0") (auto simp: bits_Len.simps [of v])
next
  case (1 v)
  case 2
  then show ?case
    using "1.IH"(2) by (cases "v div 2 = 0") (auto simp: bits_Len.simps [of v] bits_Len.simps [of "v div 2"] bits_Len.simps [of 0])
qed

lemma nextPow2_bounds:
  assumes "v < 2 ^ 63"
  shows "0 < nextPow2 v" "v \<le> nextPow2 v"
proof -
  have "nextPow2 v = 2 ^ bits_Len v" if "1 < v"
  proof -
    let ?k = "bits_Len v"
    have "(2 :: nat) ^ (?k - 1) < 2 ^ 63"
      using bits_Len_bounds(2) [of v] assms that by linarith
    then have "?k - 1 < 63"
      by (rule power_less_imp_less_exp [rotated]) simp
    then have k: "?k \<le> 63"
      by simp
    have "(2 :: nat) ^ (64 - ?k) \<le> 2 ^ 64"
      by (rule power_increasing) simp_all
    then have eq: "(2 :: nat) ^ 64 - 1 = (2 ^ ?k - 1) * 2 ^ (64 - ?k) + (2 ^ (64 - ?k) - 1)"
      using k by (simp add: diff_mult_distrib flip: power_add)
    have "((2 :: nat) ^ 64 - 1) div 2 ^ (64 - ?k) = 2 ^ ?k - 1"
      unfolding eq by (subst div_mult_self3) simp_all
    moreover have "unat (-1 :: uint64) = 2 ^ 64 - 1"
      by (simp add: unsigned_minus_1_eq_mask mask_eq_exp_minus_1)
    ultimately have "unat (drop_bit (64 - ?k) (-1 :: uint64)) = 2 ^ ?k - 1"
      by (simp only: unat_drop_bit_eq) (simp only: drop_bit_eq_div)
    moreover have "(2 :: nat) ^ ?k < 2 ^ 64"
      using k by (intro power_strict_increasing) simp_all
    ultimately show ?thesis
      using that by (simp add: nextPow2_def unat_word_ariths)
  qed
  then show "0 < nextPow2 v" "v \<le> nextPow2 v"
    using bits_Len_bounds(1) [of v] by (cases "1 < v"; simp add: nextPow2_def)+
qed

lemma RollingHash_Cons: "RollingHash (c # s) = RollingHash s * PrimeRK + char32 c"
  by (simp add: RollingHash_def)

section \<open>Placing a bucket\<close>

text \<open>A seed fits a bucket when the rules get different free slots.\<close>

definition slot :: "nat \<Rightarrow> uint32 \<Rightarrow> string \<Rightarrow> nat" where
  "slot m seed s = masked (strhashFallback s seed) m"

definition seed_fits :: "nat \<Rightarrow> uint32 \<Rightarrow> string list \<Rightarrow> bool list \<Rightarrow> bool" where
  "seed_fits m seed ss occ \<longleftrightarrow> distinct (map (slot m seed) ss) \<and> (\<forall>s\<in>set ss. \<not> occ ! slot m seed s)"

lemma slot_le: "slot m seed s \<le> m"
  by (simp add: slot_def masked_le)

lemma seed_fits_Cons: "length occ = Suc m \<Longrightarrow>
    seed_fits m seed (s # ss) occ \<longleftrightarrow> \<not> occ ! slot m seed s \<and> seed_fits m seed ss (occ[slot m seed s := True])"
  using slot_le [of m seed] by (auto simp: seed_fits_def nth_list_update less_Suc_eq_le image_iff)

lemma tryBucket_found:
  "length occ = Suc m \<Longrightarrow> fst (tryBucket rules m seed vals occ tmp l1) \<longleftrightarrow> seed_fits m seed (map ((!) rules) vals) occ"
  by (induction rules m seed vals occ tmp l1 rule: tryBucket.induct)
    (simp_all add: seed_fits_Cons Let_def seed_fits_def [of _ _ "[]"] flip: slot_def)

text \<open>A failed attempt leaves the occupancy as it was.\<close>

lemma list_update_nth: "n < length xs \<Longrightarrow> xs[k := x] ! n = (if k = n then x else xs ! n)"
  by (cases "k = n") auto

lemma fold_clear_nth: "n < length occ \<Longrightarrow> fold (\<lambda>n occ. occ[n := False]) tmp occ ! n \<longleftrightarrow> occ ! n \<and> n \<notin> set tmp"
  by (induction tmp arbitrary: occ) (auto simp: list_update_nth)

lemma length_fold_clear: "length (fold (\<lambda>n occ. occ[n := False]) tmp occ) = length occ"
  by (induction tmp arbitrary: occ) simp_all

lemma tryBucket_occ:
  assumes "length occ = Suc m" and "tryBucket rules m seed vals occ tmp l1 = (found, occ', l1')"
  shows "length occ' = Suc m" and "n \<le> m \<Longrightarrow> occ' ! n \<longleftrightarrow>
    (if found then occ ! n \<or> n \<in> (slot m seed \<circ> (!) rules) ` set vals else occ ! n \<and> n \<notin> set tmp)"
  using assms
proof (induction rules m seed vals occ tmp l1 rule: tryBucket.induct)
  case (2 rules m seed i vals occ tmp l1)
  {
    case 1
    with "2.IH"(1) [OF refl] show ?case
      by (auto simp: Let_def length_fold_clear split: if_splits)
  next
    case 2
    with "2.IH"(2) [OF refl] slot_le [of m seed "rules ! i"] show ?case
      by (auto simp: Let_def fold_clear_nth list_update_nth less_Suc_eq_le slot_def split: if_splits)
  }
qed auto

text \<open>The table keeps its entries in occupied slots, and a placed rule is found in its slot.\<close>

lemma tryBucket_level1:
  assumes "length occ = Suc m" and "length l1 = Suc m" and "tryBucket rules m seed vals occ tmp l1 = (found, occ', l1')"
  shows "length l1' = Suc m" and "n \<le> m \<Longrightarrow> occ ! n \<Longrightarrow> l1' ! n = l1 ! n"
    and "set l1' \<subseteq> set l1 \<union> word_of_nat ` set vals"
    and "found \<Longrightarrow> i \<in> set vals \<Longrightarrow> l1' ! slot m seed (rules ! i) = word_of_nat i"
  using assms
proof (induction rules m seed vals occ tmp l1 arbitrary: n i rule: tryBucket.induct)
  case (2 rules m seed j vals occ tmp l1)
  let ?s = "slot m seed (rules ! j)"
  {
    case 1
    with "2.IH"(1) [OF refl] show ?case
      by (auto simp: Let_def split: if_splits)
  next
    case 2
    with "2.IH"(2) [OF refl] show ?case
      by (auto simp: Let_def list_update_nth less_Suc_eq_le slot_def split: if_splits)
  next
    case 3
    with "2.IH"(3) [OF refl] set_update_subset_insert [of l1 ?s "word_of_nat j"] show ?case
      by (fastforce simp: Let_def slot_def split: if_splits)
  next
    case 4
    then have free: "\<not> occ ! ?s" and rest: "tryBucket rules m seed vals (occ[?s := True]) (tmp @ [?s]) (l1[?s := word_of_nat j]) = (found, occ', l1')"
      by (auto simp: Let_def slot_def split: if_splits)
    show ?case
    proof (cases "i \<in> set vals")
      case True
      with 4 "2.IH"(4) [OF refl] free rest show ?thesis
        by (simp add: slot_def)
    next
      case False
      with 4 have "i = j"
        by simp
      with "2.IH"(2) [OF refl, where n = ?s] free rest 4(3,4) slot_le [of m seed "rules ! j"] show ?thesis
        by (simp add: slot_def nth_list_update less_Suc_eq_le)
    qed
  }
qed auto

section \<open>Searching a seed\<close>

lemma tryBucket_failed:
  assumes "length occ = Suc m" and "tryBucket rules m seed vals occ [] l1 = (False, occ', l1')"
  shows "occ' = occ"
  using tryBucket_occ [OF assms] assms(1) by (auto simp: list_eq_iff_nth_eq less_Suc_eq_le)

text \<open>The search ends as soon as any of the \<open>2 ^ 32\<close> seeds fits.\<close>

lemma findSeed_returns:
  assumes "length occ = Suc m" and "seed_fits m seed (map ((!) rules) vals) occ"
  shows "\<exists>r. findSeed rules m start vals occ l1 = Some r"
proof (induction "unat (seed - start)" arbitrary: start l1)
  case (0 start l1)
  then have "seed = start"
    by (simp add: unat_eq_0)
  then have "fst (tryBucket rules m start vals occ [] l1)"
    using tryBucket_found [OF assms(1)] assms(2) by simp
  then show ?case
    by (subst findSeed.simps) (auto split: prod.splits)
next
  case (Suc k start l1)
  have "seed - start \<noteq> 0"
    using Suc.hyps(2) by (metis nat.distinct(1) unat_0)
  then have "k = unat (seed - (start + 1))"
    using Suc.hyps(2) by (metis diff_diff_eq diff_Suc_1 unat_minus_one)
  note IH = Suc.hyps(1) [OF this]
  obtain found occ' l1' where t: "tryBucket rules m start vals occ [] l1 = (found, occ', l1')"
    by (metis prod_cases3)
  show ?case
  proof (cases found)
    case False
    with tryBucket_failed [OF assms(1)] t have "occ' = occ"
      by simp
    with IH [of l1'] t False show ?thesis
      by (subst findSeed.simps) simp
  qed (subst findSeed.simps, simp add: t)
qed

lemma findSeed_None:
  assumes "length occ = Suc m" and "findSeed rules m start vals occ l1 = None"
  shows "\<not> seed_fits m seed (map ((!) rules) vals) occ"
proof
  assume "seed_fits m seed (map ((!) rules) vals) occ"
  from findSeed_returns [OF assms(1) this, of start l1] assms(2) show False
    by simp
qed

text \<open>What the search returns comes from an attempt that succeeded.\<close>

definition found_with :: "string list \<Rightarrow> nat \<Rightarrow> nat list \<Rightarrow> bool list \<Rightarrow> uint32 list \<Rightarrow> uint32 \<times> bool list \<times> uint32 list \<Rightarrow> bool" where
  "found_with rules m vals occ l1 r \<longleftrightarrow> length occ = Suc m \<longrightarrow> length l1 = Suc m \<longrightarrow>
     (\<exists>l. tryBucket rules m (fst r) vals occ [] l = (True, snd r) \<and> length l = Suc m
       \<and> (\<forall>n\<le>m. occ ! n \<longrightarrow> l ! n = l1 ! n) \<and> set l \<subseteq> set l1 \<union> word_of_nat ` set vals)"

lemma found_with_step:
  assumes IH: "\<And>seed vals occ l1 y. f rules m seed vals occ l1 = Some y \<Longrightarrow> found_with rules m vals occ l1 y"
    and step: "(case tryBucket rules m seed vals occ [] l1 of (found, occ', l1') \<Rightarrow>
      if found then Some (seed, occ', l1') else f rules m (seed + 1) vals occ' l1') = Some r"
  shows "found_with rules m vals occ l1 r"
proof -
  obtain found occ' l1' where t: "tryBucket rules m seed vals occ [] l1 = (found, occ', l1')"
    by (metis prod_cases3)
  show ?thesis
  proof (cases found)
    case True
    with t step show ?thesis
      by (auto simp: found_with_def)
  next
    case False
    with t step have found: "found_with rules m vals occ' l1' r"
      using IH by simp
    show ?thesis
      unfolding found_with_def
    proof (intro impI)
      assume len: "length occ = Suc m" "length l1 = Suc m"
      have "occ' = occ"
        using tryBucket_failed [OF len(1)] t False by simp
      note kept = tryBucket_level1(1,2,3) [OF len t]
      obtain l where "tryBucket rules m (fst r) vals occ [] l = (True, snd r)" "length l = Suc m"
        "\<forall>n\<le>m. occ ! n \<longrightarrow> l ! n = l1' ! n" "set l \<subseteq> set l1' \<union> word_of_nat ` set vals"
        using found len(1) kept(1) \<open>occ' = occ\<close> by (auto simp: found_with_def)
      then show "\<exists>l. tryBucket rules m (fst r) vals occ [] l = (True, snd r) \<and> length l = Suc m
          \<and> (\<forall>n\<le>m. occ ! n \<longrightarrow> l ! n = l1 ! n) \<and> set l \<subseteq> set l1 \<union> word_of_nat ` set vals"
        using kept(2,3) by (intro exI [of _ l]) auto
    qed
  qed
qed

lemma findSeed_Some: "findSeed rules m start vals occ l1 = Some r \<Longrightarrow> found_with rules m vals occ l1 r"
  by (rule findSeed.raw_induct [where P = "\<lambda>rules m start vals occ l1 r. found_with rules m vals occ l1 r"])
    (rule found_with_step)

section \<open>Placing all buckets\<close>

text \<open>
  \<open>placed\<close>: every rule number of \<open>S\<close> is in the slot that the seed of its bucket gives it. \<open>bk\<close> maps
  a rule number to its bucket.
\<close>

definition placed :: "string list \<Rightarrow> nat \<Rightarrow> (nat \<Rightarrow> nat) \<Rightarrow> bool list \<Rightarrow> uint32 list \<Rightarrow> uint32 list \<Rightarrow> nat set \<Rightarrow> bool" where
  "placed rules m bk occ l0 l1 S \<longleftrightarrow>
     (\<forall>i\<in>S. occ ! slot m (l0 ! bk i) (rules ! i) \<and> l1 ! slot m (l0 ! bk i) (rules ! i) = word_of_nat i)"

definition occupied :: "nat \<Rightarrow> bool list \<Rightarrow> nat set" where
  "occupied m occ = {n. n \<le> m \<and> occ ! n}"

lemma findSeed_placed:
  assumes f: "findSeed rules m start vals occ l1 = Some (seed, occ', l1')"
    and len: "length occ = Suc m" "length l1 = Suc m"
    and old: "placed rules m bk occ l0 l1 S" and vals: "\<forall>i\<in>set vals. bk i = n" and S: "\<forall>i\<in>S. bk i \<noteq> n" and n: "n < length l0"
  shows "placed rules m bk occ' (l0[n := seed]) l1' (S \<union> set vals)"
    and "length occ' = Suc m" and "length l1' = Suc m" and "set l1' \<subseteq> set l1 \<union> word_of_nat ` set vals"
    and "card (occupied m occ') = card (occupied m occ) + length vals"
proof -
  from findSeed_Some [OF f] len obtain l where t: "tryBucket rules m seed vals occ [] l = (True, occ', l1')"
    and l: "length l = Suc m" "\<forall>k\<le>m. occ ! k \<longrightarrow> l ! k = l1 ! k" "set l \<subseteq> set l1 \<union> word_of_nat ` set vals"
    by (auto simp: found_with_def)
  note o = tryBucket_occ [OF len(1) t] and e = tryBucket_level1 [OF len(1) l(1) t]
  show "length occ' = Suc m" "length l1' = Suc m" "set l1' \<subseteq> set l1 \<union> word_of_nat ` set vals"
    using o(1) e(1,3) l(3) by auto
  have new: "occ' ! slot m seed (rules ! i) \<and> l1' ! slot m seed (rules ! i) = word_of_nat i" if "i \<in> set vals" for i
    using o(2) [OF slot_le, of seed "rules ! i"] e(4) that by auto
  have keep: "occ' ! k \<and> l1' ! k = l1 ! k" if "occ ! k" "k \<le> m" for k
    using o(2) [OF that(2)] e(2) [OF that(2,1)] l(2) that by auto
  show "placed rules m bk occ' (l0[n := seed]) l1' (S \<union> set vals)"
    using old new keep [OF _ slot_le] vals S n unfolding placed_def by auto
  have "seed_fits m seed (map ((!) rules) vals) occ"
    using tryBucket_found [OF len(1), of rules seed vals "[]" l] t by simp
  then have d: "distinct (map (slot m seed \<circ> (!) rules) vals)" "\<forall>i\<in>set vals. \<not> occ ! slot m seed (rules ! i)"
    by (auto simp: seed_fits_def)
  have "occupied m occ' = occupied m occ \<union> set (map (slot m seed \<circ> (!) rules) vals)"
    using o(2) slot_le by (auto simp: occupied_def)
  moreover have "occupied m occ \<inter> set (map (slot m seed \<circ> (!) rules) vals) = {}"
    using d(2) by (auto simp: occupied_def)
  moreover have "finite (occupied m occ)"
    by (simp add: occupied_def)
  ultimately show "card (occupied m occ') = card (occupied m occ) + length vals"
    using distinct_card [OF d(1)] by (simp add: card_Un_disjoint)
qed

lemma placeBuckets_spec:
  assumes "length occ = Suc m" and "length l1 = Suc m" and "placed rules m bk occ l0 l1 S"
    and "distinct (map fst bs)" and "\<forall>(n, vals)\<in>set bs. n < length l0 \<and> (\<forall>i\<in>set vals. bk i = n)"
    and "\<forall>i\<in>S. bk i \<notin> fst ` set bs"
  shows "case placeBuckets rules m bs occ l0 l1 of
      Some (l0', l1') \<Rightarrow> (\<exists>occ'. placed rules m bk occ' l0' l1' (S \<union> set (concat (map snd bs))))
        \<and> length l0' = length l0 \<and> length l1' = Suc m \<and> set l1' \<subseteq> set l1 \<union> word_of_nat ` set (concat (map snd bs))
    | None \<Rightarrow> \<exists>vals\<in>snd ` set bs. \<exists>occ'. length occ' = Suc m
        \<and> card (occupied m occ') + length vals \<le> card (occupied m occ) + length (concat (map snd bs))
        \<and> (\<forall>seed. \<not> seed_fits m seed (map ((!) rules) vals) occ')"
  using assms
proof (induction bs arbitrary: occ l0 l1 S)
  case Nil
  then show ?case
    by auto
next
  case (Cons b bs)
  obtain n vals where b: "b = (n, vals)"
    by (cases b)
  have n: "n < length l0" "\<forall>i\<in>set vals. bk i = n" "\<forall>i\<in>S. bk i \<noteq> n" "n \<notin> fst ` set bs" "distinct (map fst bs)"
    using Cons.prems(4-6) by (auto simp: b)
  show ?case
  proof (cases "findSeed rules m 0 vals occ l1")
    case None
    then have "\<forall>seed. \<not> seed_fits m seed (map ((!) rules) vals) occ"
      using findSeed_None [OF Cons.prems(1)] by blast
    with None Cons.prems(1) show ?thesis
      by (auto simp: b)
  next
    case (Some r)
    obtain seed occ1 l11 where r: "r = (seed, occ1, l11)"
      by (cases r)
    note p = findSeed_placed [OF Some [unfolded r] Cons.prems(1-3) n(2,3,1)]
    have S: "\<forall>i\<in>S \<union> set vals. bk i \<notin> fst ` set bs"
      using Cons.prems(6) n(2,4) by (auto simp: b)
    have B: "\<forall>(n', vals)\<in>set bs. n' < length (l0[n := seed]) \<and> (\<forall>i\<in>set vals. bk i = n')"
      using Cons.prems(5) by auto
    note IH = Cons.IH [OF p(2,3,1) n(5) B S]
    have eq: "placeBuckets rules m (b # bs) occ l0 l1 = placeBuckets rules m bs occ1 (l0[n := seed]) l11"
      by (simp add: b Some r)
    show ?thesis
    proof (cases "placeBuckets rules m bs occ1 (l0[n := seed]) l11")
      case None
      then show ?thesis
        using IH unfolding eq p(5) by (auto simp: b add.assoc)
    next
      case (Some r')
      then show ?thesis
        using IH p(4) unfolding eq by (cases r') (auto simp: b Un_assoc image_Un)
    qed
  qed
qed

section \<open>The table\<close>

text \<open>The bucket of a rule, by the hash stored with it.\<close>

definition bucket :: "nat \<Rightarrow> (string \<times> uint32) list \<Rightarrow> nat \<Rightarrow> nat" where
  "bucket m kvs i = masked (ucast (snd (kvs ! i))) m"

lemma fillBuckets_spec:
  assumes "length sparse = Suc m"
  shows "fillBuckets m kvs k rules sparse = (rules @ map fst kvs,
    map (\<lambda>n. sparse ! n @ filter (\<lambda>i. bucket m kvs (i - k) = n) [k..<k + length kvs]) [0..<Suc m])"
  using assms
proof (induction kvs arbitrary: k rules sparse)
  case Nil
  then show ?case
    using map_nth [of sparse] by (simp del: upt_Suc)
next
  case (Cons kv kvs)
  obtain rule hash where kv: "kv = (rule, hash)"
    by (cases kv)
  let ?n = "masked (ucast hash) m"
  have n: "?n \<le> m"
    by (rule masked_le)
  have upt: "[k..<k + length (kv # kvs)] = k # [Suc k..<Suc k + length kvs]"
    by (subst upt_conv_Cons) (simp_all del: upt_Suc)
  have b: "bucket m (kv # kvs) (i - k) = bucket m kvs (i - Suc k)" if "Suc k \<le> i" for i
  proof -
    have "i - k = Suc (i - Suc k)"
      using that by simp
    then show ?thesis
      by (simp add: bucket_def)
  qed
  have f: "filter (\<lambda>i. bucket m (kv # kvs) (i - k) = n') [Suc k..<Suc k + length kvs]
      = filter (\<lambda>i. bucket m kvs (i - Suc k) = n') [Suc k..<Suc k + length kvs]" for n'
    by (intro filter_cong refl arg_cong [where f = "\<lambda>k. k = n'"] b) (simp only: set_upt atLeastLessThan_iff)
  have g: "sparse[?n := sparse ! ?n @ [k]] ! n' @ xs = sparse ! n' @ (if ?n = n' then k # xs else xs)" if "n' \<le> m" for n' xs
    using that Cons.prems by (simp add: list_update_nth less_Suc_eq_le)
  have "fillBuckets m (kv # kvs) k rules sparse = fillBuckets m kvs (Suc k) (rules @ [rule]) (sparse[?n := sparse ! ?n @ [k]])"
    by (simp add: kv Let_def)
  also have "\<dots> = (rules @ map fst (kv # kvs), map (\<lambda>n'. sparse[?n := sparse ! ?n @ [k]] ! n' @
      filter (\<lambda>i. bucket m kvs (i - Suc k) = n') [Suc k..<Suc k + length kvs]) [0..<Suc m])"
    using Cons.IH [of "sparse[?n := sparse ! ?n @ [k]]" "Suc k" "rules @ [rule]"] Cons.prems by (simp add: kv del: upt_Suc)
  also have "map (\<lambda>n'. sparse[?n := sparse ! ?n @ [k]] ! n' @
        filter (\<lambda>i. bucket m kvs (i - Suc k) = n') [Suc k..<Suc k + length kvs]) [0..<Suc m] =
      map (\<lambda>n'. sparse ! n' @ filter (\<lambda>i. bucket m (kv # kvs) (i - k) = n') [k..<k + length (kv # kvs)]) [0..<Suc m]"
  proof (rule map_cong [OF refl])
    fix n' assume "n' \<in> set [0..<Suc m]"
    then have "n' \<le> m"
      by auto
    moreover have "bucket m (kv # kvs) (k - k) = ?n"
      by (simp add: bucket_def kv)
    ultimately show "sparse[?n := sparse ! ?n @ [k]] ! n' @
        filter (\<lambda>i. bucket m kvs (i - Suc k) = n') [Suc k..<Suc k + length kvs] =
      sparse ! n' @ filter (\<lambda>i. bucket m (kv # kvs) (i - k) = n') [k..<k + length (kv # kvs)]"
      unfolding upt filter.simps f by (simp only: g)
  qed
  finally show ?case .
qed

lemma fillBuckets_rules:
  "fillBuckets m kvs 0 [] (replicate (Suc m) []) = (map fst kvs, map (\<lambda>n. filter (\<lambda>i. bucket m kvs i = n) [0..<length kvs]) [0..<Suc m])"
  by (subst fillBuckets_spec) (simp_all del: upt_Suc replicate.simps)

text \<open>The buckets, in whatever order, split up the rules.\<close>

lemma mset_concat_indexBuckets: "mset (concat (map snd (indexBuckets sparse))) = mset (concat sparse)"
proof -
  have "mset (concat (map snd (filter (\<lambda>(n, vals). vals \<noteq> []) bs))) = mset (concat (map snd bs))" for bs :: "(nat \<times> nat list) list"
    by (induction bs) auto
  then show ?thesis
    by (simp add: indexBuckets_def)
qed

lemma mset_partition: "(\<forall>i\<in>set xs. f i < N) \<Longrightarrow> mset (concat (map (\<lambda>n. filter (\<lambda>i. f i = n) xs) [0..<N])) = mset xs"
proof (induction xs)
  case (Cons x xs)
  have ins: "mset (concat (map (\<lambda>n. if f x = n then x # g n else g n) [0..<M])) =
      (if f x < M then {#x#} else {#}) + mset (concat (map g [0..<M]))" for g M
    by (induction M) auto
  from Cons ins [of "\<lambda>n. filter (\<lambda>i. f i = n) xs" N] show ?case
    by simp
qed (simp add: concat_eq_Nil_conv)

lemma indexBuckets_props:
  assumes "mset bs = mset (indexBuckets (map (\<lambda>n. filter (\<lambda>i. bucket m kvs i = n) [0..<length kvs]) [0..<Suc m]))"
  shows "distinct (map fst bs)" and "\<forall>(n, vals)\<in>set bs. n \<le> m \<and> (\<forall>i\<in>set vals. bucket m kvs i = n)"
    and "mset (concat (map snd bs)) = mset [0..<length kvs]"
proof -
  let ?sparse = "map (\<lambda>n. filter (\<lambda>i. bucket m kvs i = n) [0..<length kvs]) [0..<Suc m]"
  have "distinct (map fst (indexBuckets ?sparse))"
    unfolding indexBuckets_def by (rule distinct_map_filter) (simp del: upt_Suc)
  moreover have "mset (map fst bs) = mset (map fst (indexBuckets ?sparse))"
    using assms by simp
  ultimately show "distinct (map fst bs)"
    using mset_eq_imp_distinct_iff by blast
  have "set bs = set (indexBuckets ?sparse)"
    using assms by (rule mset_eq_setD)
  then show "\<forall>(n, vals)\<in>set bs. n \<le> m \<and> (\<forall>i\<in>set vals. bucket m kvs i = n)"
    by (auto simp: indexBuckets_def in_set_zip less_Suc_eq_le nth_append simp del: upt_Suc)
  have "mset (concat (map snd bs)) = mset (concat (map snd (indexBuckets ?sparse)))"
    using assms by (simp add: mset_concat flip: sum_mset_sum_list)
  also have "\<dots> = mset [0..<length kvs]"
    unfolding mset_concat_indexBuckets
    by (rule mset_partition) (simp add: bucket_def less_Suc_eq_le masked_le)
  finally show "mset (concat (map snd bs)) = mset [0..<length kvs]" .
qed

definition rules_ok :: "(string \<times> uint32) list \<Rightarrow> bool" where
  "rules_ok m \<longleftrightarrow> distinct (map fst m) \<and> (\<forall>(r, h)\<in>set m. h = RollingHash r)"

text \<open>The rules that the table is built for: a place holder when there are none.\<close>

definition effective :: "(string \<times> uint32) list \<Rightarrow> (string \<times> uint32) list" where
  "effective m = (if m = [] then [(''empty___'', RollingHash ''empty___'')] else m)"

lemma rules_ok_effective: "rules_ok m \<Longrightarrow> rules_ok (effective m)"
  by (simp add: rules_ok_def effective_def)

lemma Lookup_placed:
  assumes k: "length kvs < 2 ^ 32" "kvs \<noteq> []" and hash: "\<forall>(r, h)\<in>set kvs. h = RollingHash r"
    and l0: "length (mp_level0 g) = Suc (mp_level0Mask g)" and l1: "length (mp_level1 g) = Suc (mp_level1Mask g)"
    and rules: "mp_rules g = map fst kvs"
    and placed: "placed (map fst kvs) (mp_level1Mask g) (bucket (mp_level0Mask g) kvs) occ (mp_level0 g) (mp_level1 g) {..<length kvs}"
    and entries: "set (mp_level1 g) \<subseteq> word_of_nat ` {..<length kvs}"
  shows "Lookup g (RollingHash s) s = Ok (s \<in> fst ` set kvs)"
proof -
  let ?i0 = "masked (ucast (RollingHash s)) (mp_level0Mask g)"
  let ?i1 = "slot (mp_level1Mask g) (mp_level0 g ! ?i0) s"
  let ?n = "unat (mp_level1 g ! ?i1)"
  have small: "unat (word_of_nat i :: uint32) = i" if "i < length kvs" for i
    using that k(1) by (simp add: unat_of_nat)
  have i0: "?i0 < length (mp_level0 g)" and i1: "?i1 < length (mp_level1 g)"
    using masked_le slot_le l0 l1 by (simp_all add: less_Suc_eq_le)
  then have "mp_level1 g ! ?i1 \<in> word_of_nat ` {..<length kvs}"
    using entries nth_mem by blast
  then have n: "?n < length kvs"
    using small by auto
  have result: "Lookup g (RollingHash s) s = Ok (s = fst (kvs ! ?n))"
    using i0 i1 n rules by (simp add: Lookup_def Let_def flip: slot_def)
  have hit: "s = fst (kvs ! ?n)" if s: "s \<in> fst ` set kvs"
  proof -
    from s obtain i where i: "i < length kvs" "fst (kvs ! i) = s"
      by (auto simp: in_set_conv_nth)
    have h: "snd (kvs ! i) = RollingHash s"
      using hash nth_mem [OF i(1)] i(2) by (cases "kvs ! i") auto
    have "mp_level1 g ! slot (mp_level1Mask g) (mp_level0 g ! bucket (mp_level0Mask g) kvs i) (map fst kvs ! i) = word_of_nat i"
      using placed i(1) by (simp add: placed_def)
    then have "mp_level1 g ! ?i1 = word_of_nat i"
      by (simp only: bucket_def h nth_map [OF i(1)] i(2))
    then show ?thesis
      using small i by simp
  qed
  have "fst (kvs ! ?n) \<in> fst ` set kvs"
    using n by simp
  then have "s \<in> fst ` set kvs" if "s = fst (kvs ! ?n)"
    unfolding that [symmetric] .
  with hit have "s = fst (kvs ! ?n) \<longleftrightarrow> s \<in> fst ` set kvs"
    by blast
  then show ?thesis
    unfolding result by (rule arg_cong)
qed

text \<open>
  No seed for the rules \<open>ss\<close>, although the table (of \<open>N\<close> slots for \<open>k\<close> rules) has room for them.
\<close>

definition stuck :: "nat \<Rightarrow> nat \<Rightarrow> string list \<Rightarrow> bool list \<Rightarrow> bool" where
  "stuck N k ss occ \<longleftrightarrow> length occ = N \<and> card {n. n < N \<and> occ ! n} + length ss \<le> k
     \<and> (\<forall>seed. \<not> seed_fits (N - 1) seed ss occ)"

lemma buildTable_spec:
  assumes ranged: "\<And>xs. mset (ranged xs) = mset xs" and sorted: "\<And>bs. mset (sorted_by bs) = mset bs"
    and ok: "rules_ok m" and small: "length m < 2 ^ 32" and g: "mp_rules g = []"
  shows "case buildTable ranged sorted_by m g of
      Some g' \<Rightarrow> (\<forall>s. Lookup g' (RollingHash s) s = Ok (s \<in> fst ` set (effective m)))
        \<and> mp_ac g' = mp_ac g \<and> mp_otherMatchers g' = mp_otherMatchers g
    | None \<Rightarrow> \<exists>ss occ. set ss \<subseteq> fst ` set (effective m) \<and> stuck (nextPow2 (length (effective m))) (length (effective m)) ss occ"
proof -
  define kvs where "kvs = ranged (effective m)"
  define M0 where "M0 = nextPow2 (length (effective m) div 4) - 1"
  define M1 where "M1 = nextPow2 (length (effective m)) - 1"
  define bs where "bs = sorted_by (indexBuckets (map (\<lambda>n. filter (\<lambda>i. bucket M0 kvs i = n) [0..<length kvs]) [0..<Suc M0]))"
  have len: "length (effective m) < 2 ^ 32" "0 < length (effective m)" "(if m = [] then 1 else length m) = length (effective m)"
    using small by (auto simp: effective_def)
  have N: "nextPow2 (length (effective m) div 4) = Suc M0" "nextPow2 (length (effective m)) = Suc M1"
    using nextPow2_bounds(1) [of "length (effective m) div 4"] nextPow2_bounds(1) [of "length (effective m)"] len(1)
    by (simp_all add: M0_def M1_def)
  have kvs: "length kvs = length (effective m)" "set kvs = set (effective m)"
    unfolding kvs_def using ranged mset_eq_length mset_eq_setD by blast+
  have hash: "\<forall>(r, h)\<in>set kvs. h = RollingHash r" "kvs \<noteq> []"
    using rules_ok_effective [OF ok] kvs len(2) by (auto simp: rules_ok_def)
  note bp = indexBuckets_props [of bs M0 kvs, unfolded bs_def, OF sorted, folded bs_def]
  have all: "set (concat (map snd bs)) = {..<length kvs}" "length (concat (map snd bs)) = length kvs"
    using mset_eq_setD [OF bp(3)] mset_eq_length [OF bp(3)] by (simp_all add: atLeast0LessThan)
  let ?occ = "replicate (Suc M1) False" and ?l0 = "replicate (Suc M0) (0 :: uint32)" and ?l1 = "replicate (Suc M1) (0 :: uint32)"
  have eq: "buildTable ranged sorted_by m g = (case placeBuckets (map fst kvs) M1 bs ?occ ?l0 ?l1 of None \<Rightarrow> None
      | Some (l0, l1) \<Rightarrow> Some (g\<lparr>mp_rules := map fst kvs, mp_level0 := l0, mp_level0Mask := M0, mp_level1 := l1,
          mp_level1Mask := M1, mp_ruleMap := None\<rparr>))"
    unfolding buildTable_def len(3) g effective_def [symmetric] kvs_def [symmetric] N Let_def length_replicate diff_Suc_1
      fillBuckets_rules split bs_def [symmetric] ..
  have pre: "length ?occ = Suc M1" "length ?l1 = Suc M1" "placed (map fst kvs) M1 (bucket M0 kvs) ?occ ?l0 ?l1 {}"
    "\<forall>(n, vals)\<in>set bs. n < length ?l0 \<and> (\<forall>i\<in>set vals. bucket M0 kvs i = n)" "\<forall>i\<in>{}. bucket M0 kvs i \<notin> fst ` set bs"
    using bp(2) by (auto simp: placed_def less_Suc_eq_le)
  note spec = placeBuckets_spec [OF pre(1-3) bp(1) pre(4,5), unfolded all Un_empty_left]
  show ?thesis
  proof (cases "placeBuckets (map fst kvs) M1 bs ?occ ?l0 ?l1")
    case None
    have empty: "occupied M1 ?occ = {}"
      by (auto simp: occupied_def simp del: replicate.simps)
    obtain vals occ where v: "vals \<in> snd ` set bs" "length occ = Suc M1" "card (occupied M1 occ) + length vals \<le> length kvs"
      "\<forall>seed. \<not> seed_fits M1 seed (map ((!) (map fst kvs)) vals) occ"
      using spec unfolding None empty by auto
    have "\<forall>i\<in>set vals. i < length kvs"
      using v(1) all(1) by auto
    then have "set (map ((!) (map fst kvs)) vals) \<subseteq> fst ` set (effective m)"
      using kvs(2) by (auto simp: nth_map)
    moreover have "stuck (Suc M1) (length (effective m)) (map ((!) (map fst kvs)) vals) occ"
      using v(2-4) kvs(1) by (simp add: stuck_def occupied_def less_Suc_eq_le)
    ultimately show ?thesis
      unfolding eq None N option.case by blast
  next
    case (Some r)
    obtain l0 l1 where r: "r = (l0, l1)"
      by (cases r)
    obtain occ where s: "placed (map fst kvs) M1 (bucket M0 kvs) occ l0 l1 {..<length kvs}" "length l0 = Suc M0"
      "length l1 = Suc M1" "set l1 \<subseteq> {0} \<union> word_of_nat ` {..<length kvs}"
      using spec unfolding Some r by (auto simp del: replicate_Suc)
    have "(0 :: uint32) \<in> word_of_nat ` {..<length kvs}"
      using hash(2) by (intro image_eqI [of _ _ 0]) auto
    then have "set l1 \<subseteq> word_of_nat ` {..<length kvs}"
      using s(4) by auto
    then have "Lookup (g\<lparr>mp_rules := map fst kvs, mp_level0 := l0, mp_level0Mask := M0, mp_level1 := l1,
        mp_level1Mask := M1, mp_ruleMap := None\<rparr>) (RollingHash x) x = Ok (x \<in> fst ` set kvs)" for x
      using s len(1) kvs(1) hash by (intro Lookup_placed [where occ = occ]) simp_all
    then show ?thesis
      unfolding eq Some r by (simp add: kvs(2))
  qed
qed

section \<open>Adding patterns\<close>

text \<open>Patterns added one after the other, up to the first error.\<close>

fun addAllPatterns :: "(string \<Rightarrow> string) \<Rightarrow> (string \<Rightarrow> (string \<Rightarrow> bool) result) \<Rightarrow> (string \<times> Type) list \<Rightarrow> MphMatcherGroup
    \<Rightarrow> MphMatcherGroup result" where
  "addAllPatterns toLower compile [] g = Ok g"
| "addAllPatterns toLower compile ((p, t) # ps) g =
     (case AddPattern toLower compile p t g of
        Inl e \<Rightarrow> Err e | Inr (_, g') \<Rightarrow> addAllPatterns toLower compile ps g')"

text \<open>What the parts of a group hold after adding \<open>ps\<close>.\<close>

definition hashed :: "(string \<Rightarrow> string) \<Rightarrow> (string \<times> Type) list \<Rightarrow> string set" where
  "hashed toLower ps = {toLower p | p. (p, Full) \<in> set ps \<or> (p, Domain) \<in> set ps}
     \<union> {CHR ''.'' # toLower p | p. (p, Domain) \<in> set ps}"

definition substrings :: "(string \<times> Type) list \<Rightarrow> string list" where
  "substrings ps = map fst (filter (\<lambda>(_, t). t = Substr) ps)"

definition regexes :: "(string \<Rightarrow> (string \<Rightarrow> bool) result) \<Rightarrow> (string \<times> Type) list \<Rightarrow> (Matcher \<times> uint32) list" where
  "regexes compile ps = concat (map (\<lambda>(p, t). if t = Regex then
     (case compile p of Inl _ \<Rightarrow> [] | Inr r \<Rightarrow> [(regexMatcher r, 1)]) else []) ps)"

definition group_inv :: "(string \<Rightarrow> string) \<Rightarrow> (string \<Rightarrow> (string \<Rightarrow> bool) result) \<Rightarrow> (string \<times> Type) list
    \<Rightarrow> MphMatcherGroup \<Rightarrow> bool" where
  "group_inv toLower compile ps g \<longleftrightarrow>
     (\<exists>m. mp_ruleMap g = Some m \<and> rules_ok m \<and> fst ` set m = hashed toLower ps \<and> length m \<le> 2 * length ps)
     \<and> (if substrings ps = [] then mp_ac g = None
        else \<exists>ac. mp_ac g = Some ac \<and> addPatterns (substrings ps) NewACAutomaton = Ok ac)
     \<and> mp_otherMatchers g = regexes compile ps \<and> mp_count g = 1 \<and> mp_rules g = []"

lemma rules_ok_update:
  assumes "rules_ok m"
  shows "rules_ok (AList.update r (RollingHash r) m)"
    and "fst ` set (AList.update r h m) = insert r (fst ` set m)"
    and "length (AList.update r h m) \<le> Suc (length m)"
proof -
  have "(k, v) \<in> set (AList.update r h m) \<Longrightarrow> (k, v) = (r, h) \<or> (k, v) \<in> set m" for k v h
    by (induction m) (auto split: if_splits)
  then show "rules_ok (AList.update r (RollingHash r) m)"
    using assms by (fastforce simp: rules_ok_def intro: distinct_update)
  show "fst ` set (AList.update r h m) = insert r (fst ` set m)"
    by (induction m) auto
  show "length (AList.update r h m) \<le> Suc (length m)"
    by (induction m) auto
qed

lemma addPatterns_snoc: "addPatterns (ps @ [p]) ac =
    (case addPatterns ps ac of Inl e \<Rightarrow> Err e | Inr ac' \<Rightarrow> AC_Add p Substr ac')"
  by (induction ps arbitrary: ac) (auto split: sum.splits)

lemma hashed_snoc: "hashed toLower (ps @ [(p, t)]) = hashed toLower ps
    \<union> (if t = Full \<or> t = Domain then {toLower p} else {}) \<union> (if t = Domain then {CHR ''.'' # toLower p} else {})"
  by (auto simp: hashed_def)

lemma substrings_snoc: "substrings (ps @ [(p, t)]) = substrings ps @ (if t = Substr then [p] else [])"
  by (simp add: substrings_def)

lemma regexes_snoc: "regexes compile (ps @ [(p, t)]) = regexes compile ps @ (if t = Regex then
     (case compile p of Inl _ \<Rightarrow> [] | Inr r \<Rightarrow> [(regexMatcher r, 1)]) else [])"
  by (simp add: regexes_def)

lemma AddPattern_inv:
  assumes inv: "group_inv toLower compile ps g" and add: "AddPattern toLower compile p t g = Ok (c, g')"
  shows "group_inv toLower compile (ps @ [(p, t)]) g'"
proof -
  obtain m where m: "mp_ruleMap g = Some m" "rules_ok m" "fst ` set m = hashed toLower ps" "length m \<le> 2 * length ps"
    using inv by (auto simp: group_inv_def)
  show ?thesis
  proof (cases t)
    case Substr
    then obtain ac where "AC_Add p Substr (case mp_ac g of None \<Rightarrow> NewACAutomaton | Some ac \<Rightarrow> ac) = Ok ac" "g' = g\<lparr>mp_ac := Some ac\<rparr>"
      using add by (auto simp: AddPattern_def split: sum.splits)
    with Substr m inv show ?thesis
      by (auto simp: group_inv_def hashed_snoc substrings_snoc regexes_snoc addPatterns_snoc split: if_splits)
  next
    case Regex
    then obtain r where "compile p = Ok r" "g' = g\<lparr>mp_otherMatchers := mp_otherMatchers g @ [(regexMatcher r, mp_count g)]\<rparr>"
      using add by (auto simp: AddPattern_def split: sum.splits)
    with Regex m inv show ?thesis
      by (auto simp: group_inv_def hashed_snoc substrings_snoc regexes_snoc)
  next
    case Full
    let ?m = "AList.update (toLower p) (RollingHash (toLower p)) m"
    have "g' = g\<lparr>mp_ruleMap := Some ?m\<rparr>"
      using add Full m(1) by (auto simp: AddPattern_def AddFullOrDomainPattern_def)
    moreover have "length ?m \<le> 2 * length (ps @ [(p, t)])"
      using rules_ok_update(3) [OF m(2), of "toLower p" "RollingHash (toLower p)"] m(4) by simp
    ultimately show ?thesis
      using Full inv rules_ok_update(1,2) [OF m(2), of "toLower p"] m(3)
      by (auto simp: group_inv_def hashed_snoc substrings_snoc regexes_snoc)
  next
    case Domain
    let ?d = "CHR ''.'' # toLower p"
    let ?m1 = "AList.update ?d (RollingHash ?d) m"
    let ?m = "AList.update (toLower p) (RollingHash (toLower p)) ?m1"
    have "g' = g\<lparr>mp_ruleMap := Some ?m\<rparr>"
      using add Domain m(1) by (auto simp: AddPattern_def AddFullOrDomainPattern_def RollingHash_Cons Let_def)
    moreover note u1 = rules_ok_update [OF m(2), of ?d]
    moreover note rules_ok_update [OF u1(1), of "toLower p"]
    moreover have "length ?m \<le> 2 * length (ps @ [(p, t)])"
      using u1(3) [of "RollingHash ?d"] rules_ok_update(3) [OF u1(1), of "toLower p" "RollingHash (toLower p)"] m(4) by simp
    ultimately show ?thesis
      using Domain inv m(3) by (auto simp: group_inv_def hashed_snoc substrings_snoc regexes_snoc)
  qed (use add in \<open>simp add: AddPattern_def\<close>)
qed

lemma group_inv_New: "group_inv toLower compile [] NewMphMatcherGroup"
  by (simp add: group_inv_def NewMphMatcherGroup_def rules_ok_def hashed_def substrings_def regexes_def)

lemma addAllPatterns_inv:
  "group_inv toLower compile qs g \<Longrightarrow> addAllPatterns toLower compile ps g = Ok g' \<Longrightarrow> group_inv toLower compile (qs @ ps) g'"
proof (induction ps arbitrary: qs g)
  case (Cons x ps)
  obtain p t where x: "x = (p, t)"
    by (cases x)
  with Cons.prems(2) obtain c g1 where "AddPattern toLower compile p t g = Ok (c, g1)" "addAllPatterns toLower compile ps g1 = Ok g'"
    by (auto split: sum.splits)
  with Cons.IH [of "qs @ [x]" g1] AddPattern_inv [OF Cons.prems(1)] x show ?case
    by simp
qed simp

section \<open>Matching\<close>

text \<open>A rule that starts with a dot ends the text; \<open>cs\<close> and \<open>sfx\<close> as in the loop.\<close>

fun dotted :: "string set \<Rightarrow> string \<Rightarrow> string \<Rightarrow> bool" where
  "dotted R [] sfx \<longleftrightarrow> False"
| "dotted R (c # cs) sfx \<longleftrightarrow> c = CHR ''.'' \<and> c # sfx \<in> R \<or> dotted R cs (c # sfx)"

lemma suffix_same_length: "suffix u w \<Longrightarrow> suffix v w \<Longrightarrow> length u = length v \<Longrightarrow> u = v"
  by (auto simp: suffix_def)

lemma dotted_iff:
  "dotted R cs sfx \<longleftrightarrow> (\<exists>d. CHR ''.'' # d \<in> R \<and> suffix (CHR ''.'' # d) (rev cs @ sfx) \<and> length sfx \<le> length d)"
proof (induction cs arbitrary: sfx)
  case Nil
  then show ?case
    by (auto dest!: suffix_length_le)
next
  case (Cons c cs)
  have suf: "suffix (c # sfx) (rev cs @ c # sfx)"
    by (simp add: suffix_def)
  have "suffix (CHR ''.'' # d) (rev cs @ c # sfx) \<and> length sfx \<le> length d \<longleftrightarrow>
      CHR ''.'' # d = c # sfx \<or> suffix (CHR ''.'' # d) (rev cs @ c # sfx) \<and> length (c # sfx) \<le> length d" for d
  proof (cases "length d = length sfx")
    case True
    then show ?thesis
      using suffix_same_length [OF suf, of "CHR ''.'' # d"] suf by auto
  qed auto
  then show ?case
    using Cons.IH [of "c # sfx"] by (simp only: dotted.simps rev.simps append.assoc append_Cons append_Nil) blast
qed

lemma dotted_whole: "dotted R (rev s) [] \<longleftrightarrow> (\<exists>d. CHR ''.'' # d \<in> R \<and> suffix (CHR ''.'' # d) s)"
  by (simp add: dotted_iff)

lemma matchSuffixes_spec:
  assumes look: "\<And>s. Lookup g (RollingHash s) s = Ok (s \<in> R)"
  shows "if dotted R cs sfx then \<exists>h. matchSuffixes g cs sfx (RollingHash sfx) = Ok (h, True)
    else matchSuffixes g cs sfx (RollingHash sfx) = Ok (RollingHash (rev cs @ sfx), False)"
proof (induction cs arbitrary: sfx)
  case (Cons c cs)
  have "RollingHash sfx * PrimeRK + char32 c = RollingHash (c # sfx)"
    by (simp add: RollingHash_Cons)
  then show ?case
    using Cons.IH [of "c # sfx"] look [of "c # sfx"] by (cases "c # sfx \<in> R") (auto simp: Let_def split: if_splits)
qed simp

lemma Mph_Match_spec:
  assumes look: "\<And>s. Lookup g (RollingHash s) s = Ok (s \<in> R)"
  shows "\<exists>res. Mph_Match g s = Ok res \<and> (res \<noteq> [] \<longleftrightarrow>
    (\<exists>d. CHR ''.'' # d \<in> R \<and> suffix (CHR ''.'' # d) s) \<or> s \<in> R \<or> (\<exists>ac. mp_ac g = Some ac \<and> AC_Match ac s)
    \<or> (\<exists>(m, i)\<in>set (mp_otherMatchers g). Matcher_Match m s))"
proof (cases "dotted R (rev s) []")
  case True
  have "RollingHash [] = 0"
    by (simp add: RollingHash_def)
  with True matchSuffixes_spec [OF look, of "rev s" "[]"] dotted_whole show ?thesis
    by (auto simp: Mph_Match_def)
next
  case False
  have "RollingHash [] = 0"
    by (simp add: RollingHash_def)
  with False matchSuffixes_spec [OF look, of "rev s" "[]"] have "matchSuffixes g (rev s) [] 0 = Ok (RollingHash s, False)"
    by simp
  then have eq: "Mph_Match g s = (if s \<in> R then Ok [1]
      else if (case mp_ac g of None \<Rightarrow> False | Some ac \<Rightarrow> AC_Match ac s) then Ok [1]
      else case find (\<lambda>(m, _). Matcher_Match m s) (mp_otherMatchers g) of Some (_, i) \<Rightarrow> Ok [i] | None \<Rightarrow> Ok [])"
    using look [of s] by (cases "s \<in> R") (simp_all add: Mph_Match_def)
  have "(case find (\<lambda>(m, _). Matcher_Match m s) xs of Some (_, i) \<Rightarrow> Ok [i] | None \<Rightarrow> Ok ([] :: uint32 list)) =
      Ok (case find (\<lambda>(m, _). Matcher_Match m s) xs of Some (_, i) \<Rightarrow> [i] | None \<Rightarrow> [])" for xs :: "(Matcher \<times> uint32) list"
    by (auto split: option.splits)
  moreover have "(case find (\<lambda>(m, _). Matcher_Match m s) xs of Some (_, i) \<Rightarrow> [i] | None \<Rightarrow> []) \<noteq> [] \<longleftrightarrow>
      (\<exists>(m, i)\<in>set xs. Matcher_Match m s)" for xs :: "(Matcher \<times> uint32) list"
    by (induction xs) auto
  ultimately show ?thesis
    using False unfolding eq dotted_whole [symmetric] by (auto split: option.splits if_splits)
qed

section \<open>The group against its matchers\<close>

text \<open>The matcher that a pattern stands for.\<close>

definition asMatcher :: "(string \<Rightarrow> string) \<Rightarrow> (string \<Rightarrow> (string \<Rightarrow> bool) result) \<Rightarrow> string \<Rightarrow> Type \<Rightarrow> Matcher result" where
  "asMatcher toLower compile p t = Type_New compile t (if t = Full \<or> t = Domain then toLower p else p)"

definition reference_match :: "(string \<Rightarrow> string) \<Rightarrow> (string \<Rightarrow> (string \<Rightarrow> bool) result) \<Rightarrow> (string \<times> Type) list \<Rightarrow> string \<Rightarrow> bool" where
  "reference_match toLower compile ps s \<longleftrightarrow>
     list_ex (\<lambda>(p, t). case asMatcher toLower compile p t of Inl _ \<Rightarrow> False | Inr m \<Rightarrow> Matcher_Match m s) ps"

text \<open>The hash table answers for the full and the domain patterns.\<close>

definition no_leading_dot :: "(string \<Rightarrow> string) \<Rightarrow> (string \<times> Type) list \<Rightarrow> bool" where
  "no_leading_dot toLower ps \<longleftrightarrow> list_all (\<lambda>(p, t). t = Full \<or> t = Domain \<longrightarrow> take 1 (toLower p) \<noteq> ''.'') ps"

lemma hashed_match:
  assumes "no_leading_dot toLower ps"
  shows "(\<exists>d. CHR ''.'' # d \<in> hashed toLower ps \<and> suffix (CHR ''.'' # d) s) \<or> s \<in> hashed toLower ps \<longleftrightarrow>
    (\<exists>p. (p, Full) \<in> set ps \<and> s = toLower p) \<or> (\<exists>p. (p, Domain) \<in> set ps \<and> domainMatch (toLower p) s)"
proof -
  have dot: "CHR ''.'' # d \<in> hashed toLower ps \<longleftrightarrow> (\<exists>p. (p, Domain) \<in> set ps \<and> d = toLower p)" for d
  proof -
    have "CHR ''.'' # d \<noteq> toLower p" if "(p, Full) \<in> set ps \<or> (p, Domain) \<in> set ps" for p
      using assms that by (cases "toLower p") (auto simp: no_leading_dot_def list_all_iff)
    then show ?thesis
      by (auto simp: hashed_def)
  qed
  have "s \<in> hashed toLower ps \<longleftrightarrow> (\<exists>p. (p, Full) \<in> set ps \<and> s = toLower p) \<or> (\<exists>p. (p, Domain) \<in> set ps \<and> s = toLower p)
      \<or> (\<exists>p. (p, Domain) \<in> set ps \<and> s = CHR ''.'' # toLower p)"
    by (auto simp: hashed_def)
  moreover have "suffix (CHR ''.'' # toLower p) s" if "s = CHR ''.'' # toLower p" for p
    using that by simp
  ultimately show ?thesis
    unfolding dot domainMatch_iff by blast
qed

definition accepts :: "(string \<Rightarrow> (string \<Rightarrow> bool) result) \<Rightarrow> string \<Rightarrow> string \<Rightarrow> bool" where
  "accepts compile p s = (case compile p of Inl _ \<Rightarrow> False | Inr r \<Rightarrow> r s)"

lemma regex_match:
  "(\<exists>(m, i)\<in>set (case compile p of Inl _ \<Rightarrow> [] | Inr r \<Rightarrow> [(regexMatcher r, 1 :: uint32)]). Matcher_Match m s) \<longleftrightarrow> accepts compile p s"
  by (cases "compile p") (simp_all add: accepts_def)

lemma regexes_Cons: "regexes compile ((p, t) # ps) =
    (if t = Regex then (case compile p of Inl _ \<Rightarrow> [] | Inr r \<Rightarrow> [(regexMatcher r, 1)]) else []) @ regexes compile ps"
  by (simp add: regexes_def)

lemma regexes_match: "(\<exists>(m, i)\<in>set (regexes compile ps). Matcher_Match m s) \<longleftrightarrow>
    (\<exists>p. (p, Regex) \<in> set ps \<and> accepts compile p s)"
proof (induction ps)
  case (Cons y ps)
  obtain p t where y: "y = (p, t)"
    by (cases y)
  have "(\<exists>q. (q, Regex) \<in> set (y # ps) \<and> accepts compile q s) \<longleftrightarrow>
      t = Regex \<and> accepts compile p s \<or> (\<exists>q. (q, Regex) \<in> set ps \<and> accepts compile q s)"
    by (auto simp: y)
  then show ?case
    unfolding y by (cases "t = Regex") (simp_all only: regexes_Cons if_True if_False set_append bex_Un regex_match Cons.IH list.set simp_thms bex_empty)
qed (simp add: regexes_def)

lemma substrings_set: "p \<in> set (substrings ps) \<longleftrightarrow> (p, Substr) \<in> set ps"
  by (force simp: substrings_def)

lemma ex_by_type: "(\<exists>p t. (p, t) \<in> S \<and> (t = Full \<and> A p \<or> t = Domain \<and> B p \<or> t = Substr \<and> C p \<or> t = Regex \<and> D p)) \<longleftrightarrow>
    (\<exists>p. (p, Full) \<in> S \<and> A p) \<or> (\<exists>p. (p, Domain) \<in> S \<and> B p) \<or> (\<exists>p. (p, Substr) \<in> S \<and> C p) \<or> (\<exists>p. (p, Regex) \<in> S \<and> D p)"
  by auto

lemma reference_match_iff: "reference_match toLower compile ps s \<longleftrightarrow>
    (\<exists>p. (p, Full) \<in> set ps \<and> s = toLower p) \<or> (\<exists>p. (p, Domain) \<in> set ps \<and> domainMatch (toLower p) s)
    \<or> (\<exists>p\<in>set (substrings ps). contains_str s p) \<or> (\<exists>p. (p, Regex) \<in> set ps \<and> accepts compile p s)"
proof -
  have m: "(case asMatcher toLower compile p t of Inl _ \<Rightarrow> False | Inr m \<Rightarrow> Matcher_Match m s) \<longleftrightarrow>
      t = Full \<and> s = toLower p \<or> t = Domain \<and> domainMatch (toLower p) s \<or> t = Substr \<and> contains_str s p
      \<or> t = Regex \<and> accepts compile p s" for p t
    by (cases t) (auto simp: asMatcher_def Type_New_def accepts_def split: sum.splits)
  have "list_ex (\<lambda>(p, t). Q p t) ps \<longleftrightarrow> (\<exists>p t. (p, t) \<in> set ps \<and> Q p t)" for Q
    by (auto simp: list_ex_iff)
  then show ?thesis
    unfolding reference_match_def m Bex_def substrings_set ex_by_type [symmetric] .
qed

text \<open>The automaton answers for the sub-string patterns.\<close>

lemma automaton_plain:
  assumes add: "addPatterns ps NewACAutomaton = Ok ac" and plain: "\<forall>p\<in>set ps. plain p" "plain s"
    and free: "\<forall>p\<in>set ps. \<forall>q\<in>set ps. contains_str q p \<longrightarrow> p = q"
  shows "\<exists>ac'. AC_Build ac = Some ac' \<and> (AC_Match ac' s \<longleftrightarrow> (\<exists>p\<in>set ps. contains_str s p))"
proof -
  have "\<forall>p\<in>set ps. indexable p" and s: "indexable s"
    using plain plain_indexable by blast+
  note exact = automaton_keys [OF this]
  have hit: "(\<exists>k\<in>ac_key ` set ps. sublist k (ac_key s)) \<longleftrightarrow> (\<exists>p\<in>set ps. contains_str s p)"
    using plain by (simp add: ac_key_sublist)
  have "\<forall>k\<in>ac_key ` set ps. \<forall>k'\<in>ac_key ` set ps. sublist k k' \<longrightarrow> k = k'"
    using plain free by (simp add: ac_key_sublist ac_key_inj)
  with exact add show ?thesis
    unfolding hit by auto
qed

text \<open>
  Examples: a group of three rules is built; without full and domain patterns the place holder of
  the table is a rule like any other and matches; a full pattern with a leading dot matches suffixes.
\<close>

definition built_match :: "(string \<times> Type) list \<Rightarrow> string \<Rightarrow> uint32 list result option" where
  "built_match ps s =
     (case addAllPatterns id (\<lambda>_. Err (ErrMsg ''regexp'')) ps NewMphMatcherGroup of
        Inl e \<Rightarrow> Some (Err e)
      | Inr g \<Rightarrow> (case Mph_Build id id g of
          None \<Rightarrow> None | Some (Inl e) \<Rightarrow> Some (Err e) | Some (Inr g') \<Rightarrow> Some (Mph_Match g' s)))"

lemma built_match_domain: "built_match [(''b.org'', Domain), (''x.y'', Full)] ''a.b.org'' = Some (Ok [1])"
  by code_simp

lemma placeholder_matches: "built_match [] ''empty___'' = Some (Ok [1])"
  by code_simp

lemma leading_dot_full: "built_match [(''.org'', Full)] ''b.org'' = Some (Ok [1])"
  by code_simp

text \<open>Sub-string patterns on which the automaton is exact.\<close>

definition exact_substrings :: "string list \<Rightarrow> bool" where
  "exact_substrings ps \<longleftrightarrow> list_all plain ps \<and> list_all (\<lambda>p. list_all (\<lambda>q. contains_str q p \<longrightarrow> p = q) ps) ps"

definition searchable :: "(string \<Rightarrow> string) \<Rightarrow> (string \<times> Type) list \<Rightarrow> string \<Rightarrow> bool" where
  "searchable toLower ps s \<longleftrightarrow> no_leading_dot toLower ps \<and> exact_substrings (substrings ps) \<and> plain s
     \<and> (s \<noteq> ''empty___'' \<or> list_ex (\<lambda>(p, t). t = Full \<or> t = Domain) ps)"

text \<open>The search for seeds does not end: some rules have no seed although the table has room.\<close>

definition search_diverges :: "string set \<Rightarrow> bool" where
  "search_diverges R \<longleftrightarrow> (\<exists>ss occ. set ss \<subseteq> R \<and> stuck (nextPow2 (card R)) (card R) ss occ)"

lemma length_rules: "rules_ok m \<Longrightarrow> length m = card (fst ` set m)"
  using distinct_card [of "map fst m"] by (simp add: rules_ok_def)

lemma Mph_Build_spec:
  assumes ranged: "\<And>xs. mset (ranged xs) = mset xs" and sorted: "\<And>bs. mset (sorted_by bs) = mset bs"
    and inv: "group_inv toLower compile ps g" and few: "length ps < 2 ^ 31"
    and subs: "exact_substrings (substrings ps)" "plain s"
  defines "R \<equiv> if hashed toLower ps = {} then {''empty___''} else hashed toLower ps"
  shows "(\<exists>g'. Mph_Build ranged sorted_by g = Some (Ok g') \<and> (\<forall>s. Lookup g' (RollingHash s) s = Ok (s \<in> R))
      \<and> mp_otherMatchers g' = regexes compile ps
      \<and> ((\<exists>ac. mp_ac g' = Some ac \<and> AC_Match ac s) \<longleftrightarrow> (\<exists>p\<in>set (substrings ps). contains_str s p)))
    \<or> Mph_Build ranged sorted_by g = None \<and> search_diverges R"
proof -
  obtain m where m: "mp_ruleMap g = Some m" "rules_ok m" "fst ` set m = hashed toLower ps" "length m \<le> 2 * length ps"
    using inv by (auto simp: group_inv_def)
  have R: "fst ` set (effective m) = R"
    using m(3) by (auto simp: effective_def R_def)
  have len: "length (effective m) = card R"
    using length_rules [OF rules_ok_effective [OF m(2)]] R by simp
  have "\<exists>a. (case mp_ac g of None \<Rightarrow> Some None | Some ac \<Rightarrow> map_option Some (AC_Build ac)) = Some a
      \<and> ((\<exists>ac. a = Some ac \<and> AC_Match ac s) \<longleftrightarrow> (\<exists>p\<in>set (substrings ps). contains_str s p))"
  proof (cases "substrings ps = []")
    case False
    then obtain ac where ac: "mp_ac g = Some ac" "addPatterns (substrings ps) NewACAutomaton = Ok ac"
      using inv by (auto simp: group_inv_def)
    with automaton_plain [OF ac(2) _ subs(2)] subs(1) show ?thesis
      by (auto simp: exact_substrings_def list_all_iff)
  qed (use inv in \<open>simp add: group_inv_def\<close>)
  then obtain a where a: "(case mp_ac g of None \<Rightarrow> Some None | Some ac \<Rightarrow> map_option Some (AC_Build ac)) = Some a"
      "(\<exists>ac. a = Some ac \<and> AC_Match ac s) \<longleftrightarrow> (\<exists>p\<in>set (substrings ps). contains_str s p)"
    by blast
  have build: "Mph_Build ranged sorted_by g = map_option Ok (buildTable ranged sorted_by m (g\<lparr>mp_ac := a\<rparr>))"
    by (simp add: Mph_Build_def a(1) m(1))
  have "length m < 2 ^ 32" "mp_rules (g\<lparr>mp_ac := a\<rparr>) = []" "mp_otherMatchers (g\<lparr>mp_ac := a\<rparr>) = regexes compile ps"
    using m(4) few inv by (simp_all add: group_inv_def)
  with buildTable_spec [OF ranged sorted m(2), of "g\<lparr>mp_ac := a\<rparr>"] a(2) show ?thesis
    unfolding build R len search_diverges_def by (cases "buildTable ranged sorted_by m (g\<lparr>mp_ac := a\<rparr>)") auto
qed

lemma group_match_exact:
  assumes ranged: "\<And>xs. mset (ranged xs) = mset xs" and sorted: "\<And>bs. mset (sorted_by bs) = mset bs"
    and inv: "group_inv toLower compile ps g" and few: "length ps < 2 ^ 31" and s: "searchable toLower ps s"
  shows "(\<exists>g' res. Mph_Build ranged sorted_by g = Some (Ok g') \<and> Mph_Match g' s = Ok res
      \<and> (res \<noteq> [] \<longleftrightarrow> reference_match toLower compile ps s))
    \<or> Mph_Build ranged sorted_by g = None
      \<and> search_diverges (if hashed toLower ps = {} then {''empty___''} else hashed toLower ps)"
proof -
  let ?R = "if hashed toLower ps = {} then {''empty___''} else hashed toLower ps"
  have c: "no_leading_dot toLower ps" "exact_substrings (substrings ps)" "plain s"
    using s by (simp_all add: searchable_def)
  have R: "(\<exists>d. CHR ''.'' # d \<in> ?R \<and> suffix (CHR ''.'' # d) s) \<or> s \<in> ?R \<longleftrightarrow>
      (\<exists>p. (p, Full) \<in> set ps \<and> s = toLower p) \<or> (\<exists>p. (p, Domain) \<in> set ps \<and> domainMatch (toLower p) s)"
  proof (cases "hashed toLower ps = {}")
    case True
    then have "\<not> (p, Full) \<in> set ps" "\<not> (p, Domain) \<in> set ps" for p
      by (auto simp: hashed_def)
    with True s show ?thesis
      by (auto simp: searchable_def list_ex_iff)
  next
    case False
    then show ?thesis
      using hashed_match [OF c(1)] by simp
  qed
  consider g' where "Mph_Build ranged sorted_by g = Some (Ok g')" "\<And>s. Lookup g' (RollingHash s) s = Ok (s \<in> ?R)"
      "mp_otherMatchers g' = regexes compile ps"
      "(\<exists>ac. mp_ac g' = Some ac \<and> AC_Match ac s) \<longleftrightarrow> (\<exists>p\<in>set (substrings ps). contains_str s p)"
    | "Mph_Build ranged sorted_by g = None" "search_diverges ?R"
    using Mph_Build_spec [OF ranged sorted inv few c(2,3)] by (elim disjE exE conjE) blast+
  then show ?thesis
  proof cases
    case 1
    have "\<exists>res. Mph_Match g' s = Ok res \<and> (res \<noteq> [] \<longleftrightarrow> reference_match toLower compile ps s)"
      using Mph_Match_spec [OF 1(2), of s] R
      unfolding reference_match_iff 1(3,4) regexes_match by (simp only: disj_assoc [symmetric])
    with 1(1) show ?thesis
      by blast
  qed blast
qed

section \<open>Properties\<close>

text \<open>
  C33. The matcher group of the router answers as its patterns one by one. Let the full and domain patterns have no
  leading dot, the sub-string patterns be plain lower-case text and not contain each other, and the
  text be plain and not the placeholder \<open>empty___\<close> of a group without full and domain patterns. Then building the group
  ends with a table in which a text matches exactly when a full, domain, sub-string or regular
  expression pattern matches it, whatever the order in which Go ranges over the map and sorts the
  buckets; the only alternative is that the build does not end, as some rules find no seed although the table has room for them.
\<close>

theorem mph_matches_reference:
  assumes "\<forall>xs. mset (ranged xs) = mset xs" and "\<forall>bs. mset (sorted_by bs) = mset bs"
    and "addAllPatterns toLower compile ps NewMphMatcherGroup = Ok g" and "length ps < 2 ^ 31"
    and "searchable toLower ps s"
  shows "(\<exists>g' res. Mph_Build ranged sorted_by g = Some (Ok g') \<and> Mph_Match g' s = Ok res
      \<and> (res \<noteq> [] \<longleftrightarrow> reference_match toLower compile ps s))
    \<or> Mph_Build ranged sorted_by g = None
      \<and> search_diverges (if hashed toLower ps = {} then {''empty___''} else hashed toLower ps)"
  using addAllPatterns_inv [OF group_inv_New assms(3)] assms(1,2,4,5) by (intro group_match_exact) simp_all

theorem mph_matches_reference_witness:
  "\<exists>g. addAllPatterns id (\<lambda>_. Err (ErrMsg ''regexp'')) [(''b.org'', Domain), (''track'', Substr)] NewMphMatcherGroup = Ok g \<and>
    ((\<exists>g' res. Mph_Build id id g = Some (Ok g') \<and> Mph_Match g' ''a.b.org'' = Ok res
      \<and> (res \<noteq> [] \<longleftrightarrow> reference_match id (\<lambda>_. Err (ErrMsg ''regexp'')) [(''b.org'', Domain), (''track'', Substr)] ''a.b.org''))
     \<or> Mph_Build id id g = None \<and> search_diverges {''b.org'', ''.b.org''})"
proof -
  let ?ps = "[(''b.org'', Domain), (''track'', Substr)]" and ?c = "\<lambda>_ :: string. Err (ErrMsg ''regexp'') :: (string \<Rightarrow> bool) result"
  have "\<not> isl (addAllPatterns id ?c ?ps NewMphMatcherGroup)"
    by code_simp
  then obtain g where g: "addAllPatterns id ?c ?ps NewMphMatcherGroup = Ok g"
    by (cases "addAllPatterns id ?c ?ps NewMphMatcherGroup") auto
  have "searchable id ?ps ''a.b.org''"
    by code_simp
  moreover have "hashed id ?ps = {''b.org'', ''.b.org''}"
    by (auto simp: hashed_def)
  ultimately show ?thesis
    using mph_matches_reference [of id id id ?c ?ps g "''a.b.org''"] g by auto
qed

end
