(* ===== verification/Router_GeoIP.thy ===== *)
theory Router_GeoIP
  imports Net_Address "HOL-Library.AList" "HOL-Library.Multiset" "HOL-Library.Sublist"
begin

text \<open>
  Matching of IP addresses against sets of prefixes: \<open>app/router/condition_geoip.go\<close>.

  \<open>net.IP\<close> is a byte list of any length, \<open>netip.Addr\<close> a datatype (the zero \<open>Addr\<close>, which is not
  valid, is \<^const>\<open>None\<close>). The module \<open>go4.org/netipx\<close> is not part of the repository: its
  \<open>FromStdIP\<close>, \<open>IPSet\<close> and \<open>IPSetBuilder\<close> are the fields of the record \<open>netipx\<close>, an argument of the
  definitions, and \<open>netipx_ok\<close> is what its documentation promises. Maps are association lists; the
  order in which Go ranges over one is an argument where the result depends on it.
\<close>

section \<open>Addresses\<close>

datatype Addr = Addr4 bytes | Addr6 bytes

fun Is4 :: "Addr \<Rightarrow> bool" where
  "Is4 (Addr4 _) = True"
| "Is4 (Addr6 _) = False"

text \<open>\<open>netip.AddrFromSlice\<close>, and prefixes as \<open>netip.PrefixFrom\<close> makes them.\<close>

definition AddrFromSlice :: "bytes \<Rightarrow> Addr option" where
  "AddrFromSlice bs = (if length bs = 4 then Some (Addr4 bs) else if length bs = 16 then Some (Addr6 bs) else None)"

definition BitLen :: "Addr \<Rightarrow> nat" where
  "BitLen a = (if Is4 a then 32 else 128)"

text \<open>The prefixes of a set and what they contain, bit by bit.\<close>

definition byte_bits :: "byte \<Rightarrow> bool list" where
  "byte_bits b = map (bit b) (rev [0..<8])"

definition addr_bits :: "bytes \<Rightarrow> bool list" where
  "addr_bits bs = concat (map byte_bits bs)"

fun prefix_has :: "Addr \<times> nat \<Rightarrow> Addr \<Rightarrow> bool" where
  "prefix_has (Addr4 p, b) (Addr4 a) \<longleftrightarrow> take b (addr_bits p) = take b (addr_bits a)"
| "prefix_has (Addr6 p, b) (Addr6 a) \<longleftrightarrow> take b (addr_bits p) = take b (addr_bits a)"
| "prefix_has _ _ \<longleftrightarrow> False"

record 's netipx =
  FromStdIP :: "bytes \<Rightarrow> Addr option"
  IPSet_Contains :: "'s \<Rightarrow> Addr \<Rightarrow> bool"
  IPSet_Prefixes :: "'s \<Rightarrow> (Addr \<times> nat) list"
  IPSetBuilder :: "(Addr \<times> nat) list \<Rightarrow> 's result"

text \<open>
  What \<open>netipx\<close> documents: \<open>FromStdIP\<close> unmaps IPv4-mapped addresses and refuses what is not an
  address; a set contains the addresses of its prefixes, which are no longer than their addresses; the
  builder makes the set of the prefixes added, unless one of them is invalid.
\<close>

definition valid_prefixes :: "(Addr \<times> nat) list \<Rightarrow> bool" where
  "valid_prefixes ps \<longleftrightarrow> (\<forall>(p, b)\<in>set ps. b \<le> BitLen p)"

definition netipx_ok :: "'s netipx \<Rightarrow> bool" where
  "netipx_ok nx \<longleftrightarrow>
     (\<forall>ip. FromStdIP nx ip = (case To4 ip of Some a \<Rightarrow> Some (Addr4 a)
        | None \<Rightarrow> map_option Addr6 (To16 ip)))
     \<and> (\<forall>s a. IPSet_Contains nx s a \<longleftrightarrow> (\<exists>p\<in>set (IPSet_Prefixes nx s). prefix_has p a))
     \<and> (\<forall>s. valid_prefixes (IPSet_Prefixes nx s))
     \<and> (\<forall>ps. valid_prefixes ps \<longrightarrow>
          (\<exists>s. IPSetBuilder nx ps = Ok s \<and> (\<forall>a. IPSet_Contains nx s a \<longleftrightarrow> (\<exists>p\<in>set ps. prefix_has p a))))"

section \<open>One set\<close>

record 's GeoIPSet =
  gs_ipv4 :: 's
  gs_ipv6 :: 's
  gs_max4 :: byte
  gs_max6 :: byte

record 's HeuristicGeoIPMatcher =
  hm_ipset :: "'s GeoIPSet"
  hm_reverse :: bool

record ipBucket =
  bucket_rep :: Addr
  bucket_ips :: "bytes list"

fun matchAddr :: "'s netipx \<Rightarrow> 's HeuristicGeoIPMatcher \<Rightarrow> Addr \<Rightarrow> bool" where
  "matchAddr nx m (Addr4 a) \<longleftrightarrow> IPSet_Contains nx (gs_ipv4 (hm_ipset m)) (Addr4 a) \<noteq> hm_reverse m"
| "matchAddr nx m (Addr6 a) \<longleftrightarrow> IPSet_Contains nx (gs_ipv6 (hm_ipset m)) (Addr6 a) \<noteq> hm_reverse m"

definition H_Match :: "'s netipx \<Rightarrow> 's HeuristicGeoIPMatcher \<Rightarrow> bytes \<Rightarrow> bool" where
  "H_Match nx m ip = (case FromStdIP nx ip of None \<Rightarrow> False | Some ipx \<Rightarrow> matchAddr nx m ipx)"

abbreviation heur4 :: "'s HeuristicGeoIPMatcher \<Rightarrow> bool" where "heur4 m \<equiv> gs_max4 (hm_ipset m) \<le> 24"
abbreviation heur6 :: "'s HeuristicGeoIPMatcher \<Rightarrow> bool" where "heur6 m \<equiv> gs_max6 (hm_ipset m) \<le> 64"

definition prefixKeyFromIP :: "bytes \<Rightarrow> bytes option" where
  "prefixKeyFromIP ip =
     (case To4 ip of
        Some ip4 \<Rightarrow> Some ([4, ip4 ! 0, ip4 ! 1, ip4 ! 2] @ replicate 5 0)
      | None \<Rightarrow> (case To16 ip of Some ip16 \<Rightarrow> Some (6 # take 8 ip16) | None \<Rightarrow> None))"

text \<open>Whether the heuristic applies to the family of a key.\<close>

definition coarse :: "'s HeuristicGeoIPMatcher \<Rightarrow> bytes \<Rightarrow> bool" where
  "coarse m key \<longleftrightarrow> key ! 0 = 4 \<and> heur4 m \<or> key ! 0 = 6 \<and> heur6 m"

fun anyPrecise :: "'s netipx \<Rightarrow> 's HeuristicGeoIPMatcher \<Rightarrow> bytes list \<Rightarrow> bool" where
  "anyPrecise nx m [] = False"
| "anyPrecise nx m (ip # ips) =
     (case FromStdIP nx ip of
        Some ipx \<Rightarrow> if matchAddr nx m ipx then True else anyPrecise nx m ips
      | None \<Rightarrow> anyPrecise nx m ips)"

fun anyBuckets :: "'s netipx \<Rightarrow> 's HeuristicGeoIPMatcher \<Rightarrow> bytes list \<Rightarrow> bytes list \<Rightarrow> bool" where
  "anyBuckets nx m [] buckets = False"
| "anyBuckets nx m (ip # ips) buckets =
     (case prefixKeyFromIP ip of
        None \<Rightarrow> anyBuckets nx m ips buckets
      | Some key \<Rightarrow>
          (if coarse m key \<and> key \<in> set buckets then anyBuckets nx m ips buckets
           else case FromStdIP nx ip of
             None \<Rightarrow> anyBuckets nx m ips buckets
           | Some ipx \<Rightarrow>
               (if matchAddr nx m ipx then True
                else anyBuckets nx m ips (if coarse m key then key # buckets else buckets))))"

definition H_AnyMatch :: "'s netipx \<Rightarrow> 's HeuristicGeoIPMatcher \<Rightarrow> bytes list \<Rightarrow> bool" where
  "H_AnyMatch nx m ips =
     (if length ips = 0 then False
      else if length ips = 1 then H_Match nx m (ips ! 0)
      else if \<not> heur4 m \<and> \<not> heur6 m then anyPrecise nx m ips
      else anyBuckets nx m ips [])"

fun allPrecise :: "'s netipx \<Rightarrow> 's HeuristicGeoIPMatcher \<Rightarrow> bytes list \<Rightarrow> bool" where
  "allPrecise nx m [] = True"
| "allPrecise nx m (ip # ips) =
     (case FromStdIP nx ip of
        None \<Rightarrow> False
      | Some ipx \<Rightarrow> if \<not> matchAddr nx m ipx then False else allPrecise nx m ips)"

fun collect :: "'s netipx \<Rightarrow> 's HeuristicGeoIPMatcher \<Rightarrow> bytes list \<Rightarrow> (bytes \<times> Addr) list \<Rightarrow> Addr list
    \<Rightarrow> ((bytes \<times> Addr) list \<times> Addr list) option" where
  "collect nx m [] buckets precise = Some (buckets, precise)"
| "collect nx m (ip # ips) buckets precise =
     (case prefixKeyFromIP ip of
        None \<Rightarrow> None
      | Some key \<Rightarrow>
          if coarse m key then
            (if map_of buckets key = None then
               (case FromStdIP nx ip of
                  None \<Rightarrow> None
                | Some ipx \<Rightarrow> collect nx m ips (AList.update key ipx buckets) precise)
             else collect nx m ips buckets precise)
          else
            (case FromStdIP nx ip of
               None \<Rightarrow> None
             | Some ipx \<Rightarrow> collect nx m ips buckets (precise @ [ipx])))"

definition H_Matches :: "'s netipx \<Rightarrow> 's HeuristicGeoIPMatcher \<Rightarrow> bytes list \<Rightarrow> bool" where
  "H_Matches nx m ips =
     (if length ips = 0 then False
      else if length ips = 1 then H_Match nx m (ips ! 0)
      else if \<not> heur4 m \<and> \<not> heur6 m then allPrecise nx m ips
      else case collect nx m ips [] [] of
             None \<Rightarrow> False
           | Some (buckets, precise) \<Rightarrow>
               list_all (\<lambda>(_, ipx). matchAddr nx m ipx) buckets \<and> list_all (matchAddr nx m) precise)"

text \<open>\<open>FilterIPs\<close>: the pair is \<open>matched\<close> and \<open>unmatched\<close>.\<close>

fun filterPrecise :: "'s netipx \<Rightarrow> 's HeuristicGeoIPMatcher \<Rightarrow> bytes list \<Rightarrow> bytes list \<times> bytes list
    \<Rightarrow> bytes list \<times> bytes list" where
  "filterPrecise nx m [] r = r"
| "filterPrecise nx m (ip # ips) r =
     (case FromStdIP nx ip of
        None \<Rightarrow> filterPrecise nx m ips r
      | Some ipx \<Rightarrow> filterPrecise nx m ips
          (if matchAddr nx m ipx then (fst r @ [ip], snd r) else (fst r, snd r @ [ip])))"

fun filterBuckets :: "'s netipx \<Rightarrow> 's HeuristicGeoIPMatcher \<Rightarrow> bytes list \<Rightarrow> (bytes \<times> ipBucket) list \<Rightarrow> bytes list
    \<Rightarrow> (bytes \<times> ipBucket) list \<times> bytes list" where
  "filterBuckets nx m [] buckets precise = (buckets, precise)"
| "filterBuckets nx m (ip # ips) buckets precise =
     (case prefixKeyFromIP ip of
        None \<Rightarrow> filterBuckets nx m ips buckets precise
      | Some key \<Rightarrow>
          if key ! 0 = 4 \<and> \<not> heur4 m \<or> key ! 0 = 6 \<and> \<not> heur6 m then filterBuckets nx m ips buckets (precise @ [ip])
          else case map_of buckets key of
            Some b \<Rightarrow> filterBuckets nx m ips (AList.update key (b\<lparr>bucket_ips := bucket_ips b @ [ip]\<rparr>) buckets) precise
          | None \<Rightarrow>
              (case FromStdIP nx ip of
                 None \<Rightarrow> filterBuckets nx m ips buckets precise
               | Some ipx \<Rightarrow> filterBuckets nx m ips
                   (AList.update key \<lparr>bucket_rep = ipx, bucket_ips = [ip]\<rparr> buckets) precise))"

definition H_FilterIPs :: "((bytes \<times> ipBucket) list \<Rightarrow> (bytes \<times> ipBucket) list) \<Rightarrow> 's netipx
    \<Rightarrow> 's HeuristicGeoIPMatcher \<Rightarrow> bytes list \<Rightarrow> bytes list \<times> bytes list" where
  "H_FilterIPs ranged nx m ips =
     (if length ips = 0 then ([], [])
      else if length ips = 1 then
        (case FromStdIP nx (ips ! 0) of
           None \<Rightarrow> ([], [])
         | Some ipx \<Rightarrow> if matchAddr nx m ipx then (ips, []) else ([], ips))
      else if \<not> heur4 m \<and> \<not> heur6 m then filterPrecise nx m ips ([], [])
      else
        (let (buckets, precise) = filterBuckets nx m ips [] [];
             r = foldl (\<lambda>r (_, b). if matchAddr nx m (bucket_rep b) then (fst r @ bucket_ips b, snd r)
                   else (fst r, snd r @ bucket_ips b)) ([], []) (ranged buckets) in
         filterPrecise nx m precise r))"

definition H_ToggleReverse :: "'s HeuristicGeoIPMatcher \<Rightarrow> 's HeuristicGeoIPMatcher" where
  "H_ToggleReverse m = m\<lparr>hm_reverse := \<not> hm_reverse m\<rparr>"

definition H_SetReverse :: "bool \<Rightarrow> 's HeuristicGeoIPMatcher \<Rightarrow> 's HeuristicGeoIPMatcher" where
  "H_SetReverse reverse m = m\<lparr>hm_reverse := reverse\<rparr>"

section \<open>Several sets\<close>

type_synonym 's HeuristicMultiGeoIPMatcher = "'s HeuristicGeoIPMatcher list"

definition HM_Match :: "'s netipx \<Rightarrow> 's HeuristicMultiGeoIPMatcher \<Rightarrow> bytes \<Rightarrow> bool" where
  "HM_Match nx mm ip = (case FromStdIP nx ip of None \<Rightarrow> False | Some ipx \<Rightarrow> list_ex (\<lambda>m. matchAddr nx m ipx) mm)"

text \<open>
  The inner loop of \<open>AnyMatch\<close> over the matchers for one address: \<open>state\<close> and \<open>ipx\<close> are its variables;
  the result is whether it returns true, and the keys seen.
\<close>

fun anyMatchers :: "'s netipx \<Rightarrow> bytes \<Rightarrow> 's HeuristicGeoIPMatcher list \<Rightarrow> byte \<Rightarrow> Addr option \<Rightarrow> bytes list
    \<Rightarrow> bool \<times> bytes list" where
  "anyMatchers nx ip [] state ipx buckets = (False, buckets)"
| "anyMatchers nx ip (m # mm) state ipx buckets =
     (let after = (\<lambda>state buckets.
        if heur4 m \<and> state = 4 \<or> heur6 m \<and> state = 6 then anyMatchers nx ip mm state ipx buckets
        else case (if ipx = None then FromStdIP nx ip else ipx) of
          None \<Rightarrow> (False, buckets)
        | Some a \<Rightarrow> if matchAddr nx m a then (True, buckets) else anyMatchers nx ip mm state (Some a) buckets) in
      if state = 0 \<and> (heur4 m \<or> heur6 m) then
        (case prefixKeyFromIP ip of
           None \<Rightarrow> (False, buckets)
         | Some key \<Rightarrow> if key \<in> set buckets then after (key ! 0) buckets else after 1 (key # buckets))
      else after state buckets)"

fun anyMulti :: "'s netipx \<Rightarrow> 's HeuristicMultiGeoIPMatcher \<Rightarrow> bytes list \<Rightarrow> bytes list \<Rightarrow> bool" where
  "anyMulti nx mm [] buckets = False"
| "anyMulti nx mm (ip # ips) buckets =
     (let (hit, buckets') = anyMatchers nx ip mm 0 None buckets in
      if hit then True else anyMulti nx mm ips buckets')"

definition HM_AnyMatch :: "'s netipx \<Rightarrow> 's HeuristicMultiGeoIPMatcher \<Rightarrow> bytes list \<Rightarrow> bool" where
  "HM_AnyMatch nx mm ips =
     (if length ips = 0 then False
      else if length ips = 1 then HM_Match nx mm (ips ! 0)
      else anyMulti nx mm ips [])"

text \<open>The views of the addresses that \<open>Matches\<close> prepares; a nil map or slice is \<^const>\<open>None\<close>.\<close>

record ipViews =
  iv_buckets4 :: "(bytes \<times> Addr) list option"
  iv_buckets6 :: "(bytes \<times> Addr) list option"
  iv_precise4 :: "Addr list option"
  iv_precise6 :: "Addr list option"

text \<open>What the loop of \<open>ensureForMatcher\<close> does with an address of one family.\<close>

definition viewStep :: "'s netipx \<Rightarrow> bool \<Rightarrow> bool \<Rightarrow> bytes \<Rightarrow> bytes \<Rightarrow> (bytes \<times> Addr) list option \<times> Addr list option
    \<Rightarrow> ((bytes \<times> Addr) list option \<times> Addr list option) option" where
  "viewStep nx needHeur needPrec ip key st =
     (let (buckets, precise) = st;
          first = (if needHeur \<and> map_of (the buckets) key = None then
                     (case FromStdIP nx ip of
                        None \<Rightarrow> None
                      | Some ipx \<Rightarrow> Some (Some (AList.update key ipx (the buckets)), Some ipx))
                   else Some (buckets, None)) in
      case first of
        None \<Rightarrow> None
      | Some (buckets', ipx) \<Rightarrow>
          if needPrec then
            (case (if ipx = None then FromStdIP nx ip else ipx) of
               None \<Rightarrow> None
             | Some a \<Rightarrow> Some (buckets', Some (the precise @ [a])))
          else Some (buckets', precise))"

fun viewLoop :: "'s netipx \<Rightarrow> bool \<Rightarrow> bool \<Rightarrow> bool \<Rightarrow> bool \<Rightarrow> bytes list \<Rightarrow> ipViews \<Rightarrow> ipViews option" where
  "viewLoop nx needHeur4 needHeur6 needPrec4 needPrec6 [] v = Some v"
| "viewLoop nx needHeur4 needHeur6 needPrec4 needPrec6 (ip # ips) v =
     (case prefixKeyFromIP ip of
        None \<Rightarrow> None
      | Some key \<Rightarrow>
          if key ! 0 = 4 then
            (case viewStep nx needHeur4 needPrec4 ip key (iv_buckets4 v, iv_precise4 v) of
               None \<Rightarrow> None
             | Some (b, p) \<Rightarrow> viewLoop nx needHeur4 needHeur6 needPrec4 needPrec6 ips
                 (v\<lparr>iv_buckets4 := b, iv_precise4 := p\<rparr>))
          else if key ! 0 = 6 then
            (case viewStep nx needHeur6 needPrec6 ip key (iv_buckets6 v, iv_precise6 v) of
               None \<Rightarrow> None
             | Some (b, p) \<Rightarrow> viewLoop nx needHeur4 needHeur6 needPrec4 needPrec6 ips
                 (v\<lparr>iv_buckets6 := b, iv_precise6 := p\<rparr>))
          else None)"

definition ensureForMatcher :: "'s netipx \<Rightarrow> 's HeuristicGeoIPMatcher \<Rightarrow> bytes list \<Rightarrow> ipViews \<Rightarrow> ipViews option" where
  "ensureForMatcher nx m ips v =
     (let needHeur4 = (heur4 m \<and> iv_buckets4 v = None); needHeur6 = (heur6 m \<and> iv_buckets6 v = None);
          needPrec4 = (\<not> heur4 m \<and> iv_precise4 v = None); needPrec6 = (\<not> heur6 m \<and> iv_precise6 v = None) in
      if \<not> needHeur4 \<and> \<not> needHeur6 \<and> \<not> needPrec4 \<and> \<not> needPrec6 then Some v
      else
        (let v1 = (if needHeur4 then v\<lparr>iv_buckets4 := Some []\<rparr> else v);
             v2 = (if needHeur6 then v1\<lparr>iv_buckets6 := Some []\<rparr> else v1);
             v3 = (if needPrec4 then v2\<lparr>iv_precise4 := Some []\<rparr> else v2);
             v4 = (if needPrec6 then v3\<lparr>iv_precise6 := Some []\<rparr> else v3) in
         viewLoop nx needHeur4 needHeur6 needPrec4 needPrec6 ips v4))"

definition viewMatches :: "'s netipx \<Rightarrow> 's HeuristicGeoIPMatcher \<Rightarrow> ipViews \<Rightarrow> bool" where
  "viewMatches nx m v \<longleftrightarrow>
     (if heur4 m then list_all (\<lambda>(_, ipx). matchAddr nx m ipx) (the (iv_buckets4 v))
      else list_all (matchAddr nx m) (the (iv_precise4 v)))
     \<and> (if heur6 m then list_all (\<lambda>(_, ipx). matchAddr nx m ipx) (the (iv_buckets6 v))
        else list_all (matchAddr nx m) (the (iv_precise6 v)))"

fun matchesMulti :: "'s netipx \<Rightarrow> 's HeuristicMultiGeoIPMatcher \<Rightarrow> bytes list \<Rightarrow> ipViews \<Rightarrow> bool" where
  "matchesMulti nx [] ips v = False"
| "matchesMulti nx (m # mm) ips v =
     (case ensureForMatcher nx m ips v of
        None \<Rightarrow> False
      | Some v' \<Rightarrow> if viewMatches nx m v' then True else matchesMulti nx mm ips v')"

definition noViews :: ipViews where
  "noViews = \<lparr>iv_buckets4 = None, iv_buckets6 = None, iv_precise4 = None, iv_precise6 = None\<rparr>"

definition HM_Matches :: "'s netipx \<Rightarrow> 's HeuristicMultiGeoIPMatcher \<Rightarrow> bytes list \<Rightarrow> bool" where
  "HM_Matches nx mm ips =
     (if length ips = 0 then False
      else if length ips = 1 then HM_Match nx mm (ips ! 0)
      else matchesMulti nx mm ips noViews)"

text \<open>The views of \<open>FilterIPs\<close>; a nil entry is \<^const>\<open>None\<close>.\<close>

record ipBucketViews =
  bv_buckets4 :: "(bytes \<times> ipBucket option) list option"
  bv_buckets6 :: "(bytes \<times> ipBucket option) list option"
  bv_precise4 :: "(Addr \<times> bytes option) list option"
  bv_precise6 :: "(Addr \<times> bytes option) list option"

definition bucketStep :: "'s netipx \<Rightarrow> bool \<Rightarrow> bool \<Rightarrow> bytes \<Rightarrow> bytes
    \<Rightarrow> (bytes \<times> ipBucket option) list option \<times> (Addr \<times> bytes option) list option
    \<Rightarrow> (bytes \<times> ipBucket option) list option \<times> (Addr \<times> bytes option) list option" where
  "bucketStep nx needHeur needPrec ip key st =
     (let (buckets, precise) = st;
          first = (if needHeur then
                     (case map_of (the buckets) key of
                        Some b \<Rightarrow> Some (Some (AList.update key
                          (map_option (\<lambda>b. b\<lparr>bucket_ips := bucket_ips b @ [ip]\<rparr>) b) (the buckets)), None)
                      | None \<Rightarrow>
                          (case FromStdIP nx ip of
                             None \<Rightarrow> None
                           | Some ipx \<Rightarrow> Some (Some (AList.update key (Some \<lparr>bucket_rep = ipx, bucket_ips = [ip]\<rparr>)
                               (the buckets)), Some ipx)))
                   else Some (buckets, None)) in
      case first of
        None \<Rightarrow> st
      | Some (buckets', ipx) \<Rightarrow>
          if needPrec then
            (case (if ipx = None then FromStdIP nx ip else ipx) of
               None \<Rightarrow> (buckets', precise)
             | Some a \<Rightarrow> (buckets', Some (AList.update a (Some ip) (the precise))))
          else (buckets', precise))"

fun bucketLoop :: "'s netipx \<Rightarrow> bool \<Rightarrow> bool \<Rightarrow> bool \<Rightarrow> bool \<Rightarrow> bytes list \<Rightarrow> ipBucketViews \<Rightarrow> ipBucketViews" where
  "bucketLoop nx needHeur4 needHeur6 needPrec4 needPrec6 [] v = v"
| "bucketLoop nx needHeur4 needHeur6 needPrec4 needPrec6 (ip # ips) v =
     bucketLoop nx needHeur4 needHeur6 needPrec4 needPrec6 ips
       (case prefixKeyFromIP ip of
          None \<Rightarrow> v
        | Some key \<Rightarrow>
            if key ! 0 = 4 then
              (let (b, p) = bucketStep nx needHeur4 needPrec4 ip key (bv_buckets4 v, bv_precise4 v) in
               v\<lparr>bv_buckets4 := b, bv_precise4 := p\<rparr>)
            else if key ! 0 = 6 then
              (let (b, p) = bucketStep nx needHeur6 needPrec6 ip key (bv_buckets6 v, bv_precise6 v) in
               v\<lparr>bv_buckets6 := b, bv_precise6 := p\<rparr>)
            else v)"

definition ensureBuckets :: "'s netipx \<Rightarrow> 's HeuristicGeoIPMatcher \<Rightarrow> bytes list \<Rightarrow> ipBucketViews \<Rightarrow> ipBucketViews" where
  "ensureBuckets nx m ips v =
     (let needHeur4 = (heur4 m \<and> bv_buckets4 v = None); needHeur6 = (heur6 m \<and> bv_buckets6 v = None);
          needPrec4 = (\<not> heur4 m \<and> bv_precise4 v = None); needPrec6 = (\<not> heur6 m \<and> bv_precise6 v = None) in
      if \<not> needHeur4 \<and> \<not> needHeur6 \<and> \<not> needPrec4 \<and> \<not> needPrec6 then v
      else
        (let v1 = (if needHeur4 then v\<lparr>bv_buckets4 := Some []\<rparr> else v);
             v2 = (if needHeur6 then v1\<lparr>bv_buckets6 := Some []\<rparr> else v1);
             v3 = (if needPrec4 then v2\<lparr>bv_precise4 := Some []\<rparr> else v2);
             v4 = (if needPrec6 then v3\<lparr>bv_precise6 := Some []\<rparr> else v3) in
         bucketLoop nx needHeur4 needHeur6 needPrec4 needPrec6 ips v4))"

text \<open>Ranging over a view: entries that match are handed out and set to nil.\<close>

definition takeMatched :: "(('k \<times> 'v option) list \<Rightarrow> ('k \<times> 'v option) list) \<Rightarrow> ('k \<Rightarrow> 'v \<Rightarrow> bool) \<Rightarrow> ('v \<Rightarrow> bytes list)
    \<Rightarrow> ('k \<times> 'v option) list \<Rightarrow> bytes list \<times> ('k \<times> 'v option) list" where
  "takeMatched ranged hit out es =
     (concat (map (\<lambda>(k, v). case v of None \<Rightarrow> [] | Some b \<Rightarrow> if hit k b then out b else []) (ranged es)),
      map (\<lambda>(k, v). (k, case v of None \<Rightarrow> None | Some b \<Rightarrow> if hit k b then None else Some b)) es)"

definition leftOver :: "(('k \<times> 'v option) list \<Rightarrow> ('k \<times> 'v option) list) \<Rightarrow> ('v \<Rightarrow> bytes list)
    \<Rightarrow> ('k \<times> 'v option) list option \<Rightarrow> bytes list" where
  "leftOver ranged out es =
     (case es of None \<Rightarrow> []
      | Some es \<Rightarrow> concat (map (\<lambda>(_, v). case v of None \<Rightarrow> [] | Some b \<Rightarrow> out b) (ranged es)))"

text \<open>The orders in which Go ranges over the maps.\<close>

record range_order =
  range_buckets :: "(bytes \<times> ipBucket option) list \<Rightarrow> (bytes \<times> ipBucket option) list"
  range_precise :: "(Addr \<times> bytes option) list \<Rightarrow> (Addr \<times> bytes option) list"
  range_single :: "(bytes \<times> ipBucket) list \<Rightarrow> (bytes \<times> ipBucket) list"

definition filterStep :: "range_order \<Rightarrow> 's netipx \<Rightarrow> 's HeuristicGeoIPMatcher \<Rightarrow> bytes list \<Rightarrow> ipBucketViews \<times> bytes list
    \<Rightarrow> ipBucketViews \<times> bytes list" where
  "filterStep ro nx m ips st =
     (let v = ensureBuckets nx m ips (fst st);
          (m4, v4) = (if heur4 m
             then let (mt, b) = takeMatched (range_buckets ro) (\<lambda>_ b. matchAddr nx m (bucket_rep b)) bucket_ips (the (bv_buckets4 v))
                  in (mt, v\<lparr>bv_buckets4 := Some b\<rparr>)
             else let (mt, b) = takeMatched (range_precise ro) (\<lambda>ipx _. matchAddr nx m ipx) (\<lambda>ip. [ip]) (the (bv_precise4 v))
                  in (mt, v\<lparr>bv_precise4 := Some b\<rparr>));
          (m6, v6) = (if heur6 m
             then let (mt, b) = takeMatched (range_buckets ro) (\<lambda>_ b. matchAddr nx m (bucket_rep b)) bucket_ips (the (bv_buckets6 v4))
                  in (mt, v4\<lparr>bv_buckets6 := Some b\<rparr>)
             else let (mt, b) = takeMatched (range_precise ro) (\<lambda>ipx _. matchAddr nx m ipx) (\<lambda>ip. [ip]) (the (bv_precise6 v4))
                  in (mt, v4\<lparr>bv_precise6 := Some b\<rparr>)) in
      (v6, snd st @ m4 @ m6))"

definition noBucketViews :: ipBucketViews where
  "noBucketViews = \<lparr>bv_buckets4 = None, bv_buckets6 = None, bv_precise4 = None, bv_precise6 = None\<rparr>"

definition HM_FilterIPs :: "range_order \<Rightarrow> 's netipx \<Rightarrow> 's HeuristicMultiGeoIPMatcher \<Rightarrow> bytes list \<Rightarrow> bytes list \<times> bytes list" where
  "HM_FilterIPs ro nx mm ips =
     (if length ips = 0 then ([], [])
      else if length ips = 1 then
        (case FromStdIP nx (ips ! 0) of
           None \<Rightarrow> ([], [])
         | Some ipx \<Rightarrow> if list_ex (\<lambda>m. matchAddr nx m ipx) mm then (ips, []) else ([], ips))
      else
        (let (v, matched) = fold (\<lambda>m. filterStep ro nx m ips) mm (noBucketViews, []) in
         (matched,
          leftOver (range_buckets ro) bucket_ips (bv_buckets4 v) @ leftOver (range_precise ro) (\<lambda>ip. [ip]) (bv_precise4 v)
          @ leftOver (range_buckets ro) bucket_ips (bv_buckets6 v) @ leftOver (range_precise ro) (\<lambda>ip. [ip]) (bv_precise6 v))))"

section \<open>The interface\<close>

datatype 's GeoIPMatcher =
    HeuristicMatcher "'s HeuristicGeoIPMatcher"
  | HeuristicMulti "'s HeuristicMultiGeoIPMatcher"
  | GeneralMulti "'s GeoIPMatcher list"

fun Geo_Match :: "'s netipx \<Rightarrow> 's GeoIPMatcher \<Rightarrow> bytes \<Rightarrow> bool" where
  "Geo_Match nx (HeuristicMatcher m) ip = H_Match nx m ip"
| "Geo_Match nx (HeuristicMulti mm) ip = HM_Match nx mm ip"
| "Geo_Match nx (GeneralMulti mm) ip = list_ex (\<lambda>m. Geo_Match nx m ip) mm"

fun Geo_AnyMatch :: "'s netipx \<Rightarrow> 's GeoIPMatcher \<Rightarrow> bytes list \<Rightarrow> bool" where
  "Geo_AnyMatch nx (HeuristicMatcher m) ips = H_AnyMatch nx m ips"
| "Geo_AnyMatch nx (HeuristicMulti mm) ips = HM_AnyMatch nx mm ips"
| "Geo_AnyMatch nx (GeneralMulti mm) ips = list_ex (\<lambda>m. Geo_AnyMatch nx m ips) mm"

fun Geo_Matches :: "'s netipx \<Rightarrow> 's GeoIPMatcher \<Rightarrow> bytes list \<Rightarrow> bool" where
  "Geo_Matches nx (HeuristicMatcher m) ips = H_Matches nx m ips"
| "Geo_Matches nx (HeuristicMulti mm) ips = HM_Matches nx mm ips"
| "Geo_Matches nx (GeneralMulti mm) ips = list_ex (\<lambda>m. Geo_Matches nx m ips) mm"

fun Geo_FilterIPs :: "range_order \<Rightarrow> 's netipx \<Rightarrow> 's GeoIPMatcher \<Rightarrow> bytes list \<Rightarrow> bytes list \<times> bytes list"
  and filterGeneral :: "range_order \<Rightarrow> 's netipx \<Rightarrow> 's GeoIPMatcher list \<Rightarrow> bytes list \<Rightarrow> bytes list \<Rightarrow> bytes list \<times> bytes list" where
  "Geo_FilterIPs ro nx (HeuristicMatcher m) ips = H_FilterIPs (range_single ro) nx m ips"
| "Geo_FilterIPs ro nx (HeuristicMulti mm) ips = HM_FilterIPs ro nx mm ips"
| "Geo_FilterIPs ro nx (GeneralMulti mm) ips = filterGeneral ro nx mm [] ips"
| "filterGeneral ro nx [] matched unmatched = (matched, unmatched)"
| "filterGeneral ro nx (m # mm) matched unmatched =
     (if unmatched = [] then (matched, unmatched)
      else let (mtch, rest) = Geo_FilterIPs ro nx m unmatched in filterGeneral ro nx mm (matched @ mtch) rest)"

fun Geo_SetReverse :: "bool \<Rightarrow> 's GeoIPMatcher \<Rightarrow> 's GeoIPMatcher" where
  "Geo_SetReverse r (HeuristicMatcher m) = HeuristicMatcher (H_SetReverse r m)"
| "Geo_SetReverse r (HeuristicMulti mm) = HeuristicMulti (map (H_SetReverse r) mm)"
| "Geo_SetReverse r (GeneralMulti mm) = GeneralMulti (map (Geo_SetReverse r) mm)"

fun Geo_ToggleReverse :: "'s GeoIPMatcher \<Rightarrow> 's GeoIPMatcher" where
  "Geo_ToggleReverse (HeuristicMatcher m) = HeuristicMatcher (H_ToggleReverse m)"
| "Geo_ToggleReverse (HeuristicMulti mm) = HeuristicMulti (map H_ToggleReverse mm)"
| "Geo_ToggleReverse (GeneralMulti mm) = GeneralMulti (map Geo_ToggleReverse mm)"

section \<open>Construction\<close>

record CIDR =
  cidr_Ip :: bytes
  cidr_Prefix :: uint32

record GeoIP =
  geo_CountryCode :: string
  geo_Cidr :: "CIDR list"
  geo_ReverseMatch :: bool

text \<open>A valid entry as a prefix.\<close>

definition cidrPrefix :: "CIDR \<Rightarrow> (Addr \<times> nat) option" where
  "cidrPrefix c =
     (case AddrFromSlice (cidr_Ip c) of
        None \<Rightarrow> None
      | Some addr \<Rightarrow> if unat (cidr_Prefix c) \<le> BitLen addr then Some (addr, unat (cidr_Prefix c)) else None)"

definition maxBits :: "(Addr \<times> nat) list \<Rightarrow> byte" where
  "maxBits ps = (let m = foldl (\<lambda>m (_, b). if b > m then b else m) 0 ps in word_of_nat (if m = 0 then 0xff else m))"

definition Factory_Create :: "'s netipx \<Rightarrow> CIDR list list \<Rightarrow> 's GeoIPSet result" where
  "Factory_Create nx cidrGroups =
     (let ps = List.map_filter cidrPrefix (concat cidrGroups) in
      case IPSetBuilder nx (filter (\<lambda>(a, _). Is4 a) ps) of
        Inl e \<Rightarrow> Err e
      | Inr s4 \<Rightarrow>
          (case IPSetBuilder nx (filter (\<lambda>(a, _). \<not> Is4 a) ps) of
             Inl e \<Rightarrow> Err e
           | Inr s6 \<Rightarrow> Ok \<lparr>gs_ipv4 = s4, gs_ipv6 = s6, gs_max4 = maxBits (IPSet_Prefixes nx s4),
                            gs_max6 = maxBits (IPSet_Prefixes nx s6)\<rparr>))"

type_synonym 's shared = "(string \<times> 's GeoIPSet) list"

definition GetOrCreate :: "'s netipx \<Rightarrow> string \<Rightarrow> CIDR list list \<Rightarrow> 's shared \<Rightarrow> 's GeoIPSet result \<times> 's shared" where
  "GetOrCreate nx key cidrGroups shared =
     (case map_of shared key of
        Some ipset \<Rightarrow> (Ok ipset, shared)
      | None \<Rightarrow>
          (case Factory_Create nx cidrGroups of
             Inl e \<Rightarrow> (Err e, shared)
           | Inr ipset \<Rightarrow> (Ok ipset, AList.update key ipset shared)))"

text \<open>The loop over the entries, sorted by code, that drops repeated codes.\<close>

fun dedupCodes :: "string option \<Rightarrow> GeoIP list \<Rightarrow> GeoIP list" where
  "dedupCodes prev [] = []"
| "dedupCodes prev (g # gs) =
     (if prev = Some (geo_CountryCode g) then dedupCodes prev gs
      else g # dedupCodes (Some (geo_CountryCode g)) gs)"

definition buildIPSet :: "'s netipx \<Rightarrow> (GeoIP list \<Rightarrow> GeoIP list) \<Rightarrow> GeoIP list \<Rightarrow> 's shared
    \<Rightarrow> 's GeoIPSet option result \<times> 's shared" where
  "buildIPSet nx sortByCode mergeables shared =
     (if mergeables = [] then (Ok None, shared)
      else
        (let groups = dedupCodes None (sortByCode mergeables);
             key = concat (map (\<lambda>g. geo_CountryCode g @ '','') groups) in
         case GetOrCreate nx key (map geo_Cidr groups) shared of
           (Inl e, shared') \<Rightarrow> (Err e, shared')
         | (Inr s, shared') \<Rightarrow> (Ok (Some s), shared')))"

text \<open>The loop over the configured entries: matchers of entries without a code, positive, negative.\<close>

fun splitGeoIPs :: "'s netipx \<Rightarrow> GeoIP option list \<Rightarrow> 's HeuristicGeoIPMatcher list \<Rightarrow> GeoIP list \<Rightarrow> GeoIP list
    \<Rightarrow> ('s HeuristicGeoIPMatcher list \<times> GeoIP list \<times> GeoIP list) result" where
  "splitGeoIPs nx [] subs pos neg = Ok (subs, pos, neg)"
| "splitGeoIPs nx (None # gs) subs pos neg = Err (ErrMsg ''geoip entry is nil'')"
| "splitGeoIPs nx (Some g # gs) subs pos neg =
     (if geo_CountryCode g = [] then
        (case Factory_Create nx [geo_Cidr g] of
           Inl e \<Rightarrow> Err e
         | Inr ipset \<Rightarrow> splitGeoIPs nx gs (subs @ [\<lparr>hm_ipset = ipset, hm_reverse = geo_ReverseMatch g\<rparr>]) pos neg)
      else if \<not> geo_ReverseMatch g then splitGeoIPs nx gs subs (pos @ [g]) neg
      else splitGeoIPs nx gs subs pos (neg @ [g]))"

definition BuildOptimizedGeoIPMatcher :: "'s netipx \<Rightarrow> (GeoIP list \<Rightarrow> GeoIP list) \<Rightarrow> GeoIP option list \<Rightarrow> 's shared
    \<Rightarrow> 's GeoIPMatcher result \<times> 's shared" where
  "BuildOptimizedGeoIPMatcher nx sortByCode geoips shared =
     (if geoips = [] then (Err (ErrMsg ''no geoip configs provided''), shared)
      else case splitGeoIPs nx geoips [] [] [] of
        Inl e \<Rightarrow> (Err e, shared)
      | Inr (subs, pos, neg) \<Rightarrow>
          (case buildIPSet nx sortByCode pos shared of
             (Inl e, shared1) \<Rightarrow> (Err e, shared1)
           | (Inr sp, shared1) \<Rightarrow>
               (case buildIPSet nx sortByCode neg shared1 of
                  (Inl e, shared2) \<Rightarrow> (Err e, shared2)
                | (Inr sn, shared2) \<Rightarrow>
                    (let subs1 = subs @ (case sp of None \<Rightarrow> [] | Some s \<Rightarrow> [\<lparr>hm_ipset = s, hm_reverse = False\<rparr>]);
                         subs2 = subs1 @ (case sn of None \<Rightarrow> [] | Some s \<Rightarrow> [\<lparr>hm_ipset = s, hm_reverse = True\<rparr>]) in
                     (case subs2 of
                        [] \<Rightarrow> Err (ErrMsg ''no valid geoip matcher'')
                      | [m] \<Rightarrow> Ok (HeuristicMatcher m)
                      | _ \<Rightarrow> Ok (HeuristicMulti subs2), shared2)))))"

section \<open>Keys and addresses\<close>

lemma FromStdIP_ok: "netipx_ok nx \<Longrightarrow> FromStdIP nx ip =
    (case To4 ip of Some a \<Rightarrow> Some (Addr4 a) | None \<Rightarrow> map_option Addr6 (To16 ip))"
  by (simp add: netipx_ok_def)

lemma To4_length: "To4 ip = Some a \<Longrightarrow> length a = 4"
  and To16_length: "To16 ip = Some a \<Longrightarrow> length a = 16"
  by (auto simp: To4_def To16_def split: if_splits)

lemma key_iff_addr:
  assumes "netipx_ok nx"
  shows "prefixKeyFromIP ip = None \<longleftrightarrow> FromStdIP nx ip = None"
  by (auto simp: prefixKeyFromIP_def FromStdIP_ok [OF assms] split: option.splits)

lemma key_addr:
  assumes "netipx_ok nx" and "prefixKeyFromIP ip = Some key"
  obtains a where "FromStdIP nx ip = Some (Addr4 a)" and "key ! 0 = 4" and "length a = 4"
      and "key = 4 # take 3 a @ replicate 5 0"
    | a where "FromStdIP nx ip = Some (Addr6 a)" and "key ! 0 = 6" and "length a = 16" and "key = 6 # take 8 a"
proof (cases "To4 ip")
  case (Some a)
  then obtain w x y z where "a = [w, x, y, z]"
    using To4_length [of ip a] by (auto simp: numeral_eq_Suc length_Suc_conv)
  with Some assms show ?thesis
    by (intro that(1)) (auto simp: prefixKeyFromIP_def FromStdIP_ok [OF assms(1)] numeral_eq_Suc)
next
  case None
  then obtain a where "To16 ip = Some a" "key = 6 # take 8 a"
    using assms(2) by (auto simp: prefixKeyFromIP_def split: option.splits)
  with None To16_length [of ip a] show ?thesis
    by (intro that(2)) (auto simp: FromStdIP_ok [OF assms(1)])
qed

text \<open>
  The heuristic is sound for a matcher: where it applies, its set does not tell addresses apart that
  have the same key.
\<close>

definition uniform :: "'s netipx \<Rightarrow> 's HeuristicGeoIPMatcher \<Rightarrow> bool" where
  "uniform nx m \<longleftrightarrow>
     (heur4 m \<longrightarrow> (\<forall>x y. take 3 x = take 3 y \<longrightarrow> matchAddr nx m (Addr4 x) = matchAddr nx m (Addr4 y)))
     \<and> (heur6 m \<longrightarrow> (\<forall>x y. take 8 x = take 8 y \<longrightarrow> matchAddr nx m (Addr6 x) = matchAddr nx m (Addr6 y)))"

lemma H_Match_addr: "FromStdIP nx ip = Some a \<Longrightarrow> H_Match nx m ip = matchAddr nx m a"
  and H_Match_invalid: "FromStdIP nx ip = None \<Longrightarrow> \<not> H_Match nx m ip"
  by (simp_all add: H_Match_def)

lemma uniformD:
  assumes "uniform nx m" and "coarse m key"
  shows "key ! 0 = 4 \<Longrightarrow> take 3 x = take 3 y \<Longrightarrow> matchAddr nx m (Addr4 x) = matchAddr nx m (Addr4 y)"
    and "key ! 0 = 6 \<Longrightarrow> take 8 x = take 8 y \<Longrightarrow> matchAddr nx m (Addr6 x) = matchAddr nx m (Addr6 y)"
proof -
  have h: "key ! 0 = 4 \<Longrightarrow> heur4 m" "key ! 0 = 6 \<Longrightarrow> heur6 m"
    using assms(2) by (auto simp: coarse_def)
  show "key ! 0 = 4 \<Longrightarrow> take 3 x = take 3 y \<Longrightarrow> matchAddr nx m (Addr4 x) = matchAddr nx m (Addr4 y)"
    and "key ! 0 = 6 \<Longrightarrow> take 8 x = take 8 y \<Longrightarrow> matchAddr nx m (Addr6 x) = matchAddr nx m (Addr6 y)"
    using assms(1) h unfolding uniform_def by blast+
qed

lemma same_key:
  assumes nx: "netipx_ok nx" and u: "uniform nx m" and c: "coarse m key"
    and k: "prefixKeyFromIP ip = Some key" "prefixKeyFromIP ip' = Some key"
  shows "H_Match nx m ip = H_Match nx m ip'"
  using nx k(1)
proof (cases rule: key_addr)
  case (1 a)
  note first = this
  from nx k(2) show ?thesis
  proof (cases rule: key_addr)
    case (1 b)
    then have "take 3 a = take 3 b"
      using first by (simp add: append_eq_append_conv)
    then show ?thesis
      unfolding H_Match_addr [OF 1(1)] H_Match_addr [OF first(1)] by (rule uniformD(1) [OF u c first(2)])
  qed (use first in simp)
next
  case (2 a)
  note first = this
  from nx k(2) show ?thesis
  proof (cases rule: key_addr)
    case (2 b)
    then have "take 8 a = take 8 b"
      using first by simp
    then show ?thesis
      unfolding H_Match_addr [OF 2(1)] H_Match_addr [OF first(1)] by (rule uniformD(2) [OF u c first(2)])
  qed (use first in simp)
qed

section \<open>One set: batches\<close>

lemma anyPrecise_iff: "anyPrecise nx m ips \<longleftrightarrow> (\<exists>ip\<in>set ips. H_Match nx m ip)"
  by (induction ips) (auto simp: H_Match_def split: option.splits)

lemma anyBuckets_iff:
  assumes nx: "netipx_ok nx" and u: "uniform nx m"
  shows "(\<And>key ip. key \<in> set buckets \<Longrightarrow> prefixKeyFromIP ip = Some key \<Longrightarrow> coarse m key \<Longrightarrow> \<not> H_Match nx m ip) \<Longrightarrow>
    anyBuckets nx m ips buckets \<longleftrightarrow> (\<exists>ip\<in>set ips. H_Match nx m ip)"
proof (induction ips arbitrary: buckets)
  case (Cons ip ips)
  show ?case
  proof (cases "prefixKeyFromIP ip")
    case None
    then have "\<not> H_Match nx m ip"
      using key_iff_addr [OF nx] by (simp add: H_Match_invalid)
    with None Cons show ?thesis
      by simp
  next
    case (Some key)
    then obtain a where a: "FromStdIP nx ip = Some a"
      using key_iff_addr [OF nx, of ip] by auto
    show ?thesis
    proof (cases "coarse m key \<and> key \<in> set buckets")
      case True
      then have "\<not> H_Match nx m ip"
        using Cons.prems Some by blast
      with True Some Cons show ?thesis
        by simp
    next
      case False
      show ?thesis
      proof (cases "H_Match nx m ip")
        case True
        with False Some a show ?thesis
          by (auto simp: H_Match_addr)
      next
        case miss: False
        have "\<not> H_Match nx m ip'" if "key' \<in> set (if coarse m key then key # buckets else buckets)"
          "prefixKeyFromIP ip' = Some key'" "coarse m key'" for key' ip'
        proof (cases "key' \<in> set buckets")
          case True
          then show ?thesis
            by (rule Cons.prems [OF _ that(2,3)])
        next
          case False
          with that(1) have "key' = key"
            by (auto split: if_splits)
          then show ?thesis
            using same_key [OF nx u that(3,2)] Some miss by simp
        qed
        note IH = Cons.IH [OF this]
        have "anyBuckets nx m (ip # ips) buckets = anyBuckets nx m ips (if coarse m key then key # buckets else buckets)"
          using False miss Some a by (auto simp: H_Match_addr)
        also have "\<dots> \<longleftrightarrow> (\<exists>ip\<in>set ips. H_Match nx m ip)"
          by (rule IH)
        finally show ?thesis
          using miss by simp
      qed
    qed
  qed
qed simp

lemma H_AnyMatch_iff:
  assumes "netipx_ok nx" and "uniform nx m"
  shows "H_AnyMatch nx m ips \<longleftrightarrow> (\<exists>ip\<in>set ips. H_Match nx m ip)"
proof -
  consider "ips = []" | ip where "ips = [ip]" | "length ips > 1"
    by (cases ips rule: remdups_adj.cases) auto
  moreover have "anyBuckets nx m ips [] \<longleftrightarrow> (\<exists>ip\<in>set ips. H_Match nx m ip)"
    by (rule anyBuckets_iff [OF assms]) simp
  ultimately show ?thesis
    by cases (auto simp: H_AnyMatch_def anyPrecise_iff)
qed

lemma allPrecise_iff: "allPrecise nx m ips \<longleftrightarrow> (\<forall>ip\<in>set ips. H_Match nx m ip)"
  by (induction ips) (auto simp: H_Match_def split: option.splits)

text \<open>Every bucket stands for an address with its key.\<close>

definition reps_ok :: "'s netipx \<Rightarrow> 's HeuristicGeoIPMatcher \<Rightarrow> (bytes \<times> Addr) list \<Rightarrow> bool" where
  "reps_ok nx m buckets \<longleftrightarrow> (\<forall>(key, a)\<in>set buckets. coarse m key \<and>
     (\<exists>ip. prefixKeyFromIP ip = Some key \<and> FromStdIP nx ip = Some a))"

definition all_match :: "'s netipx \<Rightarrow> 's HeuristicGeoIPMatcher \<Rightarrow> (bytes \<times> Addr) list \<Rightarrow> Addr list \<Rightarrow> bool" where
  "all_match nx m buckets precise \<longleftrightarrow> list_all (\<lambda>(_, ipx). matchAddr nx m ipx) buckets \<and> list_all (matchAddr nx m) precise"

lemma update_new: "map_of xs k = None \<Longrightarrow> AList.update k v xs = xs @ [(k, v)]"
  by (induction xs) (auto split: if_splits)

lemma all_match_seen:
  assumes "netipx_ok nx" and "uniform nx m" and "reps_ok nx m buckets" and "all_match nx m buckets precise"
    and "prefixKeyFromIP ip = Some key" and "map_of buckets key = Some a"
  shows "H_Match nx m ip"
proof -
  have mem: "(key, a) \<in> set buckets"
    using assms(6) by (rule map_of_SomeD)
  then obtain ip0 where c: "coarse m key" and ip0: "prefixKeyFromIP ip0 = Some key" "FromStdIP nx ip0 = Some a"
    using assms(3) by (auto simp: reps_ok_def)
  have "matchAddr nx m a"
    using assms(4) mem by (auto simp: all_match_def list_all_iff)
  then have "H_Match nx m ip0"
    by (simp add: H_Match_addr [OF ip0(2)])
  with same_key [OF assms(1,2) c assms(5) ip0(1)] show ?thesis
    by simp
qed

lemma collect_iff:
  assumes nx: "netipx_ok nx" and u: "uniform nx m"
  shows "reps_ok nx m buckets \<Longrightarrow>
    (case collect nx m ips buckets precise of None \<Rightarrow> False | Some (b, p) \<Rightarrow> all_match nx m b p) \<longleftrightarrow>
    all_match nx m buckets precise \<and> (\<forall>ip\<in>set ips. H_Match nx m ip)"
proof (induction ips arbitrary: buckets precise)
  case (Cons ip ips)
  show ?case
  proof (cases "prefixKeyFromIP ip")
    case None
    then have "\<not> H_Match nx m ip"
      using key_iff_addr [OF nx] by (simp add: H_Match_invalid)
    with None show ?thesis
      by simp
  next
    case (Some key)
    then obtain a where a: "FromStdIP nx ip = Some a"
      using key_iff_addr [OF nx, of ip] by auto
    note hm = H_Match_addr [OF a, of m]
    show ?thesis
    proof (cases "coarse m key")
      case False
      with Some a Cons.IH [OF Cons.prems, of "precise @ [a]"] hm show ?thesis
        by (simp add: all_match_def conj_ac)
    next
      case c: True
      show ?thesis
      proof (cases "map_of buckets key")
        case None
        have "reps_ok nx m (buckets @ [(key, a)])"
          using Cons.prems c Some a by (auto simp: reps_ok_def)
        from Cons.IH [OF this, of precise] None Some a c hm show ?thesis
          by (simp add: update_new all_match_def conj_ac)
      next
        case (Some b)
        have "all_match nx m buckets precise \<Longrightarrow> H_Match nx m ip"
          by (rule all_match_seen [OF nx u Cons.prems _ \<open>prefixKeyFromIP ip = Some key\<close> Some])
        with Cons.IH [OF Cons.prems, of precise] Some c \<open>prefixKeyFromIP ip = Some key\<close> show ?thesis
          by auto
      qed
    qed
  qed
qed simp

lemma H_Matches_iff:
  assumes "netipx_ok nx" and "uniform nx m"
  shows "H_Matches nx m ips \<longleftrightarrow> ips \<noteq> [] \<and> (\<forall>ip\<in>set ips. H_Match nx m ip)"
proof -
  consider "ips = []" | ip where "ips = [ip]" | "length ips > 1"
    by (cases ips rule: remdups_adj.cases) auto
  then show ?thesis
  proof cases
    case 3
    have "(case collect nx m ips [] [] of None \<Rightarrow> False | Some (b, p) \<Rightarrow> all_match nx m b p) \<longleftrightarrow> (\<forall>ip\<in>set ips. H_Match nx m ip)"
      using collect_iff [OF assms, of "[]" ips "[]"] by (simp add: reps_ok_def all_match_def)
    with 3 show ?thesis
      by (cases "collect nx m ips [] []") (auto simp: H_Matches_def allPrecise_iff all_match_def)
  qed (simp_all add: H_Matches_def)
qed

section \<open>One set: filtering\<close>

definition valid_ip :: "'s netipx \<Rightarrow> bytes \<Rightarrow> bool" where
  "valid_ip nx ip \<longleftrightarrow> FromStdIP nx ip \<noteq> None"

lemma filterPrecise_eq: "filterPrecise nx m ips r =
    (fst r @ filter (H_Match nx m) ips, snd r @ filter (\<lambda>ip. valid_ip nx ip \<and> \<not> H_Match nx m ip) ips)"
  by (induction ips arbitrary: r) (auto simp: H_Match_def valid_ip_def split: option.splits)

definition ips_of :: "(bytes \<times> ipBucket) list \<Rightarrow> bytes multiset" where
  "ips_of bs = mset (concat (map (bucket_ips \<circ> snd) bs))"

definition entry_ok :: "'s netipx \<Rightarrow> 's HeuristicGeoIPMatcher \<Rightarrow> bytes \<times> ipBucket \<Rightarrow> bool" where
  "entry_ok nx m e \<longleftrightarrow> coarse m (fst e)
     \<and> (\<exists>ip. prefixKeyFromIP ip = Some (fst e) \<and> FromStdIP nx ip = Some (bucket_rep (snd e)))
     \<and> (\<forall>ip\<in>set (bucket_ips (snd e)). H_Match nx m ip = matchAddr nx m (bucket_rep (snd e)))"

definition buckets_ok :: "'s netipx \<Rightarrow> 's HeuristicGeoIPMatcher \<Rightarrow> (bytes \<times> ipBucket) list \<Rightarrow> bool" where
  "buckets_ok nx m bs \<longleftrightarrow> distinct (map fst bs) \<and> (\<forall>e\<in>set bs. entry_ok nx m e)"

lemma ips_of_append:
  "distinct (map fst bs) \<Longrightarrow> map_of bs key = Some b \<Longrightarrow>
    ips_of (AList.update key (b\<lparr>bucket_ips := bucket_ips b @ [ip]\<rparr>) bs) = add_mset ip (ips_of bs)"
  by (induction bs) (auto simp: ips_of_def split: if_splits)

lemma set_update_subset: "set (AList.update k v xs) \<subseteq> insert (k, v) (set xs)"
  by (induction xs) auto

lemma buckets_ok_append:
  assumes ok: "buckets_ok nx m bs" and b: "map_of bs key = Some b" and ip: "H_Match nx m ip = matchAddr nx m (bucket_rep b)"
  shows "buckets_ok nx m (AList.update key (b\<lparr>bucket_ips := bucket_ips b @ [ip]\<rparr>) bs)"
proof -
  have "entry_ok nx m (key, b)"
    using ok map_of_SomeD [OF b] by (simp add: buckets_ok_def)
  then have "entry_ok nx m (key, b\<lparr>bucket_ips := bucket_ips b @ [ip]\<rparr>)"
    using ip by (simp add: entry_ok_def)
  with ok set_update_subset [of key "b\<lparr>bucket_ips := bucket_ips b @ [ip]\<rparr>" bs] show ?thesis
    unfolding buckets_ok_def using distinct_update [of bs key "b\<lparr>bucket_ips := bucket_ips b @ [ip]\<rparr>"] by blast
qed

lemma bucket_rep_match:
  assumes "netipx_ok nx" and "uniform nx m" and "buckets_ok nx m bs" and "map_of bs key = Some b"
    and "prefixKeyFromIP ip = Some key"
  shows "H_Match nx m ip = matchAddr nx m (bucket_rep b)"
proof -
  have "entry_ok nx m (key, b)"
    using assms(3) map_of_SomeD [OF assms(4)] by (simp add: buckets_ok_def)
  then obtain ip0 where c: "coarse m key" and ip0: "prefixKeyFromIP ip0 = Some key" "FromStdIP nx ip0 = Some (bucket_rep b)"
    by (auto simp: entry_ok_def)
  show ?thesis
    using same_key [OF assms(1,2) c assms(5) ip0(1)] H_Match_addr [OF ip0(2), of m] by simp
qed

lemma coarse_iff:
  assumes "netipx_ok nx" and "prefixKeyFromIP ip = Some key"
  shows "key ! 0 = 4 \<and> \<not> heur4 m \<or> key ! 0 = 6 \<and> \<not> heur6 m \<longleftrightarrow> \<not> coarse m key"
  using assms by (cases rule: key_addr) (auto simp: coarse_def)

lemma filterBuckets_spec:
  assumes nx: "netipx_ok nx" and u: "uniform nx m"
  shows "buckets_ok nx m bs \<Longrightarrow> filterBuckets nx m ips bs ps = (bs', ps') \<Longrightarrow>
    buckets_ok nx m bs' \<and> ips_of bs' + mset ps' = ips_of bs + mset ps + mset (filter (valid_ip nx) ips)"
proof (induction ips arbitrary: bs ps)
  case (Cons ip ips)
  show ?case
  proof (cases "prefixKeyFromIP ip")
    case None
    with Cons key_iff_addr [OF nx, of ip] show ?thesis
      by (auto simp: valid_ip_def)
  next
    case (Some key)
    then obtain a where a: "FromStdIP nx ip = Some a"
      using key_iff_addr [OF nx, of ip] by auto
    then have v: "valid_ip nx ip"
      by (simp add: valid_ip_def)
    note step = Cons.prems(2) [simplified filterBuckets.simps Some option.case coarse_iff [OF nx Some]]
    show ?thesis
    proof (cases "coarse m key")
      case False
      with step have "filterBuckets nx m ips bs (ps @ [ip]) = (bs', ps')"
        by simp
      from Cons.IH [OF Cons.prems(1) this] v show ?thesis
        by simp
    next
      case c: True
      show ?thesis
      proof (cases "map_of bs key")
        case None
        let ?bs = "bs @ [(key, \<lparr>bucket_rep = a, bucket_ips = [ip]\<rparr>)]"
        have "key \<notin> set (map fst bs)"
          using None by (simp add: map_of_eq_None_iff)
        then have "buckets_ok nx m ?bs"
          using Cons.prems(1) c Some a H_Match_addr [OF a, of m] by (auto simp: buckets_ok_def entry_ok_def)
        moreover have "filterBuckets nx m ips ?bs ps = (bs', ps')"
          using step c None a by (simp add: update_new)
        ultimately show ?thesis
          using Cons.IH [of ?bs ps] v by (simp add: ips_of_def)
      next
        case b: (Some b)
        let ?bs = "AList.update key (b\<lparr>bucket_ips := bucket_ips b @ [ip]\<rparr>) bs"
        have "buckets_ok nx m ?bs"
          using bucket_rep_match [OF nx u Cons.prems(1) b Some] by (intro buckets_ok_append [OF Cons.prems(1) b])
        moreover have "filterBuckets nx m ips ?bs ps = (bs', ps')"
          using step c b by simp
        moreover have "ips_of ?bs = add_mset ip (ips_of bs)"
          using Cons.prems(1) b by (intro ips_of_append) (simp_all add: buckets_ok_def)
        ultimately show ?thesis
          using Cons.IH [of ?bs ps] v by simp
      qed
    qed
  qed
qed simp

lemma split_buckets:
  assumes "\<forall>e\<in>set bs. entry_ok nx m e"
  shows "mset (fst (foldl (\<lambda>r (_, b). if matchAddr nx m (bucket_rep b) then (fst r @ bucket_ips b, snd r)
      else (fst r, snd r @ bucket_ips b)) r bs)) = mset (fst r) + filter_mset (H_Match nx m) (ips_of bs)"
    and "mset (snd (foldl (\<lambda>r (_, b). if matchAddr nx m (bucket_rep b) then (fst r @ bucket_ips b, snd r)
      else (fst r, snd r @ bucket_ips b)) r bs)) = mset (snd r) + filter_mset (\<lambda>ip. \<not> H_Match nx m ip) (ips_of bs)"
  using assms
proof (induction bs arbitrary: r)
  case (Cons e bs)
  obtain k b where e: "e = (k, b)"
    by (cases e)
  have i: "ips_of (e # bs) = mset (bucket_ips b) + ips_of bs"
    by (simp add: ips_of_def e)
  have "filter (H_Match nx m) (bucket_ips b) = (if matchAddr nx m (bucket_rep b) then bucket_ips b else [])"
    "filter (\<lambda>ip. \<not> H_Match nx m ip) (bucket_ips b) = (if matchAddr nx m (bucket_rep b) then [] else bucket_ips b)"
    if "entry_ok nx m e"
    using that by (auto simp: e entry_ok_def filter_id_conv filter_empty_conv)
  then have f: "filter_mset (H_Match nx m) (mset (bucket_ips b)) = (if matchAddr nx m (bucket_rep b) then mset (bucket_ips b) else {#})"
    "filter_mset (\<lambda>ip. \<not> H_Match nx m ip) (mset (bucket_ips b)) = (if matchAddr nx m (bucket_rep b) then {#} else mset (bucket_ips b))"
    if "entry_ok nx m e"
    using that by (simp_all flip: mset_filter)
  {
    case 1
    then show ?case
      unfolding i using Cons.IH(1) f(1) by (simp add: e)
  next
    case 2
    then show ?case
      unfolding i using Cons.IH(2) f(2) by (simp add: e)
  }
qed (simp_all add: ips_of_def)

lemma ips_of_mset: "mset xs = mset ys \<Longrightarrow> ips_of xs = ips_of ys"
  by (simp add: ips_of_def mset_concat flip: sum_mset_sum_list)

lemma H_FilterIPs_mset:
  assumes nx: "netipx_ok nx" and u: "uniform nx m" and ranged: "\<And>bs. mset (ranged bs) = mset bs"
  shows "mset (fst (H_FilterIPs ranged nx m ips)) = mset (filter (H_Match nx m) ips)
    \<and> mset (snd (H_FilterIPs ranged nx m ips)) = mset (filter (\<lambda>ip. valid_ip nx ip \<and> \<not> H_Match nx m ip) ips)"
proof -
  consider "ips = []" | ip where "ips = [ip]" | "length ips > 1" "\<not> heur4 m \<and> \<not> heur6 m" | "length ips > 1" "heur4 m \<or> heur6 m"
    by (cases ips rule: remdups_adj.cases) auto
  then show ?thesis
  proof cases
    case 2
    then show ?thesis
      by (cases "FromStdIP nx ip") (auto simp: H_FilterIPs_def H_Match_def valid_ip_def)
  next
    case 3
    then have "H_FilterIPs ranged nx m ips = filterPrecise nx m ips ([], [])"
      by (auto simp: H_FilterIPs_def)
    then show ?thesis
      by (simp add: filterPrecise_eq)
  next
    case 4
    obtain bs ps where f: "filterBuckets nx m ips [] [] = (bs, ps)"
      by fastforce
    have ok: "buckets_ok nx m bs" and all: "ips_of bs + mset ps = mset (filter (valid_ip nx) ips)"
      using filterBuckets_spec [OF nx u _ f] by (simp_all add: buckets_ok_def ips_of_def)
    have "\<forall>e\<in>set (ranged bs). entry_ok nx m e"
      using ok mset_eq_setD [OF ranged [of bs]] by (simp add: buckets_ok_def)
    note split = split_buckets [OF this, of "([], [])", unfolded ips_of_mset [OF ranged]]
    have valid: "filter_mset (H_Match nx m) (ips_of bs) + mset (filter (H_Match nx m) ps) = mset (filter (H_Match nx m) ips)"
      "filter_mset (\<lambda>ip. \<not> H_Match nx m ip) (ips_of bs) + mset (filter (\<lambda>ip. valid_ip nx ip \<and> \<not> H_Match nx m ip) ps)
        = mset (filter (\<lambda>ip. valid_ip nx ip \<and> \<not> H_Match nx m ip) ips)"
    proof -
      have sub: "ip \<in># mset ps \<Longrightarrow> valid_ip nx ip" for ip
        using arg_cong [OF all, of set_mset] by auto
      have "filter_mset (H_Match nx m) (ips_of bs + mset ps) = mset (filter (H_Match nx m) (filter (valid_ip nx) ips))"
        by (simp only: all mset_filter [symmetric])
      moreover have "filter (H_Match nx m) (filter (valid_ip nx) ips) = filter (H_Match nx m) ips"
        unfolding filter_filter by (rule filter_cong) (auto simp: valid_ip_def H_Match_def split: option.splits)
      ultimately have "filter_mset (H_Match nx m) (ips_of bs + mset ps) = mset (filter (H_Match nx m) ips)"
        by (simp only:)
      then show "filter_mset (H_Match nx m) (ips_of bs) + mset (filter (H_Match nx m) ps) = mset (filter (H_Match nx m) ips)"
        by (simp only: filter_union_mset mset_filter)
      have "filter_mset (\<lambda>ip. \<not> H_Match nx m ip) (ips_of bs + mset ps) = mset (filter (\<lambda>ip. valid_ip nx ip \<and> \<not> H_Match nx m ip) ips)"
        by (simp only: all mset_filter [symmetric] filter_filter)
      moreover have "filter (\<lambda>ip. valid_ip nx ip \<and> \<not> H_Match nx m ip) ps = filter (\<lambda>ip. \<not> H_Match nx m ip) ps"
        using sub by (intro filter_cong) auto
      ultimately show "filter_mset (\<lambda>ip. \<not> H_Match nx m ip) (ips_of bs) + mset (filter (\<lambda>ip. valid_ip nx ip \<and> \<not> H_Match nx m ip) ps)
        = mset (filter (\<lambda>ip. valid_ip nx ip \<and> \<not> H_Match nx m ip) ips)"
        by simp
    qed
    have "H_FilterIPs ranged nx m ips = filterPrecise nx m ps (foldl (\<lambda>r (_, b). if matchAddr nx m (bucket_rep b)
        then (fst r @ bucket_ips b, snd r) else (fst r, snd r @ bucket_ips b)) ([], []) (ranged bs))"
      using 4 by (auto simp: H_FilterIPs_def f)
    then show ?thesis
      using split valid by (simp add: filterPrecise_eq)
  qed (simp add: H_FilterIPs_def)
qed

section \<open>Several sets: any address\<close>

lemma HM_Match_iff: "HM_Match nx mm ip \<longleftrightarrow> (\<exists>m\<in>set mm. H_Match nx m ip)"
  by (auto simp: HM_Match_def H_Match_def list_ex_iff split: option.splits)

text \<open>No matcher for which the heuristic applies matches an address with this key.\<close>

definition missed :: "'s netipx \<Rightarrow> 's HeuristicGeoIPMatcher set \<Rightarrow> bytes \<Rightarrow> bool" where
  "missed nx M key \<longleftrightarrow> (\<forall>ip m. prefixKeyFromIP ip = Some key \<longrightarrow> m \<in> M \<longrightarrow> coarse m key \<longrightarrow> \<not> H_Match nx m ip)"

text \<open>After the key was looked up: the state is 1, or the family of a key that was missed before.\<close>

lemma anyMatchers_known:
  assumes key: "prefixKeyFromIP ip = Some key" and a: "FromStdIP nx ip = Some a"
    and "state = 1 \<or> state = key ! 0 \<and> missed nx (set mm) key" and "key ! 0 = 4 \<or> key ! 0 = 6"
    and "ipx = None \<or> ipx = Some a"
  shows "anyMatchers nx ip mm state ipx buckets = (\<exists>m\<in>set mm. H_Match nx m ip, buckets)"
  using assms(3,5)
proof (induction mm arbitrary: ipx)
  case (Cons m mm)
  have st: "state \<noteq> 0"
    using Cons.prems(1) assms(4) by auto
  have rest: "state = 1 \<or> state = key ! 0 \<and> missed nx (set mm) key"
    using Cons.prems(1) by (auto simp: missed_def)
  have look: "(if ipx = None then FromStdIP nx ip else ipx) = Some a"
    using Cons.prems(2) a by auto
  show ?case
  proof (cases "heur4 m \<and> state = 4 \<or> heur6 m \<and> state = 6")
    case True
    then have "state = key ! 0" "missed nx (set (m # mm)) key" "coarse m key"
      using Cons.prems(1) by (auto simp: coarse_def)
    then have "\<not> H_Match nx m ip"
      using key unfolding missed_def by (metis list.set_intros(1))
    with True st Cons.IH [OF rest Cons.prems(2)] show ?thesis
      by (simp add: Let_def)
  next
    case False
    show ?thesis
    proof (cases "matchAddr nx m a")
      case True
      with False st look a show ?thesis
        by (auto simp: Let_def H_Match_addr)
    next
      case miss: False
      then have "\<not> H_Match nx m ip"
        by (simp add: H_Match_addr [OF a])
      moreover have "anyMatchers nx ip (m # mm) state ipx buckets = anyMatchers nx ip mm state (Some a) buckets"
        using False st look miss by (auto simp: Let_def)
      ultimately show ?thesis
        using Cons.IH [OF rest, of "Some a"] by simp
    qed
  qed
qed simp

text \<open>One address from the start: what it returns and the key it may add.\<close>

lemma missed_Cons_plain: "\<not> heur4 m \<Longrightarrow> \<not> heur6 m \<Longrightarrow> missed nx (insert m M) key = missed nx M key"
  by (auto simp: missed_def coarse_def)

lemma key_family: "netipx_ok nx \<Longrightarrow> prefixKeyFromIP ip = Some key \<Longrightarrow> key ! 0 = 4 \<or> key ! 0 = 6"
  by (erule (1) key_addr) simp_all

lemma anyMatchers_lookup:
  assumes nx: "netipx_ok nx" and u: "\<forall>m\<in>set mm. uniform nx m" and h: "mm = m # ms" "heur4 m \<or> heur6 m"
    and key: "prefixKeyFromIP ip = Some key" and a: "FromStdIP nx ip = Some a" and ipx: "ipx = None \<or> ipx = Some a"
    and seen: "key \<in> set buckets \<Longrightarrow> missed nx (set mm) key"
    and res: "anyMatchers nx ip mm 0 ipx buckets = (hit, buckets')"
  shows "hit \<longleftrightarrow> (\<exists>m\<in>set mm. H_Match nx m ip)" and "set buckets' = insert key (set buckets)"
    and "\<not> hit \<Longrightarrow> missed nx (set mm) key"
proof -
  define state where "state = (if key \<in> set buckets then key ! 0 else 1)"
  define bs where "bs = (if key \<in> set buckets then buckets else key # buckets)"
  note fam = key_family [OF nx key]
  have "state \<noteq> 0"
    using fam by (auto simp: state_def)
  then have "anyMatchers nx ip mm 0 ipx buckets = anyMatchers nx ip mm state ipx bs"
    using h key by (auto simp: Let_def state_def bs_def)
  also have "\<dots> = (\<exists>m\<in>set mm. H_Match nx m ip, bs)"
    using seen fam ipx by (intro anyMatchers_known [OF key a]) (auto simp: state_def)
  finally have r: "hit \<longleftrightarrow> (\<exists>m\<in>set mm. H_Match nx m ip)" "buckets' = bs"
    using res by simp_all
  then show "hit \<longleftrightarrow> (\<exists>m\<in>set mm. H_Match nx m ip)" "set buckets' = insert key (set buckets)"
    by (auto simp: bs_def)
  show "missed nx (set mm) key" if "\<not> hit"
    unfolding missed_def
  proof (intro allI impI)
    fix ip' m' assume m': "prefixKeyFromIP ip' = Some key" "m' \<in> set mm" "coarse m' key"
    with u have "H_Match nx m' ip' = H_Match nx m' ip"
      by (intro same_key [OF nx _ m'(3,1) key]) blast
    with that r(1) m'(2) show "\<not> H_Match nx m' ip'"
      by blast
  qed
qed

lemma anyMatchers_iff:
  assumes nx: "netipx_ok nx"
  shows "\<forall>m\<in>set mm. uniform nx m \<Longrightarrow> (\<forall>key\<in>set buckets. missed nx (set mm) key) \<Longrightarrow>
    ipx = None \<or> FromStdIP nx ip = ipx \<Longrightarrow> anyMatchers nx ip mm 0 ipx buckets = (hit, buckets') \<Longrightarrow>
    (hit \<longleftrightarrow> (\<exists>m\<in>set mm. H_Match nx m ip)) \<and> (\<not> hit \<longrightarrow> (\<forall>key\<in>set buckets'. missed nx (set mm) key))"
proof (induction mm arbitrary: ipx)
  case Nil
  then show ?case
    by simp
next
  case (Cons m mm)
  show ?case
  proof (cases "FromStdIP nx ip")
    case None
    then have "\<not> H_Match nx m' ip" for m'
      by (simp add: H_Match_invalid)
    moreover have "ipx = None" "prefixKeyFromIP ip = None"
      using Cons.prems(3) None key_iff_addr [OF nx, of ip] by auto
    then have "anyMatchers nx ip (m # mm) 0 ipx buckets = (False, buckets)"
      using None by (auto simp: Let_def)
    ultimately show ?thesis
      using Cons.prems(2,4) by simp
  next
    case (Some a)
    then obtain key where key: "prefixKeyFromIP ip = Some key"
      using key_iff_addr [OF nx, of ip] by auto
    show ?thesis
    proof (cases "heur4 m \<or> heur6 m")
      case True
      have "ipx = None \<or> ipx = Some a" "key \<in> set buckets \<Longrightarrow> missed nx (set (m # mm)) key"
        using Cons.prems(2,3) Some by auto
      note l = anyMatchers_lookup [OF nx Cons.prems(1) refl True key Some this Cons.prems(4)]
      then show ?thesis
        using Cons.prems(2) by auto
    next
      case False
      then have plain: "missed nx (set (m # mm)) k = missed nx (set mm) k" for k
        using missed_Cons_plain [of m nx "set mm" k] by simp
      have look: "(if ipx = None then FromStdIP nx ip else ipx) = Some a"
        using Cons.prems(3) Some by auto
      show ?thesis
      proof (cases "matchAddr nx m a")
        case True
        with False look Cons.prems(4) show ?thesis
          by (auto simp: Let_def H_Match_addr [OF Some])
      next
        case miss: False
        then have "anyMatchers nx ip mm 0 (Some a) buckets = (hit, buckets')"
          using False look Cons.prems(4) by (auto simp: Let_def)
        from Cons.IH [OF _ _ _ this] Cons.prems(1,2) Some miss show ?thesis
          unfolding plain by (auto simp: H_Match_addr)
      qed
    qed
  qed
qed

lemma anyMulti_iff:
  assumes "netipx_ok nx" and "\<forall>m\<in>set mm. uniform nx m"
  shows "\<forall>key\<in>set buckets. missed nx (set mm) key \<Longrightarrow> anyMulti nx mm ips buckets \<longleftrightarrow> (\<exists>ip\<in>set ips. HM_Match nx mm ip)"
proof (induction ips arbitrary: buckets)
  case (Cons ip ips)
  obtain hit buckets' where r: "anyMatchers nx ip mm 0 None buckets = (hit, buckets')"
    by fastforce
  have "(hit \<longleftrightarrow> HM_Match nx mm ip) \<and> (\<not> hit \<longrightarrow> (\<forall>key\<in>set buckets'. missed nx (set mm) key))"
    using anyMatchers_iff [OF assms Cons.prems _ r] by (simp add: HM_Match_iff)
  with Cons.IH [of buckets'] r show ?case
    by auto
qed simp

lemma HM_AnyMatch_iff:
  assumes "netipx_ok nx" and "\<forall>m\<in>set mm. uniform nx m"
  shows "HM_AnyMatch nx mm ips \<longleftrightarrow> (\<exists>ip\<in>set ips. HM_Match nx mm ip)"
proof -
  consider "ips = []" | ip where "ips = [ip]" | "length ips > 1"
    by (cases ips rule: remdups_adj.cases) auto
  then show ?thesis
    by cases (auto simp: HM_AnyMatch_def anyMulti_iff [OF assms])
qed

section \<open>Several sets: all addresses\<close>

text \<open>Buckets and precise lists that hold exactly the addresses of one family.\<close>

definition fam_buckets :: "'s netipx \<Rightarrow> byte \<Rightarrow> bytes list \<Rightarrow> (bytes \<times> Addr) list \<Rightarrow> bool" where
  "fam_buckets nx f ips b \<longleftrightarrow>
     (\<forall>(k, a)\<in>set b. k ! 0 = f \<and> (\<exists>ip\<in>set ips. prefixKeyFromIP ip = Some k \<and> FromStdIP nx ip = Some a))
     \<and> (\<forall>ip\<in>set ips. \<forall>k. prefixKeyFromIP ip = Some k \<longrightarrow> k ! 0 = f \<longrightarrow> k \<in> fst ` set b)"

definition fam_precise :: "'s netipx \<Rightarrow> byte \<Rightarrow> bytes list \<Rightarrow> Addr list \<Rightarrow> bool" where
  "fam_precise nx f ips p \<longleftrightarrow>
     set p = {a. \<exists>ip\<in>set ips. \<exists>k. prefixKeyFromIP ip = Some k \<and> k ! 0 = f \<and> FromStdIP nx ip = Some a}"

definition fam_view :: "'s netipx \<Rightarrow> byte \<Rightarrow> bytes list \<Rightarrow> (bytes \<times> Addr) list option \<times> Addr list option \<Rightarrow> bool" where
  "fam_view nx f ips bp \<longleftrightarrow> (\<forall>b. fst bp = Some b \<longrightarrow> fam_buckets nx f ips b) \<and> (\<forall>p. snd bp = Some p \<longrightarrow> fam_precise nx f ips p)"

lemma fam_skip:
  assumes "prefixKeyFromIP ip = Some k" and "k ! 0 \<noteq> f"
  shows "fam_buckets nx f (ips @ [ip]) b = fam_buckets nx f ips b" and "fam_precise nx f (ips @ [ip]) p = fam_precise nx f ips p"
  using assms by (auto simp: fam_buckets_def fam_precise_def)

text \<open>What the two needs demand of the pair of views while the loop runs.\<close>

definition building :: "'s netipx \<Rightarrow> byte \<Rightarrow> bool \<Rightarrow> bool \<Rightarrow> bytes list \<Rightarrow> (bytes \<times> Addr) list option \<times> Addr list option \<Rightarrow> bool" where
  "building nx f nh np ips bp \<longleftrightarrow> (nh \<longrightarrow> (\<exists>b. fst bp = Some b \<and> fam_buckets nx f ips b))
     \<and> (np \<longrightarrow> (\<exists>p. snd bp = Some p \<and> fam_precise nx f ips p))"

lemma building_skip:
  "prefixKeyFromIP ip = Some k \<Longrightarrow> k ! 0 \<noteq> f \<Longrightarrow> building nx f nh np (ips @ [ip]) bp = building nx f nh np ips bp"
  by (simp add: building_def fam_skip)

lemma fam_bucketsI:
  assumes "\<And>k a. (k, a) \<in> set b \<Longrightarrow> k ! 0 = f \<and> (\<exists>ip\<in>set ips. prefixKeyFromIP ip = Some k \<and> FromStdIP nx ip = Some a)"
    and "\<And>ip k. ip \<in> set ips \<Longrightarrow> prefixKeyFromIP ip = Some k \<Longrightarrow> k ! 0 = f \<Longrightarrow> k \<in> fst ` set b"
  shows "fam_buckets nx f ips b"
  using assms by (auto simp only: fam_buckets_def)

lemma fam_buckets_entry:
  "fam_buckets nx f ips b \<Longrightarrow> (k, a) \<in> set b \<Longrightarrow>
    k ! 0 = f \<and> (\<exists>ip\<in>set ips. prefixKeyFromIP ip = Some k \<and> FromStdIP nx ip = Some a)"
  by (auto simp only: fam_buckets_def)

lemma fam_buckets_key:
  "fam_buckets nx f ips b \<Longrightarrow> ip \<in> set ips \<Longrightarrow> prefixKeyFromIP ip = Some k \<Longrightarrow> k ! 0 = f \<Longrightarrow> k \<in> fst ` set b"
  by (simp only: fam_buckets_def)

lemma fam_buckets_add:
  assumes fb: "fam_buckets nx f ips b" and k: "prefixKeyFromIP ip = Some k" and f: "k ! 0 = f" and a: "FromStdIP nx ip = Some a"
  shows "map_of b k = None \<Longrightarrow> fam_buckets nx f (ips @ [ip]) (AList.update k a b)"
    and "map_of b k \<noteq> None \<Longrightarrow> fam_buckets nx f (ips @ [ip]) b"
proof -
  have key: "k' \<in> insert k (fst ` set b)" if "ip' \<in> set (ips @ [ip])" "prefixKeyFromIP ip' = Some k'" "k' ! 0 = f" for ip' k'
    using that fam_buckets_key [OF fb, of ip' k'] k by auto
  show "fam_buckets nx f (ips @ [ip]) (AList.update k a b)" if new: "map_of b k = None"
    using fam_buckets_entry [OF fb] k f a key by (intro fam_bucketsI) (auto simp: update_new [OF new])
  show "fam_buckets nx f (ips @ [ip]) b" if "map_of b k \<noteq> None"
  proof -
    have "k \<in> fst ` set b"
      using that by (simp add: map_of_eq_None_iff)
    then have "insert k (fst ` set b) = fst ` set b"
      by (rule insert_absorb)
    with key have "\<And>ip' k'. ip' \<in> set (ips @ [ip]) \<Longrightarrow> prefixKeyFromIP ip' = Some k' \<Longrightarrow> k' ! 0 = f \<Longrightarrow> k' \<in> fst ` set b"
      by blast
    moreover have "k' ! 0 = f \<and> (\<exists>ip\<in>set (ips @ [ip]). prefixKeyFromIP ip = Some k' \<and> FromStdIP nx ip = Some a')"
      if "(k', a') \<in> set b" for k' a'
      using fam_buckets_entry [OF fb that] by auto
    ultimately show ?thesis
      by (rule fam_bucketsI [rotated])
  qed
qed

lemma viewStep_building:
  assumes "building nx f nh np ips bp" and "prefixKeyFromIP ip = Some k" and "k ! 0 = f" and "FromStdIP nx ip = Some a"
  obtains bp' where "viewStep nx nh np ip k bp = Some bp'" and "building nx f nh np (ips @ [ip]) bp'"
    and "\<not> nh \<Longrightarrow> fst bp' = fst bp" and "\<not> np \<Longrightarrow> snd bp' = snd bp"
proof -
  obtain B P where bp: "bp = (B, P)"
    by (cases bp)
  define B' where "B' = (if nh \<and> map_of (the B) k = None then Some (AList.update k a (the B)) else B)"
  define P' where "P' = (if np then Some (the P @ [a]) else P)"
  have "viewStep nx nh np ip k bp = Some (B', P')"
    using assms(4) by (auto simp: viewStep_def bp B'_def P'_def)
  moreover have "building nx f nh np (ips @ [ip]) (B', P')"
    unfolding building_def fst_conv snd_conv
  proof (intro conjI impI)
    assume nh
    then obtain b where "B = Some b" "fam_buckets nx f ips b"
      using assms(1) by (auto simp: building_def bp)
    with \<open>nh\<close> fam_buckets_add [OF _ assms(2-4)] show "\<exists>b. B' = Some b \<and> fam_buckets nx f (ips @ [ip]) b"
      by (auto simp: B'_def)
  next
    assume np
    then obtain p where "P = Some p" "fam_precise nx f ips p"
      using assms(1) by (auto simp: building_def bp)
    with \<open>np\<close> assms(2-4) show "\<exists>p. P' = Some p \<and> fam_precise nx f (ips @ [ip]) p"
      by (auto simp: P'_def fam_precise_def)
  qed
  ultimately show ?thesis
    by (rule that) (simp_all add: bp B'_def P'_def)
qed

abbreviation view4 :: "ipViews \<Rightarrow> (bytes \<times> Addr) list option \<times> Addr list option" where
  "view4 v \<equiv> (iv_buckets4 v, iv_precise4 v)"
abbreviation view6 :: "ipViews \<Rightarrow> (bytes \<times> Addr) list option \<times> Addr list option" where
  "view6 v \<equiv> (iv_buckets6 v, iv_precise6 v)"

lemma viewLoop_ok:
  assumes nx: "netipx_ok nx"
  shows "\<forall>ip\<in>set ips. valid_ip nx ip \<Longrightarrow> building nx 4 nh4 np4 seen (view4 v) \<Longrightarrow> building nx 6 nh6 np6 seen (view6 v) \<Longrightarrow>
    \<exists>v'. viewLoop nx nh4 nh6 np4 np6 ips v = Some v'
      \<and> building nx 4 nh4 np4 (seen @ ips) (view4 v') \<and> building nx 6 nh6 np6 (seen @ ips) (view6 v')
      \<and> (\<not> nh4 \<longrightarrow> iv_buckets4 v' = iv_buckets4 v) \<and> (\<not> np4 \<longrightarrow> iv_precise4 v' = iv_precise4 v)
      \<and> (\<not> nh6 \<longrightarrow> iv_buckets6 v' = iv_buckets6 v) \<and> (\<not> np6 \<longrightarrow> iv_precise6 v' = iv_precise6 v)"
proof (induction ips arbitrary: seen v)
  case (Cons ip ips)
  have valid: "\<forall>ip\<in>set ips. valid_ip nx ip"
    using Cons.prems(1) by simp
  obtain a where a: "FromStdIP nx ip = Some a"
    using Cons.prems(1) by (auto simp: valid_ip_def)
  then obtain k where k: "prefixKeyFromIP ip = Some k"
    using key_iff_addr [OF nx, of ip] by auto
  show ?case
  proof (cases "k ! 0 = 4")
    case True
    obtain bp where s: "viewStep nx nh4 np4 ip k (view4 v) = Some bp" "building nx 4 nh4 np4 (seen @ [ip]) bp"
      "\<not> nh4 \<Longrightarrow> fst bp = iv_buckets4 v" "\<not> np4 \<Longrightarrow> snd bp = iv_precise4 v"
      using viewStep_building [OF Cons.prems(2) k True a] by (metis fst_conv snd_conv)
    let ?v = "v\<lparr>iv_buckets4 := fst bp, iv_precise4 := snd bp\<rparr>"
    have "building nx 6 nh6 np6 (seen @ [ip]) (view6 ?v)"
      using Cons.prems(3) building_skip [OF k, of 6 nx] True by simp
    from Cons.IH [OF valid _ this] s(2) obtain v' where "viewLoop nx nh4 nh6 np4 np6 ips ?v = Some v'"
      "building nx 4 nh4 np4 (seen @ ip # ips) (view4 v')" "building nx 6 nh6 np6 (seen @ ip # ips) (view6 v')"
      "\<not> nh4 \<longrightarrow> iv_buckets4 v' = fst bp" "\<not> np4 \<longrightarrow> iv_precise4 v' = snd bp"
      "\<not> nh6 \<longrightarrow> iv_buckets6 v' = iv_buckets6 v" "\<not> np6 \<longrightarrow> iv_precise6 v' = iv_precise6 v"
      by auto
    with s k True show ?thesis
      by (cases bp) auto
  next
    case False
    then have f: "k ! 0 = 6"
      using key_family [OF nx k] by simp
    obtain bp where s: "viewStep nx nh6 np6 ip k (view6 v) = Some bp" "building nx 6 nh6 np6 (seen @ [ip]) bp"
      "\<not> nh6 \<Longrightarrow> fst bp = iv_buckets6 v" "\<not> np6 \<Longrightarrow> snd bp = iv_precise6 v"
      using viewStep_building [OF Cons.prems(3) k f a] by (metis fst_conv snd_conv)
    let ?v = "v\<lparr>iv_buckets6 := fst bp, iv_precise6 := snd bp\<rparr>"
    have "building nx 4 nh4 np4 (seen @ [ip]) (view4 ?v)"
      using Cons.prems(2) building_skip [OF k, of 4 nx] f by simp
    from Cons.IH [OF valid this] s(2) obtain v' where "viewLoop nx nh4 nh6 np4 np6 ips ?v = Some v'"
      "building nx 4 nh4 np4 (seen @ ip # ips) (view4 v')" "building nx 6 nh6 np6 (seen @ ip # ips) (view6 v')"
      "\<not> nh4 \<longrightarrow> iv_buckets4 v' = iv_buckets4 v" "\<not> np4 \<longrightarrow> iv_precise4 v' = iv_precise4 v"
      "\<not> nh6 \<longrightarrow> iv_buckets6 v' = fst bp" "\<not> np6 \<longrightarrow> iv_precise6 v' = snd bp"
      by auto
    with s k f show ?thesis
      by (cases bp) auto
  qed
qed auto

text \<open>A family's view answers for every address of the family.\<close>

definition fam_all :: "'s netipx \<Rightarrow> 's HeuristicGeoIPMatcher \<Rightarrow> byte \<Rightarrow> bytes list \<Rightarrow> bool" where
  "fam_all nx m f ips \<longleftrightarrow> (\<forall>ip\<in>set ips. \<forall>k. prefixKeyFromIP ip = Some k \<longrightarrow> k ! 0 = f \<longrightarrow> H_Match nx m ip)"

lemma fam_buckets_all:
  assumes nx: "netipx_ok nx" and u: "uniform nx m" and c: "\<And>k. k ! 0 = f \<Longrightarrow> coarse m k" and b: "fam_buckets nx f ips b"
  shows "list_all (\<lambda>(_, ipx). matchAddr nx m ipx) b \<longleftrightarrow> fam_all nx m f ips"
proof
  assume all: "list_all (\<lambda>(_, ipx). matchAddr nx m ipx) b"
  show "fam_all nx m f ips"
    unfolding fam_all_def
  proof (intro ballI allI impI)
    fix ip k assume ip: "ip \<in> set ips" and k: "prefixKeyFromIP ip = Some k" and f: "k ! 0 = f"
    obtain a where e: "(k, a) \<in> set b"
      using fam_buckets_key [OF b ip k f] by auto
    then obtain ip0 where "prefixKeyFromIP ip0 = Some k" "FromStdIP nx ip0 = Some a"
      using fam_buckets_entry [OF b] by blast
    moreover have "matchAddr nx m a"
      using all e by (auto simp: list_all_iff)
    ultimately show "H_Match nx m ip"
      using same_key [OF nx u c [OF f] k] by (simp add: H_Match_addr)
  qed
next
  assume all: "fam_all nx m f ips"
  have "matchAddr nx m a" if mem: "(k, a) \<in> set b" for k a
  proof -
    obtain ip where "k ! 0 = f" "ip \<in> set ips" "prefixKeyFromIP ip = Some k" "FromStdIP nx ip = Some a"
      using fam_buckets_entry [OF b mem] by blast
    with all show ?thesis
      unfolding fam_all_def by (metis H_Match_addr)
  qed
  then show "list_all (\<lambda>(_, ipx). matchAddr nx m ipx) b"
    by (auto simp: list_all_iff)
qed

lemma fam_precise_all:
  assumes nx: "netipx_ok nx" and p: "fam_precise nx f ips p"
  shows "list_all (matchAddr nx m) p \<longleftrightarrow> fam_all nx m f ips"
proof -
  have "list_all (matchAddr nx m) p \<longleftrightarrow> (\<forall>ip\<in>set ips. \<forall>k a. prefixKeyFromIP ip = Some k \<and> k ! 0 = f
      \<and> FromStdIP nx ip = Some a \<longrightarrow> matchAddr nx m a)"
    using p unfolding fam_precise_def list_all_iff by blast
  also have "\<dots> \<longleftrightarrow> fam_all nx m f ips"
  proof -
    have "(\<forall>a. FromStdIP nx ip = Some a \<longrightarrow> matchAddr nx m a) \<longleftrightarrow> H_Match nx m ip" if "prefixKeyFromIP ip = Some k" for ip k
      using that key_iff_addr [OF nx, of ip] by (auto simp: H_Match_def split: option.splits)
    then show ?thesis
      unfolding fam_all_def by blast
  qed
  finally show ?thesis .
qed

definition views_ok :: "'s netipx \<Rightarrow> bytes list \<Rightarrow> ipViews \<Rightarrow> bool" where
  "views_ok nx ips v \<longleftrightarrow> fam_view nx 4 ips (view4 v) \<and> fam_view nx 6 ips (view6 v)"

lemma building_start:
  "building nx f nh np [] (if nh then Some [] else b, if np then Some [] else p)"
  by (simp add: building_def fam_buckets_def fam_precise_def)

lemma fam_view_built:
  assumes "fam_view nx f ips bp" and "building nx f nh np ips bp'" and "\<not> nh \<longrightarrow> fst bp' = fst bp" and "\<not> np \<longrightarrow> snd bp' = snd bp"
  shows "fam_view nx f ips bp'"
  using assms unfolding fam_view_def building_def by (metis option.inject)

text \<open>What a matcher finds ready after \<open>ensureForMatcher\<close>.\<close>

definition ready :: "bool \<Rightarrow> (bytes \<times> Addr) list option \<times> Addr list option \<Rightarrow> bool" where
  "ready h bp \<longleftrightarrow> (if h then fst bp \<noteq> None else snd bp \<noteq> None)"

lemma built_ready:
  assumes "building nx f nh np ips bp'" and "nh \<longleftrightarrow> h \<and> fst bp = None" and "np \<longleftrightarrow> \<not> h \<and> snd bp = None"
    and "\<not> nh \<longrightarrow> fst bp' = fst bp" and "\<not> np \<longrightarrow> snd bp' = snd bp"
  shows "ready h bp'"
  using assms unfolding building_def ready_def by (cases h) auto

lemma ensureForMatcher_ok:
  assumes nx: "netipx_ok nx" and valid: "\<forall>ip\<in>set ips. valid_ip nx ip" and v: "views_ok nx ips v"
  obtains v' where "ensureForMatcher nx m ips v = Some v'" and "views_ok nx ips v'"
    and "ready (heur4 m) (view4 v')" and "ready (heur6 m) (view6 v')"
proof -
  define nh4 nh6 np4 np6 where needs: "nh4 = (heur4 m \<and> iv_buckets4 v = None)" "nh6 = (heur6 m \<and> iv_buckets6 v = None)"
    "np4 = (\<not> heur4 m \<and> iv_precise4 v = None)" "np6 = (\<not> heur6 m \<and> iv_precise6 v = None)"
  show ?thesis
  proof (cases "\<not> nh4 \<and> \<not> nh6 \<and> \<not> np4 \<and> \<not> np6")
    case True
    then have "ensureForMatcher nx m ips v = Some v" "ready (heur4 m) (view4 v)" "ready (heur6 m) (view6 v)"
      by (auto simp: ensureForMatcher_def needs ready_def)
    with v that show ?thesis
      by blast
  next
    case False
    define w where "w = \<lparr>iv_buckets4 = (if nh4 then Some [] else iv_buckets4 v), iv_buckets6 = (if nh6 then Some [] else iv_buckets6 v),
      iv_precise4 = (if np4 then Some [] else iv_precise4 v), iv_precise6 = (if np6 then Some [] else iv_precise6 v)\<rparr>"
    have e: "ensureForMatcher nx m ips v = viewLoop nx nh4 nh6 np4 np6 ips w"
      using False unfolding ensureForMatcher_def Let_def needs [symmetric] w_def by (cases v) auto
    have "building nx 4 nh4 np4 [] (view4 w)" "building nx 6 nh6 np6 [] (view6 w)"
      unfolding w_def ipViews.select_convs by (rule building_start)+
    then obtain v' where v': "viewLoop nx nh4 nh6 np4 np6 ips w = Some v'"
      "building nx 4 nh4 np4 ips (view4 v')" "building nx 6 nh6 np6 ips (view6 v')"
      "\<not> nh4 \<longrightarrow> iv_buckets4 v' = iv_buckets4 w" "\<not> np4 \<longrightarrow> iv_precise4 v' = iv_precise4 w"
      "\<not> nh6 \<longrightarrow> iv_buckets6 v' = iv_buckets6 w" "\<not> np6 \<longrightarrow> iv_precise6 v' = iv_precise6 w"
      using viewLoop_ok [OF nx valid, of nh4 np4 "[]" w nh6 np6] by auto
    then have same: "\<not> nh4 \<longrightarrow> fst (view4 v') = fst (view4 v)" "\<not> np4 \<longrightarrow> snd (view4 v') = snd (view4 v)"
      "\<not> nh6 \<longrightarrow> fst (view6 v') = fst (view6 v)" "\<not> np6 \<longrightarrow> snd (view6 v') = snd (view6 v)"
      by (simp_all add: w_def)
    have "views_ok nx ips v'"
      using v fam_view_built [OF _ v'(2) same(1,2)] fam_view_built [OF _ v'(3) same(3,4)] by (simp add: views_ok_def)
    moreover have "ready (heur4 m) (view4 v')"
      by (rule built_ready [OF v'(2) _ _ same(1,2)]) (simp_all add: needs)
    moreover have "ready (heur6 m) (view6 v')"
      by (rule built_ready [OF v'(3) _ _ same(3,4)]) (simp_all add: needs)
    ultimately show ?thesis
      using that e v'(1) by simp
  qed
qed

lemma fam_view_all:
  assumes "netipx_ok nx" and "uniform nx m" and "\<And>k. h \<Longrightarrow> k ! 0 = f \<Longrightarrow> coarse m k"
    and "fam_view nx f ips bp" and "ready h bp"
  shows "(if h then list_all (\<lambda>(_, ipx). matchAddr nx m ipx) (the (fst bp)) else list_all (matchAddr nx m) (the (snd bp)))
    \<longleftrightarrow> fam_all nx m f ips"
proof (cases h)
  case True
  then obtain b where "fst bp = Some b"
    using assms(5) by (auto simp: ready_def)
  then show ?thesis
    using True assms(4) fam_buckets_all [OF assms(1,2) assms(3) [OF True]] by (simp add: fam_view_def)
next
  case False
  then obtain p where "snd bp = Some p"
    using assms(5) by (auto simp: ready_def)
  then show ?thesis
    using False assms(4) fam_precise_all [OF assms(1)] by (simp add: fam_view_def)
qed

lemma viewMatches_iff:
  assumes nx: "netipx_ok nx" and u: "uniform nx m" and valid: "\<forall>ip\<in>set ips. valid_ip nx ip"
    and "views_ok nx ips v" and "ready (heur4 m) (view4 v)" and "ready (heur6 m) (view6 v)"
  shows "viewMatches nx m v \<longleftrightarrow> (\<forall>ip\<in>set ips. H_Match nx m ip)"
proof -
  have "viewMatches nx m v \<longleftrightarrow> fam_all nx m 4 ips \<and> fam_all nx m 6 ips"
    using assms(4) unfolding viewMatches_def views_ok_def
    by (intro arg_cong2 [where f = "(\<and>)"] fam_view_all [OF nx u, of _ _ ips "view4 v", OF _ _ assms(5), unfolded fst_conv snd_conv]
       fam_view_all [OF nx u, of _ _ ips "view6 v", OF _ _ assms(6), unfolded fst_conv snd_conv]) (auto simp: coarse_def)
  also have "\<dots> \<longleftrightarrow> (\<forall>ip\<in>set ips. H_Match nx m ip)"
  proof -
    have "\<exists>k. prefixKeyFromIP ip = Some k \<and> (k ! 0 = 4 \<or> k ! 0 = 6)" if "ip \<in> set ips" for ip
      using valid that key_iff_addr [OF nx, of ip] key_family [OF nx, of ip] by (auto simp: valid_ip_def)
    then show ?thesis
      unfolding fam_all_def by blast
  qed
  finally show ?thesis .
qed

lemma viewLoop_invalid:
  assumes nx: "netipx_ok nx"
  shows "\<exists>ip\<in>set ips. \<not> valid_ip nx ip \<Longrightarrow> viewLoop nx nh4 nh6 np4 np6 ips v = None"
proof (induction ips arbitrary: v)
  case (Cons ip ips)
  show ?case
  proof (cases "valid_ip nx ip")
    case True
    with Cons show ?thesis
      by (auto split: option.splits)
  next
    case False
    then have "prefixKeyFromIP ip = None"
      using key_iff_addr [OF nx] by (simp add: valid_ip_def)
    then show ?thesis
      by simp
  qed
qed simp

lemma ensure_noViews: "\<exists>nh4 nh6 np4 np6 v. ensureForMatcher nx m ips noViews = viewLoop nx nh4 nh6 np4 np6 ips v"
proof -
  have "heur4 m \<or> \<not> heur4 m"
    by simp
  then show ?thesis
    unfolding ensureForMatcher_def noViews_def Let_def by simp blast
qed

lemma matchesMulti_iff:
  assumes nx: "netipx_ok nx" and valid: "\<forall>ip\<in>set ips. valid_ip nx ip"
  shows "\<forall>m\<in>set mm. uniform nx m \<Longrightarrow> views_ok nx ips v \<Longrightarrow>
    matchesMulti nx mm ips v \<longleftrightarrow> (\<exists>m\<in>set mm. \<forall>ip\<in>set ips. H_Match nx m ip)"
proof (induction mm arbitrary: v)
  case (Cons m mm)
  obtain v' where v': "ensureForMatcher nx m ips v = Some v'" "views_ok nx ips v'"
    "ready (heur4 m) (view4 v')" "ready (heur6 m) (view6 v')"
    using ensureForMatcher_ok [OF nx valid Cons.prems(2)] .
  have "viewMatches nx m v' \<longleftrightarrow> (\<forall>ip\<in>set ips. H_Match nx m ip)"
    using viewMatches_iff [OF nx _ valid v'(2-)] Cons.prems(1) by simp
  moreover have "matchesMulti nx mm ips v' \<longleftrightarrow> (\<exists>m\<in>set mm. \<forall>ip\<in>set ips. H_Match nx m ip)"
    using Cons.IH [OF _ v'(2)] Cons.prems(1) by simp
  ultimately show ?case
    using v'(1) by auto
qed simp

lemma HM_Matches_iff:
  assumes nx: "netipx_ok nx" and u: "\<forall>m\<in>set mm. uniform nx m"
  shows "HM_Matches nx mm ips \<longleftrightarrow> ips \<noteq> [] \<and> (\<exists>m\<in>set mm. \<forall>ip\<in>set ips. H_Match nx m ip)"
proof -
  consider "ips = []" | ip where "ips = [ip]" | "length ips > 1"
    by (cases ips rule: remdups_adj.cases) auto
  then show ?thesis
  proof cases
    case 3
    then have multi: "HM_Matches nx mm ips = matchesMulti nx mm ips noViews" "ips \<noteq> []"
      by (auto simp: HM_Matches_def)
    show ?thesis
    proof (cases "\<forall>ip\<in>set ips. valid_ip nx ip")
      case True
      have "views_ok nx ips noViews"
        by (simp add: views_ok_def fam_view_def noViews_def)
      from matchesMulti_iff [OF nx True u this] multi show ?thesis
        by simp
    next
      case False
      then have "\<forall>m. \<not> (\<forall>ip\<in>set ips. H_Match nx m ip)"
        by (metis H_Match_invalid valid_ip_def)
      moreover have "\<not> matchesMulti nx mm ips noViews"
      proof (cases mm)
        case (Cons m ms)
        obtain nh4 nh6 np4 np6 v where "ensureForMatcher nx m ips noViews = viewLoop nx nh4 nh6 np4 np6 ips v"
          using ensure_noViews by blast
        also have "\<dots> = None"
          using viewLoop_invalid [OF nx] False by blast
        finally show ?thesis
          by (simp add: Cons)
      qed simp
      ultimately show ?thesis
        using multi by blast
    qed
  qed (auto simp: HM_Matches_def HM_Match_iff)
qed

section \<open>Sets built from CIDR lists\<close>

text \<open>A prefix no longer than a whole number of bytes only reads those bytes.\<close>

lemma byte_bits_length [simp]: "length (byte_bits b) = 8"
  by (simp add: byte_bits_def)

lemma addr_bits_take: "take (8 * n) (addr_bits x) = addr_bits (take n x)"
proof (induction n arbitrary: x)
  case (Suc n)
  then show ?case
    by (cases x) (simp_all add: addr_bits_def)
qed (simp add: addr_bits_def)

lemma take_bits_same:
  assumes "take n x = take n y" and "b \<le> 8 * n"
  shows "take b (addr_bits x) = take b (addr_bits y)"
proof -
  have "take b (addr_bits z) = take b (addr_bits (take n z))" for z
    using assms(2) by (simp flip: addr_bits_take add: min_def)
  then show ?thesis
    using assms(1) by metis
qed

lemma Contains_ok: "netipx_ok nx \<Longrightarrow> IPSet_Contains nx s a \<longleftrightarrow> (\<exists>p\<in>set (IPSet_Prefixes nx s). prefix_has p a)"
  and Prefixes_ok: "netipx_ok nx \<Longrightarrow> (p, b) \<in> set (IPSet_Prefixes nx s) \<Longrightarrow> b \<le> BitLen p"
  unfolding netipx_ok_def valid_prefixes_def by blast+

lemma IPSetBuilder_ok:
  assumes "netipx_ok nx" and "valid_prefixes ps"
  obtains s where "IPSetBuilder nx ps = Ok s" and "\<forall>a. IPSet_Contains nx s a \<longleftrightarrow> (\<exists>p\<in>set ps. prefix_has p a)"
  using assms unfolding netipx_ok_def by blast

text \<open>The recorded maximum bounds every prefix of the set.\<close>

lemma foldl_max: "foldl (\<lambda>m (_, b). if b > m then b else m) m ps = fold max (map snd ps) (m :: nat)"
  by (induction ps arbitrary: m) (auto simp: max_def)

lemma maxBits_bound:
  assumes bounded: "\<forall>(p, b)\<in>set ps. b \<le> 128" and small: "maxBits ps \<le> word_of_nat n" "n < 255"
  shows "\<forall>(p, b)\<in>set ps. b \<le> n"
proof -
  define m where "m = fold max (map snd ps) 0"
  have eq: "m = Max (set (0 # map snd ps))"
    unfolding m_def by (simp only: Max.set_eq_fold)
  then have "m \<in> set (0 # map snd ps)"
    using Max_in [of "set (0 # map snd ps)"] by simp
  then have m: "m \<le> 128"
    using bounded by auto
  have n: "unat (word_of_nat n :: byte) = n"
    using small(2) by (simp add: unat_of_nat)
  have "maxBits ps = word_of_nat (if m = 0 then 0xff else m)"
    by (simp add: maxBits_def foldl_max m_def Let_def)
  moreover have "m \<noteq> 0"
  proof
    assume "m = 0"
    with calculation small(1) n have "unat (word_of_nat 0xff :: byte) \<le> n"
      by (simp add: word_le_nat_alt)
    with small(2) show False
      by (simp add: unat_of_nat)
  qed
  ultimately have "unat (word_of_nat m :: byte) \<le> n"
    using small(1) n by (simp add: word_le_nat_alt)
  then have "m \<le> n"
    using m by (simp add: unat_of_nat)
  moreover have "b \<le> m" if "(p, b) \<in> set ps" for p b
    using that unfolding eq by (intro Max_ge) force+
  ultimately show ?thesis
    by fastforce
qed

definition set_ok :: "'s netipx \<Rightarrow> 's GeoIPSet \<Rightarrow> bool" where
  "set_ok nx s \<longleftrightarrow> gs_max4 s = maxBits (IPSet_Prefixes nx (gs_ipv4 s)) \<and> gs_max6 s = maxBits (IPSet_Prefixes nx (gs_ipv6 s))"

lemma Contains_same:
  assumes nx: "netipx_ok nx" and max: "maxBits (IPSet_Prefixes nx s) \<le> word_of_nat (8 * n)" "8 * n < 255" and eq: "take n x = take n y"
  shows "IPSet_Contains nx s (Addr4 x) = IPSet_Contains nx s (Addr4 y)"
    and "IPSet_Contains nx s (Addr6 x) = IPSet_Contains nx s (Addr6 y)"
proof -
  have "\<forall>(p, b)\<in>set (IPSet_Prefixes nx s). b \<le> 128"
    using Prefixes_ok [OF nx] by (fastforce simp: BitLen_def split: if_splits)
  then have b: "\<forall>(p, b)\<in>set (IPSet_Prefixes nx s). b \<le> 8 * n"
    using max by (rule maxBits_bound)
  have h: "prefix_has p (Addr4 x) = prefix_has p (Addr4 y) \<and> prefix_has p (Addr6 x) = prefix_has p (Addr6 y)"
    if "p \<in> set (IPSet_Prefixes nx s)" for p
  proof -
    obtain a k where p: "p = (a, k)"
      by (cases p)
    then have "k \<le> 8 * n"
      using b that by blast
    with eq have "take k (addr_bits x) = take k (addr_bits y)"
      by (rule take_bits_same)
    then show ?thesis
      by (cases a) (simp_all add: p)
  qed
  show "IPSet_Contains nx s (Addr4 x) = IPSet_Contains nx s (Addr4 y)"
    and "IPSet_Contains nx s (Addr6 x) = IPSet_Contains nx s (Addr6 y)"
    using h by (auto simp: Contains_ok [OF nx])
qed

lemma set_ok_uniform:
  assumes nx: "netipx_ok nx" and s: "set_ok nx (hm_ipset m)"
  shows "uniform nx m"
  unfolding uniform_def
proof (intro conjI impI allI)
  fix x y :: bytes
  assume "heur4 m" and eq: "take 3 x = take 3 y"
  then have "maxBits (IPSet_Prefixes nx (gs_ipv4 (hm_ipset m))) \<le> word_of_nat (8 * 3)"
    using s by (simp add: set_ok_def)
  from Contains_same(1) [OF nx this _ eq] show "matchAddr nx m (Addr4 x) = matchAddr nx m (Addr4 y)"
    by simp
next
  fix x y :: bytes
  assume "heur6 m" and eq: "take 8 x = take 8 y"
  then have "maxBits (IPSet_Prefixes nx (gs_ipv6 (hm_ipset m))) \<le> word_of_nat (8 * 8)"
    using s by (simp add: set_ok_def)
  from Contains_same(2) [OF nx this _ eq] show "matchAddr nx m (Addr6 x) = matchAddr nx m (Addr6 y)"
    by simp
qed

text \<open>The address lies in one of the CIDR entries.\<close>

definition cidrs_have :: "CIDR list \<Rightarrow> Addr \<Rightarrow> bool" where
  "cidrs_have cs a \<longleftrightarrow> (\<exists>p\<in>set (List.map_filter cidrPrefix cs). prefix_has p a)"

definition set_for :: "'s netipx \<Rightarrow> CIDR list \<Rightarrow> 's GeoIPSet \<Rightarrow> bool" where
  "set_for nx cs s \<longleftrightarrow> set_ok nx s \<and> (\<forall>a. IPSet_Contains nx (if Is4 a then gs_ipv4 s else gs_ipv6 s) a \<longleftrightarrow> cidrs_have cs a)"

lemma cidrPrefix_bits: "cidrPrefix c = Some (p, b) \<Longrightarrow> b \<le> BitLen p"
  by (auto simp: cidrPrefix_def split: option.splits if_splits)

lemma cidrPrefix_valid: "valid_prefixes (filter P (List.map_filter cidrPrefix cs))"
proof -
  have "set (List.map_filter cidrPrefix cs) \<subseteq> {p. \<exists>c. cidrPrefix c = Some p}"
    by (auto simp: List.map_filter_def)
  then show ?thesis
    using cidrPrefix_bits unfolding valid_prefixes_def by auto
qed

lemma Factory_Create_set:
  assumes nx: "netipx_ok nx"
  obtains s where "Factory_Create nx groups = Ok s" and "set_for nx (concat groups) s"
proof -
  define ps where "ps = List.map_filter cidrPrefix (concat groups)"
  obtain s4 where s4: "IPSetBuilder nx (filter (\<lambda>(a, _). Is4 a) ps) = Ok s4"
      "\<forall>a. IPSet_Contains nx s4 a \<longleftrightarrow> (\<exists>p\<in>set (filter (\<lambda>(a, _). Is4 a) ps). prefix_has p a)"
    by (rule IPSetBuilder_ok [OF nx cidrPrefix_valid [of "\<lambda>(a, _). Is4 a" "concat groups"], folded ps_def])
  obtain s6 where s6: "IPSetBuilder nx (filter (\<lambda>(a, _). \<not> Is4 a) ps) = Ok s6"
      "\<forall>a. IPSet_Contains nx s6 a \<longleftrightarrow> (\<exists>p\<in>set (filter (\<lambda>(a, _). \<not> Is4 a) ps). prefix_has p a)"
    by (rule IPSetBuilder_ok [OF nx cidrPrefix_valid [of "\<lambda>(a, _). \<not> Is4 a" "concat groups"], folded ps_def])
  let ?s = "\<lparr>gs_ipv4 = s4, gs_ipv6 = s6, gs_max4 = maxBits (IPSet_Prefixes nx s4), gs_max6 = maxBits (IPSet_Prefixes nx s6)\<rparr>"
  have "Factory_Create nx groups = Ok ?s"
    by (simp add: Factory_Create_def ps_def [symmetric] s4 s6)
  moreover have same: "prefix_has p a \<Longrightarrow> Is4 (fst p) = Is4 a" for p a
    by (cases "(p, a)" rule: prefix_has.cases) auto
  have four: "IPSet_Contains nx s4 a \<longleftrightarrow> (\<exists>p\<in>set ps. prefix_has p a)" if "Is4 a" for a
    using same [of _ a] that unfolding s4(2) [rule_format] by force
  have six: "IPSet_Contains nx s6 a \<longleftrightarrow> (\<exists>p\<in>set ps. prefix_has p a)" if "\<not> Is4 a" for a
    using same [of _ a] that unfolding s6(2) [rule_format] by force
  have "set_for nx (concat groups) ?s"
    unfolding set_for_def cidrs_have_def ps_def [symmetric]
  proof (intro conjI allI)
    show "set_ok nx ?s"
      by (simp add: set_ok_def)
    show "IPSet_Contains nx (if Is4 a then gs_ipv4 ?s else gs_ipv6 ?s) a \<longleftrightarrow> (\<exists>p\<in>set ps. prefix_has p a)" for a
      by (cases "Is4 a") (simp_all add: four six)
  qed
  ultimately show ?thesis
    by (rule that)
qed

lemma H_Match_set_for:
  assumes "netipx_ok nx" and "set_for nx cs (hm_ipset m)"
  shows "H_Match nx m ip \<longleftrightarrow> (\<exists>a. FromStdIP nx ip = Some a \<and> (cidrs_have cs a \<noteq> hm_reverse m))"
proof -
  have "matchAddr nx m a \<longleftrightarrow> (cidrs_have cs a \<noteq> hm_reverse m)" for a
  proof -
    have "IPSet_Contains nx (if Is4 a then gs_ipv4 (hm_ipset m) else gs_ipv6 (hm_ipset m)) a \<longleftrightarrow> cidrs_have cs a"
      using assms(2) unfolding set_for_def by blast
    then show ?thesis
      by (cases a) simp_all
  qed
  then show ?thesis
    by (auto simp: H_Match_def split: option.splits)
qed

lemma cidrs_have_concat: "cidrs_have (concat css) a \<longleftrightarrow> (\<exists>cs\<in>set css. cidrs_have cs a)"
  by (auto simp: cidrs_have_def List.map_filter_def)

text \<open>The cache key separates codes that have no comma.\<close>

definition codesKey :: "string list \<Rightarrow> string" where
  "codesKey codes = concat (map (\<lambda>c. c @ '','') codes)"

definition plain_codes :: "string list \<Rightarrow> bool" where
  "plain_codes codes \<longleftrightarrow> (\<forall>c\<in>set codes. CHR '','' \<notin> set c)"

lemma code_comma_inj:
  "CHR '','' \<notin> set c \<Longrightarrow> CHR '','' \<notin> set d \<Longrightarrow> c @ CHR '','' # xs = d @ CHR '','' # ys \<Longrightarrow> c = d \<and> xs = ys"
proof (induction c arbitrary: d)
  case Nil
  then show ?case
    by (cases d) auto
next
  case (Cons x c)
  then show ?case
    by (cases d) auto
qed

lemma codesKey_inj: "plain_codes cs \<Longrightarrow> plain_codes ds \<Longrightarrow> codesKey cs = codesKey ds \<Longrightarrow> cs = ds"
proof (induction cs arbitrary: ds)
  case Nil
  then show ?case
    by (cases ds) (auto simp: codesKey_def)
next
  case (Cons c cs)
  then obtain d ds' where ds: "ds = d # ds'"
    by (cases ds) (auto simp: codesKey_def)
  have "c = d \<and> codesKey cs = codesKey ds'"
    using Cons.prems by (intro code_comma_inj) (auto simp: ds codesKey_def plain_codes_def)
  with Cons show ?case
    by (auto simp: ds plain_codes_def)
qed

text \<open>The cache holds, under a key, the set of the codes of the key.\<close>

definition cache_ok :: "'s netipx \<Rightarrow> (string \<Rightarrow> CIDR list) \<Rightarrow> 's shared \<Rightarrow> bool" where
  "cache_ok nx db shared \<longleftrightarrow> (\<forall>key s. map_of shared key = Some s \<longrightarrow>
     (\<exists>codes. plain_codes codes \<and> key = codesKey codes \<and> set_for nx (concat (map db codes)) s))"

lemma GetOrCreate_ok:
  assumes nx: "netipx_ok nx" and sh: "cache_ok nx db shared" and codes: "plain_codes codes"
  obtains s shared' where "GetOrCreate nx (codesKey codes) (map db codes) shared = (Ok s, shared')"
    and "set_for nx (concat (map db codes)) s" and "cache_ok nx db shared'"
proof (cases "map_of shared (codesKey codes)")
  case (Some s)
  then obtain codes' where "plain_codes codes'" "codesKey codes = codesKey codes'" "set_for nx (concat (map db codes')) s"
    using sh unfolding cache_ok_def by blast
  with codes have "set_for nx (concat (map db codes)) s"
    using codesKey_inj by blast
  then show ?thesis
    using that [of s shared] Some sh by (simp add: GetOrCreate_def)
next
  case None
  obtain s where s: "Factory_Create nx (map db codes) = Ok s" "set_for nx (concat (map db codes)) s"
    using Factory_Create_set [OF nx] .
  have "cache_ok nx db (AList.update (codesKey codes) s shared)"
    using sh codes s(2) unfolding cache_ok_def update_conv fun_upd_apply by (metis option.inject)
  then show ?thesis
    using that s None by (simp add: GetOrCreate_def)
qed

text \<open>The entries of the configuration agree with a database of codes.\<close>

definition entries_ok :: "(string \<Rightarrow> CIDR list) \<Rightarrow> GeoIP list \<Rightarrow> bool" where
  "entries_ok db gs \<longleftrightarrow> (\<forall>g\<in>set gs. geo_CountryCode g \<noteq> [] \<longrightarrow> CHR '','' \<notin> set (geo_CountryCode g)
     \<and> geo_Cidr g = db (geo_CountryCode g))"

lemma dedupCodes_subset: "set (dedupCodes prev gs) \<subseteq> set gs"
  by (induction prev gs rule: dedupCodes.induct) auto

lemma dedupCodes_Some:
  "insert c (geo_CountryCode ` set (dedupCodes (Some c) gs)) = insert c (geo_CountryCode ` set gs)"
proof (induction gs arbitrary: c)
  case (Cons g gs)
  show ?case
    using Cons [of c] Cons [of "geo_CountryCode g"] by (cases "c = geo_CountryCode g") simp_all
qed simp

lemma dedupCodes_codes: "geo_CountryCode ` set (dedupCodes None gs) = geo_CountryCode ` set gs"
  using dedupCodes_Some by (cases gs) simp_all

lemma buildIPSet_ok:
  assumes nx: "netipx_ok nx" and sh: "cache_ok nx db shared" and sort: "\<forall>gs. mset (sortByCode gs) = mset gs"
    and gs: "entries_ok db gs" "\<forall>g\<in>set gs. geo_CountryCode g \<noteq> []" "gs \<noteq> []"
  obtains s cs shared' where "buildIPSet nx sortByCode gs shared = (Ok (Some s), shared')" and "cache_ok nx db shared'"
    and "set_for nx cs s" and "\<forall>a. cidrs_have cs a \<longleftrightarrow> (\<exists>g\<in>set gs. cidrs_have (geo_Cidr g) a)"
proof -
  define groups where "groups = dedupCodes None (sortByCode gs)"
  define codes where "codes = map geo_CountryCode groups"
  have sorted: "set (sortByCode gs) = set gs"
    using sort by (metis mset_eq_setD)
  have groups: "set groups \<subseteq> set gs" "geo_CountryCode ` set groups = geo_CountryCode ` set gs"
    using dedupCodes_subset [of None "sortByCode gs"] dedupCodes_codes [of "sortByCode gs"] sorted by (auto simp: groups_def)
  then have db: "map geo_Cidr groups = map db codes" and plain: "plain_codes codes"
    using gs(1,2) by (auto simp: codes_def entries_ok_def plain_codes_def)
  have key: "concat (map (\<lambda>g. geo_CountryCode g @ '','') groups) = codesKey codes"
    by (simp add: codesKey_def codes_def comp_def)
  obtain s shared' where g: "GetOrCreate nx (codesKey codes) (map db codes) shared = (Ok s, shared')"
    and s: "set_for nx (concat (map db codes)) s" "cache_ok nx db shared'"
    using GetOrCreate_ok [OF nx sh plain] .
  have "buildIPSet nx sortByCode gs shared = (Ok (Some s), shared')"
    using gs(3) by (simp add: buildIPSet_def Let_def groups_def [symmetric] key db g)
  moreover have "\<forall>a. cidrs_have (concat (map db codes)) a \<longleftrightarrow> (\<exists>g\<in>set gs. cidrs_have (geo_Cidr g) a)"
  proof
    fix a
    have "cidrs_have (concat (map db codes)) a \<longleftrightarrow> (\<exists>c\<in>geo_CountryCode ` set gs. cidrs_have (db c) a)"
      by (simp only: cidrs_have_concat set_map codes_def groups(2) image_image bex_simps)
    also have "\<dots> \<longleftrightarrow> (\<exists>g\<in>set gs. cidrs_have (geo_Cidr g) a)"
      using gs(1,2) by (auto simp: entries_ok_def)
    finally show "cidrs_have (concat (map db codes)) a \<longleftrightarrow> (\<exists>g\<in>set gs. cidrs_have (geo_Cidr g) a)" .
  qed
  ultimately show ?thesis
    using that s by blast
qed

text \<open>Which addresses a configuration asks for.\<close>

definition geo_reference :: "GeoIP list \<Rightarrow> Addr \<Rightarrow> bool" where
  "geo_reference gs a \<longleftrightarrow>
     (\<exists>g\<in>set gs. geo_CountryCode g = [] \<and> (cidrs_have (geo_Cidr g) a \<noteq> geo_ReverseMatch g))
     \<or> (\<exists>g\<in>set gs. geo_CountryCode g \<noteq> [] \<and> \<not> geo_ReverseMatch g \<and> cidrs_have (geo_Cidr g) a)
     \<or> (\<exists>g\<in>set gs. geo_CountryCode g \<noteq> [] \<and> geo_ReverseMatch g)
       \<and> (\<forall>g\<in>set gs. geo_CountryCode g \<noteq> [] \<and> geo_ReverseMatch g \<longrightarrow> \<not> cidrs_have (geo_Cidr g) a)"

definition sub_for :: "'s netipx \<Rightarrow> GeoIP \<Rightarrow> 's HeuristicGeoIPMatcher \<Rightarrow> bool" where
  "sub_for nx g m \<longleftrightarrow> set_for nx (geo_Cidr g) (hm_ipset m) \<and> hm_reverse m = geo_ReverseMatch g"

lemma splitGeoIPs_ok:
  assumes nx: "netipx_ok nx"
  shows "\<exists>ms. splitGeoIPs nx (map Some gs) subs pos neg =
      Ok (subs @ ms, pos @ filter (\<lambda>g. geo_CountryCode g \<noteq> [] \<and> \<not> geo_ReverseMatch g) gs,
          neg @ filter (\<lambda>g. geo_CountryCode g \<noteq> [] \<and> geo_ReverseMatch g) gs)
    \<and> list_all2 (sub_for nx) (filter (\<lambda>g. geo_CountryCode g = []) gs) ms"
proof (induction gs arbitrary: subs pos neg)
  case (Cons g gs)
  show ?case
  proof (cases "geo_CountryCode g = []")
    case True
    obtain s where s: "Factory_Create nx [geo_Cidr g] = Ok s" "set_for nx (geo_Cidr g) s"
      using Factory_Create_set [OF nx, of "[geo_Cidr g]"] by auto
    define m where "m = \<lparr>hm_ipset = s, hm_reverse = geo_ReverseMatch g\<rparr>"
    have m: "sub_for nx g m"
      using s(2) by (simp add: sub_for_def m_def)
    obtain ms where "splitGeoIPs nx (map Some gs) (subs @ [m]) pos neg =
        Ok ((subs @ [m]) @ ms, pos @ filter (\<lambda>g. geo_CountryCode g \<noteq> [] \<and> \<not> geo_ReverseMatch g) gs,
            neg @ filter (\<lambda>g. geo_CountryCode g \<noteq> [] \<and> geo_ReverseMatch g) gs)"
      "list_all2 (sub_for nx) (filter (\<lambda>g. geo_CountryCode g = []) gs) ms"
      using Cons [of "subs @ [m]" pos neg] by blast
    then show ?thesis
      using True s(1) m by (intro exI [of _ "m # ms"]) (simp add: m_def)
  next
    case False
    show ?thesis
      using False Cons [of subs "pos @ [g]" neg] Cons [of subs pos "neg @ [g]"] by (cases "geo_ReverseMatch g") simp_all
  qed
qed simp

text \<open>The sets of a built matcher.\<close>

fun submatchers :: "'s GeoIPMatcher \<Rightarrow> 's HeuristicGeoIPMatcher list" where
  "submatchers (HeuristicMatcher m) = [m]"
| "submatchers (HeuristicMulti mm) = mm"
| "submatchers (GeneralMulti gs) = concat (map submatchers gs)"

definition built_ok :: "'s netipx \<Rightarrow> 's GeoIPMatcher \<Rightarrow> bool" where
  "built_ok nx m \<longleftrightarrow> (\<forall>gs. m \<noteq> GeneralMulti gs) \<and> (\<forall>s\<in>set (submatchers m). set_ok nx (hm_ipset s))"

lemma built_match: "built_ok nx m \<Longrightarrow> Geo_Match nx m ip \<longleftrightarrow> (\<exists>s\<in>set (submatchers m). H_Match nx s ip)"
  by (cases m) (auto simp: built_ok_def HM_Match_iff)

lemma built_any:
  assumes "netipx_ok nx" and "built_ok nx m"
  shows "Geo_AnyMatch nx m ips \<longleftrightarrow> (\<exists>ip\<in>set ips. Geo_Match nx m ip)"
proof (cases m)
  case (HeuristicMatcher s)
  then show ?thesis
    using assms H_AnyMatch_iff [OF assms(1), of s] set_ok_uniform [OF assms(1), of s] by (simp add: built_ok_def)
next
  case (HeuristicMulti mm)
  then have "\<forall>s\<in>set mm. uniform nx s"
    using assms set_ok_uniform by (auto simp: built_ok_def)
  then show ?thesis
    using HM_AnyMatch_iff [OF assms(1)] HeuristicMulti by simp
qed (use assms in \<open>simp add: built_ok_def\<close>)

lemma built_all:
  assumes "netipx_ok nx" and "built_ok nx m"
  shows "Geo_Matches nx m ips \<longleftrightarrow> ips \<noteq> [] \<and> (\<exists>s\<in>set (submatchers m). \<forall>ip\<in>set ips. H_Match nx s ip)"
proof (cases m)
  case (HeuristicMatcher s)
  then show ?thesis
    using assms H_Matches_iff [OF assms(1), of s] set_ok_uniform [OF assms(1), of s] by (simp add: built_ok_def)
next
  case (HeuristicMulti mm)
  then have "\<forall>s\<in>set mm. uniform nx s"
    using assms set_ok_uniform by (auto simp: built_ok_def)
  then show ?thesis
    using HM_Matches_iff [OF assms(1)] HeuristicMulti by simp
qed (use assms in \<open>simp add: built_ok_def\<close>)

text \<open>The set of the positive, or of the negative, entries.\<close>

definition union_for :: "'s netipx \<Rightarrow> GeoIP list \<Rightarrow> 's GeoIPSet option \<Rightarrow> bool" where
  "union_for nx gs so \<longleftrightarrow> (case so of None \<Rightarrow> gs = []
     | Some s \<Rightarrow> gs \<noteq> [] \<and> (\<exists>cs. set_for nx cs s \<and> (\<forall>a. cidrs_have cs a \<longleftrightarrow> (\<exists>g\<in>set gs. cidrs_have (geo_Cidr g) a))))"

definition union_matcher :: "bool \<Rightarrow> 's GeoIPSet option \<Rightarrow> 's HeuristicGeoIPMatcher list" where
  "union_matcher r so = (case so of None \<Rightarrow> [] | Some s \<Rightarrow> [\<lparr>hm_ipset = s, hm_reverse = r\<rparr>])"

lemma buildIPSet_union:
  assumes "netipx_ok nx" and "cache_ok nx db shared" and "\<forall>gs. mset (sortByCode gs) = mset gs"
    and "entries_ok db gs" and "\<forall>g\<in>set gs. geo_CountryCode g \<noteq> []"
  obtains so shared' where "buildIPSet nx sortByCode gs shared = (Ok so, shared')" and "cache_ok nx db shared'" and "union_for nx gs so"
proof (cases "gs = []")
  case True
  then show ?thesis
    using that [of None shared] assms(2) by (simp add: buildIPSet_def union_for_def)
next
  case False
  from buildIPSet_ok [OF assms False] obtain s cs shared' where s: "buildIPSet nx sortByCode gs shared = (Ok (Some s), shared')"
    "cache_ok nx db shared'" "set_for nx cs s" "\<forall>a. cidrs_have cs a \<longleftrightarrow> (\<exists>g\<in>set gs. cidrs_have (geo_Cidr g) a)" .
  have "union_for nx gs (Some s)"
    using False s(3,4) unfolding union_for_def option.case by blast
  with s(1,2) show ?thesis
    by (rule that)
qed

lemma union_matcher_ok:
  assumes "netipx_ok nx" and "union_for nx gs so"
  shows "\<forall>s\<in>set (union_matcher r so). set_ok nx (hm_ipset s)"
    and "(\<exists>s\<in>set (union_matcher r so). H_Match nx s ip) \<longleftrightarrow>
      gs \<noteq> [] \<and> (\<exists>a. FromStdIP nx ip = Some a \<and> ((\<exists>g\<in>set gs. cidrs_have (geo_Cidr g) a) \<noteq> r))"
proof -
  have "(\<forall>s\<in>set (union_matcher r so). set_ok nx (hm_ipset s)) \<and> ((\<exists>s\<in>set (union_matcher r so). H_Match nx s ip) \<longleftrightarrow>
      gs \<noteq> [] \<and> (\<exists>a. FromStdIP nx ip = Some a \<and> ((\<exists>g\<in>set gs. cidrs_have (geo_Cidr g) a) \<noteq> r)))"
  proof (cases so)
    case (Some s)
    then obtain cs where cs: "set_for nx cs s" "\<And>a. cidrs_have cs a \<longleftrightarrow> (\<exists>g\<in>set gs. cidrs_have (geo_Cidr g) a)" "gs \<noteq> []"
      using assms(2) by (auto simp: union_for_def)
    have "H_Match nx \<lparr>hm_ipset = s, hm_reverse = r\<rparr> ip \<longleftrightarrow>
        (\<exists>a. FromStdIP nx ip = Some a \<and> ((\<exists>g\<in>set gs. cidrs_have (geo_Cidr g) a) \<noteq> r))"
      using H_Match_set_for [OF assms(1), of cs "\<lparr>hm_ipset = s, hm_reverse = r\<rparr>"] cs(1) by (simp add: cs(2))
    moreover have "set_ok nx s"
      using cs(1) by (simp add: set_for_def)
    ultimately show ?thesis
      using cs(3) by (simp add: union_matcher_def Some)
  qed (use assms(2) in \<open>simp add: union_for_def union_matcher_def\<close>)
  then show "\<forall>s\<in>set (union_matcher r so). set_ok nx (hm_ipset s)"
    and "(\<exists>s\<in>set (union_matcher r so). H_Match nx s ip) \<longleftrightarrow>
      gs \<noteq> [] \<and> (\<exists>a. FromStdIP nx ip = Some a \<and> ((\<exists>g\<in>set gs. cidrs_have (geo_Cidr g) a) \<noteq> r))"
    by blast+
qed

lemma subs_ok:
  assumes "netipx_ok nx" and "list_all2 (sub_for nx) gs ms"
  shows "\<forall>s\<in>set ms. set_ok nx (hm_ipset s)"
    and "(\<exists>s\<in>set ms. H_Match nx s ip) \<longleftrightarrow>
      (\<exists>a. FromStdIP nx ip = Some a \<and> (\<exists>g\<in>set gs. cidrs_have (geo_Cidr g) a \<noteq> geo_ReverseMatch g))"
proof -
  have one: "set_ok nx (hm_ipset s)" "H_Match nx s ip \<longleftrightarrow> (\<exists>a. FromStdIP nx ip = Some a \<and> (cidrs_have (geo_Cidr g) a \<noteq> geo_ReverseMatch g))"
    if "sub_for nx g s" for g s
    using that H_Match_set_for [OF assms(1), of "geo_Cidr g" s ip] by (simp_all add: sub_for_def set_for_def)
  show "\<forall>s\<in>set ms. set_ok nx (hm_ipset s)"
    using assms(2) by (induction rule: list_all2_induct) (auto dest: one(1))
  show "(\<exists>s\<in>set ms. H_Match nx s ip) \<longleftrightarrow>
      (\<exists>a. FromStdIP nx ip = Some a \<and> (\<exists>g\<in>set gs. cidrs_have (geo_Cidr g) a \<noteq> geo_ReverseMatch g))"
    using assms(2) by (induction rule: list_all2_induct) (auto simp: one(2))
qed

section \<open>A built matcher answers for its configuration\<close>

lemma reference_split:
  "geo_reference gs a \<longleftrightarrow>
     (\<exists>g\<in>set (filter (\<lambda>g. geo_CountryCode g = []) gs). cidrs_have (geo_Cidr g) a \<noteq> geo_ReverseMatch g)
     \<or> filter (\<lambda>g. geo_CountryCode g \<noteq> [] \<and> \<not> geo_ReverseMatch g) gs \<noteq> []
       \<and> ((\<exists>g\<in>set (filter (\<lambda>g. geo_CountryCode g \<noteq> [] \<and> \<not> geo_ReverseMatch g) gs). cidrs_have (geo_Cidr g) a) \<noteq> False)
     \<or> filter (\<lambda>g. geo_CountryCode g \<noteq> [] \<and> geo_ReverseMatch g) gs \<noteq> []
       \<and> ((\<exists>g\<in>set (filter (\<lambda>g. geo_CountryCode g \<noteq> [] \<and> geo_ReverseMatch g) gs). cidrs_have (geo_Cidr g) a) \<noteq> True)"
  unfolding geo_reference_def filter_empty_conv set_filter by blast

lemma BuildOptimized_split:
  assumes nx: "netipx_ok nx" and sh: "cache_ok nx db shared" and sort: "\<forall>gs. mset (sortByCode gs) = mset gs"
    and gs: "entries_ok db gs" "gs \<noteq> []"
  obtains ms sp sn shared' where "list_all2 (sub_for nx) (filter (\<lambda>g. geo_CountryCode g = []) gs) ms"
    and "union_for nx (filter (\<lambda>g. geo_CountryCode g \<noteq> [] \<and> \<not> geo_ReverseMatch g) gs) sp"
    and "union_for nx (filter (\<lambda>g. geo_CountryCode g \<noteq> [] \<and> geo_ReverseMatch g) gs) sn"
    and "cache_ok nx db shared'"
    and "BuildOptimizedGeoIPMatcher nx sortByCode (map Some gs) shared =
      (case ms @ union_matcher False sp @ union_matcher True sn of
         [] \<Rightarrow> Err (ErrMsg ''no valid geoip matcher'') | [m] \<Rightarrow> Ok (HeuristicMatcher m)
       | subs \<Rightarrow> Ok (HeuristicMulti subs), shared')"
proof -
  let ?pos = "filter (\<lambda>g. geo_CountryCode g \<noteq> [] \<and> \<not> geo_ReverseMatch g) gs"
  let ?neg = "filter (\<lambda>g. geo_CountryCode g \<noteq> [] \<and> geo_ReverseMatch g) gs"
  obtain ms where split: "splitGeoIPs nx (map Some gs) [] [] [] = Ok (ms, ?pos, ?neg)"
    and ms: "list_all2 (sub_for nx) (filter (\<lambda>g. geo_CountryCode g = []) gs) ms"
    using splitGeoIPs_ok [OF nx, of gs "[]" "[]" "[]"] by auto
  have e: "entries_ok db ?pos" "entries_ok db ?neg" "\<forall>g\<in>set ?pos. geo_CountryCode g \<noteq> []" "\<forall>g\<in>set ?neg. geo_CountryCode g \<noteq> []"
    using gs(1) by (simp_all add: entries_ok_def)
  obtain sp shared1 where sp: "buildIPSet nx sortByCode ?pos shared = (Ok sp, shared1)" "cache_ok nx db shared1" "union_for nx ?pos sp"
    using buildIPSet_union [OF nx sh sort e(1,3)] .
  obtain sn shared2 where sn: "buildIPSet nx sortByCode ?neg shared1 = (Ok sn, shared2)" "cache_ok nx db shared2" "union_for nx ?neg sn"
    using buildIPSet_union [OF nx sp(2) sort e(2,4)] .
  have "BuildOptimizedGeoIPMatcher nx sortByCode (map Some gs) shared =
      (case ms @ union_matcher False sp @ union_matcher True sn of
         [] \<Rightarrow> Err (ErrMsg ''no valid geoip matcher'') | [m] \<Rightarrow> Ok (HeuristicMatcher m)
       | subs \<Rightarrow> Ok (HeuristicMulti subs), shared2)"
    using gs(2) by (simp add: BuildOptimizedGeoIPMatcher_def split sp(1) sn(1) Let_def union_matcher_def split: list.split)
  with ms sp(3) sn(3) sn(2) show ?thesis
    by (rule that)
qed

lemma BuildOptimized_ok:
  assumes nx: "netipx_ok nx" and sh: "cache_ok nx db shared" and sort: "\<forall>gs. mset (sortByCode gs) = mset gs"
    and gs: "entries_ok db gs" "gs \<noteq> []"
  obtains m shared' where "BuildOptimizedGeoIPMatcher nx sortByCode (map Some gs) shared = (Ok m, shared')"
    and "cache_ok nx db shared'" and "built_ok nx m"
    and "\<forall>ip. Geo_Match nx m ip \<longleftrightarrow> (\<exists>a. FromStdIP nx ip = Some a \<and> geo_reference gs a)"
proof -
  obtain ms sp sn shared' where ms: "list_all2 (sub_for nx) (filter (\<lambda>g. geo_CountryCode g = []) gs) ms"
    and sp: "union_for nx (filter (\<lambda>g. geo_CountryCode g \<noteq> [] \<and> \<not> geo_ReverseMatch g) gs) sp"
    and sn: "union_for nx (filter (\<lambda>g. geo_CountryCode g \<noteq> [] \<and> geo_ReverseMatch g) gs) sn"
    and sh': "cache_ok nx db shared'"
    and b: "BuildOptimizedGeoIPMatcher nx sortByCode (map Some gs) shared =
      (case ms @ union_matcher False sp @ union_matcher True sn of
         [] \<Rightarrow> Err (ErrMsg ''no valid geoip matcher'') | [m] \<Rightarrow> Ok (HeuristicMatcher m)
       | subs \<Rightarrow> Ok (HeuristicMulti subs), shared')"
    using BuildOptimized_split [OF assms] .
  define subs where "subs = ms @ union_matcher False sp @ union_matcher True sn"
  have "subs \<noteq> []"
  proof
    assume "subs = []"
    then have "filter (\<lambda>g. geo_CountryCode g = []) gs = []" "sp = None" "sn = None"
      using ms by (auto simp: subs_def union_matcher_def split: option.splits)
    with sp sn have "\<forall>g\<in>set gs. False"
      by (auto simp: union_for_def filter_empty_conv)
    with gs(2) show False
      by simp
  qed
  then obtain m where m: "BuildOptimizedGeoIPMatcher nx sortByCode (map Some gs) shared = (Ok m, shared')"
    "submatchers m = subs" "\<forall>gs. m \<noteq> GeneralMulti gs"
    unfolding b subs_def [symmetric] by (cases subs rule: remdups_adj.cases) auto
  have "built_ok nx m"
    using m(2,3) subs_ok(1) [OF nx ms] union_matcher_ok(1) [OF nx sp] union_matcher_ok(1) [OF nx sn]
    unfolding built_ok_def m(2) subs_def set_append by blast
  moreover have "Geo_Match nx m ip \<longleftrightarrow> (\<exists>a. FromStdIP nx ip = Some a \<and> geo_reference gs a)" for ip
    unfolding built_match [OF calculation] m(2) subs_def set_append bex_Un subs_ok(2) [OF nx ms]
      union_matcher_ok(2) [OF nx sp] union_matcher_ok(2) [OF nx sn] reference_split
    by (cases "FromStdIP nx ip") (simp_all only: option.inject option.distinct simp_thms)
  ultimately show ?thesis
    by (intro that [OF m(1) sh'] allI)
qed

text \<open>C34. A matcher built by \<open>BuildOptimizedGeoIPMatcher\<close> from a non-empty list of entries matches
  exactly the addresses the entries ask for: those in (or, reversed, outside) the CIDR list of an entry without
  a code, those in a positive country, and those outside all negative countries. The build does not
  fail, keeps the cache of shared sets consistent, and the order in which it sorts entries plays no role. Entries
  with the same code have the same CIDR list everywhere, and codes contain no comma.\<close>

theorem geoip_matches_configuration:
  assumes "netipx_ok nx" and "cache_ok nx db shared" and "\<forall>gs. mset (sortByCode gs) = mset gs"
    and "entries_ok db gs" and "gs \<noteq> []"
  shows "\<exists>m shared'. BuildOptimizedGeoIPMatcher nx sortByCode (map Some gs) shared = (Ok m, shared') \<and> cache_ok nx db shared'
    \<and> (\<forall>ip. Geo_Match nx m ip \<longleftrightarrow> (\<exists>a. FromStdIP nx ip = Some a \<and> geo_reference gs a))"
proof -
  obtain m shared' where "BuildOptimizedGeoIPMatcher nx sortByCode (map Some gs) shared = (Ok m, shared')" "cache_ok nx db shared'"
      "\<forall>ip. Geo_Match nx m ip \<longleftrightarrow> (\<exists>a. FromStdIP nx ip = Some a \<and> geo_reference gs a)"
    by (rule BuildOptimized_ok [OF assms])
  then show ?thesis
    by (intro exI conjI)
qed

text \<open>The bucketed batch lookups agree with address-by-address lookup: a built matcher's \<open>AnyMatch\<close>
  holds when some address matches, and its \<open>Matches\<close> when there is an address and one of its sets
  matches them all, although both test one representative per /24 or /64 bucket only.\<close>

theorem geoip_batch_lookup:
  assumes "netipx_ok nx" and "cache_ok nx db shared" and "\<forall>gs. mset (sortByCode gs) = mset gs"
    and "entries_ok db gs" and "gs \<noteq> []"
  shows "\<exists>m shared'. BuildOptimizedGeoIPMatcher nx sortByCode (map Some gs) shared = (Ok m, shared')
    \<and> (\<forall>ips. Geo_AnyMatch nx m ips \<longleftrightarrow> (\<exists>ip\<in>set ips. Geo_Match nx m ip))
    \<and> (\<forall>ips. Geo_Matches nx m ips \<longleftrightarrow> ips \<noteq> [] \<and> (\<exists>s\<in>set (submatchers m). \<forall>ip\<in>set ips. H_Match nx s ip))"
proof -
  obtain m shared' where "BuildOptimizedGeoIPMatcher nx sortByCode (map Some gs) shared = (Ok m, shared')" "built_ok nx m"
    by (rule BuildOptimized_ok [OF assms])
  then show ?thesis
    by (intro exI conjI allI built_any [OF assms(1)] built_all [OF assms(1)])
qed

text \<open>Filtering with the set of one list of CIDR groups splits the valid addresses of the input into
  those that match and those that do not, each kept as often as it occurs; invalid addresses appear in
  neither part. The order of Go's map range only permutes the result.\<close>

theorem geoip_filter_splits:
  assumes "netipx_ok nx" and "Factory_Create nx groups = Ok s" and "\<forall>bs. mset (ranged bs) = mset bs"
  shows "mset (fst (H_FilterIPs ranged nx \<lparr>hm_ipset = s, hm_reverse = r\<rparr> ips)) =
      mset (filter (H_Match nx \<lparr>hm_ipset = s, hm_reverse = r\<rparr>) ips)
    \<and> mset (snd (H_FilterIPs ranged nx \<lparr>hm_ipset = s, hm_reverse = r\<rparr> ips)) =
      mset (filter (\<lambda>ip. FromStdIP nx ip \<noteq> None \<and> \<not> H_Match nx \<lparr>hm_ipset = s, hm_reverse = r\<rparr> ip) ips)"
proof -
  obtain s' where "Factory_Create nx groups = Ok s'" "set_for nx (concat groups) s'"
    using Factory_Create_set [OF assms(1)] .
  then have "set_ok nx s"
    using assms(2) by (simp add: set_for_def)
  then have "uniform nx \<lparr>hm_ipset = s, hm_reverse = r\<rparr>"
    by (intro set_ok_uniform [OF assms(1)]) simp
  from H_FilterIPs_mset [OF assms(1) this] show ?thesis
    using assms(3) by (simp add: valid_ip_def)
qed

text \<open>A concrete \<open>netipx\<close>: sets are the lists of their prefixes.\<close>

definition list_netipx :: "(Addr \<times> nat) list netipx" where
  "list_netipx = \<lparr>FromStdIP = (\<lambda>ip. case To4 ip of Some a \<Rightarrow> Some (Addr4 a) | None \<Rightarrow> map_option Addr6 (To16 ip)),
     IPSet_Contains = (\<lambda>s a. list_ex (\<lambda>(p, b). b \<le> BitLen p \<and> prefix_has (p, b) a) s),
     IPSet_Prefixes = filter (\<lambda>(p, b). b \<le> BitLen p), IPSetBuilder = Ok\<rparr>"

lemma list_netipx_ok: "netipx_ok list_netipx"
proof -
  have "(\<exists>x\<in>set s. case x of (p, b) \<Rightarrow> b \<le> BitLen p \<and> prefix_has (p, b) a) \<longleftrightarrow>
      (\<exists>p\<in>set (filter (\<lambda>(p, b). b \<le> BitLen p) s). prefix_has p a)" for s a
    by force
  moreover have "valid_prefixes ps \<Longrightarrow> filter (\<lambda>(p, b). b \<le> BitLen p) ps = ps" for ps
    by (auto simp: valid_prefixes_def)
  moreover have "valid_prefixes (filter (\<lambda>(p, b). b \<le> BitLen p) s)" for s
    by (simp add: valid_prefixes_def)
  ultimately show ?thesis
    unfolding netipx_ok_def list_netipx_def netipx.select_convs list_ex_iff by (auto simp only: sum.inject simp_thms)
qed

definition ten_net :: GeoIP where
  "ten_net = \<lparr>geo_CountryCode = ''xx'', geo_Cidr = [\<lparr>cidr_Ip = [10, 0, 0, 0], cidr_Prefix = 8\<rparr>], geo_ReverseMatch = False\<rparr>"

lemma ten_net_entries: "entries_ok (\<lambda>_. geo_Cidr ten_net) [ten_net]" and empty_cache: "cache_ok nx db []"
  by (simp_all add: entries_ok_def ten_net_def cache_ok_def)

theorem geoip_matches_configuration_witness:
  "\<exists>m shared'. BuildOptimizedGeoIPMatcher list_netipx (\<lambda>gs. gs) (map Some [ten_net]) [] = (Ok m, shared')
    \<and> cache_ok list_netipx (\<lambda>_. geo_Cidr ten_net) shared'
    \<and> (\<forall>ip. Geo_Match list_netipx m ip \<longleftrightarrow> (\<exists>a. FromStdIP list_netipx ip = Some a \<and> geo_reference [ten_net] a))"
  by (rule geoip_matches_configuration [OF list_netipx_ok empty_cache _ ten_net_entries]) simp_all

theorem geoip_batch_lookup_witness:
  "\<exists>m shared'. BuildOptimizedGeoIPMatcher list_netipx (\<lambda>gs. gs) (map Some [ten_net]) [] = (Ok m, shared')
    \<and> (\<forall>ips. Geo_AnyMatch list_netipx m ips \<longleftrightarrow> (\<exists>ip\<in>set ips. Geo_Match list_netipx m ip))
    \<and> (\<forall>ips. Geo_Matches list_netipx m ips \<longleftrightarrow> ips \<noteq> [] \<and> (\<exists>s\<in>set (submatchers m). \<forall>ip\<in>set ips. H_Match list_netipx s ip))"
  by (rule geoip_batch_lookup [OF list_netipx_ok empty_cache _ ten_net_entries]) simp_all

definition ten_set :: "(Addr \<times> nat) list GeoIPSet" where
  "ten_set = \<lparr>gs_ipv4 = [(Addr4 [10, 0, 0, 0], 8)], gs_ipv6 = [], gs_max4 = 8, gs_max6 = 0xff\<rparr>"

lemma ten_set_created: "Factory_Create list_netipx [geo_Cidr ten_net] = Ok ten_set"
  by (simp add: Factory_Create_def ten_net_def ten_set_def list_netipx_def cidrPrefix_def AddrFromSlice_def BitLen_def
      List.map_filter_def maxBits_def Let_def)

theorem geoip_filter_splits_witness:
  "mset (fst (H_FilterIPs (\<lambda>bs. bs) list_netipx \<lparr>hm_ipset = ten_set, hm_reverse = False\<rparr> [[10, 0, 0, 1], [9, 9, 9, 9], [7]])) =
    {# [10, 0, 0, 1] #}"
proof -
  have "H_Match list_netipx \<lparr>hm_ipset = ten_set, hm_reverse = False\<rparr> [10, 0, 0, 1]"
    "\<not> H_Match list_netipx \<lparr>hm_ipset = ten_set, hm_reverse = False\<rparr> [9, 9, 9, 9]"
    "\<not> H_Match list_netipx \<lparr>hm_ipset = ten_set, hm_reverse = False\<rparr> [7]"
    by code_simp+
  then show ?thesis
    using geoip_filter_splits [OF list_netipx_ok ten_set_created, of "\<lambda>bs. bs" False "[[10, 0, 0, 1], [9, 9, 9, 9], [7]]"] by simp
qed

text \<open>
  With a set of long prefixes beside one of short prefixes, \<open>FilterIPs\<close> keeps an address in two views
  and hands it out both as matched and as unmatched.
\<close>

definition id_order :: range_order where
  "id_order = \<lparr>range_buckets = (\<lambda>x. x), range_precise = (\<lambda>x. x), range_single = (\<lambda>x. x)\<rparr>"

definition host_set :: "(Addr \<times> nat) list GeoIPSet" where
  "host_set = \<lparr>gs_ipv4 = [(Addr4 [9, 9, 9, 9], 32)], gs_ipv6 = [], gs_max4 = 32, gs_max6 = 0xff\<rparr>"

lemma filter_reports_twice:
  "HM_FilterIPs id_order list_netipx [\<lparr>hm_ipset = ten_set, hm_reverse = False\<rparr>, \<lparr>hm_ipset = host_set, hm_reverse = False\<rparr>]
     [[10, 0, 0, 1], [9, 9, 9, 9]] = ([[10, 0, 0, 1], [9, 9, 9, 9]], [[9, 9, 9, 9], [10, 0, 0, 1]])"
  by code_simp

end
