(* ===== verification/Net_Text.thy ===== *)
theory Net_Text
  imports Net_Address
begin

text \<open>
  The textual side of addresses, ports and destinations: \<open>String\<close>, \<open>NetAddr\<close> and
  \<open>ParseDestination\<close> (\<open>common/net/address.go\<close>, \<open>port.go\<close>, \<open>network.go\<close>, \<open>destination.go\<close>), with
  what they use of Go's standard library: \<open>strconv.Itoa\<close> and \<open>ParseUint\<close>, \<open>net.IP.String\<close> with
  the compressed IPv6 form, and \<open>net.SplitHostPort\<close>.
\<close>

section \<open>Numbers\<close>

definition digit_char :: "nat \<Rightarrow> char" where
  "digit_char d = (if d < 10 then char_of (48 + d) else char_of (87 + d))"

fun Itoa :: "nat \<Rightarrow> string" where
  "Itoa n = (if n < 10 then [digit_char n] else Itoa (n div 10) @ [digit_char (n mod 10)])"

declare Itoa.simps [simp del]

text \<open>\<open>strconv.ParseUint(s, 10, 32)\<close>: the value, unless a character is no digit or it needs more than 32 bits.\<close>

fun parseDigits :: "nat \<Rightarrow> string \<Rightarrow> nat option" where
  "parseDigits n [] = Some n"
| "parseDigits n (c # s) = (case digit_val c of None \<Rightarrow> None | Some d \<Rightarrow> parseDigits (n * 10 + d) s)"

definition ParseUint32 :: "string \<Rightarrow> uint32 option" where
  "ParseUint32 s =
     (if s = [] then None
      else case parseDigits 0 s of None \<Rightarrow> None
        | Some n \<Rightarrow> if n < 2 ^ 32 then Some (word_of_nat n) else None)"

section \<open>IP addresses\<close>

definition dottedQuad :: "bytes \<Rightarrow> string" where
  "dottedQuad a = Itoa (unat (a ! 0)) @ ''.'' @ Itoa (unat (a ! 1)) @ ''.'' @ Itoa (unat (a ! 2)) @ ''.'' @ Itoa (unat (a ! 3))"

definition v6u16 :: "bytes \<Rightarrow> nat \<Rightarrow> nat" where
  "v6u16 a i = unat (a ! (2 * i)) * 256 + unat (a ! (2 * i + 1))"

definition appendHex :: "nat \<Rightarrow> string" where
  "appendHex x =
     (if x \<ge> 0x1000 then [digit_char (x div 0x1000)] else [])
     @ (if x \<ge> 0x100 then [digit_char (x div 0x100 mod 16)] else [])
     @ (if x \<ge> 0x10 then [digit_char (x div 0x10 mod 16)] else [])
     @ [digit_char (x mod 16)]"

text \<open>The longest run of at least two zero groups, the first of several.\<close>

fun zeroRun :: "nat list \<Rightarrow> nat" where
  "zeroRun [] = 0"
| "zeroRun (g # gs) = (if g = 0 then Suc (zeroRun gs) else 0)"

definition longestZeros :: "nat list \<Rightarrow> (nat \<times> nat) option" where
  "longestZeros gs = foldl (\<lambda>best i. let l = zeroRun (drop i gs) in
       if l \<ge> 2 \<and> (case best of None \<Rightarrow> True | Some (s, e) \<Rightarrow> l > e - s) then Some (i, i + l) else best)
     None [0..<length gs]"

text \<open>Groups separated by colons, the run replaced by two colons.\<close>

fun joinColon :: "string list \<Rightarrow> string" where
  "joinColon [] = []"
| "joinColon [x] = x"
| "joinColon (x # y # xs) = x @ CHR '':'' # joinColon (y # xs)"

definition ipv6Text :: "bytes \<Rightarrow> string" where
  "ipv6Text a =
     (let gs = map (v6u16 a) [0..<8] in
      case longestZeros gs of
        None \<Rightarrow> joinColon (map appendHex gs)
      | Some (zs, ze) \<Rightarrow> joinColon (map appendHex (take zs gs)) @ ''::'' @ joinColon (map appendHex (drop ze gs)))"

definition hexBytes :: "bytes \<Rightarrow> string" where
  "hexBytes bs = concat (map (\<lambda>b. [digit_char (unat b div 16), digit_char (unat b mod 16)]) bs)"

definition IP_String :: "bytes \<Rightarrow> string" where
  "IP_String ip =
     (if length ip = 0 then ''<nil>''
      else if length ip \<noteq> 4 \<and> length ip \<noteq> 16 then CHR ''?'' # hexBytes ip
      else case To4 ip of Some a \<Rightarrow> dottedQuad a | None \<Rightarrow> ipv6Text ip)"

fun Address_String :: "Address \<Rightarrow> string" where
  "Address_String (ipv4Address a) = IP_String a"
| "Address_String (ipv6Address a) = ''['' @ IP_String a @ '']''"
| "Address_String (domainAddress d) = d"

section \<open>Ports and networks\<close>

definition Port_String :: "Port \<Rightarrow> string" where
  "Port_String p = Itoa (unat p)"

definition PortFromString :: "string \<Rightarrow> Port result" where
  "PortFromString s =
     (case ParseUint32 s of None \<Rightarrow> Err (ErrMsg ''invalid port range: '') | Some val \<Rightarrow> PortFromInt val)"

fun SystemString :: "Network \<Rightarrow> string" where
  "SystemString Network_TCP = ''tcp''"
| "SystemString Network_UDP = ''udp''"
| "SystemString Network_UNIX = ''unix''"
| "SystemString Network_Unknown = ''unknown''"

fun HasNetwork :: "Network list \<Rightarrow> Network \<Rightarrow> bool" where
  "HasNetwork [] network = False"
| "HasNetwork (v # vs) network = (if v = network then True else HasNetwork vs network)"

section \<open>Destinations\<close>

definition UnixDestination :: "Address \<Rightarrow> Destination" where
  "UnixDestination address = \<lparr>dest_Address = address, dest_Port = 0, dest_Network = Network_UNIX\<rparr>"

definition NetAddr :: "Destination \<Rightarrow> string" where
  "NetAddr d =
     (if dest_Network d = Network_TCP \<or> dest_Network d = Network_UDP
      then Address_String (dest_Address d) @ '':'' @ Port_String (dest_Port d)
      else if dest_Network d = Network_UNIX then Address_String (dest_Address d) else [])"

definition Destination_String :: "Destination \<Rightarrow> string" where
  "Destination_String d =
     (case dest_Network d of Network_TCP \<Rightarrow> ''tcp:'' | Network_UDP \<Rightarrow> ''udp:'' | Network_UNIX \<Rightarrow> ''unix:''
      | Network_Unknown \<Rightarrow> ''unknown:'') @ NetAddr d"

text \<open>\<open>net.SplitHostPort\<close>. \<open>indexOf\<close> and \<open>lastIndexOf\<close> give positions, the length when there is none.\<close>

fun indexOf :: "char \<Rightarrow> string \<Rightarrow> nat" where
  "indexOf c [] = 0"
| "indexOf c (x # xs) = (if x = c then 0 else Suc (indexOf c xs))"

definition lastIndexOf :: "char \<Rightarrow> string \<Rightarrow> nat option" where
  "lastIndexOf c s = (if c \<in> set s then Some (length s - 1 - indexOf c (rev s)) else None)"

definition SplitHostPort :: "string \<Rightarrow> (string \<times> string) result" where
  "SplitHostPort hostport =
     (case lastIndexOf CHR '':'' hostport of
        None \<Rightarrow> Err (ErrMsg ''missing port in address'')
      | Some i \<Rightarrow>
          (let finish = (\<lambda>host j k.
                 if CHR ''['' \<in> set (drop j hostport) then Err (ErrMsg ''unexpected '[' in address'')
                 else if CHR '']'' \<in> set (drop k hostport) then Err (ErrMsg ''unexpected ']' in address'')
                 else Ok (host, drop (i + 1) hostport)) in
           if hd hostport = CHR ''['' then
             (let e = indexOf CHR '']'' hostport in
              if e = length hostport then Err (ErrMsg ''missing ']' in address'')
              else if e + 1 = length hostport then Err (ErrMsg ''missing port in address'')
              else if e + 1 = i then finish (take (e - 1) (drop 1 hostport)) 1 (e + 1)
              else if hostport ! (e + 1) = CHR '':'' then Err (ErrMsg ''too many colons in address'')
              else Err (ErrMsg ''missing port in address''))
           else
             (let host = take i hostport in
              if CHR '':'' \<in> set host then Err (ErrMsg ''too many colons in address'')
              else finish host 0 0)))"

definition AnyIP :: Address where "AnyIP = ipv4Address [0, 0, 0, 0]"

definition ParseDestination :: "string \<Rightarrow> Destination result" where
  "ParseDestination dest0 =
     (if take 5 dest0 = ''unix:'' then Ok (UnixDestination (domainAddress (drop 5 dest0)))
      else
        (let network = (if take 4 dest0 = ''tcp:'' then Network_TCP else if take 4 dest0 = ''udp:'' then Network_UDP else Network_Unknown);
             dest = (if network = Network_Unknown then dest0 else drop 4 dest0) in
         case SplitHostPort dest of
           Inl e \<Rightarrow> Err e
         | Inr (hstr, pstr) \<Rightarrow>
             (let address = (if hstr \<noteq> [] then ParseAddress hstr else AnyIP) in
              if pstr = [] then Ok \<lparr>dest_Address = address, dest_Port = 0, dest_Network = network\<rparr>
              else case PortFromString pstr of
                Inl e \<Rightarrow> Err e
              | Inr port \<Rightarrow> Ok \<lparr>dest_Address = address, dest_Port = port, dest_Network = network\<rparr>)))"

text \<open>The conversions from and to \<open>net.Addr\<close>; the domain of a Unix address is its path.\<close>

datatype NetworkAddr = TCPAddr bytes nat | UDPAddr bytes nat | UnixAddr string string

definition DestinationFromAddr :: "NetworkAddr \<Rightarrow> (Address option \<times> Port \<times> Network)" where
  "DestinationFromAddr addr =
     (case addr of
        TCPAddr ip port \<Rightarrow> (IPAddress ip, word_of_nat port, Network_TCP)
      | UDPAddr ip port \<Rightarrow> (IPAddress ip, word_of_nat port, Network_UDP)
      | UnixAddr name net \<Rightarrow> (Some (domainAddress name), 0, Network_UNIX))"

definition RawNetAddr :: "Destination \<Rightarrow> NetworkAddr option" where
  "RawNetAddr d =
     (case (dest_Network d, dest_Address d) of
        (Network_TCP, ipv4Address a) \<Rightarrow> Some (TCPAddr a (unat (dest_Port d)))
      | (Network_TCP, ipv6Address a) \<Rightarrow> Some (TCPAddr a (unat (dest_Port d)))
      | (Network_UDP, ipv4Address a) \<Rightarrow> Some (UDPAddr a (unat (dest_Port d)))
      | (Network_UDP, ipv6Address a) \<Rightarrow> Some (UDPAddr a (unat (dest_Port d)))
      | (Network_UNIX, domainAddress s) \<Rightarrow> Some (UnixAddr s (SystemString (dest_Network d)))
      | _ \<Rightarrow> None)"

section \<open>Numbers round trip\<close>

lemma of_digit_char: "d < 10 \<Longrightarrow> of_char (digit_char d) = 48 + d" "10 \<le> d \<Longrightarrow> d < 16 \<Longrightarrow> of_char (digit_char d) = 87 + d"
  by (simp_all add: digit_char_def)

lemma digit_val_char [simp]: "d < 10 \<Longrightarrow> digit_val (digit_char d) = Some d"
  by (simp add: digit_val_def of_digit_char Let_def)

lemma hex_val_char [simp]: "d < 16 \<Longrightarrow> hex_val (digit_char d) = Some d"
  by (cases "d < 10") (auto simp: hex_val_def of_digit_char Let_def)

text \<open>Digits are letters or decimal digits, so they are none of the separators.\<close>

lemma digit_char_alnum: "d < 16 \<Longrightarrow> isAlphaNum (digit_char d)"
  by (cases "d < 10") (auto simp: isAlphaNum_def of_digit_char Let_def)

lemma separators_not_alnum [simp]: "\<not> isAlphaNum CHR '':''" "\<not> isAlphaNum CHR ''.''" "\<not> isAlphaNum CHR ''[''"
    "\<not> isAlphaNum CHR '']''" "\<not> isAlphaNum CHR ''%''"
  by (simp_all add: isAlphaNum_def)

lemma Itoa_alnum: "c \<in> set (Itoa n) \<Longrightarrow> isAlphaNum c"
proof (induction n rule: Itoa.induct)
  case (1 n)
  then show ?case
    by (subst (asm) (2) Itoa.simps) (auto simp: digit_char_alnum split: if_splits)
qed

lemma Itoa_nonempty [simp]: "Itoa n \<noteq> []"
  by (subst Itoa.simps) simp

lemma parseDigits_append: "parseDigits n (s @ t) = (case parseDigits n s of None \<Rightarrow> None | Some m \<Rightarrow> parseDigits m t)"
  by (induction n s rule: parseDigits.induct) (auto split: option.splits)

lemma parseDigits_Itoa: "parseDigits 0 (Itoa n) = Some n"
proof (induction n rule: Itoa.induct)
  case (1 n)
  show ?case
  proof (cases "n < 10")
    case True
    then show ?thesis
      by (simp add: Itoa.simps [of n])
  next
    case False
    with 1 show ?thesis
      by (simp add: Itoa.simps [of n] parseDigits_append)
  qed
qed

lemma PortFromString_String: "PortFromString (Port_String p) = Ok p"
proof -
  have small: "unat p < 65536"
    using unsigned_less [of p] by simp
  then have "ParseUint32 (Port_String p) = Some (word_of_nat (unat p))"
    by (simp add: ParseUint32_def Port_String_def parseDigits_Itoa)
  moreover have "\<not> (word_of_nat (unat p) :: uint32) > 65535"
    using small by (simp add: word_less_nat_alt unsigned_ucast_eq take_bit_nat_eq_self)
  moreover have "ucast (word_of_nat (unat p) :: uint32) = p"
    by (rule bit_word_eqI) (simp add: bit_simps)
  ultimately show ?thesis
    by (simp add: PortFromString_def PortFromInt_def)
qed

section \<open>IPv4 addresses round trip\<close>

lemma parse_octet:
  assumes "m < 256"
  shows "parseIPv4Fields 0 0 octets (Itoa m @ s) = parseIPv4Fields m (length (Itoa m)) octets s"
proof -
  consider "m < 10" | "10 \<le> m" "m < 100" | "100 \<le> m"
    by linarith
  then show ?thesis
  proof cases
    case 2
    then have "Itoa m = [digit_char (m div 10), digit_char (m mod 10)]" "m div 10 < 10" "m div 10 \<noteq> 0"
      by (simp_all add: Itoa.simps [of m] Itoa.simps [of "m div 10"])
    with assms show ?thesis
      by simp
  next
    case 3
    have d: "m div 10 div 10 < 10" "m div 10 div 10 \<noteq> 0" "m div 10 div 10 * 10 + m div 10 mod 10 = m div 10" "\<not> 255 < m div 10"
      using 3 assms by auto
    have "Itoa m = [digit_char (m div 10 div 10), digit_char (m div 10 mod 10), digit_char (m mod 10)]"
      using 3 d by (simp add: Itoa.simps [of m] Itoa.simps [of "m div 10"] Itoa.simps [of "m div 10 div 10"])
    with assms d 3 show ?thesis
      by simp
  qed (simp add: Itoa.simps [of m])
qed

lemma parse_octet_dot:
  assumes "m < 256" and "length octets < 3" and "s \<noteq> []"
  shows "parseIPv4Fields 0 0 octets (Itoa m @ CHR ''.'' # s) = parseIPv4Fields 0 0 (octets @ [word_of_nat m]) s"
  using assms by (simp add: parse_octet digit_val_def)

lemma parseIPv4_dottedQuad:
  assumes "length a = 4"
  shows "parseIPv4Fields 0 0 [] (dottedQuad a) = Some a"
proof -
  obtain w x y z where a: "a = [w, x, y, z]"
    using assms by (auto simp: numeral_eq_Suc length_Suc_conv)
  have b: "unat b < 256" for b :: byte
    using unsigned_less [of b] by simp
  show ?thesis
    using b parse_octet [of "unat z" "[w, x, y]" "[]"] by (simp add: a dottedQuad_def parse_octet_dot)
qed

lemma ParseIP_dottedQuad:
  assumes "length a = 4"
  shows "ParseIP (dottedQuad a) = Some (replicate 10 0 @ [0xff, 0xff] @ a)"
proof -
  have none: "filter (\<lambda>c. c = CHR ''.'' \<or> c = CHR '':'' \<or> c = CHR ''%'') (Itoa n) = []" for n
    using Itoa_alnum [of _ n] by (fastforce simp: filter_empty_conv)
  show ?thesis
    using assms parseIPv4_dottedQuad [OF assms] by (simp add: ParseIP_def dottedQuad_def none)
qed

section \<open>IPv6 addresses round trip\<close>

lemma appendHex_alnum: "x < 65536 \<Longrightarrow> c \<in> set (appendHex x) \<Longrightarrow> isAlphaNum c"
  by (auto simp: appendHex_def digit_char_alnum split: if_splits)

lemma appendHex_nonempty [simp]: "appendHex x \<noteq> []" "length (appendHex x) \<noteq> 0"
  by (simp_all add: appendHex_def)

lemma scan_hex_stop: "r = [] \<or> hex_val (hd r) = None \<Longrightarrow> scan_hex off acc r = Some (off, acc, r)"
  by (cases r) auto

lemma hex_digits:
  "x div 16 * 16 + x mod 16 = x" "x div 256 * 16 + x div 16 mod 16 = x div 16" "x div 4096 * 16 + x div 256 mod 16 = x div 256"
  for x :: nat
proof -
  have "x div 256 = x div 16 div 16" "x div 4096 = x div 256 div 16"
    by (simp_all add: div_mult2_eq [symmetric])
  then show "x div 16 * 16 + x mod 16 = x" "x div 256 * 16 + x div 16 mod 16 = x div 16" "x div 4096 * 16 + x div 256 mod 16 = x div 256"
    by (simp_all only: div_mult_mod_eq)
qed

lemma scan_hex_step: "d < 16 \<Longrightarrow> off \<le> 3 \<Longrightarrow> scan_hex off acc (digit_char d # s) = scan_hex (Suc off) (acc * 16 + d) s"
  by simp

lemma scan_hex_appendHex:
  assumes "x < 65536" and "r = [] \<or> hex_val (hd r) = None"
  shows "scan_hex 0 0 (appendHex x @ r) = Some (length (appendHex x), x, r)"
proof -
  note stop = scan_hex_stop [OF assms(2)]
  consider "x < 16" | "16 \<le> x" "x < 256" | "256 \<le> x" "x < 4096" | "4096 \<le> x"
    by linarith
  then show ?thesis
  proof cases
    case 1
    then show ?thesis
      by (simp add: appendHex_def stop)
  next
    case 2
    then have "x div 16 mod 16 = x div 16"
      by simp
    with 2 show ?thesis
      by (simp add: appendHex_def stop scan_hex_step hex_digits del: scan_hex.simps)
  next
    case 3
    then have "x div 256 mod 16 = x div 256"
      by simp
    with 3 show ?thesis
      by (simp add: appendHex_def stop scan_hex_step hex_digits del: scan_hex.simps)
  next
    case 4
    moreover have "x div 4096 < 16"
      using assms(1) by auto
    ultimately show ?thesis
      by (simp add: appendHex_def stop scan_hex_step hex_digits del: scan_hex.simps)
  qed
qed

definition gbytes :: "nat list \<Rightarrow> bytes" where
  "gbytes gs = concat (map (\<lambda>g. [word_of_nat (g div 256), word_of_nat (g mod 256)]) gs)"

lemma gbytes_simps [simp]: "gbytes [] = []" "gbytes (g # gs) = word_of_nat (g div 256) # word_of_nat (g mod 256) # gbytes gs"
    "gbytes (xs @ ys) = gbytes xs @ gbytes ys" "length (gbytes gs) = 2 * length gs"
  by (simp_all add: gbytes_def) (induction gs, auto)

lemma colon_not_hex [simp]: "hex_val CHR '':'' = None"
  by (simp add: hex_val_def)

definition groups_ok :: "nat list \<Rightarrow> bool" where
  "groups_ok gs \<longleftrightarrow> (\<forall>g\<in>set gs. g < 65536)"

lemma joinColon_hd:
  assumes "groups_ok gs" and "gs \<noteq> []"
  shows "joinColon (map appendHex gs) \<noteq> [] \<and> isAlphaNum (hd (joinColon (map appendHex gs)))"
proof -
  obtain g gs' where gs: "gs = g # gs'"
    using assms(2) by (cases gs) auto
  have "isAlphaNum (hd (appendHex g @ t))" for t
    using assms(1) appendHex_alnum [of g "hd (appendHex g)"] by (simp add: gs groups_ok_def)
  then show ?thesis
    by (cases gs') (auto simp: gs dest: spec [of _ "[]"])
qed

lemma parse_groups:
  "groups_ok gs \<Longrightarrow> gs \<noteq> [] \<Longrightarrow> length gs \<le> k \<Longrightarrow>
    parseIPv6Groups k ip ell (joinColon (map appendHex gs)) = Some (ip @ gbytes gs, ell)"
proof (induction gs arbitrary: k ip)
  case (Cons g gs)
  then obtain j where k: "k = Suc j"
    by (cases k) auto
  have g: "g < 65536" and ok: "groups_ok gs"
    using Cons.prems(1) by (auto simp: groups_ok_def)
  show ?case
  proof (cases gs)
    case Nil
    then show ?thesis
      using scan_hex_appendHex [OF g, of "[]"] by (simp add: k)
  next
    case (Cons g' gs')
    let ?t = "joinColon (map appendHex gs)"
    have t: "?t \<noteq> []" "isAlphaNum (hd ?t)"
      using joinColon_hd [OF ok] Cons by auto
    then have h: "hd ?t \<noteq> CHR '':''"
      by auto
    have "scan_hex 0 0 (appendHex g @ CHR '':'' # ?t) = Some (length (appendHex g), g, CHR '':'' # ?t)"
      by (rule scan_hex_appendHex [OF g]) simp
    moreover have "parseIPv6Groups j (ip @ gbytes [g]) ell ?t = Some ((ip @ gbytes [g]) @ gbytes gs, ell)"
      using Cons.IH [OF ok] Cons.prems(3) Cons k by simp
    moreover have "joinColon (map appendHex (g # gs)) = appendHex g @ CHR '':'' # ?t"
      by (simp add: Cons)
    ultimately show ?thesis
      using t h by (simp add: k)
  qed
qed simp

lemma parse_groups_ellipsis:
  "groups_ok gs \<Longrightarrow> gs \<noteq> [] \<Longrightarrow> length gs \<le> k \<Longrightarrow>
    parseIPv6Groups k ip None (joinColon (map appendHex gs) @ CHR '':'' # CHR '':'' # t) =
      (let ip' = ip @ gbytes gs in
       if t = [] then Some (ip', Some (length ip')) else parseIPv6Groups (k - length gs) ip' (Some (length ip')) t)"
proof (induction gs arbitrary: k ip)
  case (Cons g gs)
  then obtain j where k: "k = Suc j"
    by (cases k) auto
  have g: "g < 65536" and ok: "groups_ok gs"
    using Cons.prems(1) by (auto simp: groups_ok_def)
  show ?case
  proof (cases gs)
    case Nil
    have "scan_hex 0 0 (appendHex g @ CHR '':'' # CHR '':'' # t) = Some (length (appendHex g), g, CHR '':'' # CHR '':'' # t)"
      by (rule scan_hex_appendHex [OF g]) simp
    with Nil show ?thesis
      by (simp add: k Let_def)
  next
    case (Cons g' gs')
    let ?t = "joinColon (map appendHex gs) @ CHR '':'' # CHR '':'' # t"
    have "joinColon (map appendHex gs) \<noteq> []" "isAlphaNum (hd (joinColon (map appendHex gs)))"
      using joinColon_hd [OF ok] Cons by auto
    then have h: "?t \<noteq> []" "hd ?t \<noteq> CHR '':''"
      by auto
    have "scan_hex 0 0 (appendHex g @ CHR '':'' # ?t) = Some (length (appendHex g), g, CHR '':'' # ?t)"
      by (rule scan_hex_appendHex [OF g]) simp
    moreover have "joinColon (map appendHex (g # gs)) @ CHR '':'' # CHR '':'' # t = appendHex g @ CHR '':'' # ?t"
      by (simp add: Cons)
    moreover have "length gs \<le> j"
      using Cons.prems(3) k by simp
    ultimately show ?thesis
      using h Cons.IH [OF ok _ \<open>length gs \<le> j\<close>, of "ip @ gbytes [g]"] Cons by (simp add: k Let_def)
  qed
qed simp

lemma zeroRun_zero: "take (zeroRun gs) gs = replicate (zeroRun gs) 0" and zeroRun_le: "zeroRun gs \<le> length gs"
  by (induction gs) auto

definition zero_run :: "nat list \<Rightarrow> nat \<times> nat \<Rightarrow> bool" where
  "zero_run gs r \<longleftrightarrow> fst r + 2 \<le> snd r \<and> snd r \<le> length gs
     \<and> gs = take (fst r) gs @ replicate (snd r - fst r) 0 @ drop (snd r) gs"

lemma zero_run_at:
  assumes "i < length gs" and "2 \<le> zeroRun (drop i gs)"
  shows "zero_run gs (i, i + zeroRun (drop i gs))"
proof -
  let ?l = "zeroRun (drop i gs)"
  have "gs = take i gs @ take ?l (drop i gs) @ drop ?l (drop i gs)"
    by (simp only: append_take_drop_id)
  then have "gs = take i gs @ replicate ?l 0 @ drop (i + ?l) gs"
    unfolding zeroRun_zero drop_drop by (simp only: add.commute)
  then show ?thesis
    using zeroRun_le [of "drop i gs"] assms by (simp add: zero_run_def)
qed

lemma longestZeros_run: "longestZeros gs = Some r \<Longrightarrow> zero_run gs r"
proof -
  have "(\<forall>r. foldl (\<lambda>best i. let l = zeroRun (drop i gs) in
       if l \<ge> 2 \<and> (case best of None \<Rightarrow> True | Some (s, e) \<Rightarrow> l > e - s) then Some (i, i + l) else best) best is = Some r
      \<longrightarrow> zero_run gs r)" if "\<forall>i\<in>set is. i < length gs" "\<forall>r. best = Some r \<longrightarrow> zero_run gs r" for best "is"
    using that
  proof (induction "is" arbitrary: best)
    case (Cons i "is")
    show ?case
      unfolding foldl.simps
      by (rule Cons.IH) (use Cons.prems zero_run_at [of i gs] in \<open>auto simp: Let_def split: if_splits\<close>)
  qed simp
  from this [of "[0..<length gs]" None] show "longestZeros gs = Some r \<Longrightarrow> zero_run gs r"
    unfolding longestZeros_def by simp
qed

lemma gbytes_v6u16:
  assumes "length a = 16"
  shows "gbytes (map (v6u16 a) [0..<8]) = a" and "groups_ok (map (v6u16 a) [0..<8])"
proof -
  have b: "unat b < 256" for b :: byte
    using unsigned_less [of b] by simp
  obtain a0 a1 a2 a3 a4 a5 a6 a7 a8 a9 a10 a11 a12 a13 a14 a15 where
      a: "a = [a0, a1, a2, a3, a4, a5, a6, a7, a8, a9, a10, a11, a12, a13, a14, a15]"
    using assms by (auto simp: numeral_eq_Suc length_Suc_conv)
  have "(unat x * 256 + unat y) div 256 = unat x" "(unat x * 256 + unat y) mod 256 = unat y" for x y :: byte
    using b [of y] by simp_all
  then show "gbytes (map (v6u16 a) [0..<8]) = a"
    by (simp add: a v6u16_def upt_conv_Cons)
  have "unat x * 256 + unat y < 65536" for x y :: byte
    using b [of x] b [of y] by linarith
  then show "groups_ok (map (v6u16 a) [0..<8])"
    by (simp add: groups_ok_def v6u16_def)
qed

lemma gbytes_zeros [simp]: "gbytes (replicate n 0) = replicate (2 * n) 0"
  by (induction n) auto

lemma groups_ok_take: "groups_ok gs \<Longrightarrow> groups_ok (take n gs)" and groups_ok_drop: "groups_ok gs \<Longrightarrow> groups_ok (drop n gs)"
  by (auto simp: groups_ok_def dest: in_set_takeD in_set_dropD)

lemma parse_full:
  assumes ok: "groups_ok gs" and len: "length gs = 8"
  shows "parseIPv6 (joinColon (map appendHex gs)) = Some (gbytes gs)"
proof -
  have "gs \<noteq> []"
    using len by auto
  then have "hd (joinColon (map appendHex gs)) \<noteq> CHR '':''" "joinColon (map appendHex gs) \<noteq> []"
    using joinColon_hd [OF ok] by auto
  then have "take 2 (joinColon (map appendHex gs)) \<noteq> [CHR '':'', CHR '':'']"
    by (cases "joinColon (map appendHex gs)") auto
  then show ?thesis
    using parse_groups [OF ok \<open>gs \<noteq> []\<close>, of 8 "[]" None] len by (simp add: parseIPv6_def)
qed

lemma parse_compressed:
  assumes ok: "groups_ok gs" and len: "length gs = 8" and run: "zero_run gs (zs, ze)"
  shows "parseIPv6 (joinColon (map appendHex (take zs gs)) @ ''::'' @ joinColon (map appendHex (drop ze gs))) = Some (gbytes gs)"
proof -
  let ?pre = "take zs gs" and ?post = "drop ze gs"
  have r: "zs + 2 \<le> ze" "ze \<le> 8" "gs = ?pre @ replicate (ze - zs) 0 @ ?post"
    using run len by (simp_all add: zero_run_def)
  have gb: "gbytes gs = gbytes ?pre @ replicate (2 * (ze - zs)) 0 @ gbytes ?post"
    by (subst r(3)) simp
  have post: "?post = [] \<longleftrightarrow> ze = 8" "length ?post = 8 - ze" "groups_ok ?post"
    using len r(2) ok by (auto simp: groups_ok_drop)
  have post_text: "joinColon (map appendHex ?post) = [] \<longleftrightarrow> ?post = []"
    using joinColon_hd [OF post(3)] by (cases ?post) auto
  show ?thesis
  proof (cases "zs = 0")
    case True
    show ?thesis
    proof (cases "ze = 8")
      case True
      then show ?thesis
        using \<open>zs = 0\<close> post(1) gb by (simp add: parseIPv6_def)
    next
      case False
      then have "parseIPv6Groups 8 [] (Some 0) (joinColon (map appendHex ?post)) = Some (gbytes ?post, Some 0)"
        using parse_groups [OF post(3), of 8 "[]" "Some 0"] post by simp
      moreover have "2 * (8 - ze) < 16" "16 - 2 * (8 - ze) = 2 * (ze - zs)"
        using r False True by auto
      ultimately show ?thesis
        using True False post post_text gb by (simp add: parseIPv6_def)
    qed
  next
    case False
    have pre: "groups_ok ?pre" "?pre \<noteq> []" "length ?pre = zs" "zs \<le> 8"
      using ok False len r by (auto simp: groups_ok_take)
    have "hd (joinColon (map appendHex ?pre)) \<noteq> CHR '':''" "joinColon (map appendHex ?pre) \<noteq> []"
      using joinColon_hd [OF pre(1,2)] by auto
    then have lead: "take 2 (joinColon (map appendHex ?pre) @ t) \<noteq> [CHR '':'', CHR '':'']" for t
      by (cases "joinColon (map appendHex ?pre)") auto
    have "parseIPv6Groups 8 [] None (joinColon (map appendHex ?pre) @ ''::'' @ joinColon (map appendHex ?post))
        = Some (gbytes ?pre @ gbytes ?post, Some (2 * zs))"
      using parse_groups_ellipsis [OF pre(1,2), of 8 "[]" "joinColon (map appendHex ?post)"] pre post post_text
        parse_groups [OF post(3), of "8 - zs" "gbytes ?pre" "Some (2 * zs)"] r
      by (simp add: Let_def)
    moreover have "2 * zs + 2 * (8 - ze) < 16" "16 - (2 * zs + 2 * (8 - ze)) = 2 * (ze - zs)"
      using r by auto
    ultimately show ?thesis
      using lead [of "''::'' @ joinColon (map appendHex ?post)"] pre post gb by (simp add: parseIPv6_def)
  qed
qed

lemma parseIPv6_text:
  assumes "length a = 16"
  shows "parseIPv6 (ipv6Text a) = Some a"
proof (cases "longestZeros (map (v6u16 a) [0..<8])")
  case None
  then show ?thesis
    using parse_full [OF gbytes_v6u16(2) [OF assms]] gbytes_v6u16(1) [OF assms] by (simp add: ipv6Text_def Let_def del: upt_rec_numeral)
next
  case (Some r)
  moreover obtain zs ze where "r = (zs, ze)"
    by (cases r)
  ultimately show ?thesis
    using parse_compressed [OF gbytes_v6u16(2) [OF assms] _ longestZeros_run] gbytes_v6u16(1) [OF assms]
    by (simp add: ipv6Text_def Let_def del: upt_rec_numeral)
qed

section \<open>Addresses round trip\<close>

text \<open>The characters of a compressed IPv6 text.\<close>

lemma joinColon_chars:
  assumes "groups_ok gs" and "c \<in> set (joinColon (map appendHex gs))"
  shows "isAlphaNum c \<or> c = CHR '':''"
proof -
  have "set (joinColon xs) \<subseteq> insert CHR '':'' (\<Union>x\<in>set xs. set x)" for xs
    by (induction xs rule: joinColon.induct) auto
  then have "c = CHR '':'' \<or> (\<exists>g\<in>set gs. c \<in> set (appendHex g))"
    using assms(2) by fastforce
  then show ?thesis
    using assms(1) appendHex_alnum by (auto simp: groups_ok_def)
qed

lemma ipv6Text_chars:
  assumes "length a = 16"
  shows "c \<in> set (ipv6Text a) \<Longrightarrow> isAlphaNum c \<or> c = CHR '':''" and "CHR '':'' \<in> set (ipv6Text a)"
proof -
  have ok: "groups_ok (map (v6u16 a) [0..<8])"
    by (rule gbytes_v6u16 [OF assms])
  show "c \<in> set (ipv6Text a) \<Longrightarrow> isAlphaNum c \<or> c = CHR '':''"
    using joinColon_chars [OF ok, of c] joinColon_chars [OF groups_ok_take [OF ok], of c] joinColon_chars [OF groups_ok_drop [OF ok], of c]
    unfolding ipv6Text_def Let_def
    by (cases "longestZeros (map (v6u16 a) [0..<8])") (auto simp del: upt_rec_numeral)
  show "CHR '':'' \<in> set (ipv6Text a)"
    by (cases "longestZeros (map (v6u16 a) [0..<8])") (auto simp: ipv6Text_def Let_def upt_conv_Cons)
qed

lemma ParseIP_ipv6Text:
  assumes "length a = 16"
  shows "ParseIP (ipv6Text a) = Some a"
proof -
  let ?sep = "\<lambda>c. c = CHR ''.'' \<or> c = CHR '':'' \<or> c = CHR ''%''"
  have "c = CHR '':''" if "c \<in> set (filter ?sep (ipv6Text a))" for c
    using that ipv6Text_chars(1) [OF assms, of c] by auto
  moreover have "filter ?sep (ipv6Text a) \<noteq> []"
    using ipv6Text_chars(2) [OF assms] by (auto simp: filter_empty_conv)
  ultimately obtain t where "filter ?sep (ipv6Text a) = CHR '':'' # t"
    by (cases "filter ?sep (ipv6Text a)") auto
  moreover have "CHR ''%'' \<notin> set (ipv6Text a)"
    using ipv6Text_chars(1) [OF assms, of "CHR ''%''"] by auto
  ultimately show ?thesis
    using parseIPv6_text [OF assms] by (simp add: ParseIP_def)
qed

text \<open>Nothing is trimmed from a text that starts and ends with printable characters.\<close>

definition printable :: "char \<Rightarrow> bool" where
  "printable c \<longleftrightarrow> 33 \<le> (of_char c :: nat) \<and> (of_char c :: nat) < 127"

lemma printable_alnum: "isAlphaNum c \<Longrightarrow> printable c" and printable_colon: "printable CHR '':''"
  by (auto simp: isAlphaNum_def printable_def Let_def)

lemma no_space_prefix:
  assumes "printable c"
  shows "space_prefix space_encodings (c # s) = 0" and "space_prefix (map rev space_encodings) (c # s) = 0"
  using assms by (auto simp: space_prefix_def space_encodings_def printable_def)

lemma TrimSpace_id:
  assumes "s \<noteq> []" and "printable (hd s)" and "printable (last s)"
  shows "TrimSpace s = s"
proof -
  obtain c t where s: "s = c # t"
    using assms(1) by (cases s) auto
  have "trim_left space_encodings s = s"
    using no_space_prefix(1) [of c t] assms(2) by (subst trim_left.simps) (simp add: s)
  moreover obtain d u where r: "rev s = d # u"
    using assms(1) by (cases "rev s") auto
  have "d = last s"
    using r by (metis hd_rev list.sel(1))
  then have "trim_left (map rev space_encodings) (rev s) = rev s"
    using no_space_prefix(2) [of d u] assms(3) by (subst trim_left.simps) (simp add: r)
  ultimately show ?thesis
    by (simp add: TrimSpace_def)
qed

lemma ParseAddress_plain:
  assumes "s \<noteq> []" and "printable (hd s)" and "printable (last s)" and "hd s \<noteq> CHR ''[''"
  shows "ParseAddress s = (case ParseIP s of
      Some ip \<Rightarrow> (case IPAddress ip of Some a \<Rightarrow> a | None \<Rightarrow> domainAddress s) | None \<Rightarrow> domainAddress s)"
proof -
  have strip: "strip_brackets s = s"
    using assms(4) by (simp add: strip_brackets_def)
  show ?thesis
    unfolding ParseAddress_def Let_def strip TrimSpace_id [OF assms(1-3)] if_cancel ..
qed

text \<open>The host part that \<open>ParseDestination\<close> sees, and domains it reads back as domains.\<close>

fun hostText :: "Address \<Rightarrow> string" where
  "hostText (ipv4Address a) = dottedQuad a"
| "hostText (ipv6Address a) = ipv6Text a"
| "hostText (domainAddress d) = d"

definition plain_domain :: "string \<Rightarrow> bool" where
  "plain_domain d \<longleftrightarrow> d \<noteq> [] \<and> printable (hd d) \<and> printable (last d) \<and> ParseIP d = None
     \<and> CHR '':'' \<notin> set d \<and> CHR ''['' \<notin> set d \<and> CHR '']'' \<notin> set d"

fun textual :: "Address \<Rightarrow> bool" where
  "textual (domainAddress d) \<longleftrightarrow> plain_domain d"
| "textual a \<longleftrightarrow> wf_Address a"

lemma dottedQuad_chars: "c \<in> set (dottedQuad a) \<Longrightarrow> isAlphaNum c \<or> c = CHR ''.''" and dottedQuad_nonempty: "dottedQuad a \<noteq> []"
  using Itoa_alnum by (auto simp: dottedQuad_def)

lemma hostText_printable:
  assumes "textual a"
  shows "hostText a \<noteq> []" and "printable (hd (hostText a))" and "printable (last (hostText a))" and "hd (hostText a) \<noteq> CHR ''[''"
proof -
  have "hostText a \<noteq> [] \<and> printable (hd (hostText a)) \<and> printable (last (hostText a)) \<and> hd (hostText a) \<noteq> CHR ''[''"
  proof (cases a)
    case (ipv4Address x)
    have "printable c \<and> c \<noteq> CHR ''[''" if "c \<in> set (dottedQuad x)" for c
      using dottedQuad_chars [OF that] printable_alnum [of c] by (auto simp: printable_def)
    then show ?thesis
      using dottedQuad_nonempty [of x] by (simp add: ipv4Address)
  next
    case (ipv6Address x)
    then have x: "length x = 16"
      using assms by simp
    have "printable c \<and> c \<noteq> CHR ''[''" if "c \<in> set (ipv6Text x)" for c
      using ipv6Text_chars(1) [OF x that] printable_alnum [of c] printable_colon by auto
    moreover have "ipv6Text x \<noteq> []"
      using ipv6Text_chars(2) [OF x] by auto
    ultimately show ?thesis
      by (simp add: ipv6Address)
  next
    case (domainAddress d)
    moreover have "CHR ''['' \<notin> set d" "d \<noteq> []"
      using assms domainAddress by (simp_all add: plain_domain_def)
    then have "hd d \<noteq> CHR ''[''"
      using hd_in_set by metis
    ultimately show ?thesis
      using assms by (simp add: plain_domain_def)
  qed
  then show "hostText a \<noteq> []" and "printable (hd (hostText a))" and "printable (last (hostText a))" and "hd (hostText a) \<noteq> CHR ''[''"
    by blast+
qed

lemma ParseAddress_hostText:
  assumes "textual a"
  shows "ParseAddress (hostText a) = a"
proof -
  note p = ParseAddress_plain [OF hostText_printable [OF assms]]
  show ?thesis
  proof (cases a)
    case (ipv4Address x)
    then have x: "length x = 4"
      using assms by simp
    have "IPAddress (replicate 10 0 @ [0xff, 0xff] @ x) = Some (ipv4Address x)"
      using x by (simp add: IPAddress_def v4_mapped_def nth_append)
    then show ?thesis
      using p ParseIP_dottedQuad [OF x] by (simp add: ipv4Address)
  next
    case (ipv6Address x)
    then have "ParseIP (ipv6Text x) = Some x" "IPAddress x = Some a"
      using assms ParseIP_ipv6Text by (simp_all add: IPAddress_def)
    then show ?thesis
      using p ipv6Address by simp
  next
    case (domainAddress d)
    then show ?thesis
      using p assms by (simp add: plain_domain_def)
  qed
qed

section \<open>Destinations round trip\<close>

lemma indexOf_append: "c \<notin> set x \<Longrightarrow> indexOf c (x @ c # t) = length x"
  by (induction x) auto

lemma lastIndexOf_append:
  assumes "c \<notin> set p"
  shows "lastIndexOf c (x @ c # p) = Some (length x)"
proof -
  have "indexOf c (rev p @ c # rev x) = length p"
    using indexOf_append [of c "rev p" "rev x"] assms by simp
  then show ?thesis
    by (simp add: lastIndexOf_def)
qed

text \<open>The separators a part of the text must not have.\<close>

definition no_brackets :: "string \<Rightarrow> bool" where
  "no_brackets s \<longleftrightarrow> CHR ''['' \<notin> set s \<and> CHR '']'' \<notin> set s"

lemma SplitHostPort_plain:
  assumes "no_brackets host" and "CHR '':'' \<notin> set host" and "no_brackets port" and "CHR '':'' \<notin> set port"
  shows "SplitHostPort (host @ CHR '':'' # port) = Ok (host, port)"
proof -
  have "hd (host @ CHR '':'' # port) \<noteq> CHR ''[''"
    using assms(1) by (cases host) (auto simp: no_brackets_def)
  then show ?thesis
    using assms by (simp add: SplitHostPort_def lastIndexOf_append no_brackets_def Let_def)
qed

lemma SplitHostPort_brackets:
  assumes "no_brackets host" and "no_brackets port" and "CHR '':'' \<notin> set port"
  shows "SplitHostPort (CHR ''['' # host @ CHR '']'' # CHR '':'' # port) = Ok (host, port)"
proof -
  have i: "lastIndexOf CHR '':'' (CHR ''['' # host @ CHR '']'' # CHR '':'' # port) = Some (length host + 2)"
    using lastIndexOf_append [of "CHR '':''" port "CHR ''['' # host @ [CHR '']'']"] assms(3) by simp
  have e: "indexOf CHR '']'' (host @ CHR '']'' # CHR '':'' # port) = length host"
    using indexOf_append [of "CHR '']''" host] assms(1) by (simp add: no_brackets_def)
  show ?thesis
    unfolding SplitHostPort_def i using assms by (simp add: e no_brackets_def Let_def)
qed

lemma Port_String_chars: "no_brackets (Port_String p)" "CHR '':'' \<notin> set (Port_String p)" "Port_String p \<noteq> []"
  by (auto simp: Port_String_def no_brackets_def dest: Itoa_alnum)

lemma SplitHostPort_NetAddr:
  assumes "textual a"
  shows "SplitHostPort (Address_String a @ CHR '':'' # Port_String p) = Ok (hostText a, Port_String p)"
proof (cases a)
  case (ipv4Address x)
  then have "IP_String x = dottedQuad x"
    using assms by (simp add: IP_String_def To4_def)
  moreover have "no_brackets (dottedQuad x)" "CHR '':'' \<notin> set (dottedQuad x)"
    by (auto simp: no_brackets_def dest: dottedQuad_chars)
  ultimately show ?thesis
    using SplitHostPort_plain [OF _ _ Port_String_chars(1,2)] ipv4Address by simp
next
  case (ipv6Address x)
  then have "length x = 16" "IP_String x = ipv6Text x"
    using assms by (simp_all add: IP_String_def To4_def)
  moreover have "no_brackets (ipv6Text x)"
    using ipv6Text_chars(1) [OF \<open>length x = 16\<close>] by (fastforce simp: no_brackets_def)
  ultimately show ?thesis
    using SplitHostPort_brackets [OF _ Port_String_chars(1,2)] ipv6Address by simp
next
  case (domainAddress d)
  then show ?thesis
    using SplitHostPort_plain [OF _ _ Port_String_chars(1,2)] assms by (simp add: no_brackets_def plain_domain_def)
qed

lemma ParseDestination_String:
  assumes "textual (dest_Address d)" and "dest_Network d = Network_TCP \<or> dest_Network d = Network_UDP"
  shows "ParseDestination (Destination_String d) = Ok d"
proof -
  have split: "SplitHostPort (Address_String (dest_Address d) @ CHR '':'' # Port_String (dest_Port d)) =
      Ok (hostText (dest_Address d), Port_String (dest_Port d))"
    by (rule SplitHostPort_NetAddr [OF assms(1)])
  show ?thesis
    using assms(2) split Port_String_chars(3) hostText_printable(1) [OF assms(1)]
    by (auto simp: Destination_String_def ParseDestination_def NetAddr_def Let_def ParseAddress_hostText [OF assms(1)]
        PortFromString_String)
qed

text \<open>
  C38. The text of a TCP or UDP destination parses back to the same destination: for every IPv4 and IPv6
  address, whose longest run of zero groups the text compresses, for every domain that contains no
  separators and is no IP address itself, and for every port.
\<close>

theorem destination_text_roundtrip:
  assumes "textual (dest_Address d)" and "dest_Network d = Network_TCP \<or> dest_Network d = Network_UDP"
  shows "ParseDestination (Destination_String d) = Ok d"
  by (rule ParseDestination_String [OF assms])

theorem destination_text_roundtrip_witness:
  "ParseDestination (Destination_String (TCPDestination (ipv6Address ([0x20, 0x01, 0x0d, 0xb8] @ replicate 11 0 @ [1])) 443)) =
    Ok (TCPDestination (ipv6Address ([0x20, 0x01, 0x0d, 0xb8] @ replicate 11 0 @ [1])) 443)"
  by (rule destination_text_roundtrip) (simp_all add: TCPDestination_def v4_mapped_def numeral_eq_Suc)

text \<open>Without the brackets the text of an IPv6 address has too many colons for \<open>SplitHostPort\<close>.\<close>

lemma unbracketed_ipv6_rejected:
  assumes "length a = 16"
  shows "\<exists>e. SplitHostPort (ipv6Text a @ CHR '':'' # Port_String p) = Err e"
proof -
  have ne: "ipv6Text a \<noteq> []" "hd (ipv6Text a) \<noteq> CHR ''[''"
  proof -
    show "ipv6Text a \<noteq> []"
      using ipv6Text_chars(2) [OF assms] by auto
    then show "hd (ipv6Text a) \<noteq> CHR ''[''"
      using ipv6Text_chars(1) [OF assms, of "hd (ipv6Text a)"] by auto
  qed
  then show ?thesis
    using ipv6Text_chars(2) [OF assms]
    by (simp add: SplitHostPort_def lastIndexOf_append Port_String_chars(2) Let_def)
qed

end
