(* ===== verification/Geodata.thy ===== *)
theory Geodata
  imports Prelude
begin

text \<open>
  Searching a geodata file for the entry of a code: \<open>common/platform/filesystem/asset_tools.go\<close>.

  A file is a sequence of entries, each a tag byte, the length of the body as a varint and the body;
  the body starts with a tag byte, the length of the code and the code. \<open>Find\<close> works on any bytes:
  an index or slice out of range is the error \<open>Panic\<close>, an absent entry the value \<^const>\<open>None\<close>.
\<close>

section \<open>Model\<close>

fun decodeVarint :: "nat \<Rightarrow> nat \<Rightarrow> uint64 \<Rightarrow> bytes \<Rightarrow> uint64 \<times> nat" where
  "decodeVarint shift n x [] = (0, 0)"
| "decodeVarint shift n x (b # buf) =
     (if shift \<ge> 64 then (0, 0)
      else
        (let x' = x OR push_bit shift (ucast b AND 0x7F) in
         if b AND 0x80 = 0 then (x', n + 1) else decodeVarint (shift + 7) (n + 1) x' buf))"

definition DecodeVarint :: "bytes \<Rightarrow> uint64 \<times> nat" where
  "DecodeVarint buf = decodeVarint 0 0 0 buf"

fun codeAt :: "bytes \<Rightarrow> bytes \<Rightarrow> bool result" where
  "codeAt data [] = Ok True"
| "codeAt [] (c # code) = Err (Panic ''index out of range'')"
| "codeAt (d # data) (c # code) = (if d = c then codeAt data code else Ok False)"

function findEntry :: "bytes \<Rightarrow> bytes \<Rightarrow> bytes option result" where
  "findEntry data code =
     (if length data < 2 then Ok None
      else
        (let (x, y) = DecodeVarint (tl data) in
         if x = 0 \<and> y = 0 then Ok None
         else
           (let headL = 1 + y; bodyL = sint x; dataL = int (length data) - int headL in
            if dataL < bodyL then Ok None
            else
              (let data' = drop headL data in
               if length data' < 2 then Err (Panic ''index out of range'')
               else
                 (case (if unat (data' ! 1) = length code then codeAt (drop 2 data') code else Ok False) of
                    Inl e \<Rightarrow> Err e
                  | Inr True \<Rightarrow> if bodyL < 0 then Err (Panic ''slice bounds out of range'') else Ok (Some (take (nat bodyL) data'))
                  | Inr False \<Rightarrow>
                      if dataL = bodyL then Ok None
                      else if bodyL < 0 then Err (Panic ''slice bounds out of range'')
                      else findEntry (drop (nat bodyL) data') code)))))"
  by pat_completeness auto
termination
  by (relation "measure (\<lambda>(data, code). length data)") auto

declare findEntry.simps [simp del]

definition Find :: "bytes \<Rightarrow> bytes \<Rightarrow> bytes option result" where
  "Find data code = (if length code = 0 then Ok None else findEntry data code)"

section \<open>Varints\<close>

function encodeVarint :: "nat \<Rightarrow> bytes" where
  "encodeVarint n = (if n < 128 then [word_of_nat n] else word_of_nat (n mod 128 + 128) # encodeVarint (n div 128))"
  by pat_completeness auto
termination
  by (relation "measure id") auto

declare encodeVarint.simps [simp del]

lemma or_plus:
  fixes X d k :: nat
  assumes "X < 2 ^ k"
  shows "(word_of_nat X :: uint64) OR push_bit k (word_of_nat d) = word_of_nat (X + d * 2 ^ k)"
proof -
  have "X OR push_bit k d = X + push_bit k d"
  proof (rule disjunctive_add [symmetric])
    show "\<not> bit X n \<or> \<not> bit (push_bit k d) n" for n
    proof (cases "n < k")
      case True
      then show ?thesis
        by (simp add: bit_push_bit_iff_nat)
    next
      case False
      then have "X < 2 ^ n"
        using assms power_increasing [of k n "2 :: nat"] by linarith
      then show ?thesis
        by (simp add: bit_iff_odd)
    qed
  qed
  then have "(word_of_nat (X OR push_bit k d) :: uint64) = word_of_nat (X + d * 2 ^ k)"
    by (simp add: push_bit_eq_mult)
  then show ?thesis
    by (simp only: of_nat_or_eq of_nat_push_bit)
qed

lemma low_bits:
  assumes "d < 128"
  shows "(ucast (word_of_nat d :: byte) :: uint64) AND 0x7F = word_of_nat d" and "(word_of_nat d :: byte) AND 0x80 = 0"
    and "(ucast (word_of_nat (d + 128) :: byte) :: uint64) AND 0x7F = word_of_nat d" and "(word_of_nat (d + 128) :: byte) AND 0x80 \<noteq> 0"
proof -
  have "list_all (\<lambda>d. (ucast (word_of_nat d :: byte) :: uint64) AND 0x7F = word_of_nat d \<and> (word_of_nat d :: byte) AND 0x80 = 0
      \<and> (ucast (word_of_nat (d + 128) :: byte) :: uint64) AND 0x7F = word_of_nat d \<and> (word_of_nat (d + 128) :: byte) AND 0x80 \<noteq> 0) [0..<128]"
    by code_simp
  then show "(ucast (word_of_nat d :: byte) :: uint64) AND 0x7F = word_of_nat d" and "(word_of_nat d :: byte) AND 0x80 = 0"
    and "(ucast (word_of_nat (d + 128) :: byte) :: uint64) AND 0x7F = word_of_nat d" and "(word_of_nat (d + 128) :: byte) AND 0x80 \<noteq> 0"
    using assms unfolding list_all_iff by auto
qed

lemma decode_encode:
  "X < 2 ^ shift \<Longrightarrow> X + m * 2 ^ shift < 2 ^ 64 \<Longrightarrow> shift < 64 \<Longrightarrow>
    decodeVarint shift n (word_of_nat X) (encodeVarint m @ t) = (word_of_nat (X + m * 2 ^ shift), n + length (encodeVarint m))"
proof (induction m arbitrary: shift X n rule: encodeVarint.induct)
  case (1 m)
  show ?case
  proof (cases "m < 128")
    case True
    then show ?thesis
      using 1 by (simp add: encodeVarint.simps [of m] low_bits or_plus)
  next
    case False
    let ?X = "X + (m mod 128) * 2 ^ shift"
    have lt: "m mod 128 < 128"
      by simp
    have "(m mod 128 + 1) * 2 ^ shift \<le> 128 * (2 :: nat) ^ shift"
      using lt by (intro mult_le_mono1) simp
    then have "m mod 128 * 2 ^ shift + 2 ^ shift \<le> (2 :: nat) ^ (shift + 7)"
      by (simp only: power_add) (simp add: algebra_simps)
    then have X: "?X < 2 ^ (shift + 7)"
      using "1.prems"(1) by linarith
    have eq: "?X + (m div 128) * 2 ^ (shift + 7) = X + m * 2 ^ shift"
    proof -
      have "(m div 128) * 2 ^ (shift + 7) = (m div 128 * 128) * 2 ^ shift"
        by (simp add: power_add)
      then show ?thesis
        by (simp only: add.assoc distrib_right [symmetric] mod_div_mult_eq)
    qed
    have "1 \<le> m div 128"
      using False by simp
    then have "2 ^ (shift + 7) \<le> (m div 128) * (2 :: nat) ^ (shift + 7)"
      by simp
    then have "(2 :: nat) ^ (shift + 7) < 2 ^ 64"
      using "1.prems"(2) eq by linarith
    then have "shift + 7 < 64"
      by (rule power_less_imp_less_exp [rotated]) simp
    with "1.IH" [OF False X, of "n + 1"] "1.prems" eq False low_bits [OF lt] show ?thesis
      by (simp add: encodeVarint.simps [of m] or_plus)
  qed
qed

lemma DecodeVarint_encode: "m < 2 ^ 64 \<Longrightarrow> DecodeVarint (encodeVarint m @ t) = (word_of_nat m, length (encodeVarint m))"
  using decode_encode [of 0 0 m 0 t] by (simp add: DecodeVarint_def)

section \<open>Files\<close>

text \<open>An entry is its code and the rest of its body; a file is the sequence of its entries.\<close>

definition entryBody :: "bytes \<times> bytes \<Rightarrow> bytes" where
  "entryBody e = 0x0A # word_of_nat (length (fst e)) # fst e @ snd e"

definition encodeEntry :: "bytes \<times> bytes \<Rightarrow> bytes" where
  "encodeEntry e = 0x0A # encodeVarint (length (entryBody e)) @ entryBody e"

definition encodeFile :: "(bytes \<times> bytes) list \<Rightarrow> bytes" where
  "encodeFile es = concat (map encodeEntry es)"

definition entry_fits :: "bytes \<times> bytes \<Rightarrow> bool" where
  "entry_fits e \<longleftrightarrow> length (fst e) < 128 \<and> length (entryBody e) < 2 ^ 63"

lemma codeAt_equal_length: "length data = length code \<Longrightarrow> codeAt (data @ rest) code = Ok (data = code)"
  by (induction data code rule: list_induct2) auto

lemma encodeVarint_nonempty [simp]: "encodeVarint n \<noteq> []" "length (encodeVarint n) > 0"
  by (subst encodeVarint.simps, simp)+

lemma sint_of_small: "n < 2 ^ 63 \<Longrightarrow> sint (word_of_nat n :: uint64) = int n"
  by (simp add: signed_of_nat signed_take_bit_int_eq_self)

lemma findEntry_step:
  assumes "entry_fits e"
  shows "findEntry (encodeEntry e @ rest) code =
    (if fst e = code then Ok (Some (entryBody e)) else if rest = [] then Ok None else findEntry rest code)"
proof -
  let ?body = "entryBody e" and ?n = "length (entryBody e)"
  have fits: "length (fst e) < 128" "?n < 2 ^ 63" "?n \<ge> 2"
    using assms by (auto simp: entry_fits_def entryBody_def)
  have dec: "DecodeVarint (tl (encodeEntry e @ rest)) = (word_of_nat ?n, length (encodeVarint ?n))"
    using DecodeVarint_encode [of ?n "?body @ rest"] fits by (simp add: encodeEntry_def)
  have data: "drop (1 + length (encodeVarint ?n)) (encodeEntry e @ rest) = ?body @ rest"
    by (simp add: encodeEntry_def)
  have len: "int (length (encodeEntry e @ rest)) - int (1 + length (encodeVarint ?n)) = int ?n + int (length rest)"
    by (simp add: encodeEntry_def)
  have code_length: "unat ((?body @ rest) ! 1) = length (fst e)"
    using fits(1) by (simp add: entryBody_def unat_of_nat)
  have at: "(if unat ((?body @ rest) ! 1) = length code then codeAt (drop 2 (?body @ rest)) code else Ok False) = Ok (fst e = code)"
    using codeAt_equal_length [of "fst e" code "snd e @ rest"] unfolding code_length by (auto simp: entryBody_def)
  have long: "\<not> length (encodeEntry e @ rest) < 2" "\<not> length (?body @ rest) < 2"
    using fits(3) by (simp_all add: encodeEntry_def)
  have step: "findEntry (encodeEntry e @ rest) code =
      (case Ok (fst e = code) of
         Inl e \<Rightarrow> Err e
       | Inr True \<Rightarrow> if int ?n < 0 then Err (Panic ''slice bounds out of range'') else Ok (Some (take (nat (int ?n)) (?body @ rest)))
       | Inr False \<Rightarrow>
           if int ?n + int (length rest) = int ?n then Ok None
           else if int ?n < 0 then Err (Panic ''slice bounds out of range'')
           else findEntry (drop (nat (int ?n)) (?body @ rest)) code)"
    by (subst findEntry.simps, unfold dec Let_def prod.case data len sint_of_small [OF fits(2)] at
        if_not_P [OF long(1)] if_not_P [OF long(2)]) simp
  show ?thesis
    unfolding step by (cases "fst e = code") simp_all
qed

lemma findEntry_file:
  "list_all entry_fits es \<Longrightarrow> findEntry (encodeFile es) code = Ok (map_option entryBody (find (\<lambda>e. fst e = code) es))"
proof (induction es)
  case Nil
  then show ?case
    by (simp add: encodeFile_def findEntry.simps)
next
  case (Cons e es)
  have "encodeFile es = [] \<longleftrightarrow> es = []"
    by (cases es) (auto simp: encodeFile_def encodeEntry_def)
  with Cons show ?case
    using findEntry_step [of e "encodeFile es" code] by (auto simp: encodeFile_def)
qed

text \<open>
  C37. Searching a geodata file for a code finds the body of its first entry with that code, and nothing
  when no entry has it; it never reads out of range. Codes shorter than 128 bytes and bodies that fit
  in an \<open>int\<close> are all the format is used for.
\<close>

theorem geodata_find:
  assumes "list_all entry_fits es" and "code \<noteq> []"
  shows "Find (encodeFile es) code = Ok (map_option entryBody (find (\<lambda>e. fst e = code) es))"
  using findEntry_file [OF assms(1)] assms(2) by (simp add: Find_def)

theorem geodata_find_witness:
  "Find (encodeFile [([67, 78], [1, 2]), ([85, 83], [3])]) [85, 83] = Ok (Some (entryBody ([85, 83], [3])))"
  by (subst geodata_find) (simp_all add: entry_fits_def entryBody_def)

end
