(* ===== verification/Router_Condition.thy ===== *)
theory Router_Condition
  imports Mph_Matcher Router_GeoIP Net_Text Geodata
begin

text \<open>
  Conditions of routing rules: \<open>app/router/condition.go\<close>, \<open>RoutingRule.BuildCondition\<close> with the loaders of
  geodata in \<open>app/router/config.go\<close>, and the routing contexts of \<open>features/routing/session\<close> and
  \<open>features/routing/dns\<close> that the conditions read.

  What lies outside the repository is a field of the record \<open>env\<close>: \<open>netipx\<close>, \<open>regexp.Compile\<close>,
  \<open>proto.Unmarshal\<close>, the files, the DNS client, the process table, \<open>strings.ToLower\<close>, and the orders in
  which Go ranges over maps and sorts equal elements. A condition can change the context, which caches
  resolved addresses, and it can panic, so \<open>Apply\<close> returns the answer with the new context or an error.
  Building a condition may not end (the search for hash seeds), so it is option-valued.
\<close>

section \<open>Contexts\<close>

record Inbound =
  ib_Source :: Destination
  ib_Local :: Destination
  ib_Tag :: string
  ib_User :: "string option"
  ib_VlessRoute :: Port

record Outbound =
  ob_Target :: Destination
  ob_RouteTarget :: Destination

record Content =
  ct_Protocol :: string
  ct_Attributes :: "(string \<times> string) list option"
  ct_SkipDNSResolve :: bool

text \<open>The context of a session; nil pointers are \<^const>\<open>None\<close>.\<close>

record sessionContext =
  sc_Inbound :: "Inbound option"
  sc_Outbound :: "Outbound option"
  sc_Content :: "Content option"

definition ipsOf :: "Destination \<Rightarrow> bytes list" where
  "ipsOf d = (case IP (dest_Address d) of Inl _ \<Rightarrow> [] | Inr ip \<Rightarrow> if IsIP (Family (dest_Address d)) then [ip] else [])"

definition sc_GetInboundTag :: "sessionContext \<Rightarrow> string" where
  "sc_GetInboundTag ctx = (case sc_Inbound ctx of None \<Rightarrow> [] | Some i \<Rightarrow> ib_Tag i)"

definition sc_GetSourceIPs :: "sessionContext \<Rightarrow> bytes list" where
  "sc_GetSourceIPs ctx =
     (case sc_Inbound ctx of None \<Rightarrow> [] | Some i \<Rightarrow> if \<not> IsValid (ib_Source i) then [] else ipsOf (ib_Source i))"

definition sc_GetSourcePort :: "sessionContext \<Rightarrow> Port" where
  "sc_GetSourcePort ctx =
     (case sc_Inbound ctx of None \<Rightarrow> 0 | Some i \<Rightarrow> if \<not> IsValid (ib_Source i) then 0 else dest_Port (ib_Source i))"

definition sc_GetTargetIPs :: "sessionContext \<Rightarrow> bytes list" where
  "sc_GetTargetIPs ctx =
     (case sc_Outbound ctx of None \<Rightarrow> [] | Some ob \<Rightarrow> if \<not> IsValid (ob_Target ob) then [] else ipsOf (ob_Target ob))"

definition sc_GetTargetPort :: "sessionContext \<Rightarrow> Port" where
  "sc_GetTargetPort ctx =
     (case sc_Outbound ctx of None \<Rightarrow> 0 | Some ob \<Rightarrow> if \<not> IsValid (ob_Target ob) then 0 else dest_Port (ob_Target ob))"

definition sc_GetLocalIPs :: "sessionContext \<Rightarrow> bytes list" where
  "sc_GetLocalIPs ctx =
     (case sc_Inbound ctx of None \<Rightarrow> [] | Some i \<Rightarrow> if \<not> IsValid (ib_Local i) then [] else ipsOf (ib_Local i))"

definition sc_GetLocalPort :: "sessionContext \<Rightarrow> Port" where
  "sc_GetLocalPort ctx =
     (case sc_Inbound ctx of None \<Rightarrow> 0 | Some i \<Rightarrow> if \<not> IsValid (ib_Local i) then 0 else dest_Port (ib_Local i))"

definition sc_GetTargetDomain :: "sessionContext \<Rightarrow> string" where
  "sc_GetTargetDomain ctx =
     (case sc_Outbound ctx of
        None \<Rightarrow> []
      | Some ob \<Rightarrow>
          if \<not> IsValid (ob_Target ob) then []
          else case (if IsValid (ob_RouteTarget ob) then Domain_of (dest_Address (ob_RouteTarget ob)) else Err EOF) of
            Inr d \<Rightarrow> d
          | Inl _ \<Rightarrow> (case Domain_of (dest_Address (ob_Target ob)) of Inr d \<Rightarrow> d | Inl _ \<Rightarrow> []))"

definition sc_GetNetwork :: "sessionContext \<Rightarrow> Network" where
  "sc_GetNetwork ctx = (case sc_Outbound ctx of None \<Rightarrow> Network_Unknown | Some ob \<Rightarrow> dest_Network (ob_Target ob))"

definition sc_GetProtocol :: "sessionContext \<Rightarrow> string" where
  "sc_GetProtocol ctx = (case sc_Content ctx of None \<Rightarrow> [] | Some c \<Rightarrow> ct_Protocol c)"

definition sc_GetUser :: "sessionContext \<Rightarrow> string" where
  "sc_GetUser ctx = (case sc_Inbound ctx of None \<Rightarrow> [] | Some i \<Rightarrow> (case ib_User i of None \<Rightarrow> [] | Some email \<Rightarrow> email))"

definition sc_GetVlessRoute :: "sessionContext \<Rightarrow> Port" where
  "sc_GetVlessRoute ctx = (case sc_Inbound ctx of None \<Rightarrow> 0 | Some i \<Rightarrow> ib_VlessRoute i)"

definition sc_GetAttributes :: "sessionContext \<Rightarrow> (string \<times> string) list option" where
  "sc_GetAttributes ctx = (case sc_Content ctx of None \<Rightarrow> None | Some c \<Rightarrow> ct_Attributes c)"

definition sc_GetSkipDNSResolve :: "sessionContext \<Rightarrow> bool" where
  "sc_GetSkipDNSResolve ctx = (case sc_Content ctx of None \<Rightarrow> False | Some c \<Rightarrow> ct_SkipDNSResolve c)"

text \<open>A routing context: of a session, or one that resolves the target's domain.\<close>

datatype Context =
    SessionContext sessionContext
  | ResolvableContext (rc_inner: Context) (rc_cacheIPs: "bytes list") (rc_hasError: bool)

fun session_of :: "Context \<Rightarrow> sessionContext" where
  "session_of (SessionContext s) = s"
| "session_of (ResolvableContext ctx _ _) = session_of ctx"

text \<open>\<open>GetTargetIPs\<close> of either kind, with the context that keeps what was found.\<close>

fun GetTargetIPs :: "(string \<Rightarrow> bytes list result) \<Rightarrow> Context \<Rightarrow> bytes list \<times> Context" where
  "GetTargetIPs LookupIP (SessionContext s) = (sc_GetTargetIPs s, SessionContext s)"
| "GetTargetIPs LookupIP (ResolvableContext ctx cacheIPs hasError) =
     (if cacheIPs \<noteq> [] then (cacheIPs, ResolvableContext ctx cacheIPs hasError)
      else if hasError then ([], ResolvableContext ctx cacheIPs hasError)
      else
        (let domain = sc_GetTargetDomain (session_of ctx) in
         case (if domain \<noteq> [] then LookupIP domain else Err EOF) of
           Inr ips \<Rightarrow> (ips, ResolvableContext ctx ips hasError)
         | Inl _ \<Rightarrow>
             (let (ips, ctx') = GetTargetIPs LookupIP ctx in
              if ips \<noteq> [] then (ips, ResolvableContext ctx' ips hasError)
              else ([], ResolvableContext ctx' cacheIPs True))))"

definition ContextWithDNSClient :: "Context \<Rightarrow> Context" where
  "ContextWithDNSClient ctx = ResolvableContext ctx [] False"

section \<open>Messages and environment\<close>

datatype Domain_Type = Domain_Plain | Domain_Regex | Domain_Domain | Domain_Full | Domain_Unknown int

record RouterDomain =
  dom_Type :: Domain_Type
  dom_Value :: string
  dom_Attribute :: "string list"

datatype MatcherAsType = AsType_Local | AsType_Source | AsType_Target | AsType_VlessRoute

record 's env =
  env_netipx :: "'s netipx"
  env_sortByCode :: "GeoIP list \<Rightarrow> GeoIP list"
  env_toLower :: "string \<Rightarrow> string"
  env_compile :: "string \<Rightarrow> (string \<Rightarrow> bool) result"
  env_ranged :: "(string \<times> uint32) list \<Rightarrow> (string \<times> uint32) list"
  env_sorted :: "(nat \<times> nat list) list \<Rightarrow> (nat \<times> nat list) list"
  env_rangeAttrs :: "(string \<times> string) list \<Rightarrow> (string \<times> string) list"
  env_mmap :: bool
  env_ReadAsset :: "string \<Rightarrow> bytes result"
  env_UnmarshalGeoIP :: "bytes option \<Rightarrow> GeoIP result"
  env_UnmarshalGeoSite :: "bytes option \<Rightarrow> RouterDomain list result"
  env_LookupIP :: "string \<Rightarrow> bytes list result"
  env_FindProcess :: "Destination \<Rightarrow> (int \<times> string) result"
  env_Getpid :: int

section \<open>Conditions\<close>

datatype 's Condition =
    DomainMatcher MphMatcherGroup
  | IPMatcher "'s GeoIPMatcher" MatcherAsType
  | PortMatcher "MemoryPortRange list" MatcherAsType
  | NetworkMatcher "bool list"
  | UserMatcher "string list" "(string \<Rightarrow> bool) list"
  | InboundTagMatcher "string list"
  | ProtocolMatcher "string list"
  | AttributeMatcher "(string \<times> (string \<Rightarrow> bool)) list"
  | ProcessNameMatcher "string list"

definition ApplyDomain :: "'s env \<Rightarrow> MphMatcherGroup \<Rightarrow> string \<Rightarrow> bool result" where
  "ApplyDomain env g domain = (case Mph_Match g (env_toLower env domain) of Inl e \<Rightarrow> Err e | Inr idxs \<Rightarrow> Ok (idxs \<noteq> []))"

fun network_index :: "Network \<Rightarrow> nat" where
  "network_index Network_Unknown = 0"
| "network_index Network_TCP = 2"
| "network_index Network_UDP = 3"
| "network_index Network_UNIX = 4"

text \<open>The networks of a rule are numbers of an open enumeration; the matcher's array has eight places.\<close>

fun setNetworks :: "int list \<Rightarrow> bool list \<Rightarrow> bool list result" where
  "setNetworks [] list = Ok list"
| "setNetworks (n # ns) list =
     (if 0 \<le> n \<and> n < int (length list) then setNetworks ns (list[nat n := True]) else Err (Panic ''index out of range''))"

definition NewNetworkMatcher :: "int list \<Rightarrow> bool list result" where
  "NewNetworkMatcher network = setNetworks network (replicate 8 False)"

fun NewUserMatcher :: "'s env \<Rightarrow> string list \<Rightarrow> string list \<Rightarrow> (string \<Rightarrow> bool) list \<Rightarrow> 's Condition" where
  "NewUserMatcher env [] users patterns = UserMatcher users patterns"
| "NewUserMatcher env (user # us) users patterns =
     (if user = [] then NewUserMatcher env us users patterns
      else if length user > 7 \<and> take 7 user = ''regexp:'' then
        (case env_compile env (drop 7 user) of
           Inl _ \<Rightarrow> NewUserMatcher env us users patterns
         | Inr re \<Rightarrow> NewUserMatcher env us users (patterns @ [re]))
      else NewUserMatcher env us (users @ [user]) patterns)"

definition NewInboundTagMatcher :: "string list \<Rightarrow> 's Condition" where
  "NewInboundTagMatcher tags = InboundTagMatcher (filter (\<lambda>t. t \<noteq> []) tags)"

definition NewProtocolMatcher :: "string list \<Rightarrow> 's Condition" where
  "NewProtocolMatcher protocols = ProtocolMatcher (filter (\<lambda>p. p \<noteq> []) protocols)"

definition Attribute_Match :: "'s env \<Rightarrow> (string \<times> (string \<Rightarrow> bool)) list \<Rightarrow> (string \<times> string) list \<Rightarrow> bool" where
  "Attribute_Match env configuredKeys attrs =
     (let httpHeaders = foldl (\<lambda>h (key, value). AList.update (env_toLower env key) value h) [] (env_rangeAttrs env attrs) in
      list_all (\<lambda>(key, regex). case map_of httpHeaders key of None \<Rightarrow> False | Some a \<Rightarrow> regex a) configuredKeys)"

definition joinStrings :: "string \<Rightarrow> string list \<Rightarrow> string" where
  "joinStrings sep xs = (case xs of [] \<Rightarrow> [] | x # ys \<Rightarrow> x @ concat (map (\<lambda>y. sep @ y) ys))"

definition ProcessName_Apply :: "'s env \<Rightarrow> string list \<Rightarrow> sessionContext \<Rightarrow> bool result" where
  "ProcessName_Apply env names s =
     (case sc_GetSourceIPs s of
        [] \<Rightarrow> Err (Panic ''index out of range'')
      | ip # _ \<Rightarrow>
          if sc_GetNetwork s \<noteq> Network_TCP \<and> sc_GetNetwork s \<noteq> Network_UDP then Ok False
          else
            (case ParseDestination (joinStrings '':'' [SystemString (sc_GetNetwork s), IP_String ip, Port_String (sc_GetSourcePort s)]) of
               Inl _ \<Rightarrow> Ok False
             | Inr src \<Rightarrow>
                 (case env_FindProcess env src of
                    Inl (Panic msg) \<Rightarrow> Err (Panic msg)
                  | Inl _ \<Rightarrow> Ok False
                  | Inr (pid, name) \<Rightarrow> Ok (list_ex (\<lambda>n. name = ''/self'' \<and> pid = env_Getpid env \<or> n = name) names))))"

definition DomainMatcher_Apply :: "'s env \<Rightarrow> MphMatcherGroup \<Rightarrow> Context \<Rightarrow> (bool \<times> Context) result" where
  "DomainMatcher_Apply env g ctx =
     (let domain = sc_GetTargetDomain (session_of ctx) in
      if length domain = 0 then Ok (False, ctx)
      else case ApplyDomain env g domain of Inl e \<Rightarrow> Err e | Inr b \<Rightarrow> Ok (b, ctx))"

definition IPMatcher_Apply :: "'s env \<Rightarrow> 's GeoIPMatcher \<Rightarrow> MatcherAsType \<Rightarrow> Context \<Rightarrow> (bool \<times> Context) result" where
  "IPMatcher_Apply env matcher asType ctx =
     (case asType of
        AsType_Local \<Rightarrow> Ok (Geo_AnyMatch (env_netipx env) matcher (sc_GetLocalIPs (session_of ctx)), ctx)
      | AsType_Source \<Rightarrow> Ok (Geo_AnyMatch (env_netipx env) matcher (sc_GetSourceIPs (session_of ctx)), ctx)
      | AsType_Target \<Rightarrow> (let (ips, ctx') = GetTargetIPs (env_LookupIP env) ctx in Ok (Geo_AnyMatch (env_netipx env) matcher ips, ctx'))
      | AsType_VlessRoute \<Rightarrow> Err (Panic ''unk asType''))"

definition NewPortMatcher :: "(uint32 \<times> uint32) list \<Rightarrow> MatcherAsType \<Rightarrow> 's Condition" where
  "NewPortMatcher list asType = PortMatcher (PortListFromProto list) asType"

definition PortMatcher_Apply :: "MemoryPortRange list \<Rightarrow> MatcherAsType \<Rightarrow> sessionContext \<Rightarrow> bool" where
  "PortMatcher_Apply port asType s =
     (case asType of
        AsType_Local \<Rightarrow> PortList_Contains port (sc_GetLocalPort s)
      | AsType_Source \<Rightarrow> PortList_Contains port (sc_GetSourcePort s)
      | AsType_Target \<Rightarrow> PortList_Contains port (sc_GetTargetPort s)
      | AsType_VlessRoute \<Rightarrow> PortList_Contains port (sc_GetVlessRoute s))"

definition NetworkMatcher_Apply :: "bool list \<Rightarrow> sessionContext \<Rightarrow> bool" where
  "NetworkMatcher_Apply list s = list ! network_index (sc_GetNetwork s)"

definition UserMatcher_Apply :: "string list \<Rightarrow> (string \<Rightarrow> bool) list \<Rightarrow> sessionContext \<Rightarrow> bool" where
  "UserMatcher_Apply users patterns s =
     (let user = sc_GetUser s in
      if length user = 0 then False
      else if user \<in> set users then True
      else list_ex (\<lambda>re. re user) patterns)"

definition InboundTagMatcher_Apply :: "string list \<Rightarrow> sessionContext \<Rightarrow> bool" where
  "InboundTagMatcher_Apply tags s = (let tag = sc_GetInboundTag s in if length tag = 0 then False else tag \<in> set tags)"

definition ProtocolMatcher_Apply :: "string list \<Rightarrow> sessionContext \<Rightarrow> bool" where
  "ProtocolMatcher_Apply protocols s =
     (let protocol = sc_GetProtocol s in
      if length protocol = 0 then False else list_ex (\<lambda>p. take (length p) protocol = p) protocols)"

definition AttributeMatcher_Apply :: "'s env \<Rightarrow> (string \<times> (string \<Rightarrow> bool)) list \<Rightarrow> sessionContext \<Rightarrow> bool" where
  "AttributeMatcher_Apply env configuredKeys s =
     (case sc_GetAttributes s of None \<Rightarrow> False | Some attributes \<Rightarrow> Attribute_Match env configuredKeys attributes)"

fun Apply :: "'s env \<Rightarrow> 's Condition \<Rightarrow> Context \<Rightarrow> (bool \<times> Context) result" where
  "Apply env (DomainMatcher g) ctx = DomainMatcher_Apply env g ctx"
| "Apply env (IPMatcher matcher asType) ctx = IPMatcher_Apply env matcher asType ctx"
| "Apply env (PortMatcher port asType) ctx = Ok (PortMatcher_Apply port asType (session_of ctx), ctx)"
| "Apply env (NetworkMatcher list) ctx = Ok (NetworkMatcher_Apply list (session_of ctx), ctx)"
| "Apply env (UserMatcher users patterns) ctx = Ok (UserMatcher_Apply users patterns (session_of ctx), ctx)"
| "Apply env (InboundTagMatcher tags) ctx = Ok (InboundTagMatcher_Apply tags (session_of ctx), ctx)"
| "Apply env (ProtocolMatcher protocols) ctx = Ok (ProtocolMatcher_Apply protocols (session_of ctx), ctx)"
| "Apply env (AttributeMatcher configuredKeys) ctx = Ok (AttributeMatcher_Apply env configuredKeys (session_of ctx), ctx)"
| "Apply env (ProcessNameMatcher names) ctx =
     (case ProcessName_Apply env names (session_of ctx) of Inl e \<Rightarrow> Err e | Inr b \<Rightarrow> Ok (b, ctx))"

lemmas matcher_apply_defs = DomainMatcher_Apply_def IPMatcher_Apply_def PortMatcher_Apply_def NetworkMatcher_Apply_def UserMatcher_Apply_def
  InboundTagMatcher_Apply_def ProtocolMatcher_Apply_def AttributeMatcher_Apply_def

fun Chan_Apply :: "'s env \<Rightarrow> 's Condition list \<Rightarrow> Context \<Rightarrow> (bool \<times> Context) result" where
  "Chan_Apply env [] ctx = Ok (True, ctx)"
| "Chan_Apply env (cond # conds) ctx =
     (case Apply env cond ctx of
        Inl e \<Rightarrow> Err e
      | Inr (b, ctx') \<Rightarrow> if \<not> b then Ok (False, ctx') else Chan_Apply env conds ctx')"

section \<open>Construction\<close>

fun matcherType :: "Domain_Type \<Rightarrow> Type option" where
  "matcherType Domain_Plain = Some Substr"
| "matcherType Domain_Regex = Some Regex"
| "matcherType Domain_Domain = Some Domain"
| "matcherType Domain_Full = Some Full"
| "matcherType (Domain_Unknown n) = None"

fun addDomainRules :: "'s env \<Rightarrow> RouterDomain list \<Rightarrow> MphMatcherGroup \<Rightarrow> MphMatcherGroup result" where
  "addDomainRules env [] g = Ok g"
| "addDomainRules env (d # ds) g =
     (case matcherType (dom_Type d) of
        None \<Rightarrow> addDomainRules env ds g
      | Some t \<Rightarrow>
          (case AddPattern (env_toLower env) (env_compile env) (dom_Value d) t g of
             Inl (Panic msg) \<Rightarrow> Err (Panic msg)
           | Inl _ \<Rightarrow> addDomainRules env ds g
           | Inr (_, g') \<Rightarrow> addDomainRules env ds g'))"

definition NewDomainMatcher :: "'s env \<Rightarrow> RouterDomain list \<Rightarrow> 's Condition result option" where
  "NewDomainMatcher env domains =
     (case addDomainRules env domains NewMphMatcherGroup of
        Inl e \<Rightarrow> Some (Err e)
      | Inr g \<Rightarrow>
          (case Mph_Build (env_ranged env) (env_sorted env) g of
             None \<Rightarrow> None
           | Some (Inl e) \<Rightarrow> Some (Err e)
           | Some (Inr g') \<Rightarrow> Some (Ok (DomainMatcher g'))))"

definition NewIPMatcher :: "'s env \<Rightarrow> GeoIP list \<Rightarrow> MatcherAsType \<Rightarrow> 's shared \<Rightarrow> 's Condition result \<times> 's shared" where
  "NewIPMatcher env geoips asType shared =
     (case BuildOptimizedGeoIPMatcher (env_netipx env) (env_sortByCode env) (map Some geoips) shared of
        (Inl e, shared') \<Rightarrow> (Err e, shared')
      | (Inr matcher, shared') \<Rightarrow> (Ok (IPMatcher matcher asType), shared'))"

text \<open>\<open>strings.Split\<close> at a one-character separator.\<close>

fun splitOn :: "char \<Rightarrow> string \<Rightarrow> string list" where
  "splitOn c [] = [[]]"
| "splitOn c (x # xs) = (if x = c then [] # splitOn c xs else (x # hd (splitOn c xs)) # tl (splitOn c xs))"

fun getGeoIPList :: "'s env \<Rightarrow> GeoIP list \<Rightarrow> GeoIP list result" where
  "getGeoIPList env [] = Ok []"
| "getGeoIPList env (ip # ips) =
     (case (if geo_CountryCode ip \<noteq> [] then
              (let val = splitOn CHR ''_'' (geo_CountryCode ip);
                   fileName = (if length val = 2 then env_toLower env (val ! 0) else ''geoip.dat'') in
               case env_ReadAsset env fileName of
                 Inl e \<Rightarrow> Err e
               | Inr bs \<Rightarrow>
                   (case Find bs (str_bytes (geo_CountryCode ip)) of
                      Inl e \<Rightarrow> Err e
                    | Inr bs' \<Rightarrow> env_UnmarshalGeoIP env bs'))
            else Ok ip) of
        Inl e \<Rightarrow> Err e
      | Inr g \<Rightarrow> (case getGeoIPList env ips of Inl e \<Rightarrow> Err e | Inr gs \<Rightarrow> Ok (g # gs)))"

definition GeoBoolean_Match :: "string \<Rightarrow> RouterDomain \<Rightarrow> bool" where
  "GeoBoolean_Match m domain \<longleftrightarrow> m \<in> set (dom_Attribute domain)"

definition GeoAttributeList_Match :: "string list \<Rightarrow> RouterDomain \<Rightarrow> bool" where
  "GeoAttributeList_Match al domain \<longleftrightarrow> list_all (\<lambda>m. GeoBoolean_Match m domain) al"

definition ParseAttrs :: "(string \<Rightarrow> string) \<Rightarrow> string list \<Rightarrow> string list" where
  "ParseAttrs toLower attrs = map toLower attrs"

fun getDomainList :: "'s env \<Rightarrow> RouterDomain list \<Rightarrow> RouterDomain list result" where
  "getDomainList env [] = Ok []"
| "getDomainList env (domain # domains) =
     (case (let val = splitOn CHR ''_'' (dom_Value domain) in
            if length val \<ge> 2 then
              (case env_ReadAsset env (val ! 0) of
                 Inl e \<Rightarrow> Err e
               | Inr bs \<Rightarrow>
                   (case Find bs (str_bytes (val ! 1)) of
                      Inl e \<Rightarrow> Err e
                    | Inr bs' \<Rightarrow>
                        (case env_UnmarshalGeoSite env bs' of
                           Inl e \<Rightarrow> Err e
                         | Inr site \<Rightarrow>
                             Ok (if length val = 3 then
                                   (let attrs = ParseAttrs (env_toLower env) (splitOn CHR '','' (val ! 2)) in
                                    if attrs \<noteq> [] then filter (GeoAttributeList_Match attrs) site else site)
                                 else site))))
            else Ok [domain]) of
        Inl e \<Rightarrow> Err e
      | Inr ds \<Rightarrow> (case getDomainList env domains of Inl e \<Rightarrow> Err e | Inr ds' \<Rightarrow> Ok (ds @ ds')))"

datatype TargetTag = RoutingRule_Tag string | RoutingRule_BalancingTag string | NoTargetTag

record RoutingRule =
  rr_TargetTag :: TargetTag
  rr_RuleTag :: string
  rr_Domain :: "RouterDomain list"
  rr_Geoip :: "GeoIP list"
  rr_PortList :: "(uint32 \<times> uint32) list option"
  rr_Networks :: "int list"
  rr_SourceGeoip :: "GeoIP list"
  rr_SourcePortList :: "(uint32 \<times> uint32) list option"
  rr_UserEmail :: "string list"
  rr_InboundTag :: "string list"
  rr_Protocol :: "string list"
  rr_Attributes :: "(string \<times> string) list"
  rr_LocalGeoip :: "GeoIP list"
  rr_LocalPortList :: "(uint32 \<times> uint32) list option"
  rr_VlessRouteList :: "(uint32 \<times> uint32) list option"
  rr_ProcessName :: "string list"

fun compileAttributes :: "'s env \<Rightarrow> (string \<times> string) list \<Rightarrow> (string \<times> (string \<Rightarrow> bool)) list \<Rightarrow> (string \<times> (string \<Rightarrow> bool)) list result" where
  "compileAttributes env [] keys = Ok keys"
| "compileAttributes env ((key, value) # kvs) keys =
     (case env_compile env value of
        Inl _ \<Rightarrow> Err (Panic ''regexp: Compile'')
      | Inr re \<Rightarrow> compileAttributes env kvs (AList.update (env_toLower env key) re keys))"

definition TrimSuffix :: "string \<Rightarrow> string \<Rightarrow> string" where
  "TrimSuffix s suf = (if has_suffix s suf then take (length s - length suf) s else s)"

text \<open>The parts of \<open>BuildCondition\<close>, in its order; the cache of IP sets is passed along.\<close>

definition networkConditions :: "RoutingRule \<Rightarrow> 's Condition list result" where
  "networkConditions rr =
     (if rr_Networks rr = [] then Ok []
      else case NewNetworkMatcher (rr_Networks rr) of Inl e \<Rightarrow> Err e | Inr list \<Rightarrow> Ok [NetworkMatcher list])"

definition plainConditions :: "RoutingRule \<Rightarrow> 's Condition list \<Rightarrow> 's Condition list" where
  "plainConditions rr networks =
     (if rr_InboundTag rr \<noteq> [] then [NewInboundTagMatcher (rr_InboundTag rr)] else [])
     @ networks
     @ (if rr_Protocol rr \<noteq> [] then [NewProtocolMatcher (rr_Protocol rr)] else [])
     @ (case rr_PortList rr of None \<Rightarrow> [] | Some l \<Rightarrow> [NewPortMatcher l AsType_Target])
     @ (case rr_SourcePortList rr of None \<Rightarrow> [] | Some l \<Rightarrow> [NewPortMatcher l AsType_Source])
     @ (case rr_LocalPortList rr of None \<Rightarrow> [] | Some l \<Rightarrow> [NewPortMatcher l AsType_Local])
     @ (case rr_VlessRouteList rr of None \<Rightarrow> [] | Some l \<Rightarrow> [NewPortMatcher l AsType_VlessRoute])"

definition userConditions :: "'s env \<Rightarrow> RoutingRule \<Rightarrow> 's Condition list" where
  "userConditions env rr = (if rr_UserEmail rr \<noteq> [] then [NewUserMatcher env (rr_UserEmail rr) [] []] else [])"

definition attributeConditions :: "'s env \<Rightarrow> RoutingRule \<Rightarrow> 's Condition list result" where
  "attributeConditions env rr =
     (if rr_Attributes rr = [] then Ok []
      else case compileAttributes env (env_rangeAttrs env (rr_Attributes rr)) [] of
        Inl e \<Rightarrow> Err e | Inr keys \<Rightarrow> Ok [AttributeMatcher keys])"

definition ipConditions :: "'s env \<Rightarrow> GeoIP list \<Rightarrow> MatcherAsType \<Rightarrow> 's shared \<Rightarrow> 's Condition list result \<times> 's shared" where
  "ipConditions env geoips asType shared =
     (if geoips = [] then (Ok [], shared)
      else case NewIPMatcher env geoips asType shared of
        (Inl e, shared') \<Rightarrow> (Err e, shared') | (Inr c, shared') \<Rightarrow> (Ok [c], shared'))"

text \<open>An error wrapped in another message; a panic passes through.\<close>

definition wrapError :: "string \<Rightarrow> goerror \<Rightarrow> goerror" where
  "wrapError msg e = (case e of Panic m \<Rightarrow> Panic m | _ \<Rightarrow> ErrMsg msg)"

definition targetIPConditions :: "'s env \<Rightarrow> RoutingRule \<Rightarrow> 's shared \<Rightarrow> 's Condition list result \<times> 's shared" where
  "targetIPConditions env rr shared =
     (if rr_Geoip rr = [] then (Ok [], shared)
      else case (if env_mmap env then getGeoIPList env (rr_Geoip rr) else Ok (rr_Geoip rr)) of
        Inl e \<Rightarrow> (Err (wrapError ''failed to build geoip from mmap'' e), shared)
      | Inr geoip \<Rightarrow> (case NewIPMatcher env geoip AsType_Target shared of
          (Inl e, shared') \<Rightarrow> (Err e, shared') | (Inr c, shared') \<Rightarrow> (Ok [c], shared')))"

definition domainConditions :: "'s env \<Rightarrow> RoutingRule \<Rightarrow> 's Condition list result option" where
  "domainConditions env rr =
     (if rr_Domain rr = [] then Some (Ok [])
      else case (if env_mmap env then getDomainList env (rr_Domain rr) else Ok (rr_Domain rr)) of
        Inl e \<Rightarrow> Some (Err (wrapError ''failed to build domains from mmap'' e))
      | Inr domains \<Rightarrow> map_option (map_sum id (\<lambda>c. [c])) (NewDomainMatcher env domains))"

definition processConditions :: "RoutingRule \<Rightarrow> 's Condition list" where
  "processConditions rr =
     (if rr_ProcessName rr \<noteq> [] then [ProcessNameMatcher (map (\<lambda>name. TrimSuffix name ''.exe'') (rr_ProcessName rr))] else [])"

definition BuildCondition :: "'s env \<Rightarrow> RoutingRule \<Rightarrow> 's shared \<Rightarrow> ('s Condition list result \<times> 's shared) option" where
  "BuildCondition env rr shared =
     (case networkConditions rr of
        Inl e \<Rightarrow> Some (Err e, shared)
      | Inr networks \<Rightarrow>
     (case attributeConditions env rr of
        Inl e \<Rightarrow> Some (Err e, shared)
      | Inr attrs \<Rightarrow>
          (case targetIPConditions env rr shared of
             (Inl e, shared1) \<Rightarrow> Some (Err e, shared1)
           | (Inr target, shared1) \<Rightarrow>
               (case ipConditions env (rr_SourceGeoip rr) AsType_Source shared1 of
                  (Inl e, shared2) \<Rightarrow> Some (Err e, shared2)
                | (Inr source, shared2) \<Rightarrow>
                    (case ipConditions env (rr_LocalGeoip rr) AsType_Local shared2 of
                       (Inl e, shared3) \<Rightarrow> Some (Err e, shared3)
                     | (Inr local_ips, shared3) \<Rightarrow>
                         (case domainConditions env rr of
                            None \<Rightarrow> None
                          | Some (Inl e) \<Rightarrow> Some (Err e, shared3)
                          | Some (Inr domains) \<Rightarrow>
                              (let conds = plainConditions rr networks @ userConditions env rr @ attrs @ target @ source @ local_ips
                                     @ domains @ processConditions rr in
                               if length conds = 0 then Some (Err (ErrMsg ''this rule has no effective fields''), shared3)
                               else Some (Ok conds, shared3))))))))"

section \<open>Contexts that resolve\<close>

text \<open>The target addresses a context answers with, asked first or again.\<close>

definition target_ips :: "'s env \<Rightarrow> Context \<Rightarrow> bytes list" where
  "target_ips env ctx = fst (GetTargetIPs (env_LookupIP env) ctx)"

lemma GetTargetIPs_again:
  "GetTargetIPs L (snd (GetTargetIPs L ctx)) = GetTargetIPs L ctx \<and> session_of (snd (GetTargetIPs L ctx)) = session_of ctx"
proof (induction ctx)
  case (ResolvableContext ctx ips err)
  then show ?case by (auto simp: Let_def split: sum.splits prod.splits)
qed simp

text \<open>A context as good as another: the same session, the same target addresses.\<close>

definition same_context :: "'s env \<Rightarrow> Context \<Rightarrow> Context \<Rightarrow> bool" where
  "same_context env c d \<longleftrightarrow> session_of c = session_of d \<and> target_ips env c = target_ips env d"

lemma same_context_refl [simp]: "same_context env c c"
  by (simp add: same_context_def)

lemma same_context_trans: "same_context env c d \<Longrightarrow> same_context env d e \<Longrightarrow> same_context env c e"
  by (simp add: same_context_def)

lemma GetTargetIPs_same: "same_context env (snd (GetTargetIPs (env_LookupIP env) ctx)) ctx"
  using GetTargetIPs_again [of "env_LookupIP env" ctx] by (simp add: same_context_def target_ips_def)

text \<open>The addresses of a resolving context: those of the domain when it has one that resolves.\<close>

definition resolved_ips :: "'s env \<Rightarrow> sessionContext \<Rightarrow> bytes list" where
  "resolved_ips env s =
     (case (if sc_GetTargetDomain s \<noteq> [] then env_LookupIP env (sc_GetTargetDomain s) else Err EOF) of
        Inr ips \<Rightarrow> ips | Inl _ \<Rightarrow> sc_GetTargetIPs s)"

lemma target_ips_session [simp]: "target_ips env (SessionContext s) = sc_GetTargetIPs s"
  by (simp add: target_ips_def)

lemma target_ips_dns:
  assumes "session_of ctx = s" "target_ips env ctx = sc_GetTargetIPs s"
  shows "target_ips env (ContextWithDNSClient ctx) = resolved_ips env s"
  using assms by (auto simp: target_ips_def ContextWithDNSClient_def resolved_ips_def Let_def split: sum.splits prod.splits)

lemma session_of_dns [simp]: "session_of (ContextWithDNSClient ctx) = session_of ctx"
  by (simp add: ContextWithDNSClient_def)

section \<open>The meaning of a condition\<close>

text \<open>A condition as a predicate of the session and the target addresses.\<close>

fun cond_holds :: "'s env \<Rightarrow> sessionContext \<Rightarrow> bytes list \<Rightarrow> 's Condition \<Rightarrow> bool" where
  "cond_holds env s ips (DomainMatcher g) \<longleftrightarrow> sc_GetTargetDomain s \<noteq> [] \<and> ApplyDomain env g (sc_GetTargetDomain s) = Ok True"
| "cond_holds env s ips (IPMatcher m t) \<longleftrightarrow>
     Geo_AnyMatch (env_netipx env) m (case t of AsType_Local \<Rightarrow> sc_GetLocalIPs s | AsType_Source \<Rightarrow> sc_GetSourceIPs s | _ \<Rightarrow> ips)"
| "cond_holds env s ips (PortMatcher l t) \<longleftrightarrow>
     PortList_Contains l (case t of AsType_Local \<Rightarrow> sc_GetLocalPort s | AsType_Source \<Rightarrow> sc_GetSourcePort s
       | AsType_Target \<Rightarrow> sc_GetTargetPort s | AsType_VlessRoute \<Rightarrow> sc_GetVlessRoute s)"
| "cond_holds env s ips (NetworkMatcher l) \<longleftrightarrow> l ! network_index (sc_GetNetwork s)"
| "cond_holds env s ips (UserMatcher users patterns) \<longleftrightarrow>
     sc_GetUser s \<noteq> [] \<and> (sc_GetUser s \<in> set users \<or> list_ex (\<lambda>re. re (sc_GetUser s)) patterns)"
| "cond_holds env s ips (InboundTagMatcher tags) \<longleftrightarrow> sc_GetInboundTag s \<noteq> [] \<and> sc_GetInboundTag s \<in> set tags"
| "cond_holds env s ips (ProtocolMatcher ps) \<longleftrightarrow>
     sc_GetProtocol s \<noteq> [] \<and> list_ex (\<lambda>p. take (length p) (sc_GetProtocol s) = p) ps"
| "cond_holds env s ips (AttributeMatcher keys) \<longleftrightarrow>
     (case sc_GetAttributes s of None \<Rightarrow> False | Some attrs \<Rightarrow> Attribute_Match env keys attrs)"
| "cond_holds env s ips (ProcessNameMatcher names) \<longleftrightarrow> ProcessName_Apply env names s = Ok True"

text \<open>The cases in which a condition panics.\<close>

fun cond_safe :: "'s env \<Rightarrow> sessionContext \<Rightarrow> 's Condition \<Rightarrow> bool" where
  "cond_safe env s (DomainMatcher g) \<longleftrightarrow> (sc_GetTargetDomain s \<noteq> [] \<longrightarrow> \<not> isl (ApplyDomain env g (sc_GetTargetDomain s)))"
| "cond_safe env s (IPMatcher m t) \<longleftrightarrow> t \<noteq> AsType_VlessRoute"
| "cond_safe env s (ProcessNameMatcher names) \<longleftrightarrow> \<not> isl (ProcessName_Apply env names s)"
| "cond_safe env s c \<longleftrightarrow> True"

lemma not_isl_bool: "\<not> isl r \<Longrightarrow> r = Ok (r = Ok True)" for r :: "bool result"
  by (cases r) auto

lemma Apply_holds:
  assumes "cond_safe env (session_of ctx) c"
  shows "\<exists>ctx'. Apply env c ctx = Ok (cond_holds env (session_of ctx) (target_ips env ctx) c, ctx') \<and> same_context env ctx' ctx"
proof (cases c)
  case (DomainMatcher g)
  then show ?thesis using assms not_isl_bool [of "ApplyDomain env g (sc_GetTargetDomain (session_of ctx))"]
    by (cases "ApplyDomain env g (sc_GetTargetDomain (session_of ctx))") (auto simp: Let_def DomainMatcher_Apply_def)
next
  case (IPMatcher m t)
  then show ?thesis
    using assms GetTargetIPs_same [of env ctx] by (cases t) (auto simp: target_ips_def IPMatcher_Apply_def split: prod.split)
next
  case (PortMatcher l t)
  then show ?thesis by (cases t) (auto simp: PortMatcher_Apply_def)
next
  case (AttributeMatcher keys)
  then show ?thesis by (cases "sc_GetAttributes (session_of ctx)") (auto simp: AttributeMatcher_Apply_def)
next
  case (ProcessNameMatcher names)
  then show ?thesis using assms by (cases "ProcessName_Apply env names (session_of ctx)") auto
qed (auto simp: Let_def matcher_apply_defs)

lemma same_context_holds:
  "same_context env ctx' ctx \<Longrightarrow> cond_holds env (session_of ctx') (target_ips env ctx') = cond_holds env (session_of ctx) (target_ips env ctx)"
  by (simp add: same_context_def)

lemma Chan_Apply_holds:
  assumes "\<forall>c \<in> set conds. cond_safe env (session_of ctx) c"
  shows "\<exists>ctx'. Chan_Apply env conds ctx = Ok (list_all (cond_holds env (session_of ctx) (target_ips env ctx)) conds, ctx')
           \<and> same_context env ctx' ctx"
  using assms
proof (induction conds arbitrary: ctx)
  case (Cons c conds)
  obtain ctx1 where a: "Apply env c ctx = Ok (cond_holds env (session_of ctx) (target_ips env ctx) c, ctx1)" and s: "same_context env ctx1 ctx"
    using Apply_holds [of env ctx c] Cons.prems by auto
  have "\<forall>c \<in> set conds. cond_safe env (session_of ctx1) c" using s Cons.prems by (simp add: same_context_def)
  from Cons.IH [OF this] obtain ctx2 where b: "Chan_Apply env conds ctx1 =
      Ok (list_all (cond_holds env (session_of ctx1) (target_ips env ctx1)) conds, ctx2)" and t: "same_context env ctx2 ctx1" by blast
  show ?case
  proof (cases "cond_holds env (session_of ctx) (target_ips env ctx) c")
    case True
    then show ?thesis using a b same_context_trans [OF t s] same_context_holds [OF s] by simp
  next
    case False
    then show ?thesis using a s by simp
  qed
qed simp

section \<open>What a rule's fields ask for\<close>

definition port_field :: "(uint32 \<times> uint32) list option \<Rightarrow> Port \<Rightarrow> bool" where
  "port_field l port \<longleftrightarrow> (case l of None \<Rightarrow> True | Some rs \<Rightarrow> list_ex (\<lambda>(f, t). ucast f \<le> port \<and> port \<le> ucast t) rs)"

definition email_matches :: "'s env \<Rightarrow> string \<Rightarrow> string \<Rightarrow> bool" where
  "email_matches env user e \<longleftrightarrow>
     (if length e > 7 \<and> take 7 e = ''regexp:'' then accepts (env_compile env) (drop 7 e) user else user = e)"

definition user_field :: "'s env \<Rightarrow> string list \<Rightarrow> string \<Rightarrow> bool" where
  "user_field env emails user \<longleftrightarrow> emails = [] \<or> user \<noteq> [] \<and> (\<exists>e \<in> set emails. email_matches env user e)"

definition attribute_field :: "'s env \<Rightarrow> (string \<times> string) list \<Rightarrow> (string \<times> string) list option \<Rightarrow> bool" where
  "attribute_field env kvs attrs \<longleftrightarrow> kvs = [] \<or> (case attrs of None \<Rightarrow> False | Some hs \<Rightarrow>
     (\<forall>(key, pattern) \<in> set kvs. \<exists>(h, v) \<in> set hs. env_toLower env h = env_toLower env key \<and> accepts (env_compile env) pattern v))"

definition ip_field :: "'s env \<Rightarrow> GeoIP list \<Rightarrow> bytes list \<Rightarrow> bool" where
  "ip_field env gs ips \<longleftrightarrow> gs = [] \<or> (\<exists>ip \<in> set ips. \<exists>a. FromStdIP (env_netipx env) ip = Some a \<and> geo_reference gs a)"

definition domain_patterns :: "RouterDomain list \<Rightarrow> (string \<times> Type) list" where
  "domain_patterns ds = concat (map (\<lambda>d. case matcherType (dom_Type d) of None \<Rightarrow> [] | Some t \<Rightarrow> [(dom_Value d, t)]) ds)"

definition domain_field :: "'s env \<Rightarrow> RouterDomain list \<Rightarrow> string \<Rightarrow> bool" where
  "domain_field env ds domain \<longleftrightarrow> domain \<noteq> []
     \<and> reference_match (env_toLower env) (env_compile env) (domain_patterns ds) (env_toLower env domain)"

text \<open>
  A process rule looks up the process that owns the connection's source, an IPv4 address here, and compares its name
  with the configured ones, which may carry the suffix \<open>.exe\<close>; a name \<open>/self\<close> stands for this program itself.
\<close>

definition source_dest :: "bytes \<Rightarrow> sessionContext \<Rightarrow> Destination" where
  "source_dest ip s = \<lparr>dest_Address = ipv4Address ip, dest_Port = sc_GetSourcePort s, dest_Network = sc_GetNetwork s\<rparr>"

definition process_field :: "'s env \<Rightarrow> string list \<Rightarrow> sessionContext \<Rightarrow> bool" where
  "process_field env names s \<longleftrightarrow> names = [] \<or> (sc_GetNetwork s = Network_TCP \<or> sc_GetNetwork s = Network_UDP)
     \<and> (\<exists>ip pid name. sc_GetSourceIPs s = [ip] \<and> env_FindProcess env (source_dest ip s) = Ok (pid, name)
          \<and> (name = ''/self'' \<and> pid = env_Getpid env
             \<or> (\<exists>n \<in> set names. n = name @ ''.exe'' \<or> n = name \<and> \<not> (\<exists>stem. n = stem @ ''.exe''))))"

text \<open>
  What the geodata files hold: the addresses of a country code, and the domains of a code of a file of sites. The
  domain entries of a rule are domains given as such, or references to the domains of a site list that carry
  all of some attributes.
\<close>

record geodata =
  gd_ip :: "string \<Rightarrow> CIDR list"
  gd_site :: "string \<Rightarrow> string \<Rightarrow> RouterDomain list"

datatype domain_item = GivenDomain RouterDomain | SiteRef string string "string list"

definition asked_geoip :: "geodata \<Rightarrow> GeoIP list \<Rightarrow> GeoIP list" where
  "asked_geoip gd gs = map (\<lambda>g. if geo_CountryCode g = [] then g else g\<lparr>geo_Cidr := gd_ip gd (geo_CountryCode g)\<rparr>) gs"

fun item_domains :: "'s env \<Rightarrow> geodata \<Rightarrow> domain_item \<Rightarrow> RouterDomain list" where
  "item_domains env gd (GivenDomain d) = [d]"
| "item_domains env gd (SiteRef fname code attrs) =
     filter (\<lambda>d. \<forall>a \<in> set attrs. env_toLower env a \<in> set (dom_Attribute d)) (gd_site gd fname code)"

definition asked_domains :: "'s env \<Rightarrow> geodata \<Rightarrow> domain_item list \<Rightarrow> RouterDomain list" where
  "asked_domains env gd items = concat (map (item_domains env gd) items)"

text \<open>How an entry of the configuration spells an item.\<close>

fun spells :: "domain_item \<Rightarrow> RouterDomain \<Rightarrow> bool" where
  "spells (GivenDomain d) d' \<longleftrightarrow> d' = d"
| "spells (SiteRef fname code attrs) d' \<longleftrightarrow>
     dom_Value d' = fname @ ''_'' @ code @ (if attrs = [] then [] else ''_'' @ joinStrings '','' attrs)"

text \<open>The lists that the loaders return.\<close>

definition loaded_geoip :: "'s env \<Rightarrow> RoutingRule \<Rightarrow> GeoIP list result" where
  "loaded_geoip env rr = (if env_mmap env then getGeoIPList env (rr_Geoip rr) else Ok (rr_Geoip rr))"

definition loaded_domains :: "'s env \<Rightarrow> RoutingRule \<Rightarrow> RouterDomain list result" where
  "loaded_domains env rr = (if env_mmap env then getDomainList env (rr_Domain rr) else Ok (rr_Domain rr))"

definition rule_holds :: "'s env \<Rightarrow> geodata \<Rightarrow> RoutingRule \<Rightarrow> domain_item list \<Rightarrow> sessionContext \<Rightarrow> bytes list \<Rightarrow> bool" where
  "rule_holds env gd rr items s ips \<longleftrightarrow>
     (rr_InboundTag rr = [] \<or> sc_GetInboundTag s \<noteq> [] \<and> sc_GetInboundTag s \<in> set (rr_InboundTag rr))
     \<and> (rr_Networks rr = [] \<or> int (network_index (sc_GetNetwork s)) \<in> set (rr_Networks rr))
     \<and> (rr_Protocol rr = [] \<or> sc_GetProtocol s \<noteq> [] \<and> (\<exists>p \<in> set (rr_Protocol rr). p \<noteq> [] \<and> take (length p) (sc_GetProtocol s) = p))
     \<and> port_field (rr_PortList rr) (sc_GetTargetPort s) \<and> port_field (rr_SourcePortList rr) (sc_GetSourcePort s)
     \<and> port_field (rr_LocalPortList rr) (sc_GetLocalPort s) \<and> port_field (rr_VlessRouteList rr) (sc_GetVlessRoute s)
     \<and> user_field env (rr_UserEmail rr) (sc_GetUser s) \<and> attribute_field env (rr_Attributes rr) (sc_GetAttributes s)
     \<and> ip_field env (asked_geoip gd (rr_Geoip rr)) ips \<and> ip_field env (rr_SourceGeoip rr) (sc_GetSourceIPs s) \<and> ip_field env (rr_LocalGeoip rr) (sc_GetLocalIPs s)
     \<and> (rr_Domain rr = [] \<or> domain_field env (asked_domains env gd items) (sc_GetTargetDomain s))
     \<and> process_field env (rr_ProcessName rr) s"

section \<open>The conditions built mean the fields\<close>

lemma network_index_less: "network_index n < 8"
  by (cases n) simp_all

lemma setNetworks_ok:
  assumes "\<forall>n \<in> set ns. 0 \<le> n \<and> n < int (length l)"
  shows "\<exists>l'. setNetworks ns l = Ok l' \<and> (\<forall>i < length l. l' ! i \<longleftrightarrow> int i \<in> set ns \<or> l ! i)"
  using assms
proof (induction ns arbitrary: l)
  case (Cons n ns)
  then obtain l' where l': "setNetworks ns (l[nat n := True]) = Ok l'"
    "\<forall>i < length l. l' ! i \<longleftrightarrow> int i \<in> set ns \<or> l[nat n := True] ! i"
    using Cons.IH [of "l[nat n := True]"] by auto
  have "l[nat n := True] ! i \<longleftrightarrow> int i = n \<or> l ! i" if "i < length l" for i
    using Cons.prems that by (cases "i = nat n") auto
  then show ?case using l' Cons.prems by auto
qed simp

lemma networkConditions_ok:
  assumes "\<forall>n \<in> set (rr_Networks rr). 0 \<le> n \<and> n < 8"
  obtains conds where "networkConditions rr = Ok conds" "\<forall>c \<in> set conds. cond_safe env s c" "conds = [] \<longleftrightarrow> rr_Networks rr = []"
    "\<forall>ips. list_all (cond_holds env s ips) conds \<longleftrightarrow> rr_Networks rr = [] \<or> int (network_index (sc_GetNetwork s)) \<in> set (rr_Networks rr)"
proof (cases "rr_Networks rr = []")
  case True
  then show ?thesis by (intro that [of "[]"]) (simp_all add: networkConditions_def)
next
  case False
  obtain l where l: "setNetworks (rr_Networks rr) (replicate 8 False) = Ok l"
    "\<forall>i < 8. l ! i \<longleftrightarrow> int i \<in> set (rr_Networks rr) \<or> replicate 8 False ! i"
    using setNetworks_ok [of "rr_Networks rr" "replicate 8 False"] assms by auto
  have "l ! network_index (sc_GetNetwork s) \<longleftrightarrow> int (network_index (sc_GetNetwork s)) \<in> set (rr_Networks rr)"
    using l(2) network_index_less [of "sc_GetNetwork s"] by simp
  then show ?thesis using False l(1)
    by (intro that [of "[NetworkMatcher l]"]) (simp_all add: networkConditions_def NewNetworkMatcher_def)
qed

lemma NewUserMatcher_holds:
  "user \<noteq> [] \<Longrightarrow> \<exists>us' ps'. NewUserMatcher env emails us ps = UserMatcher us' ps' \<and>
     (user \<in> set us' \<or> (\<exists>re \<in> set ps'. re user) \<longleftrightarrow>
        user \<in> set us \<or> (\<exists>re \<in> set ps. re user) \<or> (\<exists>e \<in> set emails. email_matches env user e))"
proof (induction emails arbitrary: us ps)
  case (Cons e es)
  let ?r = "length e > 7 \<and> take 7 e = ''regexp:''"
  have split: "(\<exists>e' \<in> set (e # es). email_matches env user e') \<longleftrightarrow> email_matches env user e \<or> (\<exists>e' \<in> set es. email_matches env user e')" by simp
  consider "e = []" | "e \<noteq> []" "?r" | "e \<noteq> []" "\<not> ?r" by blast
  then show ?case
  proof cases
    case 1
    then have "\<not> email_matches env user e" using Cons.prems by (simp add: email_matches_def)
    then show ?thesis unfolding split using 1 Cons.IH [OF Cons.prems, of us ps] by simp
  next
    case 2
    then show ?thesis
    proof (cases "env_compile env (drop 7 e)")
      case (Inl x)
      then have "\<not> email_matches env user e" using 2 by (simp add: email_matches_def accepts_def)
      then show ?thesis unfolding split using 2 Inl Cons.IH [OF Cons.prems, of us ps] by simp
    next
      case (Inr re)
      then have "email_matches env user e \<longleftrightarrow> re user" using 2 by (simp add: email_matches_def accepts_def)
      then show ?thesis unfolding split using 2 Inr Cons.IH [OF Cons.prems, of us "ps @ [re]"] by auto
    qed
  next
    case 3
    have m: "email_matches env user e \<longleftrightarrow> user = e" unfolding email_matches_def if_not_P [OF 3(2)] ..
    have n: "NewUserMatcher env (e # es) us ps = NewUserMatcher env es (us @ [e]) ps"
      unfolding NewUserMatcher.simps(2) if_not_P [OF 3(1)] if_not_P [OF 3(2)] ..
    show ?thesis unfolding split m n using Cons.IH [OF Cons.prems, of "us @ [e]" ps] by auto
  qed
qed simp

lemma NewUserMatcher_user: "\<exists>us' ps'. NewUserMatcher env emails us ps = UserMatcher us' ps'"
  by (induction env emails us ps rule: NewUserMatcher.induct) (auto split: sum.split)

lemma userConditions_holds:
  "list_all (cond_holds env s ips) (userConditions env rr) \<longleftrightarrow> user_field env (rr_UserEmail rr) (sc_GetUser s)"
proof (cases "sc_GetUser s = []")
  case True
  then show ?thesis using NewUserMatcher_user [of env "rr_UserEmail rr" "[]" "[]"] by (auto simp: userConditions_def user_field_def)
next
  case False
  then show ?thesis using NewUserMatcher_holds [OF False, of env "rr_UserEmail rr" "[]" "[]"]
    by (auto simp: userConditions_def user_field_def list_ex_iff)
qed

lemma port_field_holds: "PortList_Contains (PortListFromProto l) port \<longleftrightarrow> port_field (Some l) port"
  by (induction l) (auto simp: PortListFromProto_def port_field_def Contains_def)

lemma plainConditions_holds:
  "list_all (cond_holds env s ips) (plainConditions rr nets) \<longleftrightarrow>
     (rr_InboundTag rr = [] \<or> sc_GetInboundTag s \<noteq> [] \<and> sc_GetInboundTag s \<in> set (rr_InboundTag rr))
     \<and> list_all (cond_holds env s ips) nets
     \<and> (rr_Protocol rr = [] \<or> sc_GetProtocol s \<noteq> [] \<and> (\<exists>p \<in> set (rr_Protocol rr). p \<noteq> [] \<and> take (length p) (sc_GetProtocol s) = p))
     \<and> port_field (rr_PortList rr) (sc_GetTargetPort s) \<and> port_field (rr_SourcePortList rr) (sc_GetSourcePort s)
     \<and> port_field (rr_LocalPortList rr) (sc_GetLocalPort s) \<and> port_field (rr_VlessRouteList rr) (sc_GetVlessRoute s)"
proof -
  have ports: "list_all (cond_holds env s ips) (case l of None \<Rightarrow> [] | Some l \<Rightarrow> [NewPortMatcher l t]) \<longleftrightarrow>
      port_field l (case t of AsType_Local \<Rightarrow> sc_GetLocalPort s | AsType_Source \<Rightarrow> sc_GetSourcePort s
        | AsType_Target \<Rightarrow> sc_GetTargetPort s | AsType_VlessRoute \<Rightarrow> sc_GetVlessRoute s)" for l t
    by (cases l) (simp_all add: NewPortMatcher_def port_field_holds, simp add: port_field_def)
  have "list_all (cond_holds env s ips) (if rr_InboundTag rr \<noteq> [] then [NewInboundTagMatcher (rr_InboundTag rr)] else []) \<longleftrightarrow>
      rr_InboundTag rr = [] \<or> sc_GetInboundTag s \<noteq> [] \<and> sc_GetInboundTag s \<in> set (rr_InboundTag rr)"
    by (simp add: NewInboundTagMatcher_def conj_commute)
  moreover have "list_all (cond_holds env s ips) (if rr_Protocol rr \<noteq> [] then [NewProtocolMatcher (rr_Protocol rr)] else []) \<longleftrightarrow>
      rr_Protocol rr = [] \<or> sc_GetProtocol s \<noteq> [] \<and> (\<exists>p \<in> set (rr_Protocol rr). p \<noteq> [] \<and> take (length p) (sc_GetProtocol s) = p)"
    by (cases "rr_Protocol rr = []") (auto simp: NewProtocolMatcher_def list_ex_iff)
  ultimately show ?thesis
    unfolding plainConditions_def list_all_append ports MatcherAsType.case by (elim ssubst) (rule refl)
qed

lemma update_fresh: "k \<notin> fst ` set al \<Longrightarrow> AList.update k v al = al @ [(k, v)]"
  by (induction al) auto

lemma fresh_keys:
  assumes "distinct (map (f \<circ> fst) (kv # kvs))" "\<forall>(k, p) \<in> set (kv # kvs). f k \<notin> fst ` set acc"
  shows "\<forall>(k, p) \<in> set kvs. f k \<notin> fst ` set (acc @ [(f (fst kv), v)])"
proof -
  have "f k \<notin> fst ` set (acc @ [(f (fst kv), v)])" if kp: "(k, p) \<in> set kvs" for k p
  proof -
    have "f (fst kv) \<notin> (f \<circ> fst) ` set kvs" using assms(1) by simp
    then have "f k \<noteq> f (fst kv)" using kp by (metis comp_apply fst_conv image_eqI)
    moreover have "f k \<notin> fst ` set acc" using assms(2) kp by auto
    ultimately show ?thesis by auto
  qed
  then show ?thesis by blast
qed

lemma compileAttributes_ok:
  assumes "\<forall>(k, p) \<in> set kvs. \<exists>re. env_compile env p = Ok re" "distinct (map (env_toLower env \<circ> fst) kvs)"
    "\<forall>(k, p) \<in> set kvs. env_toLower env k \<notin> fst ` set keys"
  shows "compileAttributes env kvs keys = Ok (keys @ map (\<lambda>(k, p). (env_toLower env k, accepts (env_compile env) p)) kvs)"
  using assms
proof (induction kvs arbitrary: keys)
  case (Cons kv kvs)
  obtain k p where kv: "kv = (k, p)" by (cases kv)
  then obtain re where re: "env_compile env p = Ok re" using Cons.prems(1) by auto
  have acc: "accepts (env_compile env) p = re" using re by (intro ext) (simp add: accepts_def)
  have upd: "AList.update (env_toLower env k) re keys = keys @ [(env_toLower env k, re)]"
    using Cons.prems(3) kv by (intro update_fresh) simp
  have "compileAttributes env kvs (keys @ [(env_toLower env k, re)]) =
      Ok ((keys @ [(env_toLower env k, re)]) @ map (\<lambda>(k, p). (env_toLower env k, accepts (env_compile env) p)) kvs)"
    by (rule Cons.IH) (use Cons.prems(1,2) fresh_keys [OF Cons.prems(2,3), of re] kv in simp_all)
  then show ?case using kv re acc upd by simp
qed simp

lemma headers_eq:
  assumes "distinct (map (env_toLower env \<circ> fst) hs)" "\<forall>(k, v) \<in> set hs. env_toLower env k \<notin> fst ` set acc"
  shows "foldl (\<lambda>h (key, value). AList.update (env_toLower env key) value h) acc hs = acc @ map (\<lambda>(k, v). (env_toLower env k, v)) hs"
  using assms
proof (induction hs arbitrary: acc)
  case (Cons kv hs)
  obtain k v where kv: "kv = (k, v)" by (cases kv)
  have "AList.update (env_toLower env k) v acc = acc @ [(env_toLower env k, v)]" using Cons.prems(2) kv by (intro update_fresh) simp
  moreover have "foldl (\<lambda>h (key, value). AList.update (env_toLower env key) value h) (acc @ [(env_toLower env k, v)]) hs
      = (acc @ [(env_toLower env k, v)]) @ map (\<lambda>(k, v). (env_toLower env k, v)) hs"
    by (rule Cons.IH) (use Cons.prems(1) fresh_keys [OF Cons.prems(1,2), of v] kv in simp_all)
  ultimately show ?case using kv by simp
qed simp

text \<open>What the conditions rely on of the environment.\<close>

definition env_wf :: "'s env \<Rightarrow> bool" where
  "env_wf env \<longleftrightarrow> netipx_ok (env_netipx env) \<and> (\<forall>gs. mset (env_sortByCode env gs) = mset gs)
     \<and> (\<forall>xs. mset (env_ranged env xs) = mset xs) \<and> (\<forall>bs. mset (env_sorted env bs) = mset bs)
     \<and> (\<forall>xs. mset (env_rangeAttrs env xs) = mset xs) \<and> (\<forall>p msg. env_compile env p \<noteq> Err (Panic msg))"

definition distinct_keys :: "'s env \<Rightarrow> (string \<times> string) list \<Rightarrow> bool" where
  "distinct_keys env kvs \<longleftrightarrow> distinct (map (env_toLower env \<circ> fst) kvs)"

lemma distinct_keys_range:
  assumes "env_wf env" "distinct_keys env kvs"
  shows "distinct (map (env_toLower env \<circ> fst) (env_rangeAttrs env kvs))" "set (env_rangeAttrs env kvs) = set kvs"
proof -
  have m: "mset (env_rangeAttrs env kvs) = mset kvs" using assms(1) by (simp add: env_wf_def)
  then have "mset (map (env_toLower env \<circ> fst) (env_rangeAttrs env kvs)) = mset (map (env_toLower env \<circ> fst) kvs)" by simp
  then show "distinct (map (env_toLower env \<circ> fst) (env_rangeAttrs env kvs))"
    using assms(2) mset_eq_imp_distinct_iff unfolding distinct_keys_def by blast
  show "set (env_rangeAttrs env kvs) = set kvs" using m by (rule mset_eq_setD)
qed

lemma Attribute_Match_iff:
  assumes "env_wf env" "distinct_keys env hs"
  shows "Attribute_Match env keys hs \<longleftrightarrow> (\<forall>(key, re) \<in> set keys. \<exists>(h, v) \<in> set hs. env_toLower env h = key \<and> re v)"
proof -
  note d = distinct_keys_range [OF assms]
  let ?H = "map (\<lambda>(k, v). (env_toLower env k, v)) (env_rangeAttrs env hs)"
  have "map fst ?H = map (env_toLower env \<circ> fst) (env_rangeAttrs env hs)" by (simp add: case_prod_beta comp_def)
  then have "distinct (map fst ?H)" using d(1) by (rule ssubst)
  then have look: "map_of ?H k = Some a \<longleftrightarrow> (k, a) \<in> set ?H" for k a by (rule map_of_eq_Some_iff)
  have "(case map_of ?H k of None \<Rightarrow> False | Some a \<Rightarrow> re a) \<longleftrightarrow> (\<exists>a. map_of ?H k = Some a \<and> re a)" for k and re :: "string \<Rightarrow> bool"
    by (cases "map_of ?H k") auto
  also have "(\<exists>a. map_of ?H k = Some a \<and> re a) \<longleftrightarrow> (\<exists>(h, v) \<in> set hs. env_toLower env h = k \<and> re v)" for k and re :: "string \<Rightarrow> bool"
    unfolding look using d(2) by fastforce
  finally show ?thesis
    unfolding Attribute_Match_def Let_def using headers_eq [OF d(1), of "[]"] by (simp add: list_all_iff)
qed

lemma not_isl_ok: "\<not> isl r \<Longrightarrow> \<exists>x. r = Ok x"
  by (cases r) auto

lemma attributeConditions_ok:
  assumes "env_wf env" "distinct_keys env (rr_Attributes rr)" "\<forall>(k, p) \<in> set (rr_Attributes rr). \<not> isl (env_compile env p)"
  obtains conds where "attributeConditions env rr = Ok conds" "\<forall>c \<in> set conds. cond_safe env s c"
    "conds = [] \<longleftrightarrow> rr_Attributes rr = []"
    "(\<forall>hs. sc_GetAttributes s = Some hs \<longrightarrow> distinct_keys env hs) \<longrightarrow>
       (\<forall>ips. list_all (cond_holds env s ips) conds = attribute_field env (rr_Attributes rr) (sc_GetAttributes s))"
proof (cases "rr_Attributes rr = []")
  case True
  then show ?thesis by (intro that [of "[]"]) (simp_all add: attributeConditions_def attribute_field_def)
next
  case False
  note d = distinct_keys_range [OF assms(1,2)]
  let ?keys = "map (\<lambda>(k, p). (env_toLower env k, accepts (env_compile env) p)) (env_rangeAttrs env (rr_Attributes rr))"
  have "\<forall>(k, p) \<in> set (env_rangeAttrs env (rr_Attributes rr)). \<exists>re. env_compile env p = Ok re"
    unfolding d(2) using assms(3) not_isl_ok by fast
  then have keys: "attributeConditions env rr = Ok [AttributeMatcher ?keys]"
    using False compileAttributes_ok [OF _ d(1), of "[]"] by (simp add: attributeConditions_def)
  have "set ?keys = (\<lambda>(k, p). (env_toLower env k, accepts (env_compile env) p)) ` set (rr_Attributes rr)" using d(2) by simp
  then have "Attribute_Match env ?keys hs \<longleftrightarrow> attribute_field env (rr_Attributes rr) (Some hs)" if "distinct_keys env hs" for hs
    unfolding Attribute_Match_iff [OF assms(1) that] attribute_field_def using False by (simp add: case_prod_beta)
  then show ?thesis using False
    by (intro that [OF keys]) (auto simp: attribute_field_def split: option.split)
qed

lemma NewIPMatcher_ok:
  assumes "env_wf env" "cache_ok (env_netipx env) db shared" "entries_ok db gs" "gs \<noteq> []"
  obtains m shared' where "NewIPMatcher env gs t shared = (Ok (IPMatcher m t), shared')" "cache_ok (env_netipx env) db shared'"
    "\<forall>ips. Geo_AnyMatch (env_netipx env) m ips \<longleftrightarrow> ip_field env gs ips"
proof -
  have nx: "netipx_ok (env_netipx env)" and sort: "\<forall>gs. mset (env_sortByCode env gs) = mset gs" using assms(1) by (simp_all add: env_wf_def)
  obtain m shared' where b: "BuildOptimizedGeoIPMatcher (env_netipx env) (env_sortByCode env) (map Some gs) shared = (Ok m, shared')"
    and c: "cache_ok (env_netipx env) db shared'" and ok: "built_ok (env_netipx env) m"
    and r: "\<forall>ip. Geo_Match (env_netipx env) m ip \<longleftrightarrow> (\<exists>a. FromStdIP (env_netipx env) ip = Some a \<and> geo_reference gs a)"
    by (rule BuildOptimized_ok [OF nx assms(2) sort assms(3,4)])
  have "Geo_AnyMatch (env_netipx env) m ips \<longleftrightarrow> ip_field env gs ips" for ips
    unfolding built_any [OF nx ok] ip_field_def using r assms(4) by simp
  then show ?thesis using b c by (intro that [of m shared']) (simp_all add: NewIPMatcher_def)
qed

text \<open>The addresses an IP condition reads.\<close>

definition ips_for :: "MatcherAsType \<Rightarrow> sessionContext \<Rightarrow> bytes list \<Rightarrow> bytes list" where
  "ips_for t s ips = (case t of AsType_Local \<Rightarrow> sc_GetLocalIPs s | AsType_Source \<Rightarrow> sc_GetSourceIPs s | _ \<Rightarrow> ips)"

lemma ipConditions_ok:
  assumes "env_wf env" "cache_ok (env_netipx env) db shared" "entries_ok db gs" "t \<noteq> AsType_VlessRoute"
  obtains conds shared' where "ipConditions env gs t shared = (Ok conds, shared')" "cache_ok (env_netipx env) db shared'"
    "\<forall>c \<in> set conds. cond_safe env s c" "conds = [] \<longleftrightarrow> gs = []"
    "\<forall>ips. list_all (cond_holds env s ips) conds \<longleftrightarrow> ip_field env gs (ips_for t s ips)"
proof (cases "gs = []")
  case True
  then show ?thesis using assms(2) by (intro that [of "[]" shared]) (simp_all add: ipConditions_def ip_field_def)
next
  case False
  obtain m shared' where "NewIPMatcher env gs t shared = (Ok (IPMatcher m t), shared')" "cache_ok (env_netipx env) db shared'"
    "\<forall>ips. Geo_AnyMatch (env_netipx env) m ips \<longleftrightarrow> ip_field env gs ips"
    by (rule NewIPMatcher_ok [OF assms(1-3) False])
  then show ?thesis using False assms(4) by (intro that [of "[IPMatcher m t]" shared']) (simp_all add: ipConditions_def ips_for_def)
qed

lemma getGeoIPList_length: "getGeoIPList env gs = Ok hs \<Longrightarrow> length hs = length gs"
  by (induction gs arbitrary: hs) (auto split: sum.splits)

lemma targetIPConditions_ok:
  assumes "env_wf env" "cache_ok (env_netipx env) db shared" "loaded_geoip env rr = Ok gs" "entries_ok db gs"
  obtains conds shared' where "targetIPConditions env rr shared = (Ok conds, shared')" "cache_ok (env_netipx env) db shared'"
    "\<forall>c \<in> set conds. cond_safe env s c" "conds = [] \<longleftrightarrow> rr_Geoip rr = []"
    "\<forall>ips. list_all (cond_holds env s ips) conds \<longleftrightarrow> ip_field env gs ips"
proof -
  have len: "length gs = length (rr_Geoip rr)"
    using assms(3) getGeoIPList_length by (auto simp: loaded_geoip_def split: if_splits)
  have same: "targetIPConditions env rr shared = ipConditions env gs AsType_Target shared"
    using assms(3) len by (cases "rr_Geoip rr = []") (auto simp: targetIPConditions_def ipConditions_def loaded_geoip_def)
  obtain conds shared' where "ipConditions env gs AsType_Target shared = (Ok conds, shared')" "cache_ok (env_netipx env) db shared'"
    "\<forall>c \<in> set conds. cond_safe env s c" "conds = [] \<longleftrightarrow> gs = []"
    "\<forall>ips. list_all (cond_holds env s ips) conds \<longleftrightarrow> ip_field env gs (ips_for AsType_Target s ips)"
    by (rule ipConditions_ok [OF assms(1,2,4), of AsType_Target s]) simp
  then show ?thesis using len by (intro that [of conds shared']) (auto simp: same ips_for_def)
qed

section \<open>Domains\<close>

lemma AddPattern_ok:
  assumes inv: "group_inv (env_toLower env) (env_compile env) ps g" and wf: "env_wf env" and t: "t \<noteq> UnknownType"
    and plain: "\<forall>p' \<in> set (substrings (ps @ [(p, t)])). plain p'"
  shows "(\<exists>c g'. AddPattern (env_toLower env) (env_compile env) p t g = Ok (c, g') \<and> group_inv (env_toLower env) (env_compile env) (ps @ [(p, t)]) g')
    \<or> (\<exists>e. AddPattern (env_toLower env) (env_compile env) p t g = Err e \<and> (\<forall>msg. e \<noteq> Panic msg)
         \<and> group_inv (env_toLower env) (env_compile env) (ps @ [(p, t)]) g)"
proof (cases "\<exists>e. t = Regex \<and> env_compile env p = Err e")
  case True
  then obtain e where e: "t = Regex" "env_compile env p = Err e" by blast
  have "AddPattern (env_toLower env) (env_compile env) p t g = Err e" using e by (simp add: AddPattern_def)
  moreover have "\<forall>msg. e \<noteq> Panic msg" using wf e by (auto simp: env_wf_def)
  moreover have "group_inv (env_toLower env) (env_compile env) (ps @ [(p, t)]) g"
    using inv e by (auto simp: group_inv_def hashed_snoc substrings_snoc regexes_snoc)
  ultimately show ?thesis by blast
next
  case False
  have "\<exists>c g'. AddPattern (env_toLower env) (env_compile env) p t g = Ok (c, g')"
  proof (cases t)
    case Substr
    have sub: "substrings (ps @ [(p, t)]) = substrings ps @ [p]" using Substr by (simp add: substrings_snoc)
    have "\<forall>p' \<in> set (substrings ps @ [p]). indexable p'" using plain sub plain_indexable by simp
    then obtain ac where "addPatterns (substrings ps @ [p]) NewACAutomaton = Ok ac"
      using addPatterns_ok [OF trie_ok_New ends_ok_New] by blast
    then have "\<not> isl (AC_Add p Substr (case mp_ac g of None \<Rightarrow> NewACAutomaton | Some ac \<Rightarrow> ac))"
      using inv by (auto simp: group_inv_def addPatterns_snoc split: if_splits sum.splits)
    then show ?thesis using Substr by (auto simp: AddPattern_def isl_def split: sum.splits)
  next
    case Regex
    then show ?thesis using False by (auto simp: AddPattern_def split: sum.splits)
  qed (use inv t in \<open>auto simp: AddPattern_def AddFullOrDomainPattern_def group_inv_def Let_def\<close>)
  then show ?thesis using AddPattern_inv [OF inv] by blast
qed

lemma matcherType_known: "matcherType d \<noteq> Some UnknownType"
  by (cases d) simp_all

lemma domain_patterns_Cons: "domain_patterns (d # ds) = (case matcherType (dom_Type d) of None \<Rightarrow> [] | Some t \<Rightarrow> [(dom_Value d, t)]) @ domain_patterns ds"
  by (simp add: domain_patterns_def)

lemma substrings_append: "substrings (ps @ qs) = substrings ps @ substrings qs"
  by (simp add: substrings_def)

lemma addDomainRules_ok:
  assumes wf: "env_wf env" and "group_inv (env_toLower env) (env_compile env) ps g"
    and "\<forall>p \<in> set (substrings (ps @ domain_patterns ds)). plain p"
  shows "\<exists>g'. addDomainRules env ds g = Ok g' \<and> group_inv (env_toLower env) (env_compile env) (ps @ domain_patterns ds) g'"
  using assms(2,3)
proof (induction ds arbitrary: ps g)
  case (Cons d ds)
  show ?case
  proof (cases "matcherType (dom_Type d)")
    case None
    then show ?thesis using Cons.IH [OF Cons.prems(1)] Cons.prems(2) by (simp add: domain_patterns_Cons)
  next
    case (Some t)
    let ?ps = "ps @ [(dom_Value d, t)]"
    have app: "ps @ domain_patterns (d # ds) = ?ps @ domain_patterns ds" using Some by (simp add: domain_patterns_Cons)
    have t: "t \<noteq> UnknownType" using Some matcherType_known by metis
    have pl: "\<forall>p' \<in> set (substrings ?ps). plain p'" using Cons.prems(2) unfolding app substrings_append [of ?ps] by simp
    have go: "\<exists>g''. addDomainRules env ds g' = Ok g'' \<and> group_inv (env_toLower env) (env_compile env) (?ps @ domain_patterns ds) g''"
      if "group_inv (env_toLower env) (env_compile env) ?ps g'" for g'
      by (rule Cons.IH [OF that]) (use Cons.prems(2) app in simp)
    from AddPattern_ok [OF Cons.prems(1) wf t pl] show ?thesis
    proof (elim disjE exE conjE)
      fix c g' assume "AddPattern (env_toLower env) (env_compile env) (dom_Value d) t g = Ok (c, g')"
        and inv: "group_inv (env_toLower env) (env_compile env) ?ps g'"
      then show ?thesis unfolding app using go [OF inv] Some by simp
    next
      fix e assume e: "AddPattern (env_toLower env) (env_compile env) (dom_Value d) t g = Err e" "\<forall>msg. e \<noteq> Panic msg"
        and inv: "group_inv (env_toLower env) (env_compile env) ?ps g"
      then have "addDomainRules env (d # ds) g = addDomainRules env ds g" using Some by (cases e) simp_all
      then show ?thesis unfolding app using go [OF inv] by simp
    qed
  qed
qed (simp add: domain_patterns_def)

definition hashed_rules :: "'s env \<Rightarrow> RouterDomain list \<Rightarrow> string set" where
  "hashed_rules env ds = (let R = hashed (env_toLower env) (domain_patterns ds) in if R = {} then {''empty___''} else R)"

lemma domain_patterns_length: "length (domain_patterns ds) \<le> length ds"
  by (induction ds) (auto simp: domain_patterns_def split: option.split)

lemma domainConditions_ok:
  assumes wf: "env_wf env" and ds: "loaded_domains env rr = Ok ds" "length ds < 2 ^ 31"
    and s: "rr_Domain rr \<noteq> [] \<longrightarrow> searchable (env_toLower env) (domain_patterns ds) (env_toLower env (sc_GetTargetDomain s))"
  shows "(\<exists>conds. domainConditions env rr = Some (Ok conds) \<and> (\<forall>c \<in> set conds. cond_safe env s c) \<and> (conds = [] \<longleftrightarrow> rr_Domain rr = [])
      \<and> (\<forall>ips. list_all (cond_holds env s ips) conds \<longleftrightarrow> rr_Domain rr = [] \<or> domain_field env ds (sc_GetTargetDomain s)))
    \<or> rr_Domain rr \<noteq> [] \<and> domainConditions env rr = None \<and> search_diverges (hashed_rules env ds)"
proof (cases "rr_Domain rr = []")
  case True
  then show ?thesis by (intro disjI1 exI [of _ "[]"]) (simp add: domainConditions_def)
next
  case False
  let ?L = "env_toLower env" and ?C = "env_compile env" and ?ps = "domain_patterns ds" and ?d = "sc_GetTargetDomain s"
  have srch: "searchable ?L ?ps (?L ?d)" using s False by simp
  then have plain: "\<forall>p \<in> set (substrings ([] @ ?ps)). plain p" by (simp add: searchable_def exact_substrings_def list_all_iff)
  obtain g where g: "addDomainRules env ds NewMphMatcherGroup = Ok g" "group_inv ?L ?C ?ps g"
    using addDomainRules_ok [OF wf group_inv_New plain] by auto
  have few: "length ?ps < 2 ^ 31" using domain_patterns_length [of ds] ds(2) by simp
  have perms: "\<And>xs. mset (env_ranged env xs) = mset xs" "\<And>bs. mset (env_sorted env bs) = mset bs" using wf by (simp_all add: env_wf_def)
  from group_match_exact [OF perms g(2) few srch] show ?thesis
  proof (elim disjE exE conjE)
    fix g' res assume b: "Mph_Build (env_ranged env) (env_sorted env) g = Some (Ok g')" and m: "Mph_Match g' (?L ?d) = Ok res"
      and r: "(res \<noteq> []) = reference_match ?L ?C ?ps (?L ?d)"
    have c: "domainConditions env rr = Some (Ok [DomainMatcher g'])"
      using False ds(1) g(1) b by (simp add: domainConditions_def NewDomainMatcher_def loaded_domains_def)
    have a: "ApplyDomain env g' ?d = Ok (res \<noteq> [])" using m by (simp add: ApplyDomain_def)
    have "list_all (cond_holds env s ips) [DomainMatcher g'] \<longleftrightarrow> domain_field env ds ?d" for ips
      unfolding domain_field_def r [symmetric] by (simp add: a)
    then show ?thesis using c a False by (intro disjI1 exI [of _ "[DomainMatcher g']"]) simp
  next
    assume n: "Mph_Build (env_ranged env) (env_sorted env) g = None"
      and d: "search_diverges (if hashed ?L ?ps = {} then {''empty___''} else hashed ?L ?ps)"
    have "domainConditions env rr = None"
      using False ds(1) g(1) n by (simp add: domainConditions_def NewDomainMatcher_def loaded_domains_def)
    then show ?thesis using False d by (simp add: hashed_rules_def Let_def)
  qed
qed

lemma plain_safe: "\<forall>c \<in> set nets. cond_safe env s c \<Longrightarrow> \<forall>c \<in> set (plainConditions rr nets). cond_safe env s c"
  by (auto simp: plainConditions_def NewInboundTagMatcher_def NewProtocolMatcher_def NewPortMatcher_def split: option.splits)

lemma user_safe: "\<forall>c \<in> set (userConditions env rr). cond_safe env s c"
  using NewUserMatcher_user [of env "rr_UserEmail rr" "[]" "[]"] by (auto simp: userConditions_def)

section \<open>Loading geodata\<close>

text \<open>A file holds an entry: its bytes are those of a list of entries, whose first with the code decodes to the value.\<close>

definition in_file :: "'s env \<Rightarrow> (bytes option \<Rightarrow> 'a result) \<Rightarrow> string \<Rightarrow> string \<Rightarrow> 'a \<Rightarrow> bool" where
  "in_file env unmarshal fname code v \<longleftrightarrow>
     (\<exists>es e. env_ReadAsset env fname = Ok (encodeFile es) \<and> list_all entry_fits es
        \<and> find (\<lambda>e. fst e = str_bytes code) es = Some e \<and> unmarshal (Some (entryBody e)) = Ok v)"

lemma in_file_Find:
  assumes "in_file env unmarshal fname code v" "code \<noteq> []"
  shows "\<exists>bs body. env_ReadAsset env fname = Ok bs \<and> Find bs (str_bytes code) = Ok body \<and> unmarshal body = Ok v"
proof -
  obtain es e where e: "env_ReadAsset env fname = Ok (encodeFile es)" "list_all entry_fits es"
    "find (\<lambda>e. fst e = str_bytes code) es = Some e" "unmarshal (Some (entryBody e)) = Ok v"
    using assms(1) unfolding in_file_def by (elim exE conjE)
  have "Find (encodeFile es) (str_bytes code) = Ok (Some (entryBody e))"
    using findEntry_file [OF e(2), of "str_bytes code"] e(3) assms(2) by (simp add: Find_def)
  then show ?thesis using e(1,4) by blast
qed

lemma splitOn_none: "c \<notin> set x \<Longrightarrow> splitOn c x = [x]"
  by (induction x) auto

lemma splitOn_first: "c \<notin> set x \<Longrightarrow> splitOn c (x @ c # y) = x # splitOn c y"
  by (induction x) auto

lemma splitOn_join: "xs \<noteq> [] \<Longrightarrow> \<forall>x \<in> set xs. c \<notin> set x \<Longrightarrow> splitOn c (joinStrings [c] xs) = xs"
proof (induction xs)
  case (Cons x xs)
  show ?case
  proof (cases xs)
    case Nil
    then show ?thesis using Cons.prems by (simp add: joinStrings_def splitOn_none)
  next
    case (Cons y ys)
    then have "joinStrings [c] (x # xs) = x @ c # joinStrings [c] xs" by (simp add: joinStrings_def)
    then show ?thesis using Cons Cons.IH Cons.prems by (simp add: splitOn_first)
  qed
qed simp

text \<open>
  Entries that load. On systems that read the files, an entry with a country code is taken from \<open>geoip.dat\<close>; its code contains
  no underscore, and it does not ask for the reverse match, which the loader would lose. Elsewhere an entry already carries its addresses.
\<close>

definition geoip_ok :: "'s env \<Rightarrow> geodata \<Rightarrow> GeoIP \<Rightarrow> bool" where
  "geoip_ok env gd g \<longleftrightarrow> (let code = geo_CountryCode g in code \<noteq> [] \<longrightarrow> CHR '','' \<notin> set code
     \<and> (if env_mmap env
        then CHR ''_'' \<notin> set code \<and> \<not> geo_ReverseMatch g
          \<and> in_file env (env_UnmarshalGeoIP env) ''geoip.dat'' code \<lparr>geo_CountryCode = code, geo_Cidr = gd_ip gd code, geo_ReverseMatch = False\<rparr>
        else geo_Cidr g = gd_ip gd code))"

lemma getGeoIPList_asked:
  assumes "env_mmap env" "\<forall>g \<in> set gs. geoip_ok env gd g"
  shows "getGeoIPList env gs = Ok (asked_geoip gd gs)"
  using assms(2)
proof (induction gs)
  case (Cons g gs)
  show ?case
  proof (cases "geo_CountryCode g = []")
    case True
    then show ?thesis using Cons by (simp add: asked_geoip_def)
  next
    case False
    let ?code = "geo_CountryCode g" and ?g = "\<lparr>geo_CountryCode = geo_CountryCode g, geo_Cidr = gd_ip gd (geo_CountryCode g), geo_ReverseMatch = False\<rparr>"
    have ok: "CHR ''_'' \<notin> set ?code" "\<not> geo_ReverseMatch g" "in_file env (env_UnmarshalGeoIP env) ''geoip.dat'' ?code ?g"
      using Cons.prems False assms(1) by (simp_all add: geoip_ok_def Let_def)
    obtain bs body where f: "env_ReadAsset env ''geoip.dat'' = Ok bs" "Find bs (str_bytes ?code) = Ok body" "env_UnmarshalGeoIP env body = Ok ?g"
      using in_file_Find [OF ok(3) False] by blast
    have "?g = g\<lparr>geo_Cidr := gd_ip gd ?code\<rparr>" using ok(2) by (cases g) simp
    then show ?thesis using Cons False f by (simp add: splitOn_none [OF ok(1)] asked_geoip_def Let_def)
  qed
qed (simp add: asked_geoip_def)

lemma loaded_geoip_asked:
  assumes "\<forall>g \<in> set (rr_Geoip rr). geoip_ok env gd g"
  shows "loaded_geoip env rr = Ok (asked_geoip gd (rr_Geoip rr))" "entries_ok (gd_ip gd) (asked_geoip gd (rr_Geoip rr))"
proof -
  show "loaded_geoip env rr = Ok (asked_geoip gd (rr_Geoip rr))"
  proof (cases "env_mmap env")
    case True
    then show ?thesis using getGeoIPList_asked [OF True assms] by (simp add: loaded_geoip_def)
  next
    case False
    have "g\<lparr>geo_Cidr := gd_ip gd (geo_CountryCode g)\<rparr> = g" if "g \<in> set (rr_Geoip rr)" "geo_CountryCode g \<noteq> []" for g
      using assms that False by (cases g) (auto simp: geoip_ok_def Let_def)
    then have "asked_geoip gd (rr_Geoip rr) = rr_Geoip rr" unfolding asked_geoip_def by (intro map_idI) simp
    then show ?thesis using False by (simp add: loaded_geoip_def)
  qed
  show "entries_ok (gd_ip gd) (asked_geoip gd (rr_Geoip rr))"
    using assms by (auto simp: entries_ok_def asked_geoip_def geoip_ok_def Let_def)
qed

fun item_ok :: "'s env \<Rightarrow> geodata \<Rightarrow> domain_item \<Rightarrow> bool" where
  "item_ok env gd (GivenDomain d) \<longleftrightarrow> \<not> env_mmap env \<or> CHR ''_'' \<notin> set (dom_Value d)"
| "item_ok env gd (SiteRef fname code attrs) \<longleftrightarrow> env_mmap env \<and> code \<noteq> []
     \<and> CHR ''_'' \<notin> set fname \<and> CHR ''_'' \<notin> set code \<and> (\<forall>a \<in> set attrs. CHR ''_'' \<notin> set a \<and> CHR '','' \<notin> set a)
     \<and> in_file env (env_UnmarshalGeoSite env) fname code (gd_site gd fname code)"

lemma joinStrings_chars: "c \<in> set (joinStrings sep xs) \<Longrightarrow> c \<in> set sep \<or> (\<exists>x \<in> set xs. c \<in> set x)"
  by (cases xs) (auto simp: joinStrings_def split: if_splits)

lemma splitOn_reference:
  assumes "CHR ''_'' \<notin> set fname" "CHR ''_'' \<notin> set code" "\<forall>a \<in> set attrs. CHR ''_'' \<notin> set a"
  shows "splitOn CHR ''_'' (fname @ ''_'' @ code @ (if attrs = [] then [] else ''_'' @ joinStrings '','' attrs))
    = [fname, code] @ (if attrs = [] then [] else [joinStrings '','' attrs])"
proof -
  have "CHR ''_'' \<notin> set (joinStrings '','' attrs)" using joinStrings_chars [of "CHR ''_''" "'',''" attrs] assms(3) by auto
  then show ?thesis
    using splitOn_first [OF assms(1), of "code @ (if attrs = [] then [] else ''_'' @ joinStrings '','' attrs)"]
      splitOn_first [OF assms(2), of "joinStrings '','' attrs"] splitOn_none [OF assms(2)] by (simp add: splitOn_none)
qed

lemma GeoAttributeList_Match_iff: "GeoAttributeList_Match (ParseAttrs f attrs) = (\<lambda>d. \<forall>a \<in> set attrs. f a \<in> set (dom_Attribute d))"
    "ParseAttrs f attrs = [] \<longleftrightarrow> attrs = []"
  by (simp_all add: GeoAttributeList_Match_def ParseAttrs_def GeoBoolean_Match_def list_all_iff fun_eq_iff)

lemma getDomainList_asked:
  assumes "env_mmap env" "list_all2 spells items doms" "\<forall>i \<in> set items. item_ok env gd i"
  shows "getDomainList env doms = Ok (asked_domains env gd items)"
  using assms(2,3)
proof (induction rule: list_all2_induct)
  case (Cons i items d doms)
  have IH: "getDomainList env doms = Ok (asked_domains env gd items)" using Cons by simp
  show ?case
  proof (cases i)
    case (GivenDomain d')
    then have "splitOn CHR ''_'' (dom_Value d) = [dom_Value d]" "d' = d" using Cons assms(1) by (simp_all add: splitOn_none)
    then show ?thesis using IH GivenDomain by (simp add: asked_domains_def Let_def)
  next
    case (SiteRef fname code attrs)
    have ok: "code \<noteq> []" "CHR ''_'' \<notin> set fname" "CHR ''_'' \<notin> set code" "\<forall>a \<in> set attrs. CHR ''_'' \<notin> set a" "\<forall>a \<in> set attrs. CHR '','' \<notin> set a"
      "in_file env (env_UnmarshalGeoSite env) fname code (gd_site gd fname code)"
      using Cons.prems SiteRef by simp_all
    obtain bs body where f: "env_ReadAsset env fname = Ok bs" "Find bs (str_bytes code) = Ok body" "env_UnmarshalGeoSite env body = Ok (gd_site gd fname code)"
      using in_file_Find [OF ok(6,1)] by blast
    have v: "splitOn CHR ''_'' (dom_Value d) = [fname, code] @ (if attrs = [] then [] else [joinStrings '','' attrs])"
      using splitOn_reference [OF ok(2-4)] Cons.hyps(1) SiteRef by simp
    have "attrs \<noteq> [] \<Longrightarrow> splitOn CHR '','' (joinStrings '','' attrs) = attrs" using splitOn_join ok(5) by blast
    then show ?thesis using IH SiteRef f v
      by (cases "attrs = []") (simp_all add: asked_domains_def Let_def GeoAttributeList_Match_iff)
  qed
qed (simp add: asked_domains_def)

lemma loaded_domains_asked:
  assumes "list_all2 spells items (rr_Domain rr)" "\<forall>i \<in> set items. item_ok env gd i"
  shows "loaded_domains env rr = Ok (asked_domains env gd items)"
proof (cases "env_mmap env")
  case True
  then show ?thesis using getDomainList_asked [OF True assms] by (simp add: loaded_domains_def)
next
  case False
  have "asked_domains env gd items = rr_Domain rr" using assms
  proof (induction rule: list_all2_induct)
    case (Cons i items d doms)
    then show ?case using False by (cases i) (simp_all add: asked_domains_def)
  qed (simp add: asked_domains_def)
  then show ?thesis using False by (simp add: loaded_domains_def)
qed

section \<open>Processes\<close>

lemma TrimSuffix_exe: "TrimSuffix n ''.exe'' = name \<longleftrightarrow> n = name @ ''.exe'' \<or> n = name \<and> \<not> (\<exists>stem. n = stem @ ''.exe'')"
proof (cases "\<exists>stem. n = stem @ ''.exe''")
  case True
  then obtain stem where "n = stem @ ''.exe''" ..
  then show ?thesis by (auto simp: TrimSuffix_def has_suffix_def)
next
  case False
  have "\<not> has_suffix n ''.exe''"
  proof
    assume "has_suffix n ''.exe''"
    then have "drop (length n - length ''.exe'') n = ''.exe''" unfolding has_suffix_def ..
    then have "n = take (length n - length ''.exe'') n @ ''.exe''" using append_take_drop_id [of "length n - length ''.exe''" n] by simp
    then show False using False by blast
  qed
  then show ?thesis using False by (auto simp: TrimSuffix_def)
qed

lemma source_text:
  assumes "length ip = 4" "sc_GetNetwork s = Network_TCP \<or> sc_GetNetwork s = Network_UDP"
  shows "ParseDestination (joinStrings '':'' [SystemString (sc_GetNetwork s), IP_String ip, Port_String (sc_GetSourcePort s)]) = Ok (source_dest ip s)"
proof -
  have "joinStrings '':'' [SystemString (sc_GetNetwork s), IP_String ip, Port_String (sc_GetSourcePort s)] = Destination_String (source_dest ip s)"
    using assms(2) by (auto simp: joinStrings_def Destination_String_def NetAddr_def source_dest_def)
  then show ?thesis
    using ParseDestination_String [of "source_dest ip s"] assms by (simp add: source_dest_def)
qed

text \<open>The source of the session is an IPv4 address that can be looked up.\<close>

definition process_ready :: "'s env \<Rightarrow> sessionContext \<Rightarrow> bool" where
  "process_ready env s \<longleftrightarrow> (\<exists>ip. length ip = 4 \<and> sc_GetSourceIPs s = [ip] \<and> (\<forall>msg. env_FindProcess env (source_dest ip s) \<noteq> Err (Panic msg)))"

lemma ProcessName_Apply_field:
  assumes "process_ready env s" "names \<noteq> []"
  shows "ProcessName_Apply env (map (\<lambda>name. TrimSuffix name ''.exe'') names) s = Ok (process_field env names s)"
proof -
  obtain ip where ip: "length ip = 4" "sc_GetSourceIPs s = [ip]" "\<forall>msg. env_FindProcess env (source_dest ip s) \<noteq> Err (Panic msg)"
    using assms(1) by (auto simp: process_ready_def)
  show ?thesis
  proof (cases "sc_GetNetwork s = Network_TCP \<or> sc_GetNetwork s = Network_UDP")
    case False
    then show ?thesis using ip assms(2) by (simp add: ProcessName_Apply_def process_field_def)
  next
    case True
    have parse: "ProcessName_Apply env (map (\<lambda>name. TrimSuffix name ''.exe'') names) s = (case env_FindProcess env (source_dest ip s) of
        Inl (Panic msg) \<Rightarrow> Err (Panic msg) | Inl _ \<Rightarrow> Ok False
      | Inr (pid, name) \<Rightarrow> Ok (list_ex (\<lambda>n. name = ''/self'' \<and> pid = env_Getpid env \<or> n = name) (map (\<lambda>name. TrimSuffix name ''.exe'') names)))"
      unfolding ProcessName_Apply_def ip(2) list.case source_text [OF ip(1) True] using True by auto
    show ?thesis
    proof (cases "env_FindProcess env (source_dest ip s)")
      case (Inl e)
      then show ?thesis using ip parse assms(2) by (cases e) (simp_all add: process_field_def)
    next
      case (Inr r)
      obtain pid name where r: "r = (pid, name)" by (cases r)
      have ne: "\<exists>n. n \<in> set names" using assms(2) by (cases names) auto
      have "list_ex (\<lambda>n. name = ''/self'' \<and> pid = env_Getpid env \<or> n = name) (map (\<lambda>name. TrimSuffix name ''.exe'') names) \<longleftrightarrow>
          name = ''/self'' \<and> pid = env_Getpid env \<or> (\<exists>n \<in> set names. n = name @ ''.exe'' \<or> n = name \<and> \<not> (\<exists>stem. n = stem @ ''.exe''))"
        unfolding list_ex_iff TrimSuffix_exe [symmetric] using ne by auto
      then show ?thesis unfolding parse Inr r using True assms(2) ip(2) Inr r by (simp add: process_field_def)
    qed
  qed
qed

text \<open>
  A rule that can be built and asked about a session: its networks are numbers of the matcher's array; its geodata entries
  are in the files, with the same addresses for the same country code everywhere; its attribute patterns compile and its
  attributes differ beyond case, as do the session's; the domain patterns suit the matcher, that is, no keyword is part
  of another, no full or domain pattern starts with a dot, and the keywords and the target domain are plain lower-case text; and the source process can be looked up when the rule asks for it.
\<close>

definition rule_ready :: "'s env \<Rightarrow> geodata \<Rightarrow> RoutingRule \<Rightarrow> domain_item list \<Rightarrow> sessionContext \<Rightarrow> bool" where
  "rule_ready env gd rr items s \<longleftrightarrow>
     (\<forall>n \<in> set (rr_Networks rr). 0 \<le> n \<and> n < 8)
     \<and> (\<forall>g \<in> set (rr_Geoip rr). geoip_ok env gd g) \<and> entries_ok (gd_ip gd) (rr_SourceGeoip rr) \<and> entries_ok (gd_ip gd) (rr_LocalGeoip rr)
     \<and> distinct_keys env (rr_Attributes rr) \<and> (\<forall>(k, p) \<in> set (rr_Attributes rr). \<not> isl (env_compile env p))
     \<and> (\<forall>hs. sc_GetAttributes s = Some hs \<longrightarrow> distinct_keys env hs)
     \<and> list_all2 spells items (rr_Domain rr) \<and> (\<forall>i \<in> set items. item_ok env gd i) \<and> length (asked_domains env gd items) < 2 ^ 31
     \<and> (rr_Domain rr \<noteq> [] \<longrightarrow> searchable (env_toLower env) (domain_patterns (asked_domains env gd items)) (env_toLower env (sc_GetTargetDomain s)))
     \<and> (rr_ProcessName rr \<noteq> [] \<longrightarrow> process_ready env s)"

definition has_fields :: "RoutingRule \<Rightarrow> bool" where
  "has_fields rr \<longleftrightarrow> rr_InboundTag rr \<noteq> [] \<or> rr_Networks rr \<noteq> [] \<or> rr_Protocol rr \<noteq> [] \<or> rr_PortList rr \<noteq> None
     \<or> rr_SourcePortList rr \<noteq> None \<or> rr_LocalPortList rr \<noteq> None \<or> rr_VlessRouteList rr \<noteq> None \<or> rr_UserEmail rr \<noteq> []
     \<or> rr_Attributes rr \<noteq> [] \<or> rr_Geoip rr \<noteq> [] \<or> rr_SourceGeoip rr \<noteq> [] \<or> rr_LocalGeoip rr \<noteq> [] \<or> rr_Domain rr \<noteq> []
     \<or> rr_ProcessName rr \<noteq> []"

lemma plain_empty: "plainConditions rr nets = [] \<longleftrightarrow> rr_InboundTag rr = [] \<and> nets = [] \<and> rr_Protocol rr = [] \<and> rr_PortList rr = None
     \<and> rr_SourcePortList rr = None \<and> rr_LocalPortList rr = None \<and> rr_VlessRouteList rr = None"
  by (auto simp: plainConditions_def split: option.splits if_splits)

lemma BuildCondition_exact:
  assumes wf: "env_wf env" and sh: "cache_ok (env_netipx env) (gd_ip gd) shared" and ready: "rule_ready env gd rr items s" and some: "has_fields rr"
  shows "(\<exists>conds shared'. BuildCondition env rr shared = Some (Ok conds, shared') \<and> cache_ok (env_netipx env) (gd_ip gd) shared'
      \<and> (\<forall>c \<in> set conds. cond_safe env s c) \<and> (\<forall>ips. list_all (cond_holds env s ips) conds \<longleftrightarrow> rule_holds env gd rr items s ips))
    \<or> BuildCondition env rr shared = None \<and> rr_Domain rr \<noteq> [] \<and> search_diverges (hashed_rules env (asked_domains env gd items))"
proof -
  let ?gs = "asked_geoip gd (rr_Geoip rr)" and ?ds = "asked_domains env gd items"
  obtain nets where n: "networkConditions rr = Ok nets" "\<forall>c \<in> set nets. cond_safe env s c" "nets = [] \<longleftrightarrow> rr_Networks rr = []"
    "\<forall>ips. list_all (cond_holds env s ips) nets \<longleftrightarrow> rr_Networks rr = [] \<or> int (network_index (sc_GetNetwork s)) \<in> set (rr_Networks rr)"
    by (rule networkConditions_ok [of rr env s]) (use ready in \<open>simp_all add: rule_ready_def\<close>)
  have geo: "\<forall>g \<in> set (rr_Geoip rr). geoip_ok env gd g" using ready by (simp add: rule_ready_def)
  obtain attrs where a: "attributeConditions env rr = Ok attrs" "\<forall>c \<in> set attrs. cond_safe env s c" "attrs = [] \<longleftrightarrow> rr_Attributes rr = []"
    "\<forall>ips. list_all (cond_holds env s ips) attrs = attribute_field env (rr_Attributes rr) (sc_GetAttributes s)"
    by (rule attributeConditions_ok [OF wf, of rr s]) (use ready in \<open>simp_all add: rule_ready_def\<close>)
  obtain target shared1 where t: "targetIPConditions env rr shared = (Ok target, shared1)" "cache_ok (env_netipx env) (gd_ip gd) shared1"
    "\<forall>c \<in> set target. cond_safe env s c" "target = [] \<longleftrightarrow> rr_Geoip rr = []"
    "\<forall>ips. list_all (cond_holds env s ips) target \<longleftrightarrow> ip_field env ?gs ips"
    by (rule targetIPConditions_ok [OF wf sh loaded_geoip_asked [OF geo]])
  obtain source shared2 where so: "ipConditions env (rr_SourceGeoip rr) AsType_Source shared1 = (Ok source, shared2)"
    "cache_ok (env_netipx env) (gd_ip gd) shared2" "\<forall>c \<in> set source. cond_safe env s c" "source = [] \<longleftrightarrow> rr_SourceGeoip rr = []"
    "\<forall>ips. list_all (cond_holds env s ips) source \<longleftrightarrow> ip_field env (rr_SourceGeoip rr) (ips_for AsType_Source s ips)"
    by (rule ipConditions_ok [OF wf t(2), of "rr_SourceGeoip rr" AsType_Source s]) (use ready in \<open>simp_all add: rule_ready_def\<close>)
  obtain loc shared3 where l: "ipConditions env (rr_LocalGeoip rr) AsType_Local shared2 = (Ok loc, shared3)"
    "cache_ok (env_netipx env) (gd_ip gd) shared3" "\<forall>c \<in> set loc. cond_safe env s c" "loc = [] \<longleftrightarrow> rr_LocalGeoip rr = []"
    "\<forall>ips. list_all (cond_holds env s ips) loc \<longleftrightarrow> ip_field env (rr_LocalGeoip rr) (ips_for AsType_Local s ips)"
    by (rule ipConditions_ok [OF wf so(2), of "rr_LocalGeoip rr" AsType_Local s]) (use ready in \<open>simp_all add: rule_ready_def\<close>)
  have dom: "loaded_domains env rr = Ok ?ds" "length ?ds < 2 ^ 31"
    "rr_Domain rr \<noteq> [] \<longrightarrow> searchable (env_toLower env) (domain_patterns ?ds) (env_toLower env (sc_GetTargetDomain s))"
    using ready loaded_domains_asked [of items rr env gd] by (simp_all add: rule_ready_def)
  have process: "ProcessName_Apply env (map (\<lambda>name. TrimSuffix name ''.exe'') (rr_ProcessName rr)) s = Ok (process_field env (rr_ProcessName rr) s)"
    if "rr_ProcessName rr \<noteq> []"
    by (rule ProcessName_Apply_field [OF _ that]) (use ready that in \<open>simp add: rule_ready_def\<close>)
  from domainConditions_ok [OF wf dom] show ?thesis
  proof (elim disjE exE conjE)
    fix doms assume d: "domainConditions env rr = Some (Ok doms)" "\<forall>c \<in> set doms. cond_safe env s c" "(doms = []) = (rr_Domain rr = [])"
      "\<forall>ips. list_all (cond_holds env s ips) doms \<longleftrightarrow> rr_Domain rr = [] \<or> domain_field env ?ds (sc_GetTargetDomain s)"
    let ?conds = "plainConditions rr nets @ userConditions env rr @ attrs @ target @ source @ loc @ doms @ processConditions rr"
    have "?conds \<noteq> []"
      using some plain_empty [of rr nets] n(3) a(3) t(4) so(4) l(4) d(3) by (auto simp: has_fields_def userConditions_def processConditions_def)
    then have "BuildCondition env rr shared = Some (Ok ?conds, shared3)"
      by (simp add: BuildCondition_def n(1) a(1) t(1) so(1) l(1) d(1) Let_def)
    moreover have "\<forall>c \<in> set ?conds. cond_safe env s c"
    proof -
      have "\<forall>c \<in> set (processConditions rr). cond_safe env s c"
        using process by (simp add: processConditions_def)
      then show ?thesis unfolding set_append ball_Un by (intro conjI plain_safe n(2) user_safe a(2) t(3) so(3) l(3) d(2))
    qed
    moreover have "list_all (cond_holds env s ips) ?conds \<longleftrightarrow> rule_holds env gd rr items s ips" for ips
    proof -
      have "list_all (cond_holds env s ips) (processConditions rr) \<longleftrightarrow> process_field env (rr_ProcessName rr) s"
        using process by (cases "rr_ProcessName rr = []") (simp_all add: processConditions_def process_field_def [of _ "[]"])
      then show ?thesis
        unfolding list_all_append plainConditions_holds userConditions_holds rule_holds_def
          n(4) [rule_format] a(4) [rule_format] t(5) [rule_format] so(5) [rule_format] l(5) [rule_format] d(4) [rule_format] ips_for_def MatcherAsType.case
        by (elim ssubst) (simp only: conj_assoc)
    qed
    ultimately show ?thesis using l(2) by (intro disjI1 exI [of _ ?conds] exI [of _ shared3] conjI allI)
  next
    assume "domainConditions env rr = None" "rr_Domain rr \<noteq> []" "search_diverges (hashed_rules env (asked_domains env gd items))"
    then show ?thesis by (simp add: BuildCondition_def n(1) a(1) t(1) so(1) l(1))
  qed
qed

text \<open>
  C7. A routing rule means its fields. Take a rule with at least one field that can be built and asked about the
  session: its networks are in range, the geodata files hold the entries it names, coded target
  entries on systems that read the files ask for no reverse match and no file of their own, its attribute patterns compile, its keywords do not
  contain each other, its full and domain patterns have no leading dot, keywords and the target domain are plain lower-case text, and a rule on processes is asked about an
  IPv4 source. Then \<open>BuildCondition\<close> returns a condition, and applying it to any context of the session answers exactly
  whether every field of the rule is satisfied: tags, networks, protocols, ports, users, attributes, target, source and
  local addresses, domains and processes, with the addresses and domains that the geodata hold for the configured codes and attributes, and the target
  addresses that the context resolves. The only alternative is that building does not end,
  because the search for hash seeds of the domain rules does not. The cache of shared IP sets stays consistent.
\<close>

theorem routing_rule_exact:
  assumes "env_wf env" "cache_ok (env_netipx env) (gd_ip gd) shared" "rule_ready env gd rr items (session_of ctx)" "has_fields rr"
  shows "(\<exists>conds shared' ctx'. BuildCondition env rr shared = Some (Ok conds, shared') \<and> cache_ok (env_netipx env) (gd_ip gd) shared'
      \<and> Chan_Apply env conds ctx = Ok (rule_holds env gd rr items (session_of ctx) (target_ips env ctx), ctx'))
    \<or> BuildCondition env rr shared = None \<and> rr_Domain rr \<noteq> [] \<and> search_diverges (hashed_rules env (asked_domains env gd items))"
  using BuildCondition_exact [OF assms]
proof (elim disjE exE conjE)
  fix conds shared' assume b: "BuildCondition env rr shared = Some (Ok conds, shared')" "cache_ok (env_netipx env) (gd_ip gd) shared'"
    and safe: "\<forall>c \<in> set conds. cond_safe env (session_of ctx) c"
    and holds: "\<forall>ips. list_all (cond_holds env (session_of ctx) ips) conds = rule_holds env gd rr items (session_of ctx) ips"
  obtain ctx' where "Chan_Apply env conds ctx = Ok (rule_holds env gd rr items (session_of ctx) (target_ips env ctx), ctx')"
    using Chan_Apply_holds [OF safe] holds by auto
  then show ?thesis using b by (intro disjI1 exI conjI)
qed simp

definition plain_env :: "(Addr \<times> nat) list env" where
  "plain_env = \<lparr>env_netipx = list_netipx, env_sortByCode = (\<lambda>gs. gs), env_toLower = (\<lambda>s. s), env_compile = (\<lambda>_. Err (ErrMsg ''regexp'')),
     env_ranged = (\<lambda>xs. xs), env_sorted = (\<lambda>xs. xs), env_rangeAttrs = (\<lambda>xs. xs), env_mmap = False, env_ReadAsset = (\<lambda>_. Err EOF),
     env_UnmarshalGeoIP = (\<lambda>_. Err EOF), env_UnmarshalGeoSite = (\<lambda>_. Err EOF),
     env_LookupIP = (\<lambda>d. if d = ''a.org'' then Ok [[10, 1, 2, 3]] else Err EOF), env_FindProcess = (\<lambda>_. Err EOF), env_Getpid = 1\<rparr>"

lemma plain_env_wf: "env_wf plain_env"
  by (simp add: env_wf_def plain_env_def list_netipx_ok)

definition no_rule :: RoutingRule where
  "no_rule = \<lparr>rr_TargetTag = RoutingRule_Tag ''out'', rr_RuleTag = [], rr_Domain = [], rr_Geoip = [], rr_PortList = None, rr_Networks = [],
     rr_SourceGeoip = [], rr_SourcePortList = None, rr_UserEmail = [], rr_InboundTag = [], rr_Protocol = [], rr_Attributes = [],
     rr_LocalGeoip = [], rr_LocalPortList = None, rr_VlessRouteList = None, rr_ProcessName = []\<rparr>"

definition ten_rule :: RoutingRule where
  "ten_rule = no_rule\<lparr>rr_Geoip := [ten_net], rr_Networks := [2], rr_PortList := Some [(80, 90)]\<rparr>"

definition web_session :: sessionContext where
  "web_session = \<lparr>sc_Inbound = None, sc_Outbound = Some \<lparr>ob_Target = \<lparr>dest_Address = domainAddress ''a.org'', dest_Port = 80, dest_Network = Network_TCP\<rparr>,
     ob_RouteTarget = \<lparr>dest_Address = domainAddress [], dest_Port = 0, dest_Network = Network_Unknown\<rparr>\<rparr>, sc_Content = None\<rparr>"

definition ten_data :: geodata where
  "ten_data = \<lparr>gd_ip = \<lambda>_. geo_Cidr ten_net, gd_site = \<lambda>_ _. []\<rparr>"

lemma ten_rule_ready: "rule_ready plain_env ten_data ten_rule [] web_session" and ten_rule_fields: "has_fields ten_rule"
proof -
  have "sc_GetAttributes web_session = None" by (simp add: web_session_def sc_GetAttributes_def)
  moreover have "entries_ok (gd_ip ten_data) []" by (simp add: entries_ok_def)
  moreover have "geoip_ok plain_env ten_data ten_net"
    using ten_net_entries by (simp add: geoip_ok_def Let_def entries_ok_def ten_data_def plain_env_def)
  ultimately show "rule_ready plain_env ten_data ten_rule [] web_session"
    unfolding rule_ready_def by (simp add: ten_rule_def no_rule_def distinct_keys_def asked_domains_def)
  show "has_fields ten_rule" by (simp add: has_fields_def ten_rule_def no_rule_def)
qed

text \<open>A system with a geodata file, a rule that names an entry of it and a process, and a session from that process.\<close>

definition net_body :: "bytes \<times> bytes" where
  "net_body = (str_bytes ''TEN'', [1, 2, 3])"

definition file_env :: "(Addr \<times> nat) list env" where
  "file_env = plain_env\<lparr>env_mmap := True,
     env_ReadAsset := (\<lambda>f. if f = ''geoip.dat'' then Ok (encodeFile [net_body]) else Err EOF),
     env_UnmarshalGeoIP := (\<lambda>b. if b = Some (entryBody net_body)
       then Ok \<lparr>geo_CountryCode = ''TEN'', geo_Cidr = geo_Cidr ten_net, geo_ReverseMatch = False\<rparr> else Err EOF),
     env_FindProcess := (\<lambda>d. if dest_Port d = 5000 then Ok (77, ''curl'') else Err EOF)\<rparr>"

definition coded_rule :: RoutingRule where
  "coded_rule = no_rule\<lparr>rr_Geoip := [\<lparr>geo_CountryCode = ''TEN'', geo_Cidr = [], geo_ReverseMatch = False\<rparr>],
     rr_Networks := [2], rr_ProcessName := [''curl.exe'']\<rparr>"

definition curl_session :: sessionContext where
  "curl_session = web_session\<lparr>sc_Inbound := Some \<lparr>ib_Source = \<lparr>dest_Address = ipv4Address [127, 0, 0, 1], dest_Port = 5000, dest_Network = Network_TCP\<rparr>,
     ib_Local = \<lparr>dest_Address = domainAddress [], dest_Port = 0, dest_Network = Network_Unknown\<rparr>, ib_Tag = [], ib_User = None, ib_VlessRoute = 0\<rparr>\<rparr>"

lemma file_env_wf: "env_wf file_env"
  using plain_env_wf by (simp add: env_wf_def file_env_def)

lemma coded_rule_ready: "rule_ready file_env ten_data coded_rule [] curl_session" and coded_rule_fields: "has_fields coded_rule"
proof -
  have "in_file file_env (env_UnmarshalGeoIP file_env) ''geoip.dat'' ''TEN''
      \<lparr>geo_CountryCode = ''TEN'', geo_Cidr = gd_ip ten_data ''TEN'', geo_ReverseMatch = False\<rparr>"
    unfolding in_file_def
    by (intro exI [of _ "[net_body]"] exI [of _ net_body])
      (simp add: file_env_def ten_data_def net_body_def entry_fits_def entryBody_def)
  then have "\<forall>g \<in> set (rr_Geoip coded_rule). geoip_ok file_env ten_data g"
    by (simp add: coded_rule_def geoip_ok_def file_env_def)
  moreover have "process_ready file_env curl_session"
    unfolding process_ready_def
    by (intro exI [of _ "[127, 0, 0, 1]"])
      (simp add: curl_session_def sc_GetSourceIPs_def ipsOf_def IsValid_def file_env_def source_dest_def sc_GetSourcePort_def)
  moreover have "sc_GetAttributes curl_session = None" by (simp add: curl_session_def web_session_def sc_GetAttributes_def)
  ultimately show "rule_ready file_env ten_data coded_rule [] curl_session"
    unfolding rule_ready_def by (simp add: coded_rule_def no_rule_def distinct_keys_def asked_domains_def entries_ok_def)
  show "has_fields coded_rule" by (simp add: has_fields_def coded_rule_def no_rule_def)
qed

lemma coded_rule_holds: "rule_holds file_env ten_data coded_rule [] curl_session [[10, 1, 2, 3]]"
proof -
  have s: "sc_GetNetwork curl_session = Network_TCP" "sc_GetSourceIPs curl_session = [[127, 0, 0, 1]]"
    "env_FindProcess file_env (source_dest [127, 0, 0, 1] curl_session) = Ok (77, ''curl'')"
    by (simp_all add: curl_session_def web_session_def sc_GetNetwork_def sc_GetSourceIPs_def ipsOf_def IsValid_def file_env_def
        source_dest_def sc_GetSourcePort_def)
  have "FromStdIP (env_netipx file_env) [10, 1, 2, 3] = Some (Addr4 [10, 1, 2, 3])"
    by (simp add: file_env_def plain_env_def list_netipx_def To4_def)
  moreover have "geo_reference [\<lparr>geo_CountryCode = ''TEN'', geo_Cidr = geo_Cidr ten_net, geo_ReverseMatch = False\<rparr>] (Addr4 [10, 1, 2, 3])"
    by code_simp
  moreover have "process_field file_env [''curl.exe''] curl_session"
    unfolding process_field_def using s by simp
  ultimately show ?thesis
    using s(1) by (simp add: rule_holds_def coded_rule_def no_rule_def asked_geoip_def ten_data_def ip_field_def port_field_def
        user_field_def attribute_field_def)
qed

theorem routing_rule_exact_witness:
  "\<exists>conds shared' ctx'. BuildCondition file_env coded_rule [] = Some (Ok conds, shared')
     \<and> Chan_Apply file_env conds (ContextWithDNSClient (SessionContext curl_session)) = Ok (True, ctx')"
proof -
  let ?ctx = "ContextWithDNSClient (SessionContext curl_session)"
  have s: "session_of ?ctx = curl_session" by simp
  have "target_ips file_env ?ctx = resolved_ips file_env curl_session" by (rule target_ips_dns) simp_all
  also have "\<dots> = [[10, 1, 2, 3]]"
    by (simp add: resolved_ips_def sc_GetTargetDomain_def curl_session_def web_session_def file_env_def plain_env_def IsValid_def)
  finally have ips: "target_ips file_env ?ctx = [[10, 1, 2, 3]]" .
  have "rr_Domain coded_rule = []" by (simp add: coded_rule_def no_rule_def)
  then show ?thesis
    using routing_rule_exact [of file_env ten_data "[]" coded_rule "[]" ?ctx, unfolded s ips,
        OF file_env_wf empty_cache coded_rule_ready coded_rule_fields] coded_rule_holds by metis
qed

text \<open>On systems that read the files, the reverse match of an entry with a code is lost.\<close>

lemma reverse_match_lost:
  "loaded_geoip file_env (coded_rule\<lparr>rr_Geoip := [\<lparr>geo_CountryCode = ''TEN'', geo_Cidr = [], geo_ReverseMatch = True\<rparr>]\<rparr>)
     = Ok [\<lparr>geo_CountryCode = ''TEN'', geo_Cidr = geo_Cidr ten_net, geo_ReverseMatch = False\<rparr>]"
  by code_simp

text \<open>Without a source address, a rule that asks for the process panics instead of answering.\<close>

lemma process_condition_panics:
  "sc_GetSourceIPs (session_of ctx) = [] \<Longrightarrow> Apply env (ProcessNameMatcher names) ctx = Err (Panic ''index out of range'')"
  by (simp add: ProcessName_Apply_def)

end
