(* ===== verification/Router_Balancer.thy ===== *)
theory Router_Balancer
  imports Complex_Main Prelude "HOL-Library.AList" "HOL-Library.Multiset" "HOL-Library.Char_ord" "HOL-Library.List_Lexorder" "HOL-Library.Product_Lexorder"
begin

text \<open>
  Load balancing between outbounds: the strategies of \<open>app/router/strategy_random.go\<close>,
  \<open>strategy_leastping.go\<close>, \<open>strategy_leastload.go\<close> and \<open>balancing.go\<close>, the weights of \<open>weight.go\<close>,
  and \<open>Balancer\<close> with its override (\<open>balancing_override.go\<close>).

  The observatory's report, the outbound manager's selection, the random number of \<open>dice.Roll\<close>, the regular
  expressions, the \<open>float64\<close> arithmetic (the rounding of \<open>strconv.ParseFloat\<close>, \<open>None\<close> when the number is out of
  range, and the duration \<open>value * math.Pow(cost, 0.5)\<close>) and the order of \<open>sort.Slice\<close> are fields of the record
  \<open>balEnv\<close>. Weights are rational numbers; delays and durations are integers, cut to 64 bits where they are multiplied.
\<close>

section \<open>Observations\<close>

record HealthPing =
  hp_All :: int
  hp_Fail :: int
  hp_Deviation :: int
  hp_Average :: int

record OutboundStatus =
  os_Alive :: bool
  os_Delay :: int
  os_OutboundTag :: string
  os_HealthPing :: "HealthPing option"

text \<open>No observatory, an error, its report, or a message of another type.\<close>

datatype Observation = NoObservatory | ObservationError | ObservationResult "OutboundStatus list" | OtherReport

record node =
  nd_Tag :: string
  nd_CountAll :: int
  nd_CountFail :: int
  nd_RTTAverage :: int
  nd_RTTDeviation :: int
  nd_RTTDeviationCost :: int

record balEnv =
  be_Select :: "string list \<Rightarrow> string list result"
  be_Observation :: Observation
  be_Roll :: "nat \<Rightarrow> nat"
  be_FindString :: "string \<Rightarrow> string \<Rightarrow> string result"
  be_round64 :: "rat \<Rightarrow> rat option"
  be_scale :: "int \<Rightarrow> rat \<Rightarrow> int"
  be_sort :: "node list \<Rightarrow> node list"

section \<open>Random and round robin\<close>

text \<open>The candidates that the report does not declare dead.\<close>

definition aliveTags :: "OutboundStatus list \<Rightarrow> string list \<Rightarrow> string list" where
  "aliveTags status tags =
     (let statusMap = foldl (\<lambda>m s. AList.update (os_OutboundTag s) s m) [] status in
      filter (\<lambda>t. case map_of statusMap t of None \<Rightarrow> True | Some s \<Rightarrow> os_Alive s) tags)"

definition observedTags :: "balEnv \<Rightarrow> string \<Rightarrow> string list \<Rightarrow> string list" where
  "observedTags env fallbackTag tags =
     (if fallbackTag = [] then tags
      else case be_Observation env of ObservationResult status \<Rightarrow> aliveTags status tags | _ \<Rightarrow> tags)"

definition Random_Pick :: "balEnv \<Rightarrow> string \<Rightarrow> string list \<Rightarrow> string" where
  "Random_Pick env fallbackTag candidates =
     (let cs = observedTags env fallbackTag candidates; cnt = length cs in
      if cnt = 0 then [] else cs ! be_Roll env cnt)"

definition RoundRobin_Pick :: "balEnv \<Rightarrow> string \<Rightarrow> string list \<Rightarrow> nat \<Rightarrow> string \<times> nat" where
  "RoundRobin_Pick env fallbackTag tags index =
     (let ts = observedTags env fallbackTag tags; n = length ts in
      if n = 0 then ([], index) else (ts ! (index mod n), (index + 1) mod n))"

section \<open>Least ping\<close>

definition LeastPing_Pick :: "balEnv \<Rightarrow> string list \<Rightarrow> string" where
  "LeastPing_Pick env outbounds =
     (case be_Observation env of
        ObservationResult status \<Rightarrow>
          fst (foldl (\<lambda>(selected, leastPing) v.
                 if os_OutboundTag v \<in> set outbounds \<and> os_Alive v \<and> os_Delay v < leastPing
                 then (os_OutboundTag v, os_Delay v) else (selected, leastPing))
               ([], 99999999) status)
      | _ \<Rightarrow> [])"

section \<open>Weights\<close>

record StrategyWeight =
  sw_Regexp :: bool
  sw_Match :: string
  sw_Value :: rat

definition is_digit :: "char \<Rightarrow> bool" where
  "is_digit c \<longleftrightarrow> 48 \<le> (of_char c :: nat) \<and> (of_char c :: nat) \<le> 57"

text \<open>The leftmost match of the pattern \<open>\d+(\.\d+)?\<close>, and the number it denotes.\<close>

definition findNumber :: "string \<Rightarrow> string" where
  "findNumber s =
     (let t = dropWhile (\<lambda>c. \<not> is_digit c) s; ip = takeWhile is_digit t; rest = dropWhile is_digit t in
      case rest of
        d # fd \<Rightarrow> if d = CHR ''.'' \<and> takeWhile is_digit fd \<noteq> [] then ip @ CHR ''.'' # takeWhile is_digit fd else ip
      | [] \<Rightarrow> ip)"

definition digits_val :: "string \<Rightarrow> nat" where
  "digits_val s = foldl (\<lambda>n c. n * 10 + (of_char c - 48)) 0 s"

definition numberVal :: "string \<Rightarrow> rat" where
  "numberVal s =
     (let ip = takeWhile is_digit s; fd = drop (length ip + 1) s in
      of_nat (digits_val ip) + of_nat (digits_val fd) / 10 ^ length fd)"

fun hasSubstring :: "string \<Rightarrow> string \<Rightarrow> bool" where
  "hasSubstring [] p \<longleftrightarrow> p = []"
| "hasSubstring (c # s) p \<longleftrightarrow> take (length p) (c # s) = p \<or> hasSubstring s p"

definition getMatch :: "balEnv \<Rightarrow> string \<Rightarrow> string \<Rightarrow> bool \<Rightarrow> string" where
  "getMatch env tag find_str isRegexp =
     (if \<not> isRegexp then (if hasSubstring tag find_str then find_str else [])
      else case be_FindString env find_str tag of Inl _ \<Rightarrow> [] | Inr s \<Rightarrow> s)"

fun findValue :: "balEnv \<Rightarrow> rat \<Rightarrow> StrategyWeight list \<Rightarrow> string \<Rightarrow> rat" where
  "findValue env defaultWeight [] tag = defaultWeight"
| "findValue env defaultWeight (w # ws) tag =
     (let matched = getMatch env tag (sw_Match w) (sw_Regexp w) in
      if matched = [] then findValue env defaultWeight ws tag
      else if sw_Value w > 0 then sw_Value w
      else (let numStr = findNumber matched in
            if numStr = [] then defaultWeight
            else case be_round64 env (numberVal numStr) of None \<Rightarrow> defaultWeight | Some weight \<Rightarrow> weight))"

text \<open>A weight manager is its settings with the cache of the weights computed so far.\<close>

record WeightManager =
  wm_settings :: "StrategyWeight list"
  wm_cache :: "(string \<times> rat) list"
  wm_defaultWeight :: rat

definition NewWeightManager :: "StrategyWeight list \<Rightarrow> rat \<Rightarrow> WeightManager" where
  "NewWeightManager s defaultWeight = \<lparr>wm_settings = s, wm_cache = [], wm_defaultWeight = defaultWeight\<rparr>"

definition wm_Get :: "balEnv \<Rightarrow> string \<Rightarrow> WeightManager \<Rightarrow> rat \<times> WeightManager" where
  "wm_Get env tag wm =
     (case map_of (wm_cache wm) tag of
        Some weight \<Rightarrow> (weight, wm)
      | None \<Rightarrow> (let weight = findValue env (wm_defaultWeight wm) (wm_settings wm) tag in
                  (weight, wm\<lparr>wm_cache := AList.update tag weight (wm_cache wm)\<rparr>)))"

definition wm_Apply :: "balEnv \<Rightarrow> string \<Rightarrow> int \<Rightarrow> WeightManager \<Rightarrow> int \<times> WeightManager" where
  "wm_Apply env tag value wm = (let (w, wm') = wm_Get env tag wm in (be_scale env value w, wm'))"

section \<open>Least load\<close>

text \<open>\<open>Duration.Milliseconds\<close>: Go's division truncates towards zero.\<close>

definition Milliseconds :: "int \<Rightarrow> int" where
  "Milliseconds d = (if d < 0 then - (- d div 1000000) else d div 1000000)"

definition millis :: "int \<Rightarrow> int" where
  "millis d = signed_take_bit 63 (d * 1000000)"

record StrategyLeastLoadConfig =
  ll_Costs :: "StrategyWeight list"
  ll_Baselines :: "int list"
  ll_Expected :: int
  ll_MaxRTT :: int

definition nodeLess :: "node \<Rightarrow> node \<Rightarrow> bool" where
  "nodeLess left right =
     (if nd_RTTDeviationCost left \<noteq> nd_RTTDeviationCost right then nd_RTTDeviationCost left < nd_RTTDeviationCost right
      else if nd_RTTAverage left \<noteq> nd_RTTAverage right then nd_RTTAverage left < nd_RTTAverage right
      else if nd_CountFail left \<noteq> nd_CountFail right then nd_CountFail left < nd_CountFail right
      else if nd_CountAll left \<noteq> nd_CountAll right then nd_CountAll left > nd_CountAll right
      else nd_Tag left < nd_Tag right)"

definition nodeRecord :: "balEnv \<Rightarrow> OutboundStatus \<Rightarrow> WeightManager \<Rightarrow> node \<times> WeightManager" where
  "nodeRecord env v wm =
     (let delay = millis (os_Delay v);
          (cost, wm1) = wm_Apply env (os_OutboundTag v) delay wm;
          rec = \<lparr>nd_Tag = os_OutboundTag v, nd_CountAll = 1, nd_CountFail = 1, nd_RTTAverage = delay, nd_RTTDeviation = delay,
                 nd_RTTDeviationCost = cost\<rparr> in
      case os_HealthPing v of
        None \<Rightarrow> (rec, wm1)
      | Some hp \<Rightarrow>
          (let (cost', wm2) = wm_Apply env (os_OutboundTag v) (hp_Deviation hp) wm1 in
           (rec\<lparr>nd_RTTAverage := hp_Average hp, nd_RTTDeviation := hp_Deviation hp, nd_RTTDeviationCost := cost',
                nd_CountAll := hp_All hp, nd_CountFail := hp_Fail hp\<rparr>, wm2)))"

fun collectNodes :: "balEnv \<Rightarrow> string list \<Rightarrow> int \<Rightarrow> OutboundStatus list \<Rightarrow> WeightManager \<Rightarrow> node list \<times> WeightManager" where
  "collectNodes env candidates maxRTT [] wm = ([], wm)"
| "collectNodes env candidates maxRTT (v # vs) wm =
     (if os_Alive v \<and> (os_Delay v < Milliseconds maxRTT \<or> maxRTT = 0) \<and> os_OutboundTag v \<in> set candidates then
        (let (rec, wm') = nodeRecord env v wm; (nodes, wm'') = collectNodes env candidates maxRTT vs wm' in
         (rec # nodes, wm''))
      else collectNodes env candidates maxRTT vs wm)"

definition getNodes :: "balEnv \<Rightarrow> string list \<Rightarrow> int \<Rightarrow> WeightManager \<Rightarrow> node list result \<times> WeightManager" where
  "getNodes env candidates maxRTT wm =
     (case be_Observation env of
        NoObservatory \<Rightarrow> (Ok [], wm)
      | ObservationError \<Rightarrow> (Ok [], wm)
      | OtherReport \<Rightarrow> (Err (Panic ''interface conversion''), wm)
      | ObservationResult status \<Rightarrow>
          (let (nodes, wm') = collectNodes env candidates maxRTT status wm in (Ok (be_sort env nodes), wm')))"

text \<open>How many nodes lie below a baseline, counted on from those already found.\<close>

fun belowBaseline :: "int \<Rightarrow> node list \<Rightarrow> nat \<Rightarrow> nat" where
  "belowBaseline baseline [] cnt = cnt"
| "belowBaseline baseline (nd # nodes) cnt =
     (if nd_RTTDeviationCost nd \<ge> baseline then cnt else belowBaseline baseline nodes (cnt + 1))"

fun countBaselines :: "int list \<Rightarrow> node list \<Rightarrow> nat \<Rightarrow> nat \<Rightarrow> nat" where
  "countBaselines [] nodes expected cnt = cnt"
| "countBaselines (b # bs) nodes expected cnt =
     (let cnt' = belowBaseline b (drop cnt nodes) cnt in
      if cnt' \<ge> expected then cnt' else countBaselines bs nodes expected cnt')"

definition selectLeastLoad :: "StrategyLeastLoadConfig \<Rightarrow> node list \<Rightarrow> node list" where
  "selectLeastLoad settings nodes =
     (if length nodes = 0 then []
      else if ll_Expected settings > int (length nodes) then nodes
      else
        (let expected = (if ll_Expected settings \<le> 0 then 1 else nat (ll_Expected settings)) in
         if ll_Baselines settings = [] then take expected nodes
         else
           (let cnt = countBaselines (ll_Baselines settings) nodes expected 0;
                cnt' = (if ll_Expected settings > 0 \<and> cnt < expected then expected else cnt) in
            take cnt' nodes)))"

definition pickOutbounds :: "balEnv \<Rightarrow> StrategyLeastLoadConfig \<Rightarrow> string list \<Rightarrow> WeightManager \<Rightarrow> node list result \<times> WeightManager" where
  "pickOutbounds env settings candidates wm =
     (case getNodes env candidates (ll_MaxRTT settings) wm of
        (Inl e, wm') \<Rightarrow> (Err e, wm')
      | (Inr nodes, wm') \<Rightarrow> (Ok (selectLeastLoad settings nodes), wm'))"

definition LeastLoad_Pick :: "balEnv \<Rightarrow> StrategyLeastLoadConfig \<Rightarrow> string list \<Rightarrow> WeightManager \<Rightarrow> string result \<times> WeightManager" where
  "LeastLoad_Pick env settings candidates wm =
     (case pickOutbounds env settings candidates wm of
        (Inl e, wm') \<Rightarrow> (Err e, wm')
      | (Inr selects, wm') \<Rightarrow>
          (let cnt = length selects in (Ok (if cnt = 0 then [] else nd_Tag (selects ! be_Roll env cnt)), wm')))"

section \<open>Balancers\<close>

datatype Strategy =
    RandomStrategy string
  | RoundRobinStrategy string nat
  | LeastPingStrategy
  | LeastLoadStrategy StrategyLeastLoadConfig WeightManager

definition Strategy_Pick :: "balEnv \<Rightarrow> Strategy \<Rightarrow> string list \<Rightarrow> string result \<times> Strategy" where
  "Strategy_Pick env s candidates =
     (case s of
        RandomStrategy fallback \<Rightarrow> (Ok (Random_Pick env fallback candidates), s)
      | RoundRobinStrategy fallback index \<Rightarrow>
          (let (tag, index') = RoundRobin_Pick env fallback candidates index in (Ok tag, RoundRobinStrategy fallback index'))
      | LeastPingStrategy \<Rightarrow> (Ok (LeastPing_Pick env candidates), s)
      | LeastLoadStrategy settings costs \<Rightarrow>
          (let (r, costs') = LeastLoad_Pick env settings candidates costs in (r, LeastLoadStrategy settings costs')))"

definition Strategy_Principle :: "balEnv \<Rightarrow> Strategy \<Rightarrow> string list \<Rightarrow> string list result \<times> Strategy" where
  "Strategy_Principle env s candidates =
     (case s of
        RandomStrategy _ \<Rightarrow> (Ok candidates, s)
      | RoundRobinStrategy _ _ \<Rightarrow> (Ok candidates, s)
      | LeastPingStrategy \<Rightarrow> (Ok [LeastPing_Pick env candidates], s)
      | LeastLoadStrategy settings costs \<Rightarrow>
          (case pickOutbounds env settings candidates costs of
             (Inl e, costs') \<Rightarrow> (Err e, LeastLoadStrategy settings costs')
           | (Inr nodes, costs') \<Rightarrow> (Ok (map nd_Tag nodes), LeastLoadStrategy settings costs')))"

record Balancer =
  ba_selectors :: "string list"
  ba_strategy :: Strategy
  ba_fallbackTag :: string
  ba_override :: string

definition override_Put :: "string \<Rightarrow> Balancer \<Rightarrow> Balancer" where
  "override_Put target b = b\<lparr>ba_override := target\<rparr>"

definition override_Clear :: "Balancer \<Rightarrow> Balancer" where
  "override_Clear b = b\<lparr>ba_override := []\<rparr>"

definition Balancer_Pick :: "balEnv \<Rightarrow> Balancer \<Rightarrow> string result \<times> Balancer" where
  "Balancer_Pick env b =
     (case be_Select env (ba_selectors b) of
        Inl e \<Rightarrow> (if ba_fallbackTag b \<noteq> [] then Ok (ba_fallbackTag b) else Err e, b)
      | Inr candidates \<Rightarrow>
          (let (r, s) = (if ba_override b \<noteq> [] then (Ok (ba_override b), ba_strategy b) else Strategy_Pick env (ba_strategy b) candidates);
               b' = b\<lparr>ba_strategy := s\<rparr> in
           case r of
             Inl e \<Rightarrow> (Err e, b')
           | Inr tag \<Rightarrow>
               (if tag = [] then
                  (if ba_fallbackTag b \<noteq> [] then Ok (ba_fallbackTag b) else Err (ErrMsg ''balancing strategy returns empty tag''))
                else Ok tag, b')))"

datatype SettingsInstance = LeastLoadConfig StrategyLeastLoadConfig | OtherInstance

record BalancingRule =
  br_Tag :: string
  br_OutboundSelector :: "string list"
  br_Strategy :: string
  br_StrategySettings :: "SettingsInstance result"
  br_FallbackTag :: string

definition newBalancer :: "BalancingRule \<Rightarrow> Strategy \<Rightarrow> Balancer" where
  "newBalancer br s = \<lparr>ba_selectors = br_OutboundSelector br, ba_strategy = s, ba_fallbackTag = br_FallbackTag br, ba_override = []\<rparr>"

definition BalancingRule_Build :: "(string \<Rightarrow> string) \<Rightarrow> BalancingRule \<Rightarrow> Balancer result" where
  "BalancingRule_Build toLower br =
     (let strategy = toLower (br_Strategy br) in
      if strategy = ''leastping'' then Ok (newBalancer br LeastPingStrategy)
      else if strategy = ''roundrobin'' then Ok (newBalancer br (RoundRobinStrategy (br_FallbackTag br) 0))
      else if strategy = ''leastload'' then
        (case br_StrategySettings br of
           Inl e \<Rightarrow> Err e
         | Inr (LeastLoadConfig s) \<Rightarrow> Ok (newBalancer br (LeastLoadStrategy s (NewWeightManager (ll_Costs s) 1)))
         | Inr OtherInstance \<Rightarrow> Err (ErrMsg ''not a StrategyLeastLoadConfig''))
      else if strategy = ''random'' \<or> strategy = [] then Ok (newBalancer br (RandomStrategy (br_FallbackTag br)))
      else Err (ErrMsg ''unrecognized balancer type''))"

section \<open>Candidates that are alive\<close>

text \<open>What the report says of a tag: its last entry for it.\<close>

definition lastStatus :: "OutboundStatus list \<Rightarrow> string \<Rightarrow> OutboundStatus option" where
  "lastStatus status t = map_of (rev (map (\<lambda>s. (os_OutboundTag s, s)) status)) t"

lemma statusMap_lastStatus:
  "map_of (foldl (\<lambda>m s. AList.update (os_OutboundTag s) s m) m0 status) t =
     (case lastStatus status t of None \<Rightarrow> map_of m0 t | Some s \<Rightarrow> Some s)"
proof (induction status rule: rev_induct)
  case Nil
  show ?case by (simp add: lastStatus_def)
next
  case (snoc v vs)
  then show ?case by (cases "os_OutboundTag v = t") (simp_all add: lastStatus_def update_conv')
qed

lemma aliveTags_filter:
  "aliveTags status tags = filter (\<lambda>t. \<forall>s. lastStatus status t = Some s \<longrightarrow> os_Alive s) tags"
  by (auto simp: aliveTags_def Let_def statusMap_lastStatus intro!: filter_cong split: option.splits)

lemma observedTags_subset: "set (observedTags env fallback tags) \<subseteq> set tags"
  by (auto simp: observedTags_def aliveTags_filter split: Observation.splits)

lemma Random_Pick_candidate:
  assumes "\<forall>n > 0. be_Roll env n < n"
  shows "Random_Pick env fallback tags \<in> insert [] (set (observedTags env fallback tags))"
  using assms by (auto simp: Random_Pick_def Let_def)

lemma RoundRobin_Pick_candidate:
  "fst (RoundRobin_Pick env fallback tags index) \<in> insert [] (set (observedTags env fallback tags))"
  by (auto simp: RoundRobin_Pick_def Let_def)

section \<open>The least ping\<close>

definition pingable :: "string list \<Rightarrow> OutboundStatus \<Rightarrow> bool" where
  "pingable outbounds v \<longleftrightarrow> os_OutboundTag v \<in> set outbounds \<and> os_Alive v \<and> os_Delay v < 99999999"

text \<open>The fold over the report, as a search that reports the entry it holds.\<close>

definition pingStep :: "string list \<Rightarrow> string \<times> int \<Rightarrow> OutboundStatus \<Rightarrow> string \<times> int" where
  "pingStep outbounds = (\<lambda>(sel, leastPing) v.
     if os_OutboundTag v \<in> set outbounds \<and> os_Alive v \<and> os_Delay v < leastPing then (os_OutboundTag v, os_Delay v) else (sel, leastPing))"

lemma pingStep_search:
  "foldl (pingStep outbounds) ([], 99999999) status = ([], 99999999) \<and> (\<forall>v \<in> set status. \<not> pingable outbounds v)
   \<or> (\<exists>pre v post. status = pre @ v # post \<and> pingable outbounds v
        \<and> foldl (pingStep outbounds) ([], 99999999) status = (os_OutboundTag v, os_Delay v)
        \<and> (\<forall>w \<in> set pre. pingable outbounds w \<longrightarrow> os_Delay v < os_Delay w)
        \<and> (\<forall>w \<in> set post. pingable outbounds w \<longrightarrow> os_Delay v \<le> os_Delay w))"
proof (induction status rule: rev_induct)
  case Nil
  show ?case by simp
next
  case (snoc u us)
  from snoc.IH show ?case
  proof (elim disjE exE conjE)
    assume none: "foldl (pingStep outbounds) ([], 99999999) us = ([], 99999999)" and nop: "\<forall>v \<in> set us. \<not> pingable outbounds v"
    show ?case
    proof (cases "pingable outbounds u")
      case True
      then have "foldl (pingStep outbounds) ([], 99999999) (us @ [u]) = (os_OutboundTag u, os_Delay u)"
        using none by (simp add: pingStep_def pingable_def)
      then show ?thesis using True nop by (intro disjI2 exI [of _ us] exI [of _ u] exI [of _ "[]"]) simp
    next
      case False
      then show ?thesis using none nop by (auto simp: pingStep_def pingable_def)
    qed
  next
    fix pre v post
    assume us: "us = pre @ v # post" and pv: "pingable outbounds v"
      and held: "foldl (pingStep outbounds) ([], 99999999) us = (os_OutboundTag v, os_Delay v)"
      and le: "\<forall>w \<in> set pre. pingable outbounds w \<longrightarrow> os_Delay v < os_Delay w"
      and le': "\<forall>w \<in> set post. pingable outbounds w \<longrightarrow> os_Delay v \<le> os_Delay w"
    show ?case
    proof (cases "os_OutboundTag u \<in> set outbounds \<and> os_Alive u \<and> os_Delay u < os_Delay v")
      case True
      then have "pingable outbounds u" using pv by (simp add: pingable_def)
      moreover have "foldl (pingStep outbounds) ([], 99999999) (us @ [u]) = (os_OutboundTag u, os_Delay u)"
        using True held by (simp add: pingStep_def)
      moreover have "\<forall>w \<in> set us. pingable outbounds w \<longrightarrow> os_Delay u < os_Delay w"
        using us le le' True by auto
      ultimately show ?thesis by (intro disjI2 exI [of _ us] exI [of _ u] exI [of _ "[]"]) simp
    next
      case False
      then have "foldl (pingStep outbounds) ([], 99999999) (us @ [u]) = (os_OutboundTag v, os_Delay v)"
        using held by (auto simp: pingStep_def)
      moreover have "\<forall>w \<in> set (post @ [u]). pingable outbounds w \<longrightarrow> os_Delay v \<le> os_Delay w"
        using False le' by (auto simp: pingable_def)
      ultimately show ?thesis using us pv le by (intro disjI2 exI [of _ pre] exI [of _ v] exI [of _ "post @ [u]"]) simp
    qed
  qed
qed

lemma LeastPing_Pick_foldl:
  "be_Observation env = ObservationResult status \<Longrightarrow>
     LeastPing_Pick env outbounds = fst (foldl (pingStep outbounds) ([], 99999999) status)"
  by (simp add: LeastPing_Pick_def pingStep_def)

text \<open>
  C35. The least ping strategy picks the first of the fastest: when the observatory reports, the tag it picks
  is that of an entry which is a candidate, alive and below the bound of 99999999 ms, every such entry before
  it is slower and none after it is faster. It picks no tag only when no entry qualifies.
\<close>

theorem least_ping_fastest:
  assumes "be_Observation env = ObservationResult status"
  shows "if \<exists>v \<in> set status. pingable outbounds v
         then \<exists>pre v post. status = pre @ v # post \<and> pingable outbounds v \<and> LeastPing_Pick env outbounds = os_OutboundTag v
           \<and> (\<forall>w \<in> set pre. pingable outbounds w \<longrightarrow> os_Delay v < os_Delay w)
           \<and> (\<forall>w \<in> set post. pingable outbounds w \<longrightarrow> os_Delay v \<le> os_Delay w)
         else LeastPing_Pick env outbounds = []"
proof (cases "\<exists>v \<in> set status. pingable outbounds v")
  case True
  then have "\<not> (\<forall>v \<in> set status. \<not> pingable outbounds v)" by blast
  with pingStep_search [of outbounds status] obtain pre v post where
    "status = pre @ v # post" "pingable outbounds v" "foldl (pingStep outbounds) ([], 99999999) status = (os_OutboundTag v, os_Delay v)"
    "\<forall>w \<in> set pre. pingable outbounds w \<longrightarrow> os_Delay v < os_Delay w"
    "\<forall>w \<in> set post. pingable outbounds w \<longrightarrow> os_Delay v \<le> os_Delay w" by blast
  then show ?thesis
    unfolding if_P [OF True] using LeastPing_Pick_foldl [OF assms, of outbounds]
    by (intro exI [of _ pre] exI [of _ v] exI [of _ post]) simp
next
  case False
  then have "foldl (pingStep outbounds) ([], 99999999) status = ([], 99999999)"
    using pingStep_search [of outbounds status] by auto
  then show ?thesis unfolding if_not_P [OF False] using LeastPing_Pick_foldl [OF assms, of outbounds] by simp
qed

text \<open>A report with a dead candidate, a stranger and two equally fast candidates.\<close>

definition ping_report :: "OutboundStatus list" where
  "ping_report =
     [\<lparr>os_Alive = False, os_Delay = 1, os_OutboundTag = ''a'', os_HealthPing = None\<rparr>,
      \<lparr>os_Alive = True, os_Delay = 5, os_OutboundTag = ''z'', os_HealthPing = None\<rparr>,
      \<lparr>os_Alive = True, os_Delay = 20, os_OutboundTag = ''b'', os_HealthPing = None\<rparr>,
      \<lparr>os_Alive = True, os_Delay = 20, os_OutboundTag = ''c'', os_HealthPing = None\<rparr>]"

text \<open>The order of the nodes is that of a tuple of keys, so sorting by the tuple is one way to sort them.\<close>

definition loadKey :: "node \<Rightarrow> int \<times> int \<times> int \<times> int \<times> string" where
  "loadKey nd = (nd_RTTDeviationCost nd, nd_RTTAverage nd, nd_CountFail nd, - nd_CountAll nd, nd_Tag nd)"

lemma nodeLess_key: "nodeLess a b \<longleftrightarrow> loadKey a < loadKey b"
  by (auto simp: nodeLess_def loadKey_def less_prod_simp)

definition sample_env :: "balEnv" where
  "sample_env = \<lparr>be_Select = (\<lambda>_. Ok [''a'', ''b'', ''c'']), be_Observation = ObservationResult ping_report, be_Roll = (\<lambda>n. n - 1),
     be_FindString = (\<lambda>_ _. Err EOF), be_round64 = Some, be_scale = (\<lambda>v w. v * floor w), be_sort = sort_key loadKey\<rparr>"

theorem least_ping_fastest_witness:
  "be_Observation sample_env = ObservationResult ping_report \<and> LeastPing_Pick sample_env [''a'', ''b'', ''c''] = ''b''
   \<and> (\<exists>pre v post. ping_report = pre @ v # post \<and> pingable [''a'', ''b'', ''c''] v
        \<and> LeastPing_Pick sample_env [''a'', ''b'', ''c''] = os_OutboundTag v)"
proof -
  have obs: "be_Observation sample_env = ObservationResult ping_report" by (simp add: sample_env_def)
  have some: "\<exists>v \<in> set ping_report. pingable [''a'', ''b'', ''c''] v" by (simp add: ping_report_def pingable_def)
  have "LeastPing_Pick sample_env [''a'', ''b'', ''c''] = ''b''" by (simp add: LeastPing_Pick_def sample_env_def ping_report_def)
  then show ?thesis using obs least_ping_fastest [OF obs, of "[''a'', ''b'', ''c'']", unfolded if_P [OF some]] by blast
qed

section \<open>Round robin over a whole turn\<close>

text \<open>The outcomes of several calls in a row.\<close>

fun balancer_run :: "balEnv \<Rightarrow> nat \<Rightarrow> Balancer \<Rightarrow> string result list" where
  "balancer_run env 0 b = []"
| "balancer_run env (Suc k) b = (let (r, b') = Balancer_Pick env b in r # balancer_run env k b')"

lemma Balancer_Pick_round_robin:
  assumes "be_Select env (ba_selectors b) = Ok tags" "ba_override b = []" "ba_strategy b = RoundRobinStrategy fallback index"
    "ts = observedTags env fallback tags" "ts \<noteq> []" "[] \<notin> set ts"
  shows "Balancer_Pick env b =
           (Ok (ts ! (index mod length ts)), b\<lparr>ba_strategy := RoundRobinStrategy fallback ((index + 1) mod length ts)\<rparr>)"
proof -
  have "ts ! (index mod length ts) \<in> set ts" using assms(5) by simp
  then have "ts ! (index mod length ts) \<noteq> []" using assms(6) by metis
  then show ?thesis
    using assms by (simp add: Balancer_Pick_def Strategy_Pick_def RoundRobin_Pick_def Let_def)
qed

lemma balancer_run_round_robin:
  assumes "be_Select env (ba_selectors b) = Ok tags" "ba_override b = []" "ba_strategy b = RoundRobinStrategy fallback index"
    "ts = observedTags env fallback tags" "ts \<noteq> []" "[] \<notin> set ts"
  shows "balancer_run env k b = map (\<lambda>i. Ok (ts ! ((index + i) mod length ts))) [0..<k]"
  using assms
proof (induction k arbitrary: b index)
  case 0
  show ?case by simp
next
  case (Suc k)
  let ?b = "b\<lparr>ba_strategy := RoundRobinStrategy fallback ((index + 1) mod length ts)\<rparr>"
  have "balancer_run env k ?b = map (\<lambda>i. Ok (ts ! (((index + 1) mod length ts + i) mod length ts))) [0..<k]"
    by (rule Suc.IH) (use Suc.prems in simp_all)
  also have "\<dots> = map (\<lambda>i. Ok (ts ! ((index + Suc i) mod length ts))) [0..<k]"
    by (simp add: mod_simps)
  finally show ?case
    using Balancer_Pick_round_robin [OF Suc.prems] by (simp add: upt_conv_Cons map_Suc_upt [symmetric] comp_def del: upt_Suc)
qed

lemma rotation_mset:
  assumes "ts \<noteq> []"
  shows "mset (map (\<lambda>i. ts ! ((index + i) mod length ts)) [0..<length ts]) = mset ts"
proof -
  have "mset (map (\<lambda>i. ts ! ((index + i) mod length ts)) [0..<length ts]) = mset (rotate index ts)"
    by (rule arg_cong [where f = mset], rule nth_equalityI) (simp_all add: nth_rotate add.commute)
  also have "\<dots> = mset ts" by (metis rotate_drop_take mset_append union_commute append_take_drop_id)
  finally show ?thesis .
qed

text \<open>
  C21. Round robin is fair: as long as the selection and the report do not change, \<open>k\<close> calls in a row pick, from
  any starting index, \<open>k\<close> consecutive live candidates in the order of the selection, wrapping around; so a whole
  turn picks every live candidate once.
\<close>

theorem round_robin_fair:
  assumes "be_Select env (ba_selectors b) = Ok tags" "ba_override b = []" "ba_strategy b = RoundRobinStrategy fallback index"
    "ts = observedTags env fallback tags" "ts \<noteq> []" "[] \<notin> set ts"
  shows "balancer_run env k b = map (\<lambda>i. Ok (ts ! ((index + i) mod length ts))) [0..<k]
         \<and> mset (balancer_run env (length ts) b) = mset (map Ok ts)"
  using balancer_run_round_robin [OF assms] rotation_mset [OF assms(5), of index]
  by (metis (no_types, lifting) mset_map list.map_comp comp_apply map_eq_conv)

definition round_balancer :: Balancer where
  "round_balancer = \<lparr>ba_selectors = [''x''], ba_strategy = RoundRobinStrategy ''f'' 3, ba_fallbackTag = ''f'', ba_override = []\<rparr>"

theorem round_robin_fair_witness:
  "balancer_run sample_env 3 round_balancer = [Ok ''c'', Ok ''b'', Ok ''c'']
   \<and> mset (balancer_run sample_env 2 round_balancer) = mset [Ok ''b'', Ok ''c'']"
proof -
  have ts: "observedTags sample_env ''f'' [''a'', ''b'', ''c''] = [''b'', ''c'']"
    by (simp add: observedTags_def sample_env_def aliveTags_def ping_report_def Let_def)
  have sel: "be_Select sample_env (ba_selectors round_balancer) = Ok [''a'', ''b'', ''c'']" by (simp add: sample_env_def)
  have eqs: "ba_override round_balancer = []" "ba_strategy round_balancer = RoundRobinStrategy ''f'' 3"
    "[''b'', ''c''] \<noteq> []" "[] \<notin> set [''b'', ''c'']" by (simp_all add: round_balancer_def)
  have two: "length [''b'', ''c''] = 2" by simp
  have "map (\<lambda>i. Ok ([''b'', ''c''] ! ((3 + i) mod 2)) :: string result) [0..<3] = [Ok ''c'', Ok ''b'', Ok ''c'']"
    by (simp add: upt_conv_Cons)
  then show ?thesis using round_robin_fair [OF sel eqs(1,2) ts [symmetric] eqs(3,4), of 3, unfolded two] by simp
qed

section \<open>Weights\<close>

text \<open>The cache holds only what \<open>findValue\<close> computes, so it never changes an answer.\<close>

definition wm_ok :: "balEnv \<Rightarrow> WeightManager \<Rightarrow> bool" where
  "wm_ok env wm \<longleftrightarrow>
     (\<forall>t w. map_of (wm_cache wm) t = Some w \<longrightarrow> w = findValue env (wm_defaultWeight wm) (wm_settings wm) t)"

lemma NewWeightManager_ok: "wm_ok env (NewWeightManager s d)"
  by (simp add: wm_ok_def NewWeightManager_def)

lemma wm_Get_correct:
  assumes "wm_ok env wm"
  obtains wm' where "wm_Get env t wm = (findValue env (wm_defaultWeight wm) (wm_settings wm) t, wm')"
    "wm_ok env wm'" "wm_settings wm' = wm_settings wm" "wm_defaultWeight wm' = wm_defaultWeight wm"
proof (cases "map_of (wm_cache wm) t")
  case None
  show ?thesis by (rule that [of "snd (wm_Get env t wm)"]) (use assms None in \<open>auto simp: wm_Get_def wm_ok_def Let_def update_conv'\<close>)
next
  case (Some w)
  show ?thesis by (rule that [of wm]) (use assms Some in \<open>auto simp: wm_Get_def wm_ok_def\<close>)
qed

definition costOf :: "balEnv \<Rightarrow> WeightManager \<Rightarrow> string \<Rightarrow> int \<Rightarrow> int" where
  "costOf env wm t value = be_scale env value (findValue env (wm_defaultWeight wm) (wm_settings wm) t)"

lemma wm_Apply_correct:
  assumes "wm_ok env wm"
  obtains wm' where "wm_Apply env t value wm = (costOf env wm t value, wm')"
    "wm_ok env wm'" "wm_settings wm' = wm_settings wm" "wm_defaultWeight wm' = wm_defaultWeight wm"
  using wm_Get_correct [OF assms, of t] by (metis (no_types, lifting) case_prod_conv costOf_def wm_Apply_def)

section \<open>The least load\<close>

definition qualifies :: "string list \<Rightarrow> int \<Rightarrow> OutboundStatus \<Rightarrow> bool" where
  "qualifies candidates maxRTT v \<longleftrightarrow>
     os_Alive v \<and> (os_Delay v < Milliseconds maxRTT \<or> maxRTT = 0) \<and> os_OutboundTag v \<in> set candidates"

definition nodeOf :: "balEnv \<Rightarrow> WeightManager \<Rightarrow> OutboundStatus \<Rightarrow> node" where
  "nodeOf env wm v =
     (case os_HealthPing v of
        None \<Rightarrow> \<lparr>nd_Tag = os_OutboundTag v, nd_CountAll = 1, nd_CountFail = 1, nd_RTTAverage = millis (os_Delay v),
                 nd_RTTDeviation = millis (os_Delay v), nd_RTTDeviationCost = costOf env wm (os_OutboundTag v) (millis (os_Delay v))\<rparr>
      | Some hp \<Rightarrow> \<lparr>nd_Tag = os_OutboundTag v, nd_CountAll = hp_All hp, nd_CountFail = hp_Fail hp, nd_RTTAverage = hp_Average hp,
                 nd_RTTDeviation = hp_Deviation hp, nd_RTTDeviationCost = costOf env wm (os_OutboundTag v) (hp_Deviation hp)\<rparr>)"

lemma costOf_cong:
  "wm_settings wm' = wm_settings wm \<Longrightarrow> wm_defaultWeight wm' = wm_defaultWeight wm \<Longrightarrow> costOf env wm' = costOf env wm"
  by (intro ext) (simp add: costOf_def)

lemma nodeRecord_correct:
  assumes "wm_ok env wm"
  obtains wm' where "nodeRecord env v wm = (nodeOf env wm v, wm')"
    "wm_ok env wm'" "wm_settings wm' = wm_settings wm" "wm_defaultWeight wm' = wm_defaultWeight wm"
proof -
  obtain wm1 where a1: "wm_Apply env (os_OutboundTag v) (millis (os_Delay v)) wm = (costOf env wm (os_OutboundTag v) (millis (os_Delay v)), wm1)"
    and o1: "wm_ok env wm1" "wm_settings wm1 = wm_settings wm" "wm_defaultWeight wm1 = wm_defaultWeight wm"
    by (rule wm_Apply_correct [OF assms])
  show ?thesis
  proof (cases "os_HealthPing v")
    case None
    then show ?thesis using o1 a1 by (intro that [of wm1]) (simp_all add: nodeRecord_def nodeOf_def Let_def)
  next
    case (Some hp)
    obtain wm2 where "wm_Apply env (os_OutboundTag v) (hp_Deviation hp) wm1 = (costOf env wm1 (os_OutboundTag v) (hp_Deviation hp), wm2)"
      "wm_ok env wm2" "wm_settings wm2 = wm_settings wm1" "wm_defaultWeight wm2 = wm_defaultWeight wm1"
      by (rule wm_Apply_correct [OF o1(1)])
    then show ?thesis using Some o1 a1 costOf_cong [OF o1(2,3), of env]
      by (intro that [of wm2]) (simp_all add: nodeRecord_def nodeOf_def Let_def)
  qed
qed

lemma collectNodes_correct:
  assumes "wm_ok env wm"
  obtains wm' where "collectNodes env candidates maxRTT status wm = (map (nodeOf env wm) (filter (qualifies candidates maxRTT) status), wm')"
    "wm_ok env wm'" "wm_settings wm' = wm_settings wm" "wm_defaultWeight wm' = wm_defaultWeight wm"
  using assms
proof (induction status arbitrary: wm thesis)
  case Nil
  then show ?case by simp
next
  case (Cons v vs)
  show ?case
  proof (cases "qualifies candidates maxRTT v")
    case False
    obtain wm' where "collectNodes env candidates maxRTT vs wm = (map (nodeOf env wm) (filter (qualifies candidates maxRTT) vs), wm')"
      "wm_ok env wm'" "wm_settings wm' = wm_settings wm" "wm_defaultWeight wm' = wm_defaultWeight wm"
      by (rule Cons.IH [OF _ Cons.prems(2)])
    moreover have "collectNodes env candidates maxRTT (v # vs) wm = collectNodes env candidates maxRTT vs wm"
      using False unfolding qualifies_def collectNodes.simps(2) by (rule if_not_P)
    ultimately show ?thesis using Cons.prems(1) False by simp
  next
    case q: True
    obtain wm2 where a2: "nodeRecord env v wm = (nodeOf env wm v, wm2)"
      and o2: "wm_ok env wm2" "wm_settings wm2 = wm_settings wm" "wm_defaultWeight wm2 = wm_defaultWeight wm"
      by (rule nodeRecord_correct [OF Cons.prems(2)])
    obtain wm3 where a3: "collectNodes env candidates maxRTT vs wm2 = (map (nodeOf env wm2) (filter (qualifies candidates maxRTT) vs), wm3)"
      and o3: "wm_ok env wm3" "wm_settings wm3 = wm_settings wm2" "wm_defaultWeight wm3 = wm_defaultWeight wm2"
      by (rule Cons.IH [OF _ o2(1)])
    have n: "nodeOf env wm2 = nodeOf env wm" using costOf_cong [OF o2(2,3), of env] by (intro ext) (simp add: nodeOf_def split: option.split)
    have "collectNodes env candidates maxRTT (v # vs) wm = (nodeOf env wm v # map (nodeOf env wm) (filter (qualifies candidates maxRTT) vs), wm3)"
      using q [unfolded qualifies_def] a2 a3 n by (simp add: Let_def)
    then show ?thesis using Cons.prems(1) q o2 o3 by simp
  qed
qed

abbreviation cost_below :: "int \<Rightarrow> node \<Rightarrow> bool" where
  "cost_below b nd \<equiv> nd_RTTDeviationCost nd < b"

definition load_sorted :: "node list \<Rightarrow> bool" where
  "load_sorted nodes \<longleftrightarrow> sorted_wrt (\<lambda>a b. \<not> nodeLess b a) nodes"

lemma load_sorted_le: "load_sorted nodes \<Longrightarrow> i \<le> j \<Longrightarrow> j < length nodes \<Longrightarrow> nd_RTTDeviationCost (nodes ! i) \<le> nd_RTTDeviationCost (nodes ! j)"
proof (cases "i = j")
  case False
  assume "load_sorted nodes" "i \<le> j" "j < length nodes"
  with False have "\<not> nodeLess (nodes ! j) (nodes ! i)" by (simp add: load_sorted_def sorted_wrt_iff_nth_less)
  then show ?thesis unfolding nodeLess_def by (metis linorder_not_less order.order_iff_strict)
qed simp

lemma belowBaseline_eq: "belowBaseline b nodes cnt = cnt + length (takeWhile (cost_below b) nodes)"
  by (induction nodes arbitrary: cnt) auto

lemma belowBaseline_bounds:
  fixes b :: int
  assumes "c \<le> length nodes"
  defines "c' \<equiv> belowBaseline b (drop c nodes) c"
  shows "c \<le> c'" "c' \<le> length nodes" "c < c' \<Longrightarrow> cost_below b (nodes ! (c' - 1))" "c' < length nodes \<Longrightarrow> \<not> cost_below b (nodes ! c')"
proof -
  let ?k = "length (takeWhile (cost_below b) (drop c nodes))"
  have k: "c' = c + ?k" by (simp add: c'_def belowBaseline_eq)
  have le: "?k \<le> length nodes - c" using length_takeWhile_le [of "cost_below b" "drop c nodes"] by simp
  show "c \<le> c'" "c' \<le> length nodes" using k le assms(1) by auto
  show "cost_below b (nodes ! (c' - 1))" if "c < c'"
  proof -
    have lt: "?k - 1 < ?k" using k that by linarith
    have "cost_below b (takeWhile (cost_below b) (drop c nodes) ! (?k - 1))" using set_takeWhileD [OF nth_mem [OF lt]] by (rule conjunct2)
    then have "cost_below b (nodes ! (c + (?k - 1)))" unfolding takeWhile_nth [OF lt] nth_drop [OF assms(1)] .
    moreover have "c + (?k - 1) = c' - 1" using k that by linarith
    ultimately show ?thesis by (rule subst [rotated])
  qed
  show "\<not> cost_below b (nodes ! c')" if "c' < length nodes"
  proof -
    have "?k < length (drop c nodes)" using that k by simp
    from nth_length_takeWhile [OF this] show ?thesis unfolding nth_drop [OF assms(1)] k [symmetric] .
  qed
qed

lemma countBaselines_bounds:
  fixes bs :: "int list" and e :: nat
  assumes "load_sorted nodes" "c \<le> length nodes"
  defines "r \<equiv> countBaselines bs nodes e c"
  shows "c \<le> r \<and> r \<le> length nodes \<and> (c < r \<longrightarrow> (\<exists>b \<in> set bs. cost_below b (nodes ! (r - 1))))
         \<and> (r < e \<and> r < length nodes \<longrightarrow> (\<forall>b \<in> set bs. \<not> cost_below b (nodes ! r)))"
  using assms(2) unfolding r_def
proof (induction bs arbitrary: c)
  case Nil
  then show ?case by simp
next
  case (Cons b bs)
  let ?c = "belowBaseline b (drop c nodes) c"
  note bb = belowBaseline_bounds [OF Cons.prems, of b]
  show ?case
  proof (cases "e \<le> ?c")
    case True
    then have eq: "countBaselines (b # bs) nodes e c = ?c" by simp
    show ?thesis unfolding eq using bb(1,2,3) True by (intro conjI impI) (simp_all del: belowBaseline.simps)
  next
    case False
    define c' r where "c' = ?c" and "r = countBaselines bs nodes e c'"
    have eq: "countBaselines (b # bs) nodes e c = r" using False by (simp add: c'_def r_def)
    note cc = bb [folded c'_def]
    have ih: "c' \<le> r" "r \<le> length nodes" "c' < r \<Longrightarrow> \<exists>b' \<in> set bs. cost_below b' (nodes ! (r - 1))"
      "r < e \<Longrightarrow> r < length nodes \<Longrightarrow> \<forall>b' \<in> set bs. \<not> cost_below b' (nodes ! r)"
      using Cons.IH [OF cc(2)] unfolding r_def by simp_all
    have up: "\<exists>b' \<in> set (b # bs). cost_below b' (nodes ! (r - 1))" if "c < r"
    proof (cases "c' < r")
      case True
      then show ?thesis using ih(3) by simp
    next
      case False
      then have "c' = r" using ih(1) by simp
      then show ?thesis using cc(3) that by simp
    qed
    have down: "\<not> cost_below b (nodes ! r)" if "r < length nodes"
    proof -
      have "c' < length nodes" using that ih(1) by simp
      then show ?thesis using cc(4) load_sorted_le [OF assms(1) ih(1) that] by simp
    qed
    have "\<forall>b' \<in> set (b # bs). \<not> cost_below b' (nodes ! r)" if "r < e" "r < length nodes"
      using down [OF that(2)] ih(4) [OF that] by simp
    then show ?thesis unfolding eq using up ih(1,2) cc(1) by (intro conjI impI) (rule le_trans, assumption+, (erule conjE)?, blast+)
  qed
qed

text \<open>What the selection keeps of a sorted list.\<close>

lemma selectLeastLoad_prefix:
  assumes "load_sorted nodes"
  shows "\<exists>c. selectLeastLoad settings nodes = take c nodes \<and> c \<le> length nodes
           \<and> (0 < ll_Expected settings \<longrightarrow> min (nat (ll_Expected settings)) (length nodes) \<le> c)
           \<and> (max 1 (nat (ll_Expected settings)) < c \<longrightarrow> (\<exists>b \<in> set (ll_Baselines settings). cost_below b (nodes ! (c - 1))))
           \<and> (c = 0 \<longrightarrow> nodes = [] \<or> ll_Baselines settings \<noteq> [] \<and> (\<forall>b \<in> set (ll_Baselines settings). \<not> cost_below b (nodes ! 0)))"
proof -
  let ?E = "ll_Expected settings" let ?n = "length nodes"
  let ?e = "if ?E \<le> 0 then 1 else nat ?E"
  let ?r = "countBaselines (ll_Baselines settings) nodes ?e 0"
  consider (none) "nodes = []" | (all) "nodes \<noteq> []" "?E > int ?n"
    | (plain) "nodes \<noteq> []" "\<not> ?E > int ?n" "ll_Baselines settings = []"
    | (base) "nodes \<noteq> []" "\<not> ?E > int ?n" "ll_Baselines settings \<noteq> []" by blast
  then show ?thesis
  proof cases
    case none
    then show ?thesis by (intro exI [of _ 0]) (simp add: selectLeastLoad_def)
  next
    case all
    then have "\<not> max 1 (nat ?E) < ?n" by linarith
    then show ?thesis using all by (intro exI [of _ "?n"]) (simp add: selectLeastLoad_def)
  next
    case plain
    then have "1 \<le> ?n" by (cases nodes) auto
    moreover have "selectLeastLoad settings nodes = take ?e nodes" using plain by (simp add: selectLeastLoad_def Let_def)
    ultimately show ?thesis using plain by (intro exI [of _ "?e"] conjI impI) (simp_all split: if_splits, linarith?)
  next
    case base
    have n1: "1 \<le> ?n" using base(1) by (cases nodes) auto
    define r where "r = ?r"
    have cb: "r \<le> ?n" "0 < r \<Longrightarrow> \<exists>b \<in> set (ll_Baselines settings). cost_below b (nodes ! (r - 1))"
      "r < ?e \<Longrightarrow> r < ?n \<Longrightarrow> \<forall>b \<in> set (ll_Baselines settings). \<not> cost_below b (nodes ! r)"
      using countBaselines_bounds [OF assms, of 0 "ll_Baselines settings" ?e] unfolding r_def by simp_all
    define c where "c = (if ?E > 0 \<and> r < ?e then ?e else r)"
    have "selectLeastLoad settings nodes = take c nodes" using base by (simp add: selectLeastLoad_def Let_def c_def r_def)
    moreover have "c \<le> ?n" using cb(1) base(2) n1 unfolding c_def by (simp split: if_split) linarith
    moreover have "min (nat ?E) ?n \<le> c" if "0 < ?E" using that by (auto simp: c_def)
    moreover have "\<exists>b \<in> set (ll_Baselines settings). cost_below b (nodes ! (c - 1))" if "max 1 (nat ?E) < c"
    proof -
      have "c = r" using that by (simp add: c_def split: if_splits)
      then show ?thesis using cb(2) that by simp
    qed
    moreover have "\<forall>b \<in> set (ll_Baselines settings). \<not> cost_below b (nodes ! 0)" if "c = 0"
    proof -
      have "r = 0" using that by (simp add: c_def split: if_splits)
      moreover have "0 < ?e" by simp
      ultimately show ?thesis using cb(3) base(1) by simp
    qed
    ultimately show ?thesis using base(3) by (intro exI [of _ c] conjI impI) simp_all
  qed
qed

text \<open>What \<open>sort.Slice\<close> promises: a permutation in which no later node is less than an earlier one.\<close>

definition sort_ok :: "balEnv \<Rightarrow> bool" where
  "sort_ok env \<longleftrightarrow> (\<forall>nodes. mset (be_sort env nodes) = mset nodes \<and> load_sorted (be_sort env nodes))"

lemma pickOutbounds_correct:
  assumes "wm_ok env wm" "be_Observation env = ObservationResult status"
  obtains wm' where "pickOutbounds env settings candidates wm =
      (Ok (selectLeastLoad settings (be_sort env (map (nodeOf env wm) (filter (qualifies candidates (ll_MaxRTT settings)) status)))), wm')"
    "wm_ok env wm'" "wm_settings wm' = wm_settings wm" "wm_defaultWeight wm' = wm_defaultWeight wm"
proof -
  obtain wm' where "collectNodes env candidates (ll_MaxRTT settings) status wm =
      (map (nodeOf env wm) (filter (qualifies candidates (ll_MaxRTT settings)) status), wm')"
    and ok: "wm_ok env wm'" "wm_settings wm' = wm_settings wm" "wm_defaultWeight wm' = wm_defaultWeight wm"
    by (rule collectNodes_correct [OF assms(1)])
  then show ?thesis using assms(2) by (intro that [OF _ ok]) (simp add: pickOutbounds_def getNodes_def)
qed

lemma sorted_prefix_below:
  assumes "load_sorted nodes" "0 < c" "c \<le> length nodes" "cost_below b (nodes ! (c - 1))"
  shows "\<forall>s \<in> set (take c nodes). cost_below b s"
proof
  fix s assume "s \<in> set (take c nodes)"
  then obtain i where i: "i < c" "s = nodes ! i" using assms(3) by (auto simp: in_set_conv_nth)
  then show "cost_below b s" using load_sorted_le [OF assms(1), of i "c - 1"] assms by force
qed

lemma sorted_head_least:
  assumes "load_sorted nodes" "\<not> cost_below b (nodes ! 0)"
  shows "\<forall>s \<in> set nodes. \<not> cost_below b s"
proof
  fix s assume "s \<in> set nodes"
  then obtain i where "i < length nodes" "s = nodes ! i" by (auto simp: in_set_conv_nth)
  then show "\<not> cost_below b s" using load_sorted_le [OF assms(1), of 0 i] assms(2) by simp
qed

text \<open>
  C22. The least load strategy selects the best of the qualified nodes. When the observatory reports, the
  selection and the rest make up the nodes of the candidates that are alive and within the round-trip bound,
  and no unselected node comes before a selected one in the order of the strategy. At least the expected number
  is selected (or all, when there are fewer); more than expected only when some baseline lies above the cost of all
  selected nodes; and none only if no node qualifies, or if baselines are set, none is expected, and no
  node lies below a baseline. The weights cached by earlier calls do not change the outcome.
\<close>

theorem least_load_selects_best:
  assumes "sort_ok env" "wm_ok env wm" "be_Observation env = ObservationResult status"
    "nodes = map (nodeOf env wm) (filter (qualifies candidates (ll_MaxRTT settings)) status)"
  shows "\<exists>sel rest wm'. pickOutbounds env settings candidates wm = (Ok sel, wm') \<and> wm_ok env wm'
           \<and> mset (sel @ rest) = mset nodes \<and> (\<forall>s \<in> set sel. \<forall>r \<in> set rest. \<not> nodeLess r s)
           \<and> (0 < ll_Expected settings \<longrightarrow> min (nat (ll_Expected settings)) (length nodes) \<le> length sel)
           \<and> (max 1 (nat (ll_Expected settings)) < length sel
                \<longrightarrow> (\<exists>b \<in> set (ll_Baselines settings). \<forall>s \<in> set sel. nd_RTTDeviationCost s < b))
           \<and> (sel = [] \<longrightarrow> nodes = [] \<or> ll_Expected settings \<le> 0 \<and> ll_Baselines settings \<noteq> []
                \<and> (\<forall>b \<in> set (ll_Baselines settings). \<forall>v \<in> set nodes. b \<le> nd_RTTDeviationCost v))"
proof -
  define sn where "sn = be_sort env nodes"
  have perm: "mset sn = mset nodes" and srt: "load_sorted sn" using assms(1) by (simp_all add: sort_ok_def sn_def)
  have len: "length sn = length nodes" and set: "set sn = set nodes" using perm mset_eq_length mset_eq_setD by blast+
  obtain wm' where pick: "pickOutbounds env settings candidates wm = (Ok (selectLeastLoad settings sn), wm')" and ok: "wm_ok env wm'"
    by (rule pickOutbounds_correct [OF assms(2,3), of settings candidates]) (simp add: sn_def assms(4))
  obtain c where c: "selectLeastLoad settings sn = take c sn" "c \<le> length sn"
    "0 < ll_Expected settings \<Longrightarrow> min (nat (ll_Expected settings)) (length sn) \<le> c"
    "max 1 (nat (ll_Expected settings)) < c \<Longrightarrow> \<exists>b \<in> set (ll_Baselines settings). cost_below b (sn ! (c - 1))"
    "c = 0 \<Longrightarrow> sn = [] \<or> ll_Baselines settings \<noteq> [] \<and> (\<forall>b \<in> set (ll_Baselines settings). \<not> cost_below b (sn ! 0))"
    using selectLeastLoad_prefix [OF srt, of settings] by blast
  have "sorted_wrt (\<lambda>a b. \<not> nodeLess b a) (take c sn @ drop c sn)" using srt by (simp add: load_sorted_def)
  then have order: "\<forall>s \<in> set (take c sn). \<forall>r \<in> set (drop c sn). \<not> nodeLess r s" unfolding sorted_wrt_append by blast
  have above: "\<exists>b \<in> set (ll_Baselines settings). \<forall>s \<in> set (take c sn). cost_below b s" if "max 1 (nat (ll_Expected settings)) < c"
    using c(4) [OF that] sorted_prefix_below [OF srt _ c(2)] that by (metis gr0I not_less_zero)
  have none: "nodes = [] \<or> ll_Expected settings \<le> 0 \<and> ll_Baselines settings \<noteq> []
      \<and> (\<forall>b \<in> set (ll_Baselines settings). \<forall>v \<in> set nodes. b \<le> nd_RTTDeviationCost v)" if "take c sn = []"
  proof (cases "nodes = []")
    case False
    then have sn: "sn \<noteq> []" using len by auto
    then have c0: "c = 0" using that by simp
    have "ll_Expected settings \<le> 0"
    proof (rule ccontr)
      assume "\<not> ll_Expected settings \<le> 0"
      then have "min (nat (ll_Expected settings)) (length sn) \<le> 0" using c(3) c0 by simp
      then show False using \<open>\<not> ll_Expected settings \<le> 0\<close> sn by (simp add: min_def split: if_splits)
    qed
    then show ?thesis using c(5) [OF c0] sn sorted_head_least [OF srt] set by (metis linorder_not_less)
  qed simp
  show ?thesis
    using pick ok perm order above none c(2,3) len unfolding c(1)
    by (intro exI [of _ "take c sn"] exI [of _ "drop c sn"] exI [of _ wm']) (simp del: take_eq_Nil)
qed

lemma sample_sort_ok: "sort_ok sample_env"
proof -
  have "load_sorted (sort_key loadKey nodes)" for nodes
    using sorted_sort_key [of loadKey nodes]
    by (auto simp: load_sorted_def sorted_wrt_map nodeLess_key not_less intro: sorted_wrt_mono_rel)
  then show ?thesis by (simp add: sort_ok_def sample_env_def)
qed

theorem least_load_selects_best_witness:
  "sort_ok sample_env \<and> (\<exists>sel wm'. pickOutbounds sample_env \<lparr>ll_Costs = [], ll_Baselines = [], ll_Expected = 1, ll_MaxRTT = 0\<rparr> [''a'', ''b'', ''c'']
      (NewWeightManager [] 1) = (Ok sel, wm') \<and> 1 \<le> length sel)"
proof -
  let ?s = "\<lparr>ll_Costs = [], ll_Baselines = [], ll_Expected = 1, ll_MaxRTT = 0\<rparr>"
  have obs: "be_Observation sample_env = ObservationResult ping_report" by (simp add: sample_env_def)
  have "length (filter (qualifies [''a'', ''b'', ''c''] (ll_MaxRTT ?s)) ping_report) = 2" by (simp add: ping_report_def qualifies_def)
  then show ?thesis
    using sample_sort_ok least_load_selects_best [OF sample_sort_ok NewWeightManager_ok obs refl, of ?s "[''a'', ''b'', ''c'']" "[]" 1]
    by fastforce
qed

section \<open>What a balancer picks\<close>

text \<open>The assumptions about the random number and the sort that the picks rest on.\<close>

definition env_ok :: "balEnv \<Rightarrow> bool" where
  "env_ok env \<longleftrightarrow> (\<forall>n > 0. be_Roll env n < n) \<and> sort_ok env"

lemma collectNodes_tags:
  "collectNodes env candidates maxRTT status wm = (nodes, wm') \<Longrightarrow> nd_Tag ` set nodes \<subseteq> set candidates"
proof (induction status arbitrary: wm nodes wm')
  case (Cons v vs)
  have tag: "nd_Tag (fst (nodeRecord env v wm)) = os_OutboundTag v"
    by (simp add: nodeRecord_def Let_def split: prod.split option.split)
  obtain rec wm1 where r: "nodeRecord env v wm = (rec, wm1)" by fastforce
  obtain ns wm2 where n: "collectNodes env candidates maxRTT vs wm1 = (ns, wm2)" by fastforce
  show ?case
  proof (cases "os_Alive v \<and> (os_Delay v < Milliseconds maxRTT \<or> maxRTT = 0) \<and> os_OutboundTag v \<in> set candidates")
    case True
    then have "nodes = rec # ns" "nd_Tag rec \<in> set candidates" using Cons.prems tag r n by auto
    then show ?thesis using Cons.IH [OF n] by simp
  next
    case False
    then have "collectNodes env candidates maxRTT vs wm = (nodes, wm')"
      using Cons.prems unfolding collectNodes.simps(2) if_not_P [OF False] by simp
    then show ?thesis by (rule Cons.IH)
  qed
qed simp

lemma selectLeastLoad_subset: "set (selectLeastLoad settings nodes) \<subseteq> set nodes"
  by (auto simp: selectLeastLoad_def Let_def dest: in_set_takeD split: if_splits)

lemma pickOutbounds_tags:
  assumes "sort_ok env" "pickOutbounds env settings candidates wm = (Ok sel, wm')"
  shows "nd_Tag ` set sel \<subseteq> set candidates"
proof (cases "be_Observation env")
  case (ObservationResult status)
  obtain nodes wm1 where n: "collectNodes env candidates (ll_MaxRTT settings) status wm = (nodes, wm1)" by fastforce
  then have "sel = selectLeastLoad settings (be_sort env nodes)"
    using assms(2) ObservationResult by (simp add: pickOutbounds_def getNodes_def)
  moreover have "set (be_sort env nodes) = set nodes" using assms(1) mset_eq_setD unfolding sort_ok_def by blast
  ultimately show ?thesis using selectLeastLoad_subset collectNodes_tags [OF n] by blast
qed (use assms(2) in \<open>auto simp: pickOutbounds_def getNodes_def selectLeastLoad_def\<close>)

lemma LeastPing_Pick_candidate: "LeastPing_Pick env candidates \<in> insert [] (set candidates)"
proof (cases "be_Observation env")
  case (ObservationResult status)
  then show ?thesis using pingStep_search [of candidates status] by (auto simp: LeastPing_Pick_foldl pingable_def)
qed (simp_all add: LeastPing_Pick_def)

lemma LeastLoad_Pick_candidate:
  assumes "env_ok env" "LeastLoad_Pick env settings candidates wm = (Ok t, wm')"
  shows "t \<in> insert [] (set candidates)"
proof -
  obtain sel where sel: "pickOutbounds env settings candidates wm = (Ok sel, wm')"
    and t: "t = (if length sel = 0 then [] else nd_Tag (sel ! be_Roll env (length sel)))"
    using assms(2) by (auto simp: LeastLoad_Pick_def Let_def split: prod.splits sum.splits)
  have "nd_Tag ` set sel \<subseteq> set candidates" by (rule pickOutbounds_tags [OF _ sel]) (use assms(1) in \<open>simp add: env_ok_def\<close>)
  moreover have "sel \<noteq> [] \<Longrightarrow> sel ! be_Roll env (length sel) \<in> set sel" using assms(1) by (simp add: env_ok_def)
  ultimately show ?thesis using t by auto
qed

lemma Strategy_Pick_candidate:
  assumes "env_ok env" "Strategy_Pick env s candidates = (Ok t, s')"
  shows "t \<in> insert [] (set candidates)"
proof (cases s)
  case (RandomStrategy f)
  then show ?thesis
    using assms Random_Pick_candidate [of env f candidates] observedTags_subset [of env f candidates] by (auto simp: Strategy_Pick_def env_ok_def)
next
  case (RoundRobinStrategy f i)
  then show ?thesis
    using assms RoundRobin_Pick_candidate [of env f candidates i] observedTags_subset [of env f candidates]
    by (auto simp: Strategy_Pick_def split: prod.splits)
next
  case LeastPingStrategy
  then show ?thesis using assms LeastPing_Pick_candidate [of env candidates] by (auto simp: Strategy_Pick_def)
next
  case (LeastLoadStrategy settings wm)
  then show ?thesis using assms LeastLoad_Pick_candidate by (auto simp: Strategy_Pick_def split: prod.splits)
qed

lemma Strategy_Pick_error:
  "Strategy_Pick env s candidates = (Err e, s') \<Longrightarrow> be_Observation env = OtherReport"
  by (cases "be_Observation env")
    (auto simp: Strategy_Pick_def LeastLoad_Pick_def pickOutbounds_def getNodes_def Let_def split: Strategy.splits prod.splits sum.splits)

lemma Balancer_Pick_target:
  assumes "env_ok env" "be_Select env (ba_selectors b) = Ok candidates" "be_Observation env \<noteq> OtherReport"
  shows "case fst (Balancer_Pick env b) of
           Inr t \<Rightarrow> t \<noteq> [] \<and> (if ba_override b \<noteq> [] then t = ba_override b else t \<in> set candidates \<or> t = ba_fallbackTag b)
         | Inl e \<Rightarrow> ba_override b = [] \<and> ba_fallbackTag b = []"
proof (cases "ba_override b = []")
  case False
  then show ?thesis using assms by (simp add: Balancer_Pick_def Let_def)
next
  case True
  obtain r s where p: "Strategy_Pick env (ba_strategy b) candidates = (r, s)" by fastforce
  then obtain t where t: "r = Ok t" using Strategy_Pick_error assms(3) by (cases r) blast+
  have "t \<in> insert [] (set candidates)" using Strategy_Pick_candidate [OF assms(1)] p t by simp
  then show ?thesis using True p t assms(2) by (auto simp: Balancer_Pick_def Let_def)
qed

lemma Balancer_Pick_frame:
  "ba_override (snd (Balancer_Pick env b)) = ba_override b" "ba_selectors (snd (Balancer_Pick env b)) = ba_selectors b"
  "ba_fallbackTag (snd (Balancer_Pick env b)) = ba_fallbackTag b"
  by (simp_all add: Balancer_Pick_def Let_def split: sum.split prod.split)

end
