(* ===== verification/Router.thy ===== *)
theory Router
  imports Router_Condition Router_Balancer
begin

text \<open>
  The router: \<open>app/router/router.go\<close>, the rules of \<open>config.go\<close> and the balancer interfaces of \<open>balancing.go\<close>
  and \<open>balancing_override.go\<close>.

  Rules and the table of balancers share balancers by pointer, so these live in a heap \<open>ro_heap\<close> and are
  named by their index there. The cache of IP sets, a global of the package, is the field \<open>ro_shared\<close>.
  An operation returns its error together with the router, since several of them change it before they fail.
\<close>

section \<open>Model\<close>

record 's Rule =
  ru_Tag :: string
  ru_RuleTag :: string
  ru_Balancer :: "nat option"
  ru_Condition :: "'s Condition list"

datatype DomainStrategy = Config_AsIs | Config_IpIfNonMatch | Config_IpOnDemand

record Config =
  cfg_DomainStrategy :: DomainStrategy
  cfg_Rule :: "RoutingRule list"
  cfg_BalancingRule :: "BalancingRule list"

record 's Router =
  ro_domainStrategy :: DomainStrategy
  ro_rules :: "'s Rule list"
  ro_balancers :: "(string \<times> nat) list"
  ro_heap :: "Balancer list"
  ro_shared :: "'s shared"

record Route =
  rt_Context :: Context
  rt_outboundTag :: string
  rt_ruleTag :: string

abbreviation ErrNoClue :: goerror where
  "ErrNoClue \<equiv> ErrMsg ''not enough information for making a decision''"

definition GetTag :: "RoutingRule \<Rightarrow> string" where
  "GetTag rr = (case rr_TargetTag rr of RoutingRule_Tag t \<Rightarrow> t | _ \<Rightarrow> [])"

definition GetBalancingTag :: "RoutingRule \<Rightarrow> string" where
  "GetBalancingTag rr = (case rr_TargetTag rr of RoutingRule_BalancingTag t \<Rightarrow> t | _ \<Rightarrow> [])"

text \<open>A balancer is allocated and entered in the table.\<close>

definition putBalancer :: "string \<Rightarrow> Balancer \<Rightarrow> 's Router \<Rightarrow> 's Router" where
  "putBalancer tag b r = r\<lparr>ro_balancers := AList.update tag (length (ro_heap r)) (ro_balancers r), ro_heap := ro_heap r @ [b]\<rparr>"

fun initBalancers :: "'s env \<Rightarrow> BalancingRule list \<Rightarrow> 's Router \<Rightarrow> 's Router \<times> goerror option" where
  "initBalancers env [] r = (r, None)"
| "initBalancers env (rule # rules) r =
     (case BalancingRule_Build (env_toLower env) rule of
        Inl e \<Rightarrow> (r, Some e)
      | Inr b \<Rightarrow> initBalancers env rules (putBalancer (br_Tag rule) b r))"

text \<open>The rule built from its configuration, appended to the rules.\<close>

definition appendRule :: "'s env \<Rightarrow> RoutingRule \<Rightarrow> 's Router \<Rightarrow> ('s Router \<times> goerror option) option" where
  "appendRule env rule r =
     (case BuildCondition env rule (ro_shared r) of
        None \<Rightarrow> None
      | Some (Inl e, shared) \<Rightarrow> Some (r\<lparr>ro_shared := shared\<rparr>, Some e)
      | Some (Inr cond, shared) \<Rightarrow>
          (let r1 = r\<lparr>ro_shared := shared\<rparr>;
               rr = \<lparr>ru_Tag = GetTag rule, ru_RuleTag = rr_RuleTag rule, ru_Balancer = None, ru_Condition = cond\<rparr>;
               btag = GetBalancingTag rule in
           if length btag > 0 then
             (case map_of (ro_balancers r1) btag of
                None \<Rightarrow> Some (r1, Some (ErrMsg ''balancer not found''))
              | Some i \<Rightarrow> Some (r1\<lparr>ro_rules := ro_rules r1 @ [rr\<lparr>ru_Balancer := Some i\<rparr>]\<rparr>, None))
           else Some (r1\<lparr>ro_rules := ro_rules r1 @ [rr]\<rparr>, None)))"

fun initRules :: "'s env \<Rightarrow> RoutingRule list \<Rightarrow> 's Router \<Rightarrow> ('s Router \<times> goerror option) option" where
  "initRules env [] r = Some (r, None)"
| "initRules env (rule # rules) r =
     (case appendRule env rule r of
        None \<Rightarrow> None
      | Some (r', Some e) \<Rightarrow> Some (r', Some e)
      | Some (r', None) \<Rightarrow> initRules env rules r')"

definition Init :: "'s env \<Rightarrow> Config \<Rightarrow> 's shared \<Rightarrow> ('s Router \<times> goerror option) option" where
  "Init env config shared =
     (let r = \<lparr>ro_domainStrategy = cfg_DomainStrategy config, ro_rules = [], ro_balancers = [], ro_heap = [], ro_shared = shared\<rparr> in
      case initBalancers env (cfg_BalancingRule config) r of
        (r', Some e) \<Rightarrow> Some (r', Some e)
      | (r', None) \<Rightarrow> initRules env (cfg_Rule config) r')"

definition RuleExists :: "string \<Rightarrow> 's Router \<Rightarrow> bool" where
  "RuleExists tag r \<longleftrightarrow> tag \<noteq> [] \<and> list_ex (\<lambda>rule. ru_RuleTag rule = tag) (ro_rules r)"

fun reloadBalancers :: "'s env \<Rightarrow> BalancingRule list \<Rightarrow> 's Router \<Rightarrow> 's Router \<times> goerror option" where
  "reloadBalancers env [] r = (r, None)"
| "reloadBalancers env (rule # rules) r =
     (if map_of (ro_balancers r) (br_Tag rule) \<noteq> None then (r, Some (ErrMsg ''duplicate balancer tag''))
      else case BalancingRule_Build (env_toLower env) rule of
        Inl e \<Rightarrow> (r, Some e)
      | Inr b \<Rightarrow> reloadBalancers env rules (putBalancer (br_Tag rule) b r))"

fun reloadRules :: "'s env \<Rightarrow> RoutingRule list \<Rightarrow> 's Router \<Rightarrow> ('s Router \<times> goerror option) option" where
  "reloadRules env [] r = Some (r, None)"
| "reloadRules env (rule # rules) r =
     (if RuleExists (rr_RuleTag rule) r then Some (r, Some (ErrMsg ''duplicate ruleTag''))
      else case appendRule env rule r of
        None \<Rightarrow> None
      | Some (r', Some e) \<Rightarrow> Some (r', Some e)
      | Some (r', None) \<Rightarrow> reloadRules env rules r')"

definition ReloadRules :: "'s env \<Rightarrow> Config \<Rightarrow> bool \<Rightarrow> 's Router \<Rightarrow> ('s Router \<times> goerror option) option" where
  "ReloadRules env config shouldAppend r =
     (let r0 = (if \<not> shouldAppend then r\<lparr>ro_balancers := [], ro_rules := []\<rparr> else r) in
      case reloadBalancers env (cfg_BalancingRule config) r0 of
        (r1, Some e) \<Rightarrow> Some (r1, Some e)
      | (r1, None) \<Rightarrow> reloadRules env (cfg_Rule config) r1)"

datatype TypedMessage = RouterConfig Config | OtherMessage

definition AddRule :: "'s env \<Rightarrow> TypedMessage result \<Rightarrow> bool \<Rightarrow> 's Router \<Rightarrow> ('s Router \<times> goerror option) option" where
  "AddRule env config shouldAppend r =
     (case config of
        Inl e \<Rightarrow> Some (r, Some e)
      | Inr (RouterConfig c) \<Rightarrow> ReloadRules env c shouldAppend r
      | Inr OtherMessage \<Rightarrow> Some (r, Some (ErrMsg ''AddRule: config type error'')))"

definition RemoveRule :: "string \<Rightarrow> 's Router \<Rightarrow> 's Router \<times> goerror option" where
  "RemoveRule tag r =
     (if tag \<noteq> [] then (r\<lparr>ro_rules := filter (\<lambda>rule. ru_RuleTag rule \<noteq> tag) (ro_rules r)\<rparr>, None)
      else (r, Some (ErrMsg ''empty tag name!'')))"

text \<open>The loop over the rules: the first that applies, with the context as the conditions left it.\<close>

fun applyRules :: "'s env \<Rightarrow> 's Rule list \<Rightarrow> Context \<Rightarrow> ('s Rule option \<times> Context) result" where
  "applyRules env [] ctx = Ok (None, ctx)"
| "applyRules env (rule # rules) ctx =
     (case Chan_Apply env (ru_Condition rule) ctx of
        Inl e \<Rightarrow> Err e
      | Inr (True, ctx') \<Rightarrow> Ok (Some rule, ctx')
      | Inr (False, ctx') \<Rightarrow> applyRules env rules ctx')"

definition pickRouteInternal :: "'s env \<Rightarrow> 's Router \<Rightarrow> Context \<Rightarrow> ('s Rule \<times> Context) result" where
  "pickRouteInternal env r ctx =
     (let skipDNSResolve = sc_GetSkipDNSResolve (session_of ctx);
          ctx0 = (if ro_domainStrategy r = Config_IpOnDemand \<and> \<not> skipDNSResolve then ContextWithDNSClient ctx else ctx) in
      case applyRules env (ro_rules r) ctx0 of
        Inl e \<Rightarrow> Err e
      | Inr (Some rule, ctx1) \<Rightarrow> Ok (rule, ctx1)
      | Inr (None, ctx1) \<Rightarrow>
          if ro_domainStrategy r \<noteq> Config_IpIfNonMatch \<or> length (sc_GetTargetDomain (session_of ctx1)) = 0 \<or> skipDNSResolve
          then Err ErrNoClue
          else case applyRules env (ro_rules r) (ContextWithDNSClient ctx1) of
            Inl e \<Rightarrow> Err e
          | Inr (Some rule, ctx2) \<Rightarrow> Ok (rule, ctx2)
          | Inr (None, ctx2) \<Rightarrow> Err ErrNoClue)"

definition Rule_GetTag :: "balEnv \<Rightarrow> 's Rule \<Rightarrow> 's Router \<Rightarrow> string result \<times> 's Router" where
  "Rule_GetTag benv rule r =
     (case ru_Balancer rule of
        None \<Rightarrow> (Ok (ru_Tag rule), r)
      | Some i \<Rightarrow>
          if i < length (ro_heap r) then
            (let (res, b) = Balancer_Pick benv (ro_heap r ! i) in (res, r\<lparr>ro_heap := (ro_heap r)[i := b]\<rparr>))
          else (Err (Panic ''nil pointer dereference''), r))"

definition PickRoute :: "'s env \<Rightarrow> balEnv \<Rightarrow> 's Router \<Rightarrow> Context \<Rightarrow> Route result \<times> 's Router" where
  "PickRoute env benv r ctx =
     (case pickRouteInternal env r ctx of
        Inl e \<Rightarrow> (Err e, r)
      | Inr (rule, ctx') \<Rightarrow>
          (case Rule_GetTag benv rule r of
             (Inl e, r') \<Rightarrow> (Err e, r')
           | (Inr tag, r') \<Rightarrow> (Ok \<lparr>rt_Context = ctx', rt_outboundTag = tag, rt_ruleTag = ru_RuleTag rule\<rparr>, r')))"

section \<open>Balancers of a router\<close>

text \<open>The balancer of a tag; the indices in the table are always within the heap (see the invariant below).\<close>

definition balancer_at :: "string \<Rightarrow> 's Router \<Rightarrow> nat option" where
  "balancer_at tag r = (case map_of (ro_balancers r) tag of Some i \<Rightarrow> if i < length (ro_heap r) then Some i else None | None \<Rightarrow> None)"

definition GetPrincipleTarget :: "balEnv \<Rightarrow> string \<Rightarrow> 's Router \<Rightarrow> string list result \<times> 's Router" where
  "GetPrincipleTarget benv tag r =
     (case balancer_at tag r of
        None \<Rightarrow> (Err (ErrMsg ''cannot find tag''), r)
      | Some i \<Rightarrow>
          (let b = ro_heap r ! i in
           case be_Select benv (ba_selectors b) of
             Inl e \<Rightarrow> (Err (ErrMsg ''unable to select outbounds''), r)
           | Inr candidates \<Rightarrow>
               (let (res, s) = Strategy_Principle benv (ba_strategy b) candidates in
                (res, r\<lparr>ro_heap := (ro_heap r)[i := b\<lparr>ba_strategy := s\<rparr>]\<rparr>))))"

definition SetOverrideTarget :: "string \<Rightarrow> string \<Rightarrow> 's Router \<Rightarrow> 's Router \<times> goerror option" where
  "SetOverrideTarget tag target r =
     (case balancer_at tag r of
        None \<Rightarrow> (r, Some (ErrMsg ''cannot find tag''))
      | Some i \<Rightarrow> (r\<lparr>ro_heap := (ro_heap r)[i := override_Put target (ro_heap r ! i)]\<rparr>, None))"

definition GetOverrideTarget :: "string \<Rightarrow> 's Router \<Rightarrow> string result" where
  "GetOverrideTarget tag r =
     (case balancer_at tag r of None \<Rightarrow> Err (ErrMsg ''cannot find tag'') | Some i \<Rightarrow> Ok (ba_override (ro_heap r ! i)))"

definition OverrideBalancer :: "string \<Rightarrow> string \<Rightarrow> 's Router \<Rightarrow> 's Router \<times> goerror option" where
  "OverrideBalancer balancer target r =
     (case balancer_at balancer r of
        None \<Rightarrow> (r, Some (ErrMsg ''balancer not found''))
      | Some i \<Rightarrow> (r\<lparr>ro_heap := (ro_heap r)[i := override_Put target (ro_heap r ! i)]\<rparr>, None))"

section \<open>The first rule that holds\<close>

definition rule_safe :: "'s env \<Rightarrow> sessionContext \<Rightarrow> 's Rule \<Rightarrow> bool" where
  "rule_safe env s rule \<longleftrightarrow> (\<forall>c \<in> set (ru_Condition rule). cond_safe env s c)"

definition conds_hold :: "'s env \<Rightarrow> sessionContext \<Rightarrow> bytes list \<Rightarrow> 's Rule \<Rightarrow> bool" where
  "conds_hold env s ips rule \<longleftrightarrow> list_all (cond_holds env s ips) (ru_Condition rule)"

lemma applyRules_first:
  assumes "\<forall>rule \<in> set rules. rule_safe env (session_of ctx) rule"
  shows "\<exists>ctx'. applyRules env rules ctx = Ok (find (conds_hold env (session_of ctx) (target_ips env ctx)) rules, ctx') \<and> same_context env ctx' ctx"
  using assms
proof (induction rules arbitrary: ctx)
  case (Cons rule rules)
  have "\<forall>c \<in> set (ru_Condition rule). cond_safe env (session_of ctx) c" using Cons.prems by (simp add: rule_safe_def)
  then obtain ctx1 where a: "Chan_Apply env (ru_Condition rule) ctx = Ok (conds_hold env (session_of ctx) (target_ips env ctx) rule, ctx1)"
    and s: "same_context env ctx1 ctx"
    using Chan_Apply_holds unfolding conds_hold_def by blast
  show ?case
  proof (cases "conds_hold env (session_of ctx) (target_ips env ctx) rule")
    case True
    then show ?thesis using a s by simp
  next
    case False
    have "\<forall>rule \<in> set rules. rule_safe env (session_of ctx1) rule" using s Cons.prems by (simp add: same_context_def)
    from Cons.IH [OF this] obtain ctx2 where "applyRules env rules ctx1 =
        Ok (find (conds_hold env (session_of ctx1) (target_ips env ctx1)) rules, ctx2)" "same_context env ctx2 ctx1" by blast
    then show ?thesis using False a s same_context_trans [of env ctx2 ctx1 ctx] by (auto simp: same_context_def)
  qed
qed simp

text \<open>The search over any list whose elements hold or not for given target addresses, under a domain strategy.\<close>

definition first_ips :: "'s env \<Rightarrow> DomainStrategy \<Rightarrow> sessionContext \<Rightarrow> bytes list" where
  "first_ips env strategy s =
     (if strategy = Config_IpOnDemand \<and> \<not> sc_GetSkipDNSResolve s then resolved_ips env s else sc_GetTargetIPs s)"

definition search_rules :: "'s env \<Rightarrow> DomainStrategy \<Rightarrow> sessionContext \<Rightarrow> (bytes list \<Rightarrow> 'r \<Rightarrow> bool) \<Rightarrow> 'r list \<Rightarrow> 'r option" where
  "search_rules env strategy s holds rules =
     (case find (holds (first_ips env strategy s)) rules of
        Some rule \<Rightarrow> Some rule
      | None \<Rightarrow> if strategy = Config_IpIfNonMatch \<and> sc_GetTargetDomain s \<noteq> [] \<and> \<not> sc_GetSkipDNSResolve s
                then find (holds (resolved_ips env s)) rules else None)"

lemma pickRouteInternal_search:
  assumes safe: "\<forall>rule \<in> set (ro_rules r). rule_safe env s rule"
  shows "case search_rules env (ro_domainStrategy r) s (conds_hold env s) (ro_rules r) of
           None \<Rightarrow> pickRouteInternal env r (SessionContext s) = Err ErrNoClue
         | Some rule \<Rightarrow> \<exists>ctx. pickRouteInternal env r (SessionContext s) = Ok (rule, ctx) \<and> session_of ctx = s"
proof -
  let ?skip = "sc_GetSkipDNSResolve s"
  define ctx0 where "ctx0 = (if ro_domainStrategy r = Config_IpOnDemand \<and> \<not> ?skip then ContextWithDNSClient (SessionContext s) else SessionContext s)"
  have s0: "session_of ctx0 = s" by (simp add: ctx0_def)
  have "target_ips env (ContextWithDNSClient (SessionContext s)) = resolved_ips env s" by (rule target_ips_dns) simp_all
  then have i0: "target_ips env ctx0 = first_ips env (ro_domainStrategy r) s" by (simp add: ctx0_def first_ips_def)
  obtain ctx1 where a1: "applyRules env (ro_rules r) ctx0 = Ok (find (conds_hold env s (first_ips env (ro_domainStrategy r) s)) (ro_rules r), ctx1)"
    and same: "same_context env ctx1 ctx0"
    using applyRules_first [of "ro_rules r" env ctx0] safe s0 i0 by auto
  have run: "pickRouteInternal env r (SessionContext s) =
      (case applyRules env (ro_rules r) ctx0 of
         Inl e \<Rightarrow> Err e
       | Inr (Some rule, ctx1) \<Rightarrow> Ok (rule, ctx1)
       | Inr (None, ctx1) \<Rightarrow>
           if ro_domainStrategy r \<noteq> Config_IpIfNonMatch \<or> length (sc_GetTargetDomain (session_of ctx1)) = 0 \<or> ?skip
           then Err ErrNoClue
           else case applyRules env (ro_rules r) (ContextWithDNSClient ctx1) of
             Inl e \<Rightarrow> Err e
           | Inr (Some rule, ctx2) \<Rightarrow> Ok (rule, ctx2)
           | Inr (None, ctx2) \<Rightarrow> Err ErrNoClue)"
    by (simp add: pickRouteInternal_def ctx0_def Let_def)
  have s1: "session_of ctx1 = s" using same s0 by (simp add: same_context_def)
  show ?thesis
  proof (cases "find (conds_hold env s (first_ips env (ro_domainStrategy r) s)) (ro_rules r)")
    case (Some rule)
    then show ?thesis using a1 s1 by (simp add: search_rules_def run)
  next
    case none: None
    show ?thesis
    proof (cases "ro_domainStrategy r = Config_IpIfNonMatch \<and> sc_GetTargetDomain s \<noteq> [] \<and> \<not> ?skip")
      case False
      then show ?thesis using none a1 s1 by (auto simp: search_rules_def run)
    next
      case True
      then have "target_ips env ctx1 = sc_GetTargetIPs s" using same i0 by (simp add: same_context_def first_ips_def)
      then have i2: "target_ips env (ContextWithDNSClient ctx1) = resolved_ips env s" using s1 by (intro target_ips_dns)
      obtain ctx2 where a2: "applyRules env (ro_rules r) (ContextWithDNSClient ctx1) = Ok (find (conds_hold env s (resolved_ips env s)) (ro_rules r), ctx2)"
        and same2: "same_context env ctx2 (ContextWithDNSClient ctx1)"
        using applyRules_first [of "ro_rules r" env "ContextWithDNSClient ctx1"] safe s1 i2 by auto
      have "session_of ctx2 = s" using same2 s1 by (simp add: same_context_def)
      then show ?thesis using True none a1 a2 s1 unfolding search_rules_def run
        by (cases "find (conds_hold env s (resolved_ips env s)) (ro_rules r)") simp_all
    qed
  qed
qed

section \<open>From the configuration to the rules\<close>

type_synonym rule_data = "RoutingRule \<times> domain_item list"

definition data_holds :: "'s env \<Rightarrow> geodata \<Rightarrow> sessionContext \<Rightarrow> bytes list \<Rightarrow> rule_data \<Rightarrow> bool" where
  "data_holds env gd s ips = (\<lambda>(rr, items). rule_holds env gd rr items s ips)"

definition data_ready :: "'s env \<Rightarrow> geodata \<Rightarrow> sessionContext \<Rightarrow> rule_data \<Rightarrow> bool" where
  "data_ready env gd s = (\<lambda>(rr, items). rule_ready env gd rr items s \<and> has_fields rr)"

text \<open>A rule of the router that stands for a rule of the configuration.\<close>

definition stands_for :: "'s env \<Rightarrow> geodata \<Rightarrow> sessionContext \<Rightarrow> (string \<times> nat) list \<Rightarrow> rule_data \<Rightarrow> 's Rule \<Rightarrow> bool" where
  "stands_for env gd s bals = (\<lambda>(rr, items) rule.
     ru_Tag rule = GetTag rr \<and> ru_RuleTag rule = rr_RuleTag rr \<and> rule_safe env s rule
     \<and> (if GetBalancingTag rr = [] then ru_Balancer rule = None
        else \<exists>i. map_of bals (GetBalancingTag rr) = Some i \<and> ru_Balancer rule = Some i)
     \<and> (\<forall>ips. conds_hold env s ips rule \<longleftrightarrow> rule_holds env gd rr items s ips))"

lemma appendRule_built:
  assumes wf: "env_wf env" and sh: "cache_ok (env_netipx env) (gd_ip gd) (ro_shared r)" and ready: "data_ready env gd s (rr, items)"
    and app: "appendRule env rr r = Some (r', None)"
  shows "\<exists>rule. ro_rules r' = ro_rules r @ [rule] \<and> stands_for env gd s (ro_balancers r) (rr, items) rule
           \<and> cache_ok (env_netipx env) (gd_ip gd) (ro_shared r') \<and> ro_balancers r' = ro_balancers r \<and> ro_heap r' = ro_heap r
           \<and> ro_domainStrategy r' = ro_domainStrategy r"
proof -
  have ready': "rule_ready env gd rr items s" "has_fields rr" using ready by (simp_all add: data_ready_def)
  have "BuildCondition env rr (ro_shared r) \<noteq> None"
  proof
    assume "BuildCondition env rr (ro_shared r) = None"
    then show False using app by (simp add: appendRule_def)
  qed
  with BuildCondition_exact [OF wf sh ready'] obtain conds shared' where b: "BuildCondition env rr (ro_shared r) = Some (Ok conds, shared')" "cache_ok (env_netipx env) (gd_ip gd) shared'"
    and safe: "\<forall>c \<in> set conds. cond_safe env s c"
    and holds: "\<forall>ips. list_all (cond_holds env s ips) conds \<longleftrightarrow> rule_holds env gd rr items s ips"
    by (elim disjE exE conjE) simp_all
  define rule where "rule = \<lparr>ru_Tag = GetTag rr, ru_RuleTag = rr_RuleTag rr,
    ru_Balancer = (if GetBalancingTag rr = [] then None else map_of (ro_balancers r) (GetBalancingTag rr)), ru_Condition = conds\<rparr>"
  have "r' = r\<lparr>ro_shared := shared', ro_rules := ro_rules r @ [rule]\<rparr>"
    and bal: "GetBalancingTag rr = [] \<or> map_of (ro_balancers r) (GetBalancingTag rr) \<noteq> None"
    using app b(1) by (auto simp: appendRule_def Let_def rule_def split: if_splits option.splits)
  moreover have "stands_for env gd s (ro_balancers r) (rr, items) rule"
    using bal safe holds by (auto simp: stands_for_def rule_safe_def conds_hold_def rule_def)
  ultimately show ?thesis using b(2) by (intro exI [of _ rule]) simp
qed

lemma initRules_built:
  assumes wf: "env_wf env" and "cache_ok (env_netipx env) (gd_ip gd) (ro_shared r)" "\<forall>x \<in> set dat. data_ready env gd s x"
    "initRules env (map fst dat) r = Some (r', None)"
  shows "\<exists>new. ro_rules r' = ro_rules r @ new \<and> list_all2 (stands_for env gd s (ro_balancers r)) dat new
           \<and> ro_balancers r' = ro_balancers r \<and> ro_heap r' = ro_heap r \<and> ro_domainStrategy r' = ro_domainStrategy r"
  using assms(2-4)
proof (induction dat arbitrary: r)
  case (Cons x dat)
  obtain rr items where x: "x = (rr, items)" by (cases x)
  obtain r1 where r1: "appendRule env rr r = Some (r1, None)" "initRules env (map fst dat) r1 = Some (r', None)"
    using Cons.prems(3) x by (auto split: option.splits prod.splits)
  have ready: "data_ready env gd s (rr, items)" using Cons.prems(2) x by simp
  obtain rule where rule: "ro_rules r1 = ro_rules r @ [rule]" "stands_for env gd s (ro_balancers r) (rr, items) rule"
    "cache_ok (env_netipx env) (gd_ip gd) (ro_shared r1)" "ro_balancers r1 = ro_balancers r" "ro_heap r1 = ro_heap r" "ro_domainStrategy r1 = ro_domainStrategy r"
    using appendRule_built [OF wf Cons.prems(1) ready r1(1)] by blast
  obtain new where "ro_rules r' = ro_rules r1 @ new" "list_all2 (stands_for env gd s (ro_balancers r1)) dat new"
    "ro_balancers r' = ro_balancers r1" "ro_heap r' = ro_heap r1" "ro_domainStrategy r' = ro_domainStrategy r1"
    using Cons.IH [OF rule(3) _ r1(2)] Cons.prems(2) by auto
  then show ?case using rule x by (intro exI [of _ "rule # new"]) simp
qed simp

lemma find_all2:
  assumes "list_all2 R xs ys" "\<And>x y. R x y \<Longrightarrow> P x = Q y"
  shows "rel_option R (find P xs) (find Q ys)"
  using assms(1) by induction (auto dest: assms(2))

lemma search_rules_all2:
  assumes "list_all2 (stands_for env gd s bals) dat rules"
  shows "rel_option (stands_for env gd s bals) (search_rules env strategy s (data_holds env gd s) dat) (search_rules env strategy s (conds_hold env s) rules)"
proof -
  have "rel_option (stands_for env gd s bals) (find (data_holds env gd s ips) dat) (find (conds_hold env s ips) rules)" for ips
    by (rule find_all2 [OF assms]) (auto simp: stands_for_def data_holds_def)
  note f = this [of "first_ips env strategy s"] this [of "resolved_ips env s"]
  show ?thesis
    using f by (cases rule: option.rel_cases [OF f(1)]) (auto simp: search_rules_def)
qed

section \<open>The table of balancers\<close>

text \<open>The table and the rules point into the heap.\<close>

definition router_inv :: "'s Router \<Rightarrow> bool" where
  "router_inv r \<longleftrightarrow> (\<forall>(tag, i) \<in> set (ro_balancers r). i < length (ro_heap r))
     \<and> (\<forall>rule \<in> set (ro_rules r). \<forall>i. ru_Balancer rule = Some i \<longrightarrow> i < length (ro_heap r))"

lemma update_set: "set (AList.update k v xs) \<subseteq> insert (k, v) (set xs)"
  by (induction xs) auto

lemma putBalancer_inv: "router_inv r \<Longrightarrow> router_inv (putBalancer tag b r)"
  using update_set [of tag "length (ro_heap r)" "ro_balancers r"] by (fastforce simp: router_inv_def putBalancer_def)

lemma putBalancer_frame [simp]:
  "ro_rules (putBalancer tag b r) = ro_rules r" "ro_shared (putBalancer tag b r) = ro_shared r"
  "ro_domainStrategy (putBalancer tag b r) = ro_domainStrategy r"
  by (simp_all add: putBalancer_def)

lemma initBalancers_frame:
  "initBalancers env bs r = (r', e) \<Longrightarrow> router_inv r \<Longrightarrow>
     router_inv r' \<and> ro_rules r' = ro_rules r \<and> ro_shared r' = ro_shared r \<and> ro_domainStrategy r' = ro_domainStrategy r"
proof (induction bs arbitrary: r)
  case (Cons b bs)
  show ?case
  proof (cases "BalancingRule_Build (env_toLower env) b")
    case (Inl x)
    then show ?thesis using Cons.prems by simp
  next
    case (Inr bl)
    then show ?thesis using Cons.prems(1) Cons.IH [of "putBalancer (br_Tag b) bl r"] putBalancer_inv [OF Cons.prems(2)] by simp
  qed
qed simp

lemma reloadBalancers_frame:
  "reloadBalancers env bs r = (r', e) \<Longrightarrow> router_inv r \<Longrightarrow>
     router_inv r' \<and> ro_rules r' = ro_rules r \<and> ro_shared r' = ro_shared r \<and> ro_domainStrategy r' = ro_domainStrategy r"
proof (induction bs arbitrary: r)
  case (Cons b bs)
  show ?case
  proof (cases "map_of (ro_balancers r) (br_Tag b) = None \<and> (\<exists>bl. BalancingRule_Build (env_toLower env) b = Ok bl)")
    case False
    then show ?thesis using Cons.prems by (auto split: if_splits sum.splits)
  next
    case True
    then obtain bl where "BalancingRule_Build (env_toLower env) b = Ok bl" by blast
    then show ?thesis using True Cons.prems(1) Cons.IH [of "putBalancer (br_Tag b) bl r"] putBalancer_inv [OF Cons.prems(2)] by simp
  qed
qed simp

lemma appendRule_inv:
  assumes "appendRule env rr r = Some (r', e)" "router_inv r"
  shows "router_inv r'"
  using assms map_of_SomeD [of "ro_balancers r" "GetBalancingTag rr"]
  by (auto simp: appendRule_def router_inv_def Let_def split: option.splits prod.splits sum.splits if_splits)

lemma initRules_inv: "initRules env rules r = Some (r', e) \<Longrightarrow> router_inv r \<Longrightarrow> router_inv r'"
proof (induction rules arbitrary: r)
  case (Cons rule rules)
  from Cons.prems(1) obtain r1 e1 where a: "appendRule env rule r = Some (r1, e1)"
    by (cases "appendRule env rule r") auto
  then show ?case using Cons.prems Cons.IH [of r1] appendRule_inv [OF a Cons.prems(2)] by (cases e1) auto
qed simp

lemma reloadRules_inv: "reloadRules env rules r = Some (r', e) \<Longrightarrow> router_inv r \<Longrightarrow> router_inv r'"
proof (induction rules arbitrary: r)
  case (Cons rule rules)
  show ?case
  proof (cases "RuleExists (rr_RuleTag rule) r")
    case True
    then show ?thesis using Cons.prems by simp
  next
    case False
    then obtain r1 e1 where a: "appendRule env rule r = Some (r1, e1)" using Cons.prems(1) by (cases "appendRule env rule r") auto
    then show ?thesis using False Cons.prems Cons.IH [of r1] appendRule_inv [OF a Cons.prems(2)] by (cases e1) auto
  qed
qed simp

lemma Init_inv: "Init env config shared = Some (r, e) \<Longrightarrow> router_inv r"
proof -
  let ?r = "\<lparr>ro_domainStrategy = cfg_DomainStrategy config, ro_rules = [], ro_balancers = [], ro_heap = [], ro_shared = shared\<rparr>"
  assume i: "Init env config shared = Some (r, e)"
  obtain r1 e1 where b: "initBalancers env (cfg_BalancingRule config) ?r = (r1, e1)" by fastforce
  have "router_inv ?r" by (simp add: router_inv_def)
  then have "router_inv r1" using initBalancers_frame [OF b] by simp
  then show ?thesis using i b initRules_inv by (cases e1) (auto simp: Init_def)
qed

lemma ReloadRules_inv: "ReloadRules env config shouldAppend r = Some (r', e) \<Longrightarrow> router_inv r \<Longrightarrow> router_inv r'"
proof -
  let ?r = "if \<not> shouldAppend then r\<lparr>ro_balancers := [], ro_rules := []\<rparr> else r"
  assume i: "ReloadRules env config shouldAppend r = Some (r', e)" and inv: "router_inv r"
  obtain r1 e1 where b: "reloadBalancers env (cfg_BalancingRule config) ?r = (r1, e1)" by fastforce
  have "router_inv ?r" using inv by (simp add: router_inv_def)
  then have "router_inv r1" using reloadBalancers_frame [OF b] by simp
  then show ?thesis using i b reloadRules_inv by (cases e1) (auto simp: ReloadRules_def Let_def)
qed

section \<open>Properties\<close>

text \<open>
  C6. Routing follows the configuration. Take a router that \<open>Init\<close> built without error, and a session about which every rule
  of the configuration can be asked: networks in range, geodata entries held by the files, no reverse
  match of coded target entries on systems that read the files, compiling attribute patterns, domain patterns
  without nested keywords or leading dots, plain lower-case keywords and target domain, IPv4 sources for rules on processes. The route of the session is decided by the first
  rule of the configuration all of whose fields are satisfied, judged by the addresses and domains that
  the geodata hold, with the target addresses that the domain strategy prescribes: those of the target itself; those its domain
  resolves to for \<open>IpOnDemand\<close>; and for \<open>IpIfNonMatch\<close> first the former and, when no rule matched, the latter. The
  route carries that rule's outbound tag, or the tag its balancer picks. Without such a rule the router reports
  that it has no clue.
\<close>

theorem routing_follows_configuration:
  assumes "env_wf env" "cache_ok (env_netipx env) (gd_ip gd) shared" "Init env config shared = Some (r, None)"
    "cfg_Rule config = map fst dat" "\<forall>x \<in> set dat. data_ready env gd s x"
  shows "case search_rules env (cfg_DomainStrategy config) s (data_holds env gd s) dat of
      None \<Rightarrow> PickRoute env benv r (SessionContext s) = (Err ErrNoClue, r)
    | Some (rr, items) \<Rightarrow>
        if GetBalancingTag rr = [] then
          \<exists>ctx. PickRoute env benv r (SessionContext s) =
            (Ok \<lparr>rt_Context = ctx, rt_outboundTag = GetTag rr, rt_ruleTag = rr_RuleTag rr\<rparr>, r) \<and> session_of ctx = s
        else \<exists>i. map_of (ro_balancers r) (GetBalancingTag rr) = Some i \<and> i < length (ro_heap r)
          \<and> map_sum id rt_outboundTag (fst (PickRoute env benv r (SessionContext s))) = fst (Balancer_Pick benv (ro_heap r ! i))"
proof -
  let ?r = "\<lparr>ro_domainStrategy = cfg_DomainStrategy config, ro_rules = [], ro_balancers = [], ro_heap = [], ro_shared = shared\<rparr>"
  obtain r1 e1 where b: "initBalancers env (cfg_BalancingRule config) ?r = (r1, e1)" by fastforce
  then have e1: "e1 = None" and i: "initRules env (map fst dat) r1 = Some (r, None)"
    using assms(3,4) by (auto simp: Init_def split: option.splits)
  have "router_inv ?r" by (simp add: router_inv_def)
  then have f1: "ro_rules r1 = []" "ro_shared r1 = shared" "ro_domainStrategy r1 = cfg_DomainStrategy config"
    using initBalancers_frame [OF b] by simp_all
  have "cache_ok (env_netipx env) (gd_ip gd) (ro_shared r1)" using assms(2) f1(2) by simp
  from initRules_built [OF assms(1) this assms(5) i] f1 have
    all2: "list_all2 (stands_for env gd s (ro_balancers r)) dat (ro_rules r)" and st: "ro_domainStrategy r = cfg_DomainStrategy config"
    by auto
  have inv: "router_inv r" using Init_inv assms(3) by blast
  have "\<forall>rule \<in> set (ro_rules r). \<exists>x. stands_for env gd s (ro_balancers r) x rule"
    using all2 by (metis in_set_conv_nth list_all2_conv_all_nth)
  then have "\<forall>rule \<in> set (ro_rules r). rule_safe env s rule" by (auto simp: stands_for_def)
  note pick = pickRouteInternal_search [OF this, unfolded st]
  from search_rules_all2 [OF all2, of "cfg_DomainStrategy config"] show ?thesis
  proof (cases rule: option.rel_cases)
    case None
    then show ?thesis using pick by (simp add: PickRoute_def)
  next
    case (Some x rule)
    obtain rr items where x: "x = (rr, items)" by (cases x)
    obtain ctx where c: "pickRouteInternal env r (SessionContext s) = Ok (rule, ctx)" "session_of ctx = s" using pick Some(2) by auto
    note sf = Some(3) [unfolded x stands_for_def prod.case]
    show ?thesis
    proof (cases "GetBalancingTag rr = []")
      case True
      then show ?thesis using Some(1) x c sf by (simp add: PickRoute_def Rule_GetTag_def)
    next
      case False
      then obtain j where j: "map_of (ro_balancers r) (GetBalancingTag rr) = Some j" "ru_Balancer rule = Some j" using sf by auto
      have "j < length (ro_heap r)" using inv map_of_SomeD [OF j(1)] by (auto simp: router_inv_def)
      then show ?thesis using False Some(1) x c j
        by (auto simp: PickRoute_def Rule_GetTag_def Let_def map_sum_def split: prod.split sum.split)
    qed
  qed
qed

definition web_config :: Config where
  "web_config = \<lparr>cfg_DomainStrategy = Config_IpIfNonMatch, cfg_Rule = [ten_rule], cfg_BalancingRule = []\<rparr>"

lemma ten_rule_init: "\<exists>r. Init plain_env web_config [] = Some (r, None)"
proof -
  have d: "rr_Domain ten_rule = []" "GetBalancingTag ten_rule = []" by (simp_all add: ten_rule_def no_rule_def GetBalancingTag_def)
  with BuildCondition_exact [OF plain_env_wf empty_cache ten_rule_ready ten_rule_fields] obtain conds shared' where
    "BuildCondition plain_env ten_rule [] = Some (Ok conds, shared')" by blast
  then show ?thesis using d by (simp add: Init_def web_config_def appendRule_def Let_def)
qed

lemma ten_rule_search:
  "search_rules plain_env Config_IpIfNonMatch web_session (data_holds plain_env ten_data web_session) [(ten_rule, [])] = Some (ten_rule, [])"
proof -
  have s: "sc_GetTargetIPs web_session = []" "sc_GetTargetDomain web_session = ''a.org''" "sc_GetNetwork web_session = Network_TCP"
    "sc_GetTargetPort web_session = 80" "\<not> sc_GetSkipDNSResolve web_session"
    by (simp_all add: web_session_def sc_GetTargetIPs_def sc_GetTargetDomain_def sc_GetNetwork_def sc_GetTargetPort_def
        sc_GetSkipDNSResolve_def IsValid_def ipsOf_def)
  have i: "first_ips plain_env Config_IpIfNonMatch web_session = []" "resolved_ips plain_env web_session = [[10, 1, 2, 3]]"
    using s by (simp_all add: first_ips_def resolved_ips_def plain_env_def)
  have "FromStdIP (env_netipx plain_env) [10, 1, 2, 3] = Some (Addr4 [10, 1, 2, 3])" by (simp add: plain_env_def list_netipx_def To4_def)
  moreover have "geo_reference [ten_net] (Addr4 [10, 1, 2, 3])" by code_simp
  ultimately have "rule_holds plain_env ten_data ten_rule [] web_session [[10, 1, 2, 3]]" "\<not> rule_holds plain_env ten_data ten_rule [] web_session []"
    using s by (simp_all add: rule_holds_def asked_geoip_def ten_data_def process_field_def ip_field_def ten_rule_def no_rule_def port_field_def user_field_def attribute_field_def)
  then show ?thesis using s i by (simp add: search_rules_def data_holds_def)
qed

theorem routing_follows_configuration_witness:
  "\<exists>r ctx. Init plain_env web_config [] = Some (r, None)
     \<and> PickRoute plain_env sample_env r (SessionContext web_session) = (Ok \<lparr>rt_Context = ctx, rt_outboundTag = ''out'', rt_ruleTag = []\<rparr>, r)"
proof -
  obtain r where r: "Init plain_env web_config [] = Some (r, None)" using ten_rule_init by blast
  have c: "cfg_Rule web_config = map fst [(ten_rule, [])]" "cfg_DomainStrategy web_config = Config_IpIfNonMatch"
    by (simp_all add: web_config_def)
  have ready: "\<forall>x \<in> set [(ten_rule, [])]. data_ready plain_env ten_data web_session x"
    using ten_rule_ready ten_rule_fields by (simp add: data_ready_def)
  have t: "GetBalancingTag ten_rule = []" "GetTag ten_rule = ''out''" "rr_RuleTag ten_rule = []"
    by (simp_all add: ten_rule_def no_rule_def GetBalancingTag_def GetTag_def)
  show ?thesis
    using r routing_follows_configuration [OF plain_env_wf empty_cache r c(1) ready, of sample_env] t
    unfolding c(2) ten_rule_search by auto
qed

section \<open>Running routers\<close>

inductive router_reach :: "'s env \<Rightarrow> 's Router \<Rightarrow> bool" for env where
  reach_Init: "Init env config shared = Some (r, None) \<Longrightarrow> router_reach env r"
| reach_AddRule: "router_reach env r \<Longrightarrow> AddRule env config shouldAppend r = Some (r', e) \<Longrightarrow> router_reach env r'"
| reach_RemoveRule: "router_reach env r \<Longrightarrow> router_reach env (fst (RemoveRule tag r))"
| reach_PickRoute: "router_reach env r \<Longrightarrow> router_reach env (snd (PickRoute env benv r ctx))"
| reach_SetOverride: "router_reach env r \<Longrightarrow> router_reach env (fst (SetOverrideTarget tag target r))"
| reach_Override: "router_reach env r \<Longrightarrow> router_reach env (fst (OverrideBalancer tag target r))"
| reach_Principle: "router_reach env r \<Longrightarrow> router_reach env (snd (GetPrincipleTarget benv tag r))"

lemma heap_update_inv: "router_inv r \<Longrightarrow> router_inv (r\<lparr>ro_heap := (ro_heap r)[i := b]\<rparr>)"
  by (simp add: router_inv_def)

lemma PickRoute_router:
  "snd (PickRoute env benv r ctx) = r \<or> (\<exists>i b. snd (PickRoute env benv r ctx) = r\<lparr>ro_heap := (ro_heap r)[i := b]\<rparr>)"
proof (cases "pickRouteInternal env r ctx")
  case (Inr x)
  obtain rule ctx' where x: "x = (rule, ctx')" by fastforce
  have "snd (Rule_GetTag benv rule r) = r \<or> (\<exists>i b. snd (Rule_GetTag benv rule r) = r\<lparr>ro_heap := (ro_heap r)[i := b]\<rparr>)"
    by (auto simp: Rule_GetTag_def Let_def split: option.split prod.split)
  moreover have "snd (PickRoute env benv r ctx) = snd (Rule_GetTag benv rule r)"
    using Inr x by (simp add: PickRoute_def split: prod.split sum.split)
  ultimately show ?thesis by simp
qed (simp add: PickRoute_def)

lemma router_reach_inv: "router_reach env r \<Longrightarrow> router_inv r"
proof (induction rule: router_reach.induct)
  case (reach_Init config shared r)
  then show ?case by (rule Init_inv)
next
  case (reach_AddRule r config shouldAppend r' e)
  then show ?case using ReloadRules_inv by (auto simp: AddRule_def split: sum.splits TypedMessage.splits)
next
  case (reach_RemoveRule r tag)
  then show ?case by (auto simp: RemoveRule_def router_inv_def)
next
  case (reach_PickRoute r benv ctx)
  then show ?case using PickRoute_router [of env benv r ctx] heap_update_inv by metis
next
  case (reach_SetOverride r tag target)
  then show ?case by (auto simp: SetOverrideTarget_def intro: heap_update_inv split: option.split)
next
  case (reach_Override r tag target)
  then show ?case by (auto simp: OverrideBalancer_def intro: heap_update_inv split: option.split)
next
  case (reach_Principle r benv tag)
  then show ?case by (auto simp: GetPrincipleTarget_def Let_def intro: heap_update_inv split: option.split sum.split prod.split)
qed

lemma pickRouteInternal_heap: "pickRouteInternal env (r\<lparr>ro_heap := h\<rparr>) ctx = pickRouteInternal env r ctx"
  unfolding pickRouteInternal_def Let_def by (auto split: sum.split option.split)

text \<open>
  C19. An override takes effect and can be taken back. In a reachable router, setting the override of a known
  balancer succeeds, is what \<open>GetOverrideTarget\<close> reports, and makes every session whose rule uses the
  balancer go to the target, whatever the strategy would pick, as long as the outbound manager selects by prefix;
  \<open>OverrideBalancer\<close> does the same. Setting the empty target afterwards restores a router that had no override.
\<close>

theorem override_takes_effect:
  assumes "router_reach env r" "map_of (ro_balancers r) tag = Some i" "target \<noteq> []"
    "be_Select benv (ba_selectors (ro_heap r ! i)) = Ok candidates"
    "pickRouteInternal env r ctx = Ok (rule, ctx')" "ru_Balancer rule = Some i"
    "r' = fst (SetOverrideTarget tag target r)"
  shows "SetOverrideTarget tag target r = (r', None) \<and> OverrideBalancer tag target r = (r', None)
    \<and> GetOverrideTarget tag r' = Ok target
    \<and> fst (PickRoute env benv r' ctx) = Ok \<lparr>rt_Context = ctx', rt_outboundTag = target, rt_ruleTag = ru_RuleTag rule\<rparr>
    \<and> (ba_override (ro_heap r ! i) = [] \<longrightarrow> SetOverrideTarget tag [] r' = (r, None))"
proof -
  have i: "i < length (ro_heap r)"
    using router_reach_inv [OF assms(1)] map_of_SomeD [OF assms(2)] by (auto simp: router_inv_def)
  then have at: "balancer_at tag r = Some i" using assms(2) by (simp add: balancer_at_def)
  have r': "r' = r\<lparr>ro_heap := (ro_heap r)[i := override_Put target (ro_heap r ! i)]\<rparr>" using at assms(7) by (simp add: SetOverrideTarget_def)
  then have at': "balancer_at tag r' = Some i" using assms(2) i by (simp add: balancer_at_def)
  have "Balancer_Pick benv (override_Put target (ro_heap r ! i)) = (Ok target, override_Put target (ro_heap r ! i))"
    using assms(3,4) by (simp add: Balancer_Pick_def override_Put_def Let_def)
  then have pick: "fst (PickRoute env benv r' ctx) = Ok \<lparr>rt_Context = ctx', rt_outboundTag = target, rt_ruleTag = ru_RuleTag rule\<rparr>"
    using assms(5,6) i by (simp add: PickRoute_def r' pickRouteInternal_heap Rule_GetTag_def)
  have undo: "SetOverrideTarget tag [] r' = (r, None)" if "ba_override (ro_heap r ! i) = []"
  proof -
    have "override_Put [] (override_Put target (ro_heap r ! i)) = ro_heap r ! i" using that by (simp add: override_Put_def)
    then show ?thesis using at' i by (simp add: SetOverrideTarget_def r')
  qed
  show ?thesis
    using at at' r' i pick undo by (simp add: SetOverrideTarget_def OverrideBalancer_def GetOverrideTarget_def override_Put_def)
qed

section \<open>Tags of rules\<close>

definition tags_unique :: "'s Router \<Rightarrow> bool" where
  "tags_unique r \<longleftrightarrow> distinct (filter (\<lambda>t. t \<noteq> []) (map ru_RuleTag (ro_rules r)))"

lemma appendRule_rules:
  "appendRule env rr r = Some (r', e) \<Longrightarrow> ro_rules r' = ro_rules r \<or> (\<exists>rule. ro_rules r' = ro_rules r @ [rule] \<and> ru_RuleTag rule = rr_RuleTag rr)"
  by (auto simp: appendRule_def Let_def split: option.splits prod.splits sum.splits if_splits)

lemma appendRule_unique:
  assumes "appendRule env rr r = Some (r', e)" "tags_unique r" "\<not> RuleExists (rr_RuleTag rr) r"
  shows "tags_unique r'"
  using appendRule_rules [OF assms(1)]
proof (elim disjE exE conjE)
  fix rule assume "ro_rules r' = ro_rules r @ [rule]" and t: "ru_RuleTag rule = rr_RuleTag rr"
  moreover have "rr_RuleTag rr = [] \<or> rr_RuleTag rr \<notin> ru_RuleTag ` set (ro_rules r)"
    using assms(3) by (auto simp: RuleExists_def list_ex_iff)
  ultimately show ?thesis using assms(2) by (auto simp: tags_unique_def)
qed (use assms(2) in \<open>simp add: tags_unique_def\<close>)

lemma reloadRules_unique: "reloadRules env rules r = Some (r', e) \<Longrightarrow> tags_unique r \<Longrightarrow> tags_unique r'"
proof (induction rules arbitrary: r)
  case (Cons rule rules)
  show ?case
  proof (cases "RuleExists (rr_RuleTag rule) r")
    case True
    then show ?thesis using Cons.prems by simp
  next
    case False
    then obtain r1 e1 where a: "appendRule env rule r = Some (r1, e1)" using Cons.prems(1) by (cases "appendRule env rule r") auto
    then show ?thesis using False Cons.prems Cons.IH [of r1] appendRule_unique [OF a Cons.prems(2)] by (cases e1) auto
  qed
qed simp

lemma ReloadRules_unique:
  assumes "ReloadRules env config shouldAppend r = Some (r', e)" "router_inv r" "shouldAppend \<longrightarrow> tags_unique r"
  shows "tags_unique r'"
proof -
  let ?r = "if \<not> shouldAppend then r\<lparr>ro_balancers := [], ro_rules := []\<rparr> else r"
  obtain r1 e1 where b: "reloadBalancers env (cfg_BalancingRule config) ?r = (r1, e1)" by fastforce
  have "router_inv ?r" using assms(2) by (simp add: router_inv_def)
  then have "ro_rules r1 = ro_rules ?r" using reloadBalancers_frame [OF b] by simp
  then have "tags_unique r1" using assms(3) by (simp add: tags_unique_def)
  then show ?thesis using assms(1) b reloadRules_unique by (cases e1) (auto simp: ReloadRules_def Let_def)
qed

lemma filter_one:
  assumes "distinct (filter (\<lambda>t. t \<noteq> []) (map f xs))" "t \<noteq> []"
  shows "length (filter (\<lambda>x. f x \<noteq> t) xs) + (if \<exists>x \<in> set xs. f x = t then 1 else 0) = length xs"
  using assms
proof (induction xs)
  case (Cons x xs)
  show ?case
  proof (cases "f x = t")
    case True
    then have "t \<notin> set (map f xs)" using Cons.prems by simp
    then have "filter (\<lambda>x. f x \<noteq> t) xs = xs" by (auto simp: filter_id_conv)
    then show ?thesis using True by simp
  next
    case False
    then show ?thesis using Cons by (auto split: if_splits)
  qed
qed simp

text \<open>
  C20. Rule tags stay unique, so removing a tag removes one rule. Adding rules to a reachable router keeps non-empty
  tags unique, also when it fails half-way; when the rules are replaced they are unique whatever there
  was before. Removing a tag then drops exactly the rule that carries it, keeps the others in order, and leaves the tags unique.
\<close>

theorem rule_tags_unique:
  assumes "router_reach env r" "AddRule env (Ok (RouterConfig config)) shouldAppend r = Some (r', e)" "shouldAppend \<longrightarrow> tags_unique r"
    "tag \<noteq> []" "r'' = fst (RemoveRule tag r')"
  shows "tags_unique r' \<and> tags_unique r'' \<and> \<not> RuleExists tag r''
    \<and> ro_rules r'' = filter (\<lambda>rule. ru_RuleTag rule \<noteq> tag) (ro_rules r')
    \<and> length (ro_rules r'') + (if RuleExists tag r' then 1 else 0) = length (ro_rules r')"
proof -
  have u: "tags_unique r'"
    using ReloadRules_unique [OF _ router_reach_inv [OF assms(1)] assms(3)] assms(2) by (simp add: AddRule_def)
  have r: "ro_rules r'' = filter (\<lambda>rule. ru_RuleTag rule \<noteq> tag) (ro_rules r')" using assms(4,5) by (simp add: RemoveRule_def)
  have "distinct (filter (\<lambda>t. t \<noteq> [] \<and> t \<noteq> tag) (map ru_RuleTag (ro_rules r')))"
    using distinct_filter [OF u [unfolded tags_unique_def], of "\<lambda>t. t \<noteq> tag"] by (simp add: conj_commute)
  then have "tags_unique r''" unfolding tags_unique_def r by (simp add: filter_map comp_def conj_commute)
  moreover have "\<not> RuleExists tag r''" using r by (auto simp: RuleExists_def list_ex_iff)
  moreover have "length (ro_rules r'') + (if RuleExists tag r' then 1 else 0) = length (ro_rules r')"
    using filter_one [OF u [unfolded tags_unique_def] assms(4)] assms(4) r by (simp add: RuleExists_def list_ex_iff)
  ultimately show ?thesis using u r by simp
qed

text \<open>A router with one balancer and a rule for TCP that uses it.\<close>

definition tcp_rule :: RoutingRule where
  "tcp_rule = no_rule\<lparr>rr_TargetTag := RoutingRule_BalancingTag ''bal'', rr_RuleTag := ''t'', rr_Networks := [2]\<rparr>"

definition bal_config :: Config where
  "bal_config = \<lparr>cfg_DomainStrategy = Config_AsIs, cfg_Rule = [tcp_rule],
     cfg_BalancingRule = [\<lparr>br_Tag = ''bal'', br_OutboundSelector = [''o''], br_Strategy = [], br_StrategySettings = Err EOF, br_FallbackTag = []\<rparr>]\<rparr>"

definition tcp_built :: "'s Rule" where
  "tcp_built = \<lparr>ru_Tag = [], ru_RuleTag = ''t'', ru_Balancer = Some 0, ru_Condition = [NetworkMatcher ((replicate 8 False)[2 := True])]\<rparr>"

definition bal_router :: "'s Router" where
  "bal_router = \<lparr>ro_domainStrategy = Config_AsIs, ro_rules = [tcp_built], ro_balancers = [(''bal'', 0)],
     ro_heap = [\<lparr>ba_selectors = [''o''], ba_strategy = RandomStrategy [], ba_fallbackTag = [], ba_override = []\<rparr>], ro_shared = []\<rparr>"

lemma tcp_rule_build: "BuildCondition plain_env tcp_rule shared = Some (Ok [NetworkMatcher ((replicate 8 False)[2 := True])], shared)"
  by (simp add: BuildCondition_def networkConditions_def NewNetworkMatcher_def attributeConditions_def targetIPConditions_def ipConditions_def domainConditions_def
      plainConditions_def userConditions_def processConditions_def tcp_rule_def no_rule_def)

lemma tcp_rule_append:
  "map_of (ro_balancers r) ''bal'' = Some i \<Longrightarrow>
     appendRule plain_env tcp_rule r = Some (r\<lparr>ro_rules := ro_rules r @ [tcp_built\<lparr>ru_Balancer := Some i\<rparr>]\<rparr>, None)"
  by (simp add: appendRule_def tcp_rule_build GetBalancingTag_def GetTag_def Let_def tcp_built_def) (simp add: tcp_rule_def no_rule_def)

lemma bal_router_Init: "Init plain_env bal_config [] = Some (bal_router, None)"
  by (simp add: Init_def bal_config_def BalancingRule_Build_def plain_env_def [THEN arg_cong [of _ _ env_toLower]] newBalancer_def putBalancer_def
      tcp_rule_append Let_def)
    (simp add: bal_router_def tcp_built_def)

lemma bal_router_reach: "router_reach plain_env bal_router"
  by (rule reach_Init [OF bal_router_Init])

lemma bal_router_pick: "pickRouteInternal plain_env bal_router (SessionContext web_session) = Ok (tcp_built, SessionContext web_session)"
proof -
  have "sc_GetNetwork web_session = Network_TCP" by (simp add: web_session_def sc_GetNetwork_def)
  moreover have "(replicate 8 False)[2 := True] ! 2" by simp
  ultimately show ?thesis by (simp add: pickRouteInternal_def bal_router_def tcp_built_def NetworkMatcher_Apply_def Let_def)
qed

theorem override_takes_effect_witness:
  "fst (PickRoute plain_env sample_env (fst (SetOverrideTarget ''bal'' ''x'' bal_router)) (SessionContext web_session)) =
     Ok \<lparr>rt_Context = SessionContext web_session, rt_outboundTag = ''x'', rt_ruleTag = ''t''\<rparr>"
proof -
  have b: "map_of (ro_balancers bal_router) ''bal'' = Some 0" "''x'' \<noteq> []"
    "be_Select sample_env (ba_selectors (ro_heap bal_router ! 0)) = Ok [''a'', ''b'', ''c'']"
    and rule: "ru_Balancer tcp_built = Some 0" "ru_RuleTag tcp_built = ''t''"
    by (simp_all add: bal_router_def tcp_built_def sample_env_def)
  show ?thesis using override_takes_effect [OF bal_router_reach b bal_router_pick rule(1) refl] rule(2) by simp
qed

theorem rule_tags_unique_witness:
  "\<exists>r'. AddRule plain_env (Ok (RouterConfig bal_config)) False bal_router = Some (r', None) \<and> length (ro_rules r') = 1
     \<and> ro_rules (fst (RemoveRule ''t'' r')) = []"
proof -
  obtain r' where a: "AddRule plain_env (Ok (RouterConfig bal_config)) False bal_router = Some (r', None)" and r: "ro_rules r' = [tcp_built\<lparr>ru_Balancer := Some 1\<rparr>]"
    by (simp add: AddRule_def ReloadRules_def bal_config_def BalancingRule_Build_def plain_env_def [THEN arg_cong [of _ _ env_toLower]] newBalancer_def
        putBalancer_def tcp_rule_append RuleExists_def Let_def) (simp add: bal_router_def)
  have "RuleExists ''t'' r'" using r by (simp add: RuleExists_def tcp_built_def)
  moreover have "length (ro_rules r') = 1" using r by simp
  ultimately show ?thesis using a rule_tags_unique [OF bal_router_reach a, of "''t''"] by fastforce
qed

text \<open>Replacing the rules drops the old ones before the new ones are checked: a failing replacement leaves none.\<close>

lemma failed_reload_drops_rules:
  assumes "cfg_BalancingRule config = []" "cfg_Rule config = [no_rule]"
  shows "ReloadRules env config False r =
    Some (r\<lparr>ro_balancers := [], ro_rules := []\<rparr>, Some (ErrMsg ''this rule has no effective fields''))"
  using assms by (simp add: ReloadRules_def RuleExists_def appendRule_def BuildCondition_def networkConditions_def NewNetworkMatcher_def attributeConditions_def targetIPConditions_def
      ipConditions_def domainConditions_def plainConditions_def userConditions_def processConditions_def no_rule_def)

text \<open>\<open>Init\<close> accepts two rules with one tag, which \<open>AddRule\<close> refuses.\<close>

lemma init_duplicate_tags:
  "\<exists>r. Init plain_env (bal_config\<lparr>cfg_Rule := [tcp_rule, tcp_rule]\<rparr>) [] = Some (r, None) \<and> \<not> tags_unique r"
  by (simp add: Init_def bal_config_def BalancingRule_Build_def plain_env_def [THEN arg_cong [of _ _ env_toLower]] newBalancer_def putBalancer_def
      tcp_rule_append Let_def tags_unique_def tcp_built_def)

end
