(* ===== verification/Outbound_Manager.thy ===== *)
theory Outbound_Manager
  imports Prelude "HOL-Library.AList" "HOL-Library.Multiset" "HOL-Library.Char_ord" "HOL-Library.List_Lexorder"
begin

text \<open>
  The manager of outbound handlers: \<open>app/proxyman/outbound/outbound.go\<close>.

  A handler is a value of any type with its tag, and with \<open>Start\<close> and \<open>Close\<close> that may fail
  (\<^const>\<open>None\<close> is success); what the manager starts and closes is part of the result. \<open>Select\<close> keeps a
  cache that every change of the handlers clears. Strings are ordered byte by byte, as Go's \<open>sort.Strings\<close>.
\<close>

section \<open>Model\<close>

record 'h Handler_ops =
  h_Tag :: "'h \<Rightarrow> string"
  h_Start :: "'h \<Rightarrow> goerror option"
  h_Close :: "'h \<Rightarrow> goerror option"

record 'h Manager =
  om_defaultHandler :: "'h option"
  om_taggedHandler :: "(string \<times> 'h) list"
  om_untaggedHandlers :: "'h list"
  om_running :: bool
  om_tagsCache :: "(string \<times> string list) list"

definition om_New :: "'h Manager" where
  "om_New = \<lparr>om_defaultHandler = None, om_taggedHandler = [], om_untaggedHandlers = [], om_running = False, om_tagsCache = []\<rparr>"

text \<open>Starting a list of handlers up to the first that fails; the handlers that were started.\<close>

fun startAll :: "'h Handler_ops \<Rightarrow> 'h list \<Rightarrow> 'h list \<times> goerror option" where
  "startAll ops [] = ([], None)"
| "startAll ops (h # hs) =
     (case h_Start ops h of
        Some e \<Rightarrow> ([h], Some e)
      | None \<Rightarrow> (let (started, e) = startAll ops hs in (h # started, e)))"

definition om_Start :: "((string \<times> 'h) list \<Rightarrow> (string \<times> 'h) list) \<Rightarrow> 'h Handler_ops \<Rightarrow> 'h Manager
    \<Rightarrow> 'h Manager \<times> 'h list \<times> goerror option" where
  "om_Start ranged ops m =
     (m\<lparr>om_running := True\<rparr>, startAll ops (map snd (ranged (om_taggedHandler m)) @ om_untaggedHandlers m))"

definition om_Close :: "((string \<times> 'h) list \<Rightarrow> (string \<times> 'h) list) \<Rightarrow> 'h Handler_ops \<Rightarrow> 'h Manager
    \<Rightarrow> 'h Manager \<times> 'h list \<times> goerror list" where
  "om_Close ranged ops m =
     (let hs = map snd (ranged (om_taggedHandler m)) @ om_untaggedHandlers m in
      (m\<lparr>om_running := False\<rparr>, hs, List.map_filter (h_Close ops) hs))"

definition GetDefaultHandler :: "'h Manager \<Rightarrow> 'h option" where
  "GetDefaultHandler m = om_defaultHandler m"

definition GetHandler :: "'h Manager \<Rightarrow> string \<Rightarrow> 'h option" where
  "GetHandler m tag = map_of (om_taggedHandler m) tag"

definition AddHandler :: "'h Handler_ops \<Rightarrow> 'h \<Rightarrow> 'h Manager \<Rightarrow> 'h Manager \<times> goerror option" where
  "AddHandler ops handler m =
     (let m1 = m\<lparr>om_tagsCache := []\<rparr>;
          m2 = (if om_defaultHandler m1 = None then m1\<lparr>om_defaultHandler := Some handler\<rparr> else m1);
          tag = h_Tag ops handler in
      if length tag > 0 \<and> map_of (om_taggedHandler m2) tag \<noteq> None then (m2, Some (ErrMsg ''existing tag found''))
      else
        (let m3 = (if length tag > 0 then m2\<lparr>om_taggedHandler := AList.update tag handler (om_taggedHandler m2)\<rparr>
                   else m2\<lparr>om_untaggedHandlers := om_untaggedHandlers m2 @ [handler]\<rparr>) in
         (m3, if om_running m3 then h_Start ops handler else None)))"

definition RemoveHandler :: "'h Handler_ops \<Rightarrow> string \<Rightarrow> 'h Manager \<Rightarrow> 'h Manager \<times> goerror option" where
  "RemoveHandler ops tag m =
     (if tag = [] then (m, Some (ErrMsg ''not enough information for making a decision''))
      else
        (let m1 = m\<lparr>om_tagsCache := [], om_taggedHandler := AList.delete tag (om_taggedHandler m)\<rparr> in
         (case om_defaultHandler m1 of
            None \<Rightarrow> m1
          | Some h \<Rightarrow> if h_Tag ops h = tag then m1\<lparr>om_defaultHandler := None\<rparr> else m1, None)))"

definition ListHandlers :: "((string \<times> 'h) list \<Rightarrow> (string \<times> 'h) list) \<Rightarrow> 'h Manager \<Rightarrow> 'h list" where
  "ListHandlers ranged m = om_untaggedHandlers m @ map snd (ranged (om_taggedHandler m))"

definition joinComma :: "string list \<Rightarrow> string" where
  "joinComma xs = (case xs of [] \<Rightarrow> [] | x # ys \<Rightarrow> x @ concat (map (\<lambda>y. CHR '','' # y) ys))"

definition om_Select :: "((string \<times> 'h) list \<Rightarrow> (string \<times> 'h) list) \<Rightarrow> string list \<Rightarrow> 'h Manager
    \<Rightarrow> string list \<times> 'h Manager" where
  "om_Select ranged selectors m =
     (let key = joinComma selectors in
      case map_of (om_tagsCache m) key of
        Some tags \<Rightarrow> (tags, m)
      | None \<Rightarrow>
          (let tags = sort (filter (\<lambda>tag. list_ex (\<lambda>selector. take (length selector) tag = selector) selectors)
                        (map fst (ranged (om_taggedHandler m)))) in
           (tags, m\<lparr>om_tagsCache := AList.update key tags (om_tagsCache m)\<rparr>)))"

section \<open>Invariant\<close>

text \<open>Handlers are kept under their tag, and the cache answers for selectors that contain no comma.\<close>

definition selected :: "'h Manager \<Rightarrow> string list \<Rightarrow> string list" where
  "selected m selectors = sort (filter (\<lambda>tag. list_ex (\<lambda>selector. take (length selector) tag = selector) selectors)
     (map fst (om_taggedHandler m)))"

definition comma_free :: "string list \<Rightarrow> bool" where
  "comma_free xs \<longleftrightarrow> xs \<noteq> [] \<and> (\<forall>x\<in>set xs. CHR '','' \<notin> set x)"

definition om_inv :: "'h Handler_ops \<Rightarrow> 'h Manager \<Rightarrow> bool" where
  "om_inv ops m \<longleftrightarrow> distinct (map fst (om_taggedHandler m))
     \<and> (\<forall>(tag, h)\<in>set (om_taggedHandler m). h_Tag ops h = tag \<and> tag \<noteq> [])
     \<and> (\<forall>h\<in>set (om_untaggedHandlers m). h_Tag ops h = [])
     \<and> (\<forall>key tags. map_of (om_tagsCache m) key = Some tags \<longrightarrow> (\<exists>sels. comma_free sels \<and> key = joinComma sels \<and> tags = selected m sels))"

text \<open>The operations that change a manager; selectors contain no comma.\<close>

inductive om_reach :: "'h Handler_ops \<Rightarrow> 'h Manager \<Rightarrow> bool" for ops where
  reach_New: "om_reach ops om_New"
| reach_Add: "om_reach ops m \<Longrightarrow> om_reach ops (fst (AddHandler ops h m))"
| reach_Remove: "om_reach ops m \<Longrightarrow> om_reach ops (fst (RemoveHandler ops tag m))"
| reach_Select: "om_reach ops m \<Longrightarrow> comma_free sels \<Longrightarrow> (\<forall>xs. mset (ranged xs) = mset xs) \<Longrightarrow> om_reach ops (snd (om_Select ranged sels m))"
| reach_Start: "om_reach ops m \<Longrightarrow> om_reach ops (fst (om_Start ranged ops m))"
| reach_Close: "om_reach ops m \<Longrightarrow> om_reach ops (fst (om_Close ranged ops m))"

lemma comma_split:
  "CHR '','' \<notin> set c \<Longrightarrow> CHR '','' \<notin> set d \<Longrightarrow> u = [] \<or> hd u = CHR '','' \<Longrightarrow> v = [] \<or> hd v = CHR '','' \<Longrightarrow>
    c @ u = d @ v \<Longrightarrow> c = d \<and> u = v"
proof (induction c arbitrary: d)
  case Nil
  then show ?case
    by (cases d) auto
next
  case (Cons x c)
  then show ?case
    by (cases d) auto
qed

definition commas :: "string list \<Rightarrow> string" where
  "commas xs = concat (map (\<lambda>y. CHR '','' # y) xs)"

lemma commas_simps: "commas [] = []" "commas (x # xs) = CHR '','' # x @ commas xs" "commas xs = [] \<or> hd (commas xs) = CHR '',''"
  by (simp_all add: commas_def) (cases xs, auto)

lemma commas_inj:
  "(\<forall>x\<in>set xs. CHR '','' \<notin> set x) \<Longrightarrow> (\<forall>y\<in>set ys. CHR '','' \<notin> set y) \<Longrightarrow> commas xs = commas ys \<Longrightarrow> xs = ys"
proof (induction xs arbitrary: ys)
  case Nil
  then show ?case
    by (cases ys) (auto simp: commas_simps)
next
  case (Cons x xs)
  then obtain y ys' where ys: "ys = y # ys'"
    by (cases ys) (auto simp: commas_simps)
  have "x = y \<and> commas xs = commas ys'"
    using Cons.prems by (intro comma_split commas_simps(3)) (auto simp: ys commas_simps(1,2))
  then show ?case
    using Cons.IH [of ys'] Cons.prems by (simp add: ys)
qed

lemma joinComma_inj:
  assumes "comma_free xs" and "comma_free ys" and "joinComma xs = joinComma ys"
  shows "xs = ys"
proof -
  obtain x xs' y ys' where xs: "xs = x # xs'" "ys = y # ys'"
    using assms(1,2) by (cases xs; cases ys) (auto simp: comma_free_def)
  have "x = y \<and> commas xs' = commas ys'"
    using assms by (intro comma_split commas_simps(3)) (auto simp: xs comma_free_def joinComma_def commas_def)
  moreover have "xs' = ys'"
    using calculation assms(1,2) by (intro commas_inj) (auto simp: xs comma_free_def)
  ultimately show ?thesis
    by (simp add: xs)
qed

lemma sort_perm: "mset xs = mset ys \<Longrightarrow> sort xs = sort (ys :: 'a :: linorder list)"
  by (metis properties_for_sort sorted_sort mset_sort)

lemma om_Select_correct:
  assumes inv: "om_inv ops m" and sels: "comma_free sels" and ranged: "\<forall>xs. mset (ranged xs) = mset xs"
  shows "fst (om_Select ranged sels m) = selected m sels" and "om_inv ops (snd (om_Select ranged sels m))"
proof -
  have s: "sort (filter P (map fst (ranged hs))) = sort (filter P (map fst hs))" for P hs
    using ranged by (intro sort_perm) (simp add: mset_filter mset_map)
  have hit: "tags = selected m sels" if "map_of (om_tagsCache m) (joinComma sels) = Some tags" for tags
    using inv that joinComma_inj [OF sels] unfolding om_inv_def by metis
  show "fst (om_Select ranged sels m) = selected m sels"
    using hit by (auto simp: om_Select_def Let_def s selected_def split: option.splits)
  show "om_inv ops (snd (om_Select ranged sels m))"
  proof (cases "map_of (om_tagsCache m) (joinComma sels)")
    case (Some tags)
    then show ?thesis
      using inv by (simp add: om_Select_def)
  next
    case None
    let ?m = "m\<lparr>om_tagsCache := AList.update (joinComma sels) (selected m sels) (om_tagsCache m)\<rparr>"
    have "snd (om_Select ranged sels m) = ?m"
      using None by (simp add: om_Select_def Let_def s selected_def)
    moreover have "selected ?m = selected m"
      by (simp add: selected_def fun_eq_iff)
    moreover have "\<exists>sels'. comma_free sels' \<and> key = joinComma sels' \<and> tags = selected m sels'"
      if "map_of (om_tagsCache ?m) key = Some tags" for key tags
      using that inv sels unfolding om_inv_def by (cases "key = joinComma sels") (auto simp: update_conv)
    ultimately show ?thesis
      using inv by (simp add: om_inv_def)
  qed
qed

lemma om_reach_inv: "om_reach ops m \<Longrightarrow> om_inv ops m"
proof (induction rule: om_reach.induct)
  case (reach_Add m h)
  let ?m = "fst (AddHandler ops h m)"
  have cache: "om_tagsCache ?m = []"
    by (simp add: AddHandler_def Let_def)
  have tagged: "om_taggedHandler ?m = om_taggedHandler m \<or> om_taggedHandler ?m = AList.update (h_Tag ops h) h (om_taggedHandler m) \<and> h_Tag ops h \<noteq> []"
    by (auto simp: AddHandler_def Let_def)
  have untagged: "om_untaggedHandlers ?m = om_untaggedHandlers m \<or> om_untaggedHandlers ?m = om_untaggedHandlers m @ [h] \<and> h_Tag ops h = []"
    by (auto simp: AddHandler_def Let_def)
  have inv: "distinct (map fst (om_taggedHandler m))" "\<forall>(tag, h)\<in>set (om_taggedHandler m). h_Tag ops h = tag \<and> tag \<noteq> []"
      "\<forall>h\<in>set (om_untaggedHandlers m). h_Tag ops h = []"
    using reach_Add.IH by (simp_all add: om_inv_def)
  have "set (AList.update k v xs) \<subseteq> insert (k, v) (set xs)" for k and v :: 'a and xs
    by (induction xs) auto
  then have "set (om_taggedHandler ?m) \<subseteq> set (om_taggedHandler m) \<union> {x. x = (h_Tag ops h, h) \<and> h_Tag ops h \<noteq> []}"
    using tagged by fastforce
  then have "\<forall>(tag, h)\<in>set (om_taggedHandler ?m). h_Tag ops h = tag \<and> tag \<noteq> []"
    using inv(2) by auto
  moreover have "distinct (map fst (om_taggedHandler ?m))"
    using tagged inv(1) distinct_update [OF inv(1)] by auto
  moreover have "\<forall>h\<in>set (om_untaggedHandlers ?m). h_Tag ops h = []"
    using untagged inv(3) by auto
  ultimately show ?case
    by (simp add: om_inv_def cache)
next
  case (reach_Remove m tag)
  then show ?case
    by (auto simp: om_inv_def RemoveHandler_def Let_def AList.delete_eq distinct_map inj_on_def selected_def split: option.splits)
next
  case (reach_Select m sels ranged)
  then show ?case
    by (intro om_Select_correct)
qed (auto simp: om_inv_def om_New_def om_Start_def om_Close_def selected_def Let_def)

section \<open>Properties\<close>

text \<open>
  C36. Selecting outbounds gives the tags that start with one of the selectors, in byte order, however
  handlers were added and removed before and whatever the cache holds, provided that the list of selectors is not empty and none of them
  contains a comma, now and in every earlier selection.
\<close>

theorem select_by_prefix:
  assumes "om_reach ops m" and "comma_free sels" and "\<forall>xs. mset (ranged xs) = mset xs"
  shows "fst (om_Select ranged sels m) =
    sort (filter (\<lambda>tag. \<exists>selector\<in>set sels. take (length selector) tag = selector) (map fst (om_taggedHandler m)))"
  using om_Select_correct(1) [OF om_reach_inv [OF assms(1)] assms(2,3)] by (simp add: selected_def list_ex_iff)

definition plain_ops :: "(string \<times> nat) Handler_ops" where
  "plain_ops = \<lparr>h_Tag = fst, h_Start = (\<lambda>_. None), h_Close = (\<lambda>_. None)\<rparr>"

theorem select_by_prefix_witness:
  "fst (om_Select id [''a''] (fst (AddHandler plain_ops (''b1'', 0) (fst (AddHandler plain_ops (''a1'', 0) om_New))))) = [''a1'']"
proof -
  have "om_reach plain_ops (fst (AddHandler plain_ops (''b1'', 0) (fst (AddHandler plain_ops (''a1'', 0) om_New))))"
    by (intro om_reach.intros)
  from select_by_prefix [OF this, of "[''a'']" id] show ?thesis
    by (simp add: comma_free_def AddHandler_def plain_ops_def om_New_def Let_def)
qed

text \<open>
  Two behaviours outside the property: selectors with a comma share the cache with other lists, and a handler
  that is refused because its tag exists may nevertheless have become the default handler.
\<close>

lemma select_comma_confused:
  "fst (om_Select id [''a,b''] (snd (om_Select id [''a'', ''b''] (fst (AddHandler plain_ops (''a1'', 0) om_New))))) = [''a1'']"
  by code_simp

lemma refused_handler_default:
  "let m = fst (RemoveHandler plain_ops ''x'' (fst (AddHandler plain_ops (''y'', 0) (fst (AddHandler plain_ops (''x'', 0) om_New)))));
       (m', err) = AddHandler plain_ops (''y'', 1) m
   in GetDefaultHandler m = None \<and> err \<noteq> None \<and> GetDefaultHandler m' = Some (''y'', 1)"
  by code_simp

end
