(* ===== verification/Spec2Isabelle.thy ===== *)
theory Spec2Isabelle
  imports Kcp_Transfer Kcp_Connection Kcp_Crypt Reflex_Inbound Router Outbound_Manager
begin

text \<open>
  Verification of parts of Xray-core with the Reflex proxy protocol (\<open>src/xray-core\<close>).

  \<^bold>\<open>The program.\<close> Xray-core moves bytes between inbound and outbound proxies. Data travels in
  multi-buffers (\<open>common/buf\<close>); destinations are addresses and ports (\<open>common/net\<close>); users are
  known by UUIDs (\<open>common/uuid\<close>). The Reflex inbound (\<open>proxy/reflex/inbound\<close>) recognises its
  clients by a handshake, opens an encrypted session of frames and shapes the traffic after a
  profile. The mKCP transport (\<open>transport/internet/kcp\<close>) is a reliable stream over UDP. The router
  (\<open>app/router\<close>) decides by rules and balancers which outbound of the outbound manager
  (\<open>app/proxyman/outbound\<close>) a session uses.

  \<^bold>\<open>How Go is rendered.\<close> Structs are records, machine integers are words, a result with an error is
  a sum (\<open>Err\<close>, \<open>Ok\<close>), a run-time panic is the error \<open>Panic\<close>, and mutation is state passing. An
  \<open>io.Reader\<close> is the bytes it will deliver and the error that ends them; an \<open>io.Writer\<close> is a
  function on its own state. What is not part of the repository (ciphers, hashes, random numbers,
  the clock, sockets) is an argument of the definitions that use it.

  \<^bold>\<open>Theories.\<close>
  \<^item> \<open>Prelude\<close>: types, errors, big-endian fields, streams, shared lemmas.
  \<^item> \<open>Buf\<close>: \<open>Buffer\<close> and \<open>MultiBuffer\<close> with all their operations. Every operation keeps the
    representation invariant and acts on the abstract byte sequence as a queue would. The locale
    \<open>byte_writer\<close> is the contract of a writer that never fails, interpreted on
    \<open>MultiBufferContainer\<close>.
  \<^item> \<open>Net_Address\<close>: addresses with Go's IP parser, ports, destinations.
  \<^item> \<open>Aead\<close>, \<open>Kcp_Crypt\<close>: the contract of an AEAD as a locale, interpreted on KCP's
    \<open>SimpleAuthenticator\<close>, with what its \<open>Seal\<close> leaves in the array of its destination.
  \<^item> \<open>Kcp_Segment\<close>: the wire format (\<open>segment.go\<close>, \<open>io.go\<close>): parsing is safe and inverts
    serialising.
  \<^item> \<open>Kcp_Receiving\<close>, \<open>Kcp_Sending\<close>, \<open>Kcp_RoundTrip\<close>: the two workers, the round-trip estimate
    and the sizes derived from the configuration, each with its invariant.
  \<^item> \<open>Kcp_Transfer\<close>: sender and receiver joined by a network that may lose, repeat and reorder;
    nothing written is lost and what is read is a prefix of what was written.
  \<^item> \<open>Kcp_Connection\<close>: the state machine of \<open>connection.go\<close>, its events, and termination of idle
    connections.
  \<^item> \<open>UUID\<close>: the text form of UUIDs and its parser.
  \<^item> \<open>Reflex_Morphing\<close>: traffic profiles, learning them, the Kolmogorov-Smirnov statistic, which is
    exact up to the rounding of \<open>float64\<close>.
  \<^item> \<open>Reflex_Session\<close>: frames, replay window, control frames, the morphing writer, the session loop.
    The locale \<open>mb_writer\<close> is the contract of the upstream link.
  \<^item> \<open>Reflex_Handshake\<close>: the message formats of the handshake, with base64 and the HTTP responses.
  \<^item> \<open>Reflex_Inbound\<close>: the handler: detection, timestamps, the nonce table, authentication, the fallback
    with its two copies in any interleaving, and the configuration. Its lemmas follow one handler over its lifetime.
  \<^item> \<open>Strmatcher\<close>, \<open>AC_Automaton\<close>, \<open>Mph_Matcher\<close>: domain matching (\<open>common/strmatcher\<close>). The groups
    answer as their matchers one by one: label tree and hash map, the Aho-Corasick automaton, which is
    at the longest suffix read that is a pattern prefix, and the two-level perfect hash table.
  \<^item> \<open>Router_GeoIP\<close>: the IP sets of the router (\<open>app/router/condition_geoip.go\<close>): a built matcher
    answers for the configured entries, and its bucketed batch operations agree with single lookups.
  \<^item> \<open>Net_Text\<close>: the text forms of addresses, ports and destinations (\<open>common/net\<close>), with the parser
    of destinations, which reads back TCP and UDP destinations with IP addresses and plain domains.
  \<^item> \<open>Geodata\<close>: the scan of geodata files (\<open>asset_tools.go\<close>) finds the entry of a code.
  \<^item> \<open>Router_Condition\<close>: routing contexts and conditions (\<open>condition.go\<close>, \<open>config.go\<close>,
    \<open>features/routing\<close>). A built condition holds exactly when every field of the rule does, judged by
    the contents of the geodata files and not by what the loaders return; this rests on
    the matchers of \<open>Mph_Matcher\<close>, the IP sets of \<open>Router_GeoIP\<close> and the scan of \<open>Geodata\<close>.
  \<^item> \<open>Router_Balancer\<close>: the strategies random, round robin, least ping and least load, weights,
    fallback and override of balancers.
  \<^item> \<open>Router\<close>: rules and balancers of a router, with the balancers shared by pointer; the first rule
    that holds decides, and the rule tags stay unique.
  \<^item> \<open>Outbound_Manager\<close>: the table of outbounds with its cache of selections.
  \<^item> This theory: properties that span components.

  \<^bold>\<open>Bounds.\<close> Loops are functions with a termination measure on the data they consume; no fuel is
  used, except for the groups of an IPv6 address, of which there are eight. Building the automaton and
  searching a hash seed are partial functions: the first is shown to end, the second to end when some
  seed fits; building a routing condition, which contains that search, is option-valued for the same
  reason. Byte sequences are
  assumed shorter than \<open>2 ^ 31\<close> where Go counts them in \<open>int32\<close>.

  \<^bold>\<open>Not modelled.\<close> Sockets, TLS and the other transports, goroutine scheduling (events happen in any
  order the model's step relations allow), generated protobuf code, JSON decoding, and the other
  proxies and applications of Xray-core.
\<close>

section \<open>Sessions and packets end to end\<close>

lemma sendable_length: "list_all sendable fs \<Longrightarrow> f \<in> set fs \<Longrightarrow> length (snd f) \<le> max 8 (length (data_of fs))"
  by (induction fs rule: data_of.induct) auto

text \<open>
  C2. A Reflex session end to end. One side announces the destination in a first data frame, sends
  \<open>d\<close> shaped by any built-in traffic profile and any random draws, and closes; all writes succeed.
  If the hashes of the ciphertexts written do not collide, the server's \<open>handleSession\<close>, reading
  these bytes, dispatches to that destination, hands exactly the announced data followed by \<open>d\<close> to
  the link, and ends without error.
\<close>

theorem session_end_to_end:
  assumes "newAEAD key = Ok A" and "session_aead A limit" and "length a < 256" and "\<forall>k. poll k = None"
    and "h = word_of_nat (length a) # a @ be_bytes 2 (port :: uint16) @ d0"
    and "dispatch (TCPDestination (ParseAddress (bytes_str a)) port) = Ok []"
    and "\<And>x. length x \<le> max 8 (max (length h) (length d)) \<Longrightarrow> fits A limit x"
  shows "\<exists>s1 w1 s2 w2 s3 w3 fs.
      WriteFrame (MBC_Write p) FrameTypeData h (SetTrafficProfile (profileFromPolicy policy) (fresh_session A)) [] = (None, s1, w1)
    \<and> WriteFrameWithMorphing (MBC_Write p) rnd FrameTypeData d s1 w1 = (None, s2, w2)
    \<and> WriteFrame (MBC_Write p) FrameTypeClose [] s2 w2 = (None, s3, w3)
    \<and> mcontent w3 = frames_bytes A 0 fs \<and> length fs \<le> 3 * length d + 2
    \<and> (distinct (map sha256 (ciphertexts A 0 fs)) \<longrightarrow>
        (\<exists>l. handleSession newAEAD sha256 dispatch MBC_WriteMultiBuffer lc wr poll key policy'
               \<lparr>avail = mcontent w3, ending = e\<rparr> w = (None, Some (lc l), w) \<and> mcontent l = d0 @ d))"
proof -
  let ?s = "SetTrafficProfile (profileFromPolicy policy) (fresh_session A)"
  have s: "se_aead ?s = A" "se_writeNonce ?s = 0" "se_profile ?s = Some (profileFromPolicy policy)"
    by (simp_all add: SetTrafficProfile_def fresh_session_def)
  have aead: "aead A limit"
    using assms(2) by (simp add: session_aead_def)
  obtain s1 w1 where w1: "WriteFrame (MBC_Write p) FrameTypeData h ?s [] = (None, s1, w1)"
      "mbc.wrote ?s [] [(FrameTypeData, h)] s1 w1"
    by (rule mbc.WriteFrame_wrote [of "[]" ?s limit h p FrameTypeData]) (use s aead assms(7) in auto)
  then have s1: "list_all wf_Buffer w1" "se_aead s1 = A" "se_writeNonce s1 = 1" "se_profile s1 = Some (profileFromPolicy policy)"
      "mcontent w1 = frames_bytes A 0 [(FrameTypeData, h)]"
    using s by (simp_all add: mbc.wrote_def)
  obtain s2 w2 fs where w2: "WriteFrameWithMorphing (MBC_Write p) rnd FrameTypeData d s1 w1 = (None, s2, w2)"
      "mbc.morphed s1 w1 fs s2 w2" "data_of fs = d" "length fs \<le> 3 * length d"
    by (rule mbc.WriteFrameWithMorphing_morphed [OF s1(1,4) profileFromPolicy_good, of limit d p rnd])
      (use s1(2) aead assms(7) in auto)
  then have s2: "list_all wf_Buffer w2" "se_aead s2 = A" "se_writeNonce s2 = 1 + word_of_nat (length fs)"
      "mcontent w2 = frames_bytes A 0 ((FrameTypeData, h) # fs)" "list_all sendable fs"
    using s1 by (auto simp: mbc.morphed_def)
  obtain s3 w3 where w3: "WriteFrame (MBC_Write p) FrameTypeClose [] s2 w2 = (None, s3, w3)"
      "mbc.wrote s2 w2 [(FrameTypeClose, [])] s3 w3"
    by (rule mbc.WriteFrame_wrote [of w2 s2 limit "[]" p FrameTypeClose]) (use s2 aead assms(7) in auto)
  let ?fs = "(FrameTypeData, h) # fs @ [(FrameTypeClose, [])]"
  have bytes: "mcontent w3 = frames_bytes A 0 ?fs"
    using w3(2) s2 by (simp add: mbc.wrote_def frames_bytes_append algebra_simps)
  have "\<exists>l. handleSession newAEAD sha256 dispatch MBC_WriteMultiBuffer lc wr poll key policy'
      \<lparr>avail = mcontent w3, ending = e\<rparr> w = (None, Some (lc l), w) \<and> mcontent l = d0 @ d"
    if dist: "distinct (map sha256 (ciphertexts A 0 ?fs))"
  proof -
    have "\<forall>f\<in>set ?fs. fits A limit (snd f)"
      using sendable_length [OF s2(5)] assms(7) w2(3) by (auto simp: le_max_iff_disj)
    then have rd: "readable sha256 limit (fresh_session A) ?fs"
      using dist by (simp add: readable_def replay_inv_def fresh_session_def)
    have "\<exists>l. handleSession newAEAD sha256 dispatch MBC_WriteMultiBuffer lc wr poll key policy'
        \<lparr>avail = frames_bytes A 0 ?fs @ [], ending = e\<rparr> w = (None, Some (lc l), w) \<and> mcontent l = mcontent [] @ d0 @ data_of fs"
      by (rule mbc_link.handleSession_delivers [where newAEAD = newAEAD and dispatch = dispatch and poll = poll and port = port,
          OF assms(1,2) fresh_session_def assms(3) _ rd s2(5) assms(4,6)]) (simp only: assms(5))
    then show ?thesis
      using bytes w2(3) by simp
  qed
  moreover have "length ?fs \<le> 3 * length d + 2"
    using w2(4) by simp
  ultimately show ?thesis
    using w1(1) w2(1) w3(1) bytes by blast
qed

theorem session_end_to_end_witness:
  "\<exists>s1 w1 s2 w2 s3 w3 l.
      WriteFrame (MBC_Write []) FrameTypeData (word_of_nat (length [97 :: byte]) # [97] @ be_bytes 2 (80 :: uint16) @ [5])
        (SetTrafficProfile (profileFromPolicy ''zoom'') (fresh_session tag_aead)) [] = (None, s1, w1)
    \<and> WriteFrameWithMorphing (MBC_Write []) (\<lambda>_. 1 / 2) FrameTypeData [6, 7] s1 w1 = (None, s2, w2)
    \<and> WriteFrame (MBC_Write []) FrameTypeClose [] s2 w2 = (None, s3, w3)
    \<and> handleSession (\<lambda>_. Ok tag_aead) id (\<lambda>_. Ok []) MBC_WriteMultiBuffer id (\<lambda>w d. (None, w)) (\<lambda>_. None) [] ''zoom''
         \<lparr>avail = mcontent w3, ending = EOF\<rparr> () = (None, Some (id l), ()) \<and> mcontent l = [5] @ [6, 7]"
proof -
  let ?h = "word_of_nat (length [97 :: byte]) # [97] @ be_bytes 2 (80 :: uint16) @ [5]"
  have fit: "fits tag_aead 100 x" if "length x \<le> max 8 (max (length ?h) (length [6, 7 :: byte]))" for x
    using that by (simp add: fits_def tag_aead_def maxFramePayloadSize_def)
  obtain s1 w1 s2 w2 s3 w3 fs where
    1: "WriteFrame (MBC_Write []) FrameTypeData ?h (SetTrafficProfile (profileFromPolicy ''zoom'') (fresh_session tag_aead)) []
        = (None, s1, w1)"
    and 2: "WriteFrameWithMorphing (MBC_Write []) (\<lambda>_. 1 / 2) FrameTypeData [6, 7] s1 w1 = (None, s2, w2)"
    and 3: "WriteFrame (MBC_Write []) FrameTypeClose [] s2 w2 = (None, s3, w3)"
    and len: "length fs \<le> 3 * length [6, 7 :: byte] + 2"
    and deliver: "distinct (map id (ciphertexts tag_aead 0 fs)) \<longrightarrow>
        (\<exists>l. handleSession (\<lambda>_. Ok tag_aead) id (\<lambda>_. Ok []) MBC_WriteMultiBuffer id (\<lambda>w d. (None, w)) (\<lambda>_. None) [] ''zoom''
               \<lparr>avail = mcontent w3, ending = EOF\<rparr> () = (None, Some (id l), ()) \<and> mcontent l = [5] @ [6, 7])"
    using session_end_to_end [where newAEAD = "\<lambda>_. Ok tag_aead" and dispatch = "\<lambda>_. Ok []" and poll = "\<lambda>_. None" and
        key = "[]" and d = "[6, 7]" and ?d0.0 = "[5]" and ?sha256.0 = id and lc = id and wr = "\<lambda>w d. (None, w)" and w = "()"
        and rnd = "\<lambda>_. 1 / 2" and policy = "''zoom''" and policy' = "''zoom''" and e = EOF and p = "[]" and a = "[97]" and port = 80,
        OF refl session_tag_aead _ _ refl refl fit] by auto
  have "distinct (map id (ciphertexts tag_aead 0 fs))"
    using distinct_tagged [of fs 0] len by simp
  with 1 2 3 deliver show ?thesis by blast
qed

text \<open>
  C23. A packet of the KCP transport carries its segments: what \<open>KCPPacketWriter\<close> assembles from the
  bytes of any segments, with a header and the legacy authenticator, \<open>KCPPacketReader\<close> turns back into
  exactly those segments. This holds for every packet whose header, hash, length and segments, padded to a multiple of
  four, fit in the 8192 bytes of a buffer. A packet that fits only without the padding leaves without
  the XOR pass: the bytes sent are the header, the hash, the length and the plain segments.
\<close>

theorem kcp_packet_roundtrip:
  assumes "list_all wire_Segment segs" and "segs \<noteq> []" and "b = concat (map Serialize segs)"
    and "length h + 6 + length b \<le> Size"
  shows "\<exists>p. KCPPacketWriter_Write (Some h) (Some (SimpleAuthenticator, SimpleAuthenticator_SealInto)) [] b = Ok p
    \<and> (if length h + 4 * ((length b + 9) div 4) \<le> Size
       then KCPPacketReader_Read (Some (length h)) (Some SimpleAuthenticator) p = Some segs
       else p = h @ authenticated b)"
proof (cases "length h + 4 * ((length b + 9) div 4) \<le> Size")
  case True
  then have "SimpleAuthenticator_SealInto (Size - length h) [] b [] = SimpleAuthenticator_Seal [] b []"
    by (intro SealInto_roomy) simp
  with True show ?thesis
    using assms aead.packet_roundtrip [OF simple_auth.aead_axioms assms(1,2), of h "[]" SimpleAuthenticator_SealInto]
    by (simp add: SimpleAuthenticator_def Size_def)
next
  case False
  then have "SimpleAuthenticator_SealInto (Size - length h) [] b [] = authenticated b"
    using assms(4) by (intro SealInto_tight) simp_all
  with False show ?thesis
    using assms(4) by (simp add: KCPPacketWriter_Write_def SimpleAuthenticator_def)
qed

theorem kcp_packet_roundtrip_witness:
  "\<exists>p. KCPPacketWriter_Write (Some [1, 2]) (Some (SimpleAuthenticator, SimpleAuthenticator_SealInto)) []
        (concat (map Serialize [CmdOnly (NewCmdOnlySegment\<lparr>CS_Cmd := CommandPing\<rparr>)])) = Ok p
    \<and> KCPPacketReader_Read (Some (length [1, 2 :: byte])) (Some SimpleAuthenticator) p
      = Some [CmdOnly (NewCmdOnlySegment\<lparr>CS_Cmd := CommandPing\<rparr>)]"
proof -
  let ?segs = "[CmdOnly (NewCmdOnlySegment\<lparr>CS_Cmd := CommandPing\<rparr>)]" and ?h = "[1, 2 :: byte]"
  let ?b = "concat (map Serialize ?segs)"
  have w: "list_all wire_Segment ?segs" "?segs \<noteq> []" and fit: "length ?h + 6 + length ?b \<le> Size" "length ?h + 4 * ((length ?b + 9) div 4) \<le> Size"
    by (simp_all add: NewCmdOnlySegment_def CommandPing_def CommandData_def CommandACK_def CommandTerminate_def
        Size_def CmdOnlySegment_Serialize_def)
  show ?thesis
    using kcp_packet_roundtrip [OF w refl fit(1)] unfolding if_P [OF fit(2)] .
qed

section \<open>Router and outbound manager\<close>

text \<open>
  C18. A balanced session gets an outbound that exists. Let the balancers of a reachable router select through a
  reachable outbound manager, with selectors that contain no comma. When the rule that decides a session uses a balancer,
  \<open>PickRoute\<close> returns the balancer's override if it is set; else the fallback tag or the tag of a handler that
  the manager holds and that starts with one of the selectors. It fails only if there is neither an
  override nor a fallback tag.
\<close>

theorem balanced_session_outbound:
  assumes "om_reach ops m" and "\<forall>xs. mset (ranged xs) = mset xs" and "be_Select benv = (\<lambda>sels. Ok (fst (om_Select ranged sels m)))"
    and "env_ok benv" and "be_Observation benv \<noteq> OtherReport"
    and "router_reach env r" and "pickRouteInternal env r ctx = Ok (rule, ctx')" and "ru_Balancer rule = Some i"
    and "rule \<in> set (ro_rules r)" and "b = ro_heap r ! i" and "comma_free (ba_selectors b)"
  shows "case fst (PickRoute env benv r ctx) of
      Inr route \<Rightarrow> rt_ruleTag route = ru_RuleTag rule \<and>
        (if ba_override b \<noteq> [] then rt_outboundTag route = ba_override b
         else rt_outboundTag route = ba_fallbackTag b
           \<or> GetHandler m (rt_outboundTag route) \<noteq> None
             \<and> (\<exists>sel \<in> set (ba_selectors b). take (length sel) (rt_outboundTag route) = sel))
    | Inl e \<Rightarrow> ba_override b = [] \<and> ba_fallbackTag b = []"
proof -
  have i: "i < length (ro_heap r)" using router_reach_inv [OF assms(6)] assms(8,9) by (auto simp: router_inv_def)
  have sel: "be_Select benv (ba_selectors b) = Ok (selected m (ba_selectors b))"
    using assms(3) om_Select_correct(1) [OF om_reach_inv [OF assms(1)] assms(11,2)] by simp
  have cand: "GetHandler m t \<noteq> None \<and> (\<exists>sel \<in> set (ba_selectors b). take (length sel) t = sel)" if "t \<in> set (selected m (ba_selectors b))" for t
    using that by (auto simp: selected_def GetHandler_def list_ex_iff map_of_eq_None_iff)
  have pick: "fst (PickRoute env benv r ctx) = map_sum id (\<lambda>t. \<lparr>rt_Context = ctx', rt_outboundTag = t, rt_ruleTag = ru_RuleTag rule\<rparr>)
      (fst (Balancer_Pick benv b))"
    using assms(7,8,10) i by (simp add: PickRoute_def Rule_GetTag_def map_sum_def Let_def split: prod.split sum.split)
  show ?thesis
  proof (cases "fst (Balancer_Pick benv b)")
    case (Inl e)
    then show ?thesis using Balancer_Pick_target [OF assms(4) sel assms(5)] pick by simp
  next
    case (Inr t)
    then have "if ba_override b \<noteq> [] then t = ba_override b else t \<in> set (selected m (ba_selectors b)) \<or> t = ba_fallbackTag b"
      using Balancer_Pick_target [OF assms(4) sel assms(5)] by simp
    then show ?thesis using Inr pick cand by (auto split: if_splits)
  qed
qed

definition one_outbound :: "(string \<times> nat) Manager" where
  "one_outbound = fst (AddHandler plain_ops (''o1'', 0) om_New)"

definition manager_env :: balEnv where
  "manager_env = sample_env\<lparr>be_Select := (\<lambda>sels. Ok (fst (om_Select id sels one_outbound)))\<rparr>"

theorem balanced_session_outbound_witness:
  "\<exists>route. fst (PickRoute plain_env manager_env bal_router (SessionContext web_session)) = Ok route \<and> rt_ruleTag route = ''t''
     \<and> GetHandler one_outbound (rt_outboundTag route) \<noteq> None"
proof -
  let ?r = "bal_router :: (Addr \<times> nat) list Router"
  let ?t = "tcp_built :: (Addr \<times> nat) list Rule"
  let ?b = "ro_heap ?r ! 0"
  have m: "om_reach plain_ops one_outbound" unfolding one_outbound_def by (intro om_reach.intros)
  have e: "be_Select manager_env = (\<lambda>sels. Ok (fst (om_Select id sels one_outbound)))" "env_ok manager_env" "be_Observation manager_env \<noteq> OtherReport"
    using sample_sort_ok by (simp_all add: manager_env_def env_ok_def sort_ok_def sample_env_def)
  have r: "ru_Balancer ?t = Some 0" "tcp_built \<in> set (ro_rules ?r)" "ba_override ?b = []" "comma_free (ba_selectors ?b)"
      "ru_RuleTag ?t = ''t''" "0 < length (ro_heap ?r)" "ba_fallbackTag ?b = []"
    by (simp_all add: tcp_built_def bal_router_def comma_free_def)
  have "fst (om_Select id [''o''] one_outbound) = [''o1'']" by code_simp
  then have "fst (Balancer_Pick manager_env ?b) = Ok ''o1''"
    by (simp add: Balancer_Pick_def Strategy_Pick_def Random_Pick_def observedTags_def bal_router_def manager_env_def sample_env_def)
  then obtain route where route: "fst (PickRoute plain_env manager_env bal_router (SessionContext web_session)) = Ok route" "rt_outboundTag route = ''o1''"
    using r(1,6) by (cases "Balancer_Pick manager_env ?b") (simp add: PickRoute_def bal_router_pick Rule_GetTag_def)
  have "case fst (PickRoute plain_env manager_env bal_router (SessionContext web_session)) of
      Inr route \<Rightarrow> rt_ruleTag route = ru_RuleTag ?t \<and>
        (if ba_override ?b \<noteq> [] then rt_outboundTag route = ba_override ?b
         else rt_outboundTag route = ba_fallbackTag ?b
           \<or> GetHandler one_outbound (rt_outboundTag route) \<noteq> None
             \<and> (\<exists>sel \<in> set (ba_selectors ?b). take (length sel) (rt_outboundTag route) = sel))
    | Inl e \<Rightarrow> ba_override ?b = [] \<and> ba_fallbackTag ?b = []"
    by (rule balanced_session_outbound [OF m _ e bal_router_reach bal_router_pick r(1,2) refl r(4)]) simp
  then show ?thesis using route r(3,5,7) by auto
qed

end
